(* ===== verification/Flecs_Prelude.thy ===== *)
theory Flecs_Prelude
  imports Main "HOL-Library.Word" "HOL-Library.Multiset"
begin

text \<open>
  What all components of the flecs model share.

  \<^item> Error values. The model is that of the build this repository configures
    (\<open>FLECS_DEBUG\<close> and \<open>FLECS_SOFT_ASSERT\<close>, without \<open>FLECS_SANITIZE\<close>): a failing
    \<open>ecs_assert\<close> aborts the process and a failing \<open>ecs_check\<close> jumps to the \<open>error\<close> label of
    its function. An operation that can abort therefore returns a \<open>result\<close>: \<open>Inl\<close> with the
    error code of the assertion, \<open>Inl Bad_Access\<close> where the C code would read or write
    outside of an object, or \<open>Inl Int_Overflow\<close> where a modelled \<open>int32_t\<close> computation
    would overflow, and \<open>Inr\<close> with the new state otherwise.
  \<^item> \<open>bindR\<close> runs one operation after another, \<open>returns m Q\<close> says that \<open>m\<close> neither
    aborts nor touches memory it does not own, and that its value satisfies \<open>Q\<close>. The equations
    below compute \<open>returns\<close> through the program, in the manner of a weakest precondition.
  \<^item> Arrays are lists; \<open>arr_get\<close> and \<open>arr_set\<close> are the C accesses with their bounds.
  \<^item> \<open>int32_t\<close> values are \<open>int\<close> or, where the code only ever counts and indexes with them,
    \<open>nat\<close>: signed overflow is undefined in C. Where an operation adds or multiplies values that its
    caller gives, the result is checked against the width (\<open>int32\<close>) and overflow is an error. The sizes
    in bytes of allocations are left out, except where the text says otherwise.
\<close>

named_theorems flecs_defs "definitions of the modelled operations that proofs unfold"

section \<open>Results\<close>

datatype ecs_error =
    ECS_INVALID_PARAMETER
  | ECS_INTERNAL_ERROR
  | ECS_OUT_OF_RANGE
  | ECS_INVALID_OPERATION
  | ECS_INVALID_CONVERSION
  | ECS_DOUBLE_FREE
  | ECS_LEAK_DETECTED
  | ECS_UNSUPPORTED
  | ECS_LOCKED_STORAGE
  | ECS_ALREADY_IN_USE
  | ECS_INCONSISTENT_COMPONENT_ACTION
  | ECS_OPERATION_FAILED
  | Bad_Access
  | Int_Overflow

type_synonym 'a result = "ecs_error + 'a"

definition bindR :: "'a result \<Rightarrow> ('a \<Rightarrow> 'b result) \<Rightarrow> 'b result" where
  "bindR m f = (case m of Inl e \<Rightarrow> Inl e | Inr x \<Rightarrow> f x)"

definition ecs_assert :: "bool \<Rightarrow> ecs_error \<Rightarrow> 'a result \<Rightarrow> 'a result" where
  "ecs_assert c e k = (if c then k else Inl e)"

definition int32 :: "int \<Rightarrow> bool" where
  \<comment> \<open>the values of an \<open>int32_t\<close>\<close>
  "int32 x \<longleftrightarrow> - 2147483648 \<le> x \<and> x \<le> 2147483647"

definition returns :: "'a result \<Rightarrow> ('a \<Rightarrow> bool) \<Rightarrow> bool" where
  "returns m Q = (case m of Inl e \<Rightarrow> False | Inr x \<Rightarrow> Q x)"

lemma bindR_Inl [simp]: "bindR (Inl e) f = Inl e"
  by (simp add: bindR_def)

lemma bindR_Inr [simp]: "bindR (Inr x) f = f x"
  by (simp add: bindR_def)

lemma bindR_assoc: "bindR (bindR m f) g = bindR m (\<lambda>x. bindR (f x) g)"
  by (cases m) simp_all

lemma bindR_eq_Inr: "bindR m f = Inr y \<longleftrightarrow> (\<exists>x. m = Inr x \<and> f x = Inr y)"
  by (cases m) simp_all

lemma bindR_eq_Inl: "bindR m f = Inl e \<longleftrightarrow> m = Inl e \<or> (\<exists>x. m = Inr x \<and> f x = Inl e)"
  by (cases m) simp_all

lemma ecs_assert_True [simp]: "ecs_assert True e k = k"
  by (simp add: ecs_assert_def)

lemma ecs_assert_False [simp]: "ecs_assert False e k = Inl e"
  by (simp add: ecs_assert_def)

lemma ecs_assert_eq_Inr [simp]: "ecs_assert c e k = Inr x \<longleftrightarrow> c \<and> k = Inr x"
  by (simp add: ecs_assert_def)

lemma returns_Inl [simp]: "returns (Inl e) Q = False"
  by (simp add: returns_def)

lemma returns_Inr [simp]: "returns (Inr x) Q = Q x"
  by (simp add: returns_def)

lemma returns_bindR [simp]: "returns (bindR m f) Q = returns m (\<lambda>x. returns (f x) Q)"
  by (cases m) simp_all

lemma returns_assert [simp]: "returns (ecs_assert c e k) Q = (c \<and> returns k Q)"
  by (simp add: ecs_assert_def)

lemma returns_if: "returns (if c then a else b) Q = (if c then returns a Q else returns b Q)"
  by simp

lemma returns_iff: "returns m Q \<longleftrightarrow> (\<exists>x. m = Inr x \<and> Q x)"
  by (cases m) simp_all

lemma returns_mono: "returns m P \<Longrightarrow> (\<And>x. P x \<Longrightarrow> Q x) \<Longrightarrow> returns m Q"
  by (cases m) simp_all

lemma returns_conj: "returns m P \<Longrightarrow> returns m Q \<Longrightarrow> returns m (\<lambda>x. P x \<and> Q x)"
  by (cases m) simp_all

lemma returns_conj_iff: "returns m (\<lambda>x. P x \<and> Q x) \<longleftrightarrow> returns m P \<and> returns m Q"
  by (cases m) auto

lemma returnsE:
  assumes "returns m Q"
  obtains x where "m = Inr x" and "Q x"
  using assms by (auto simp: returns_iff)

section \<open>Array accesses\<close>

definition arr_get :: "'a list \<Rightarrow> nat \<Rightarrow> 'a result" where
  "arr_get xs i = (if i < length xs then Inr (xs ! i) else Inl Bad_Access)"

definition arr_set :: "'a list \<Rightarrow> nat \<Rightarrow> 'a \<Rightarrow> 'a list result" where
  "arr_set xs i x = (if i < length xs then Inr (xs[i := x]) else Inl Bad_Access)"

lemma returns_arr_get [simp]: "returns (arr_get xs i) Q = (i < length xs \<and> Q (xs ! i))"
  by (simp add: arr_get_def)

lemma returns_arr_set [simp]: "returns (arr_set xs i x) Q = (i < length xs \<and> Q (xs[i := x]))"
  by (simp add: arr_set_def)

lemma arr_get_ok [simp]: "i < length xs \<Longrightarrow> arr_get xs i = Inr (xs ! i)"
  by (simp add: arr_get_def)

lemma arr_set_ok [simp]: "i < length xs \<Longrightarrow> arr_set xs i x = Inr (xs[i := x])"
  by (simp add: arr_set_def)

lemma arr_get_bad: "length xs \<le> i \<Longrightarrow> arr_get xs i = Inl Bad_Access"
  by (simp add: arr_get_def)

lemma arr_get_eq_Inr: "arr_get xs i = Inr y \<longleftrightarrow> i < length xs \<and> y = xs ! i"
  by (auto simp: arr_get_def)

lemma arr_set_eq_Inr: "arr_set xs i x = Inr ys \<longleftrightarrow> i < length xs \<and> ys = xs[i := x]"
  by (auto simp: arr_set_def)

section \<open>Resizing: the contents of a vector whose count is set\<close>

definition list_resize :: "nat \<Rightarrow> 'a list \<Rightarrow> 'a list" where
  \<comment> \<open>new slots hold whatever the allocator returned: an unspecified value\<close>
  "list_resize n xs = take n xs @ replicate (n - length xs) undefined"

lemma length_list_resize [simp]: "length (list_resize n xs) = n"
  by (simp add: list_resize_def)

lemma nth_list_resize: "i < n \<Longrightarrow> i < length xs \<Longrightarrow> list_resize n xs ! i = xs ! i"
  by (simp add: list_resize_def nth_append)

lemma list_resize_take: "n \<le> length xs \<Longrightarrow> list_resize n xs = take n xs"
  by (simp add: list_resize_def)

section \<open>C integer division\<close>

definition c_div :: "int \<Rightarrow> int \<Rightarrow> int" where
  \<comment> \<open>division of C, which truncates towards zero, by a positive divisor\<close>
  "c_div a b = (if a < 0 then - ((- a) div b) else a div b)"

lemma c_div_nonneg [simp]: "0 \<le> a \<Longrightarrow> c_div a b = a div b"
  by (simp add: c_div_def)

section \<open>Lists\<close>

lemma swap_mset:
  assumes "i < length xs" "j < length xs"
  shows "mset (xs[i := xs ! j, j := xs ! i]) = mset xs"
  using mset_swap [of j xs i] assms by simp

lemma distinct_nth_eq: "distinct xs \<Longrightarrow> i < length xs \<Longrightarrow> j < length xs \<Longrightarrow> xs ! i = xs ! j \<Longrightarrow> i = j"
  by (simp add: nth_eq_iff_index_eq)

lemma set_take_nth: "set (take n xs) = {xs ! i | i. i < n \<and> i < length xs}"
  by (auto simp: in_set_conv_nth) (metis nth_take)+

lemma take_Suc_nth: "n < length xs \<Longrightarrow> take (Suc n) xs = take n xs @ [xs ! n]"
  by (simp add: take_Suc_conv_app_nth)

lemma last_take_Suc: "n < length xs \<Longrightarrow> last (take (Suc n) xs) = xs ! n"
  by (simp add: take_Suc_conv_app_nth)

lemma filter_find_index: "(\<exists>i < length xs. P (xs ! i)) \<longleftrightarrow> (\<exists>x \<in> set xs. P x)"
  by (metis in_set_conv_nth)

definition swap_remove :: "nat \<Rightarrow> 'a list \<Rightarrow> 'a list" where
  \<comment> \<open>remove an element by moving the last one into its place\<close>
  "swap_remove i xs = butlast (xs[i := last xs])"

lemma length_swap_remove [simp]: "length (swap_remove i xs) = length xs - 1"
  by (simp add: swap_remove_def)

lemma swap_remove_nth:
  "i < length xs \<Longrightarrow> j < length xs - 1 \<Longrightarrow>
    swap_remove i xs ! j = (if j = i then last xs else xs ! j)"
  by (simp add: swap_remove_def nth_butlast)

lemma swap_remove_last: "xs \<noteq> [] \<Longrightarrow> swap_remove (length xs - 1) xs = butlast xs"
  by (simp add: swap_remove_def butlast_list_update)

lemma swap_remove_snoc:
  assumes i: "i < length xs"
  shows "xs[i := last xs, length xs - 1 := xs ! i] = swap_remove i xs @ [xs ! i]" (is "?ys = _")
proof (rule nth_equalityI)
  show "length ?ys = length (swap_remove i xs @ [xs ! i])" using i by simp
  fix j assume "j < length ?ys"
  then have "j < length xs - 1 \<or> j = length xs - 1" by auto
  then show "?ys ! j = (swap_remove i xs @ [xs ! i]) ! j"
    using i by (auto simp: nth_append swap_remove_nth nth_list_update)
qed

lemma mset_swap_remove_add:
  assumes i: "i < length xs"
  shows "mset xs = add_mset (xs ! i) (mset (swap_remove i xs))"
proof -
  have ne: "xs \<noteq> []" using i by auto
  have last: "last xs = xs ! (length xs - 1)" using ne by (simp add: last_conv_nth)
  have "mset (xs[i := last xs, length xs - 1 := xs ! i]) = mset xs"
    using i ne unfolding last by (intro swap_mset) auto
  then show ?thesis unfolding swap_remove_snoc [OF i] by simp
qed

lemma mset_swap_remove: "i < length xs \<Longrightarrow> mset (swap_remove i xs) = mset xs - {# xs ! i #}"
  by (simp add: mset_swap_remove_add)

lemma swap_remove_perm:
  assumes "distinct xs" "i < length xs"
  shows "distinct (xs ! i # swap_remove i xs)" and "set xs = insert (xs ! i) (set (swap_remove i xs))"
proof -
  have eq: "mset xs = mset (xs ! i # swap_remove i xs)"
    using mset_swap_remove_add [OF assms(2)] by simp
  show "distinct (xs ! i # swap_remove i xs)"
    using assms(1) mset_eq_imp_distinct_iff [OF eq] by simp
  show "set xs = insert (xs ! i) (set (swap_remove i xs))"
    using mset_eq_setD [OF eq] by simp
qed

lemma distinct_swap_remove: "distinct xs \<Longrightarrow> i < length xs \<Longrightarrow> distinct (swap_remove i xs)"
  using swap_remove_perm(1) by fastforce

lemma set_swap_remove:
  "distinct xs \<Longrightarrow> i < length xs \<Longrightarrow> set (swap_remove i xs) = set xs - {xs ! i}"
  using swap_remove_perm [of xs i] by auto


section \<open>Simulation of sequences of operations\<close>

fun run_ops :: "('s \<Rightarrow> 'o \<Rightarrow> 's result) \<Rightarrow> 's \<Rightarrow> 'o list \<Rightarrow> 's result" where
  "run_ops step s [] = Inr s"
| "run_ops step s (x # xs) = bindR (step s x) (\<lambda>s'. run_ops step s' xs)"

fun allowed :: "('a \<Rightarrow> 'o \<Rightarrow> 'a) \<Rightarrow> ('a \<Rightarrow> 'o \<Rightarrow> bool) \<Rightarrow> 'a \<Rightarrow> 'o list \<Rightarrow> bool" where
  \<comment> \<open>each operation meets its precondition in the abstract state it is called in\<close>
  "allowed spec pre a [] = True"
| "allowed spec pre a (x # xs) = (pre a x \<and> allowed spec pre (spec a x) xs)"

lemma allowed_True [simp]: "allowed spec (\<lambda>_ _. True) a xs"
  by (induction xs arbitrary: a) simp_all

text \<open>A component whose operations implement those of a specification, state by state, implements
  every sequence of them: no call aborts and the states stay related.\<close>

locale simulation =
  fixes step :: "'s \<Rightarrow> 'o \<Rightarrow> 's result" and inv :: "'s \<Rightarrow> bool" and abs :: "'s \<Rightarrow> 'a"
    and spec :: "'a \<Rightarrow> 'o \<Rightarrow> 'a" and pre :: "'a \<Rightarrow> 'o \<Rightarrow> bool"
  assumes step_sim: "inv s \<Longrightarrow> pre (abs s) x \<Longrightarrow> returns (step s x) (\<lambda>s'. inv s' \<and> abs s' = spec (abs s) x)"
begin

lemma run_sim:
  "inv s \<Longrightarrow> allowed spec pre (abs s) xs \<Longrightarrow>
    returns (run_ops step s xs) (\<lambda>s'. inv s' \<and> abs s' = foldl spec (abs s) xs)"
proof (induction xs arbitrary: s)
  case (Cons x xs)
  from Cons.prems have "returns (step s x) (\<lambda>s'. inv s' \<and> abs s' = spec (abs s) x)" by (intro step_sim) simp_all
  then show ?case unfolding run_ops.simps returns_bindR
  proof (rule returns_mono)
    fix t assume t: "inv t \<and> abs t = spec (abs s) x"
    with Cons.prems have "inv t" "allowed spec pre (abs t) xs" by simp_all
    from Cons.IH [OF this] t show "returns (run_ops step t xs) (\<lambda>s'. inv s' \<and> abs s' = foldl spec (abs s) (x # xs))"
      by simp
  qed
qed simp

lemma run_inv: "inv s \<Longrightarrow> allowed spec pre (abs s) xs \<Longrightarrow> run_ops step s xs = Inr s' \<Longrightarrow> inv s'"
  using run_sim [of s xs] by simp

end


section \<open>Counting loops\<close>

fun for_loop :: "(nat \<Rightarrow> 's \<Rightarrow> 's result) \<Rightarrow> nat \<Rightarrow> nat \<Rightarrow> 's \<Rightarrow> 's result" where
  \<comment> \<open>\<open>for (; n > 0; i ++, n --)\<close>: \<open>n\<close> rounds from index \<open>i\<close> on\<close>
  "for_loop f i 0 s = Inr s"
| "for_loop f i (Suc n) s = bindR (f i s) (\<lambda>s. for_loop f (Suc i) n s)"

lemma for_loop_ok:
  assumes step: "\<And>j s. i \<le> j \<Longrightarrow> j < i + n \<Longrightarrow> P j s \<Longrightarrow> returns (f j s) (P (Suc j))" and start: "P i s"
  shows "returns (for_loop f i n s) (P (i + n))"
  using assms
proof (induction n arbitrary: i s)
  case (Suc n)
  have "returns (f i s) (P (Suc i))" using Suc.prems(1) [of i s] Suc.prems(2) by simp
  then show ?case unfolding for_loop.simps returns_bindR
  proof (rule returns_mono)
    fix t assume "P (Suc i) t"
    with Suc.IH [of "Suc i" t] Suc.prems(1) show "returns (for_loop f (Suc i) n t) (P (i + Suc n))" by simp
  qed
qed simp

end
