(* ===== verification/Type_Hooks.thy ===== *)
theory Type_Hooks
  imports Flecs_Prelude
begin

text \<open>
  \<open>type_info.c\<close>: the lifecycle hooks of a component type. A hook is a C function over a block of
  elements; it is modelled by a function over the cells of the block. A cell is raw memory or holds a
  constructed value. Function pointers are datatypes with one constructor for a function the
  application supplies and one for each function of \<open>type_info.c\<close>, so that comparing a pointer with
  \<open>flecs_ctor_illegal\<close> is what it is in C; a null pointer is \<open>None\<close>.

  A bitwise copy that relocates a value (the fallback of \<open>ctor_move_dtor\<close> and \<open>move_dtor\<close>) ends the
  life of its source: the comment in \<open>flecs_default_dtor\<close> says that the source of a trivial move
  does not have to be destructed. Zeroed memory is the value 0 of the component type.

  \<open>flecs_type_info_mark_in_use\<close> sets a flag of the type info that only \<open>ecs_set_hooks_id\<close> carries
  over; the dispatchers below leave it out.
\<close>

section \<open>Cells and hooks\<close>

datatype 'a cell = Raw | Live 'a

type_synonym 'v xtor_fn = "'v cell list \<Rightarrow> 'v cell list result"
type_synonym 'v copy_fn = "'v cell list \<Rightarrow> 'v cell list \<Rightarrow> 'v cell list result"
type_synonym 'v move_fn = "'v cell list \<Rightarrow> 'v cell list \<Rightarrow> ('v cell list \<times> 'v cell list) result"

datatype 'v ctor_hook = Ctor_fn "'v xtor_fn" | Default_ctor | Ctor_illegal
datatype 'v dtor_hook = Dtor_fn "'v xtor_fn" | Dtor_illegal
datatype 'v copy_hook = Copy_fn "'v copy_fn" | Copy_illegal
datatype 'v move_hook = Move_fn "'v move_fn" | Move_illegal
datatype 'v copy_ctor_hook = Copy_ctor_fn "'v copy_fn" | Default_copy_ctor | Copy_ctor_illegal
datatype 'v move_ctor_hook = Move_ctor_fn "'v move_fn" | Default_move_ctor | Move_ctor_illegal
datatype 'v ctor_move_dtor_hook = Ctor_move_dtor_fn "'v move_fn" | Move_ctor_w_dtor | Ctor_w_move_w_dtor
  | As_move_ctor "'v move_ctor_hook" | Ctor_move_dtor_illegal
datatype 'v move_dtor_hook = Move_dtor_fn "'v move_fn" | Default_move | Default_dtor | Move_w_dtor | Move_dtor_illegal
datatype 'v cmp_hook = Cmp_fn "'v \<Rightarrow> 'v \<Rightarrow> int" | Comp_illegal
datatype 'v equals_hook = Equals_fn "'v \<Rightarrow> 'v \<Rightarrow> bool" | Default_equals | Equals_illegal

record 'v type_hooks =
  h_ctor :: "'v ctor_hook option"
  h_dtor :: "'v dtor_hook option"
  h_copy :: "'v copy_hook option"
  h_move :: "'v move_hook option"
  h_copy_ctor :: "'v copy_ctor_hook option"
  h_move_ctor :: "'v move_ctor_hook option"
  h_ctor_move_dtor :: "'v ctor_move_dtor_hook option"
  h_move_dtor :: "'v move_dtor_hook option"
  h_cmp :: "'v cmp_hook option"
  h_equals :: "'v equals_hook option"
  h_flags :: "32 word"
  h_on_add :: bool \<comment> \<open>whether the callback is set, here and below\<close>
  h_on_set :: bool
  h_on_remove :: bool
  h_on_replace :: bool
  h_on_validate :: bool

record 'v type_info =
  ti_size :: nat
  ti_alignment :: nat
  ti_hooks :: "'v type_hooks"
  ti_component :: "64 word"

definition no_hooks :: "'v type_hooks" where
  "no_hooks = \<lparr>h_ctor = None, h_dtor = None, h_copy = None, h_move = None, h_copy_ctor = None, h_move_ctor = None,
    h_ctor_move_dtor = None, h_move_dtor = None, h_cmp = None, h_equals = None, h_flags = 0, h_on_add = False,
    h_on_set = False, h_on_remove = False, h_on_replace = False, h_on_validate = False\<rparr>"

definition ECS_TYPE_HOOK_CTOR :: "32 word" where [simp]: "ECS_TYPE_HOOK_CTOR = 0x1"
definition ECS_TYPE_HOOK_DTOR :: "32 word" where [simp]: "ECS_TYPE_HOOK_DTOR = 0x2"
definition ECS_TYPE_HOOK_COPY :: "32 word" where [simp]: "ECS_TYPE_HOOK_COPY = 0x4"
definition ECS_TYPE_HOOK_MOVE :: "32 word" where [simp]: "ECS_TYPE_HOOK_MOVE = 0x8"
definition ECS_TYPE_HOOK_COPY_CTOR :: "32 word" where [simp]: "ECS_TYPE_HOOK_COPY_CTOR = 0x10"
definition ECS_TYPE_HOOK_MOVE_CTOR :: "32 word" where [simp]: "ECS_TYPE_HOOK_MOVE_CTOR = 0x20"
definition ECS_TYPE_HOOK_CTOR_MOVE_DTOR :: "32 word" where [simp]: "ECS_TYPE_HOOK_CTOR_MOVE_DTOR = 0x40"
definition ECS_TYPE_HOOK_MOVE_DTOR :: "32 word" where [simp]: "ECS_TYPE_HOOK_MOVE_DTOR = 0x80"
definition ECS_TYPE_HOOK_CMP :: "32 word" where [simp]: "ECS_TYPE_HOOK_CMP = 0x100"
definition ECS_TYPE_HOOK_EQUALS :: "32 word" where [simp]: "ECS_TYPE_HOOK_EQUALS = 0x200"
definition ECS_TYPE_HOOK_CTOR_ILLEGAL :: "32 word" where [simp]: "ECS_TYPE_HOOK_CTOR_ILLEGAL = 0x400"
definition ECS_TYPE_HOOK_DTOR_ILLEGAL :: "32 word" where [simp]: "ECS_TYPE_HOOK_DTOR_ILLEGAL = 0x1000"
definition ECS_TYPE_HOOK_COPY_ILLEGAL :: "32 word" where [simp]: "ECS_TYPE_HOOK_COPY_ILLEGAL = 0x2000"
definition ECS_TYPE_HOOK_MOVE_ILLEGAL :: "32 word" where [simp]: "ECS_TYPE_HOOK_MOVE_ILLEGAL = 0x4000"
definition ECS_TYPE_HOOK_COPY_CTOR_ILLEGAL :: "32 word" where [simp]: "ECS_TYPE_HOOK_COPY_CTOR_ILLEGAL = 0x8000"
definition ECS_TYPE_HOOK_MOVE_CTOR_ILLEGAL :: "32 word" where [simp]: "ECS_TYPE_HOOK_MOVE_CTOR_ILLEGAL = 0x10000"
definition ECS_TYPE_HOOK_CTOR_MOVE_DTOR_ILLEGAL :: "32 word" where
  [simp]: "ECS_TYPE_HOOK_CTOR_MOVE_DTOR_ILLEGAL = 0x20000"
definition ECS_TYPE_HOOK_MOVE_DTOR_ILLEGAL :: "32 word" where [simp]: "ECS_TYPE_HOOK_MOVE_DTOR_ILLEGAL = 0x40000"
definition ECS_TYPE_HOOK_CMP_ILLEGAL :: "32 word" where [simp]: "ECS_TYPE_HOOK_CMP_ILLEGAL = 0x80000"
definition ECS_TYPE_HOOK_EQUALS_ILLEGAL :: "32 word" where [simp]: "ECS_TYPE_HOOK_EQUALS_ILLEGAL = 0x100000"
definition ECS_TYPE_HOOK_IN_USE :: "32 word" where [simp]: "ECS_TYPE_HOOK_IN_USE = 0x200000"

unbundle bit_operations_syntax

definition ECS_TYPE_HOOKS :: "32 word" where
  "ECS_TYPE_HOOKS = ECS_TYPE_HOOK_CTOR OR ECS_TYPE_HOOK_DTOR OR ECS_TYPE_HOOK_COPY OR ECS_TYPE_HOOK_MOVE OR
    ECS_TYPE_HOOK_COPY_CTOR OR ECS_TYPE_HOOK_MOVE_CTOR OR ECS_TYPE_HOOK_CTOR_MOVE_DTOR OR
    ECS_TYPE_HOOK_MOVE_DTOR OR ECS_TYPE_HOOK_CMP OR ECS_TYPE_HOOK_EQUALS"

definition ECS_TYPE_HOOKS_ILLEGAL :: "32 word" where
  "ECS_TYPE_HOOKS_ILLEGAL = ECS_TYPE_HOOK_CTOR_ILLEGAL OR ECS_TYPE_HOOK_DTOR_ILLEGAL OR
    ECS_TYPE_HOOK_COPY_ILLEGAL OR ECS_TYPE_HOOK_MOVE_ILLEGAL OR ECS_TYPE_HOOK_COPY_CTOR_ILLEGAL OR
    ECS_TYPE_HOOK_MOVE_CTOR_ILLEGAL OR ECS_TYPE_HOOK_CTOR_MOVE_DTOR_ILLEGAL OR
    ECS_TYPE_HOOK_MOVE_DTOR_ILLEGAL OR ECS_TYPE_HOOK_CMP_ILLEGAL OR ECS_TYPE_HOOK_EQUALS_ILLEGAL"

definition has_flag :: "32 word \<Rightarrow> 32 word \<Rightarrow> bool" where
  "has_flag flags f \<longleftrightarrow> flags AND f \<noteq> 0"

section \<open>The hook functions of the library\<close>

definition flecs_default_ctor :: "'v::zero xtor_fn" where
  "flecs_default_ctor ptr = Inr (replicate (length ptr) (Live 0))"

definition call_ctor :: "'v::zero type_hooks \<Rightarrow> 'v xtor_fn" where
  \<comment> \<open>\<open>cl->ctor(ptr, count, ti)\<close>\<close>
  "call_ctor cl ptr = (case h_ctor cl of None \<Rightarrow> Inl Bad_Access | Some (Ctor_fn f) \<Rightarrow> f ptr
    | Some Default_ctor \<Rightarrow> flecs_default_ctor ptr | Some Ctor_illegal \<Rightarrow> Inl ECS_INVALID_OPERATION)"

definition call_dtor :: "'v type_hooks \<Rightarrow> 'v xtor_fn" where
  "call_dtor cl ptr = (case h_dtor cl of None \<Rightarrow> Inl Bad_Access | Some (Dtor_fn f) \<Rightarrow> f ptr
    | Some Dtor_illegal \<Rightarrow> Inl ECS_INVALID_OPERATION)"

definition call_copy :: "'v type_hooks \<Rightarrow> 'v copy_fn" where
  "call_copy cl dst src = (case h_copy cl of None \<Rightarrow> Inl Bad_Access | Some (Copy_fn f) \<Rightarrow> f dst src
    | Some Copy_illegal \<Rightarrow> Inl ECS_INVALID_OPERATION)"

definition call_move :: "'v type_hooks \<Rightarrow> 'v move_fn" where
  "call_move cl dst src = (case h_move cl of None \<Rightarrow> Inl Bad_Access | Some (Move_fn f) \<Rightarrow> f dst src
    | Some Move_illegal \<Rightarrow> Inl ECS_INVALID_OPERATION)"

definition flecs_default_copy_ctor :: "'v::zero type_hooks \<Rightarrow> 'v copy_fn" where
  "flecs_default_copy_ctor cl dst src = bindR (call_ctor cl dst) (\<lambda>dst. call_copy cl dst src)"

definition flecs_default_move_ctor :: "'v::zero type_hooks \<Rightarrow> 'v move_fn" where
  "flecs_default_move_ctor cl dst src = bindR (call_ctor cl dst) (\<lambda>dst. call_move cl dst src)"

definition run_move_ctor :: "'v::zero type_hooks \<Rightarrow> 'v move_ctor_hook \<Rightarrow> 'v move_fn" where
  "run_move_ctor cl h dst src = (case h of Move_ctor_fn f \<Rightarrow> f dst src
    | Default_move_ctor \<Rightarrow> flecs_default_move_ctor cl dst src | Move_ctor_illegal \<Rightarrow> Inl ECS_INVALID_OPERATION)"

definition call_move_ctor :: "'v::zero type_hooks \<Rightarrow> 'v move_fn" where
  "call_move_ctor cl dst src = (case h_move_ctor cl of None \<Rightarrow> Inl Bad_Access | Some h \<Rightarrow> run_move_ctor cl h dst src)"

definition flecs_default_ctor_w_move_w_dtor :: "'v::zero type_hooks \<Rightarrow> 'v move_fn" where
  "flecs_default_ctor_w_move_w_dtor cl dst src =
    bindR (call_ctor cl dst) (\<lambda>dst.
    bindR (call_move cl dst src) (\<lambda>(dst, src).
    bindR (call_dtor cl src) (\<lambda>src. Inr (dst, src))))"

definition flecs_default_move_ctor_w_dtor :: "'v::zero type_hooks \<Rightarrow> 'v move_fn" where
  "flecs_default_move_ctor_w_dtor cl dst src =
    bindR (call_move_ctor cl dst src) (\<lambda>(dst, src).
    bindR (call_dtor cl src) (\<lambda>src. Inr (dst, src)))"

definition flecs_default_move :: "'v type_hooks \<Rightarrow> 'v move_fn" where
  "flecs_default_move cl dst src = call_move cl dst src"

definition relocate :: "'v move_fn" where
  \<comment> \<open>\<open>memcpy\<close> in the place of a move that ends the life of the source\<close>
  "relocate dst src = Inr (src, replicate (length src) Raw)"

definition flecs_default_dtor :: "'v type_hooks \<Rightarrow> 'v move_fn" where
  "flecs_default_dtor cl dst src = bindR (call_dtor cl dst) (\<lambda>dst. relocate dst src)"

definition flecs_default_move_w_dtor :: "'v type_hooks \<Rightarrow> 'v move_fn" where
  "flecs_default_move_w_dtor cl dst src =
    bindR (call_move cl dst src) (\<lambda>(dst, src).
    bindR (call_dtor cl src) (\<lambda>src. Inr (dst, src)))"

section \<open>Dispatch\<close>

definition flecs_type_info_ctor :: "'v::zero type_info \<Rightarrow> 'v cell list \<Rightarrow> ('v cell list \<times> bool) result" where
  \<comment> \<open>the second result is the return value: whether there is a hook\<close>
  "flecs_type_info_ctor ti ptr =
    ecs_assert (\<not> has_flag (h_flags (ti_hooks ti)) ECS_TYPE_HOOK_CTOR_ILLEGAL) ECS_INVALID_OPERATION
      (if h_ctor (ti_hooks ti) \<noteq> None then bindR (call_ctor (ti_hooks ti) ptr) (\<lambda>ptr. Inr (ptr, True))
       else Inr (ptr, False))"

definition flecs_type_info_dtor :: "'v type_info \<Rightarrow> 'v cell list \<Rightarrow> ('v cell list \<times> bool) result" where
  "flecs_type_info_dtor ti ptr =
    ecs_assert (\<not> has_flag (h_flags (ti_hooks ti)) ECS_TYPE_HOOK_DTOR_ILLEGAL) ECS_INVALID_OPERATION
      (if h_dtor (ti_hooks ti) \<noteq> None then bindR (call_dtor (ti_hooks ti) ptr) (\<lambda>ptr. Inr (ptr, True))
       else Inr (ptr, False))"

definition flecs_type_info_copy :: "'v type_info \<Rightarrow> 'v copy_fn" where
  "flecs_type_info_copy ti dst src =
    ecs_assert (\<not> has_flag (h_flags (ti_hooks ti)) ECS_TYPE_HOOK_COPY_ILLEGAL) ECS_INVALID_OPERATION
      (if h_copy (ti_hooks ti) \<noteq> None then call_copy (ti_hooks ti) dst src else Inr src)"

definition flecs_type_info_move :: "'v type_info \<Rightarrow> 'v move_fn" where
  "flecs_type_info_move ti dst src =
    ecs_assert (\<not> has_flag (h_flags (ti_hooks ti)) ECS_TYPE_HOOK_MOVE_ILLEGAL) ECS_INVALID_OPERATION
      (if h_move (ti_hooks ti) \<noteq> None then call_move (ti_hooks ti) dst src else Inr (src, src))"

definition flecs_type_info_copy_ctor :: "'v::zero type_info \<Rightarrow> 'v copy_fn" where
  "flecs_type_info_copy_ctor ti dst src =
    ecs_assert (\<not> has_flag (h_flags (ti_hooks ti)) ECS_TYPE_HOOK_COPY_CTOR_ILLEGAL) ECS_INVALID_OPERATION
      (case h_copy_ctor (ti_hooks ti) of None \<Rightarrow> Inr src
        | Some (Copy_ctor_fn f) \<Rightarrow> f dst src
        | Some Default_copy_ctor \<Rightarrow> flecs_default_copy_ctor (ti_hooks ti) dst src
        | Some Copy_ctor_illegal \<Rightarrow> Inl ECS_INVALID_OPERATION)"

definition flecs_type_info_move_ctor :: "'v::zero type_info \<Rightarrow> 'v move_fn" where
  "flecs_type_info_move_ctor ti dst src =
    ecs_assert (\<not> has_flag (h_flags (ti_hooks ti)) ECS_TYPE_HOOK_MOVE_CTOR_ILLEGAL) ECS_INVALID_OPERATION
      (if h_move_ctor (ti_hooks ti) \<noteq> None then call_move_ctor (ti_hooks ti) dst src else Inr (src, src))"

definition flecs_type_info_ctor_move_dtor :: "'v::zero type_info \<Rightarrow> 'v move_fn" where
  "flecs_type_info_ctor_move_dtor ti dst src =
    ecs_assert (\<not> has_flag (h_flags (ti_hooks ti)) ECS_TYPE_HOOK_CTOR_MOVE_DTOR_ILLEGAL) ECS_INVALID_OPERATION
      (case h_ctor_move_dtor (ti_hooks ti) of None \<Rightarrow> relocate dst src
        | Some (Ctor_move_dtor_fn f) \<Rightarrow> f dst src
        | Some Move_ctor_w_dtor \<Rightarrow> flecs_default_move_ctor_w_dtor (ti_hooks ti) dst src
        | Some Ctor_w_move_w_dtor \<Rightarrow> flecs_default_ctor_w_move_w_dtor (ti_hooks ti) dst src
        | Some (As_move_ctor h) \<Rightarrow> run_move_ctor (ti_hooks ti) h dst src
        | Some Ctor_move_dtor_illegal \<Rightarrow> Inl ECS_INVALID_OPERATION)"

definition flecs_type_info_move_dtor :: "'v type_info \<Rightarrow> 'v move_fn" where
  "flecs_type_info_move_dtor ti dst src =
    ecs_assert (\<not> has_flag (h_flags (ti_hooks ti)) ECS_TYPE_HOOK_MOVE_DTOR_ILLEGAL) ECS_INVALID_OPERATION
      (case h_move_dtor (ti_hooks ti) of None \<Rightarrow> relocate dst src
        | Some (Move_dtor_fn f) \<Rightarrow> f dst src
        | Some Default_move \<Rightarrow> flecs_default_move (ti_hooks ti) dst src
        | Some Default_dtor \<Rightarrow> flecs_default_dtor (ti_hooks ti) dst src
        | Some Move_w_dtor \<Rightarrow> flecs_default_move_w_dtor (ti_hooks ti) dst src
        | Some Move_dtor_illegal \<Rightarrow> Inl ECS_INVALID_OPERATION)"

definition call_cmp :: "'v type_hooks \<Rightarrow> 'v \<Rightarrow> 'v \<Rightarrow> int result" where
  "call_cmp cl a b = (case h_cmp cl of None \<Rightarrow> Inl Bad_Access | Some (Cmp_fn f) \<Rightarrow> Inr (f a b)
    | Some Comp_illegal \<Rightarrow> Inl ECS_INVALID_OPERATION)"

definition flecs_type_info_cmp :: "'v type_info \<Rightarrow> 'v \<Rightarrow> 'v \<Rightarrow> int result" where
  "flecs_type_info_cmp ti a b =
    ecs_assert (\<not> has_flag (h_flags (ti_hooks ti)) ECS_TYPE_HOOK_CMP_ILLEGAL) ECS_INVALID_OPERATION
      (ecs_assert (h_cmp (ti_hooks ti) \<noteq> None) ECS_INTERNAL_ERROR (call_cmp (ti_hooks ti) a b))"

definition flecs_default_equals :: "'v type_hooks \<Rightarrow> 'v \<Rightarrow> 'v \<Rightarrow> bool result" where
  "flecs_default_equals cl a b = bindR (call_cmp cl a b) (\<lambda>r. Inr (r = 0))"

definition flecs_type_info_equals :: "'v type_info \<Rightarrow> 'v \<Rightarrow> 'v \<Rightarrow> bool result" where
  "flecs_type_info_equals ti a b =
    ecs_assert (\<not> has_flag (h_flags (ti_hooks ti)) ECS_TYPE_HOOK_EQUALS_ILLEGAL) ECS_INVALID_OPERATION
      (case h_equals (ti_hooks ti) of None \<Rightarrow> Inl ECS_INTERNAL_ERROR
        | Some (Equals_fn f) \<Rightarrow> Inr (f a b)
        | Some Default_equals \<Rightarrow> flecs_default_equals (ti_hooks ti) a b
        | Some Equals_illegal \<Rightarrow> Inl ECS_INVALID_OPERATION)"


section \<open>Setting hooks\<close>

definition hooks_illegal_ok :: "'v type_hooks \<Rightarrow> 32 word \<Rightarrow> bool" where
  \<comment> \<open>the checks that a hook and its illegal flag are not both given\<close>
  "hooks_illegal_ok h flags \<longleftrightarrow>
    \<not> (has_flag flags ECS_TYPE_HOOK_CTOR_ILLEGAL \<and> h_ctor h \<noteq> None \<and> h_ctor h \<noteq> Some Ctor_illegal) \<and>
    \<not> (has_flag flags ECS_TYPE_HOOK_DTOR_ILLEGAL \<and> h_dtor h \<noteq> None \<and> h_dtor h \<noteq> Some Dtor_illegal) \<and>
    \<not> (has_flag flags ECS_TYPE_HOOK_COPY_ILLEGAL \<and> h_copy h \<noteq> None \<and> h_copy h \<noteq> Some Copy_illegal) \<and>
    \<not> (has_flag flags ECS_TYPE_HOOK_MOVE_ILLEGAL \<and> h_move h \<noteq> None \<and> h_move h \<noteq> Some Move_illegal) \<and>
    \<not> (has_flag flags ECS_TYPE_HOOK_COPY_CTOR_ILLEGAL \<and> h_copy_ctor h \<noteq> None \<and> h_copy_ctor h \<noteq> Some Copy_ctor_illegal) \<and>
    \<not> (has_flag flags ECS_TYPE_HOOK_MOVE_CTOR_ILLEGAL \<and> h_move_ctor h \<noteq> None \<and> h_move_ctor h \<noteq> Some Move_ctor_illegal) \<and>
    \<not> (has_flag flags ECS_TYPE_HOOK_CTOR_MOVE_DTOR_ILLEGAL \<and> h_ctor_move_dtor h \<noteq> None \<and>
        h_ctor_move_dtor h \<noteq> Some Ctor_move_dtor_illegal) \<and>
    \<not> (has_flag flags ECS_TYPE_HOOK_MOVE_DTOR_ILLEGAL \<and> h_move_dtor h \<noteq> None \<and> h_move_dtor h \<noteq> Some Move_dtor_illegal) \<and>
    \<not> (has_flag flags ECS_TYPE_HOOK_CMP_ILLEGAL \<and> h_cmp h \<noteq> None \<and> h_cmp h \<noteq> Some Comp_illegal) \<and>
    \<not> (has_flag flags ECS_TYPE_HOOK_EQUALS_ILLEGAL \<and> h_equals h \<noteq> None \<and> h_equals h \<noteq> Some Equals_illegal)"

definition or_keep :: "'a option \<Rightarrow> 'a option \<Rightarrow> 'a option" where
  "or_keep new old = (if new \<noteq> None then new else old)"

definition hooks_assign :: "'v type_hooks \<Rightarrow> 'v type_hooks \<Rightarrow> 'v type_hooks" where
  \<comment> \<open>the hooks that are set in \<open>h\<close> replace those of \<open>t\<close>\<close>
  "hooks_assign h t = t\<lparr>h_ctor := or_keep (h_ctor h) (h_ctor t), h_dtor := or_keep (h_dtor h) (h_dtor t),
    h_copy := or_keep (h_copy h) (h_copy t), h_move := or_keep (h_move h) (h_move t),
    h_copy_ctor := or_keep (h_copy_ctor h) (h_copy_ctor t), h_move_ctor := or_keep (h_move_ctor h) (h_move_ctor t),
    h_ctor_move_dtor := or_keep (h_ctor_move_dtor h) (h_ctor_move_dtor t),
    h_move_dtor := or_keep (h_move_dtor h) (h_move_dtor t), h_cmp := or_keep (h_cmp h) (h_cmp t),
    h_equals := or_keep (h_equals h) (h_equals t), h_on_add := h_on_add h \<or> h_on_add t,
    h_on_remove := h_on_remove h \<or> h_on_remove t, h_on_set := h_on_set h \<or> h_on_set t,
    h_on_replace := h_on_replace h \<or> h_on_replace t, h_on_validate := h_on_validate h \<or> h_on_validate t\<rparr>"

definition default_ctors :: "'v type_hooks \<Rightarrow> 32 word \<Rightarrow> 'v type_hooks \<Rightarrow> 'v type_hooks" where
  \<comment> \<open>the default constructor, copy constructor and move constructor\<close>
  "default_ctors h flags t =
    (let t = (if h_ctor h = None \<and> (h_dtor h \<noteq> None \<or> h_copy h \<noteq> None \<or> h_move h \<noteq> None)
              then t\<lparr>h_ctor := Some Default_ctor\<rparr> else t);
         t = (if h_copy_ctor h = None \<and> \<not> has_flag flags ECS_TYPE_HOOK_COPY_CTOR_ILLEGAL \<and> h_copy h \<noteq> None
              then t\<lparr>h_copy_ctor := Some Default_copy_ctor\<rparr> else t) in
     if h_move_ctor h = None \<and> \<not> has_flag flags ECS_TYPE_HOOK_MOVE_CTOR_ILLEGAL \<and> h_move h \<noteq> None
     then t\<lparr>h_move_ctor := Some Default_move_ctor\<rparr> else t)"

definition as_move_ctor :: "'v type_hooks \<Rightarrow> 'v ctor_move_dtor_hook option" where
  "as_move_ctor t = map_option As_move_ctor (h_move_ctor t)"

definition default_ctor_move_dtor :: "'v type_hooks \<Rightarrow> 'v type_hooks \<times> 32 word \<Rightarrow> 'v type_hooks \<times> 32 word" where
  "default_ctor_move_dtor h = (\<lambda>(t, flags).
    if h_ctor_move_dtor h \<noteq> None then (t, flags)
    else
      let (t, illegal_check) =
        (if h_move h \<noteq> None then
           if h_dtor h \<noteq> None then
             if h_move_ctor h \<noteq> None
             then (t\<lparr>h_ctor_move_dtor := Some Move_ctor_w_dtor\<rparr>,
               ECS_TYPE_HOOK_MOVE_ILLEGAL OR ECS_TYPE_HOOK_DTOR_ILLEGAL OR ECS_TYPE_HOOK_MOVE_CTOR_ILLEGAL)
             else (t\<lparr>h_ctor_move_dtor := Some Ctor_w_move_w_dtor\<rparr>,
               ECS_TYPE_HOOK_MOVE_ILLEGAL OR ECS_TYPE_HOOK_DTOR_ILLEGAL OR ECS_TYPE_HOOK_CTOR_ILLEGAL)
           else (t\<lparr>h_ctor_move_dtor := as_move_ctor t\<rparr>, ECS_TYPE_HOOK_MOVE_ILLEGAL OR ECS_TYPE_HOOK_MOVE_CTOR_ILLEGAL)
         else if h_move_ctor h \<noteq> None then
           if h_dtor h \<noteq> None
           then (t\<lparr>h_ctor_move_dtor := Some Move_ctor_w_dtor\<rparr>,
             ECS_TYPE_HOOK_MOVE_CTOR_ILLEGAL OR ECS_TYPE_HOOK_DTOR_ILLEGAL)
           else (t\<lparr>h_ctor_move_dtor := as_move_ctor t\<rparr>, ECS_TYPE_HOOK_MOVE_CTOR_ILLEGAL)
         else (t, 0)) in
      (t, if has_flag flags illegal_check then flags OR ECS_TYPE_HOOK_CTOR_MOVE_DTOR_ILLEGAL else flags))"

definition default_move_dtor :: "'v type_hooks \<Rightarrow> 'v type_hooks \<times> 32 word \<Rightarrow> 'v type_hooks \<times> 32 word" where
  "default_move_dtor h = (\<lambda>(t, flags).
    if h_move_dtor h \<noteq> None then (t, flags)
    else
      let (t, illegal_check) =
        (if h_move h \<noteq> None then
           if h_dtor h \<noteq> None
           then (t\<lparr>h_move_dtor := Some Move_w_dtor\<rparr>, ECS_TYPE_HOOK_MOVE_ILLEGAL OR ECS_TYPE_HOOK_DTOR_ILLEGAL)
           else (t\<lparr>h_move_dtor := Some Default_move\<rparr>, ECS_TYPE_HOOK_MOVE_ILLEGAL)
         else if h_dtor h \<noteq> None
           then (t\<lparr>h_move_dtor := Some Default_dtor\<rparr>, ECS_TYPE_HOOK_DTOR_ILLEGAL)
         else (t, 0)) in
      (t, if has_flag flags illegal_check then flags OR ECS_TYPE_HOOK_MOVE_DTOR_ILLEGAL else flags))"

definition default_cmp_equals :: "'v type_hooks \<Rightarrow> 'v type_hooks \<times> 32 word \<Rightarrow> 'v type_hooks \<times> 32 word" where
  "default_cmp_equals h = (\<lambda>(t, flags).
    let flags = (if h_cmp h = None then flags OR ECS_TYPE_HOOK_CMP_ILLEGAL else flags) in
    if h_equals h = None \<or> h_equals h = Some Equals_illegal then
      if has_flag flags ECS_TYPE_HOOK_CMP_ILLEGAL then (t, flags OR ECS_TYPE_HOOK_EQUALS_ILLEGAL)
      else (t\<lparr>h_equals := Some Default_equals\<rparr>, flags AND NOT ECS_TYPE_HOOK_EQUALS_ILLEGAL)
    else (t, flags))"

definition flag_if :: "bool \<Rightarrow> 32 word \<Rightarrow> 32 word" where
  "flag_if b f = (if b then f else 0)"

definition hooks_set_flags :: "32 word \<Rightarrow> 'v type_hooks \<Rightarrow> 32 word \<Rightarrow> 'v type_hooks" where
  \<comment> \<open>the flags for the hooks that are set; \<open>prev\<close> are the flags before the call\<close>
  "hooks_set_flags prev t flags = t\<lparr>h_flags := flags OR
    flag_if (h_ctor t \<noteq> None) ECS_TYPE_HOOK_CTOR OR flag_if (h_dtor t \<noteq> None) ECS_TYPE_HOOK_DTOR OR
    flag_if (h_move t \<noteq> None) ECS_TYPE_HOOK_MOVE OR flag_if (h_move_ctor t \<noteq> None) ECS_TYPE_HOOK_MOVE_CTOR OR
    flag_if (h_ctor_move_dtor t \<noteq> None) ECS_TYPE_HOOK_CTOR_MOVE_DTOR OR
    flag_if (h_move_dtor t \<noteq> None) ECS_TYPE_HOOK_MOVE_DTOR OR flag_if (h_copy t \<noteq> None) ECS_TYPE_HOOK_COPY OR
    flag_if (h_copy_ctor t \<noteq> None) ECS_TYPE_HOOK_COPY_CTOR OR flag_if (h_cmp t \<noteq> None) ECS_TYPE_HOOK_CMP OR
    flag_if (h_equals t \<noteq> None) ECS_TYPE_HOOK_EQUALS OR (prev AND ECS_TYPE_HOOK_IN_USE)\<rparr>"

definition hooks_set_illegal :: "32 word \<Rightarrow> 'v type_hooks \<Rightarrow> 'v type_hooks" where
  \<comment> \<open>hooks that abort for the flags given\<close>
  "hooks_set_illegal flags t = t\<lparr>
    h_ctor := (if has_flag flags ECS_TYPE_HOOK_CTOR_ILLEGAL then Some Ctor_illegal else h_ctor t),
    h_dtor := (if has_flag flags ECS_TYPE_HOOK_DTOR_ILLEGAL then Some Dtor_illegal else h_dtor t),
    h_copy := (if has_flag flags ECS_TYPE_HOOK_COPY_ILLEGAL then Some Copy_illegal else h_copy t),
    h_move := (if has_flag flags ECS_TYPE_HOOK_MOVE_ILLEGAL then Some Move_illegal else h_move t),
    h_cmp := (if has_flag flags ECS_TYPE_HOOK_CMP_ILLEGAL then Some Comp_illegal else h_cmp t),
    h_equals := (if has_flag flags ECS_TYPE_HOOK_EQUALS_ILLEGAL then Some Equals_illegal else h_equals t),
    h_copy_ctor := (if has_flag flags ECS_TYPE_HOOK_COPY_CTOR_ILLEGAL then Some Copy_ctor_illegal else h_copy_ctor t),
    h_move_ctor := (if has_flag (h_flags t) ECS_TYPE_HOOK_MOVE_CTOR_ILLEGAL then Some Move_ctor_illegal else h_move_ctor t),
    h_ctor_move_dtor := (if has_flag (h_flags t) ECS_TYPE_HOOK_CTOR_MOVE_DTOR_ILLEGAL
      then Some Ctor_move_dtor_illegal else h_ctor_move_dtor t),
    h_move_dtor := (if has_flag (h_flags t) ECS_TYPE_HOOK_MOVE_DTOR_ILLEGAL then Some Move_dtor_illegal else h_move_dtor t)\<rparr>"

definition flecs_type_hooks_storage_equal :: "'v type_hooks \<Rightarrow> 'v type_hooks \<Rightarrow> bool" where
  "flecs_type_hooks_storage_equal a b =
    (let flags = ECS_TYPE_HOOKS OR ECS_TYPE_HOOKS_ILLEGAL in
     if h_flags a AND flags \<noteq> h_flags b AND flags then False
     else if h_on_add a \<noteq> h_on_add b then False
     else if h_on_set a \<noteq> h_on_set b then False
     else if h_on_remove a \<noteq> h_on_remove b then False
     else if h_on_replace a \<noteq> h_on_replace b then False
     else if h_on_validate a \<noteq> h_on_validate b then False
     else True)"

definition hooks_merge :: "'v type_hooks \<Rightarrow> 'v type_hooks \<Rightarrow> 'v type_hooks" where
  \<comment> \<open>the new hooks of the type info, from the assignments to the illegal hooks\<close>
  "hooks_merge h t =
    (let flags = h_flags h AND NOT ECS_TYPE_HOOKS;
         prev = h_flags t;
         t = default_ctors h flags (hooks_assign h t);
         (t, flags) = default_cmp_equals h (default_move_dtor h (default_ctor_move_dtor h (t, flags)));
         t = hooks_set_flags prev t flags in
     hooks_set_illegal flags t)"

definition FLECS_HI_COMPONENT_ID :: "64 word" where
  \<comment> \<open>\<open>FLECS_LIBRARY_HI_COMPONENT_ID\<close> of \<open>FlecsLibraryConfigMacros.h\<close>\<close>
  "FLECS_HI_COMPONENT_ID = 1024"

definition ecs_set_hooks_id ::
    "bool \<Rightarrow> (nat \<times> nat) option \<Rightarrow> 64 word \<Rightarrow> 'v type_hooks \<Rightarrow> 'v type_info \<Rightarrow>
      'v type_info \<times> ecs_error option \<times> bool" where
  \<comment> \<open>the arguments are whether the component or a pair of it is in use, its \<open>EcsComponent\<close> value (size and
    alignment), the component and its type info; the results are the type info, the error that is thrown
    and whether the component is marked in \<open>world->non_trivial_set\<close>\<close>
  "ecs_set_hooks_id in_use cmpt component h ti =
    (let flags = h_flags h AND NOT ECS_TYPE_HOOKS in
     if \<not> hooks_illegal_ok h flags then (ti, Some ECS_INVALID_PARAMETER, False)
     else if ti_component ti \<noteq> 0 \<and> ti_component ti \<noteq> component
     then (ti, Some ECS_INCONSISTENT_COMPONENT_ACTION, False)
     else if ti_size ti = 0 \<and> (case cmpt of None \<Rightarrow> True | Some (sz, al) \<Rightarrow> sz = 0)
     then (ti, Some ECS_INVALID_PARAMETER, False)
     else
       let prev_hooks = ti_hooks ti;
           ti = (if ti_size ti = 0 then (case cmpt of None \<Rightarrow> ti | Some (sz, al) \<Rightarrow> ti\<lparr>ti_size := sz, ti_alignment := al\<rparr>) else ti);
           ti = ti\<lparr>ti_hooks := hooks_merge h prev_hooks\<rparr> in
       if in_use \<and> \<not> flecs_type_hooks_storage_equal (ti_hooks ti) prev_hooks
       then (ti\<lparr>ti_hooks := prev_hooks\<rparr>, Some ECS_ALREADY_IN_USE, False)
       else (ti, None, component < FLECS_HI_COMPONENT_ID \<and> (h_on_set (ti_hooks ti) \<or> h_copy (ti_hooks ti) \<noteq> None \<or>
         h_move (ti_hooks ti) \<noteq> None \<or> h_on_replace (ti_hooks ti) \<or> h_on_validate (ti_hooks ti))))"


section \<open>The contract of the hooks\<close>

lemma has_flag_or [simp]: "has_flag (a OR b) f \<longleftrightarrow> has_flag a f \<or> has_flag b f"
  unfolding has_flag_def by (auto simp: bit_eq_iff bit_simps)

lemma has_flag_0 [simp]: "has_flag 0 f = False" "has_flag f 0 = False"
  by (simp_all add: has_flag_def)

lemma has_flag_if [simp]: "has_flag (flag_if b g) f \<longleftrightarrow> b \<and> has_flag g f"
  by (simp add: flag_if_def)

lemma has_flag_and [simp]: "has_flag (p AND a) b \<longleftrightarrow> has_flag p (a AND b)"
  by (simp add: has_flag_def and.assoc)

lemma has_flag_numeral [simp]:
  "has_flag (numeral a) (numeral b) \<longleftrightarrow> (numeral a :: 32 word) AND numeral b \<noteq> 0"
  "has_flag 1 (numeral b) \<longleftrightarrow> (1 :: 32 word) AND numeral b \<noteq> 0"
  "has_flag (numeral a) 1 \<longleftrightarrow> (numeral a :: 32 word) AND 1 \<noteq> 0"
  by (simp_all add: has_flag_def)

definition raws :: "'v cell list \<Rightarrow> bool" where
  "raws cs \<longleftrightarrow> set cs \<subseteq> {Raw}"

definition lives :: "'v cell list \<Rightarrow> bool" where
  "lives cs \<longleftrightarrow> Raw \<notin> set cs"

definition ctor_ok :: "bool \<Rightarrow> 'v xtor_fn \<Rightarrow> bool" where
  \<comment> \<open>\<open>d\<close> is whether the type has a destructor, without which memory may be constructed again\<close>
  "ctor_ok d f \<longleftrightarrow> (\<forall>ptr. (d \<longrightarrow> raws ptr) \<longrightarrow> returns (f ptr) (\<lambda>r. length r = length ptr \<and> lives r))"

definition dtor_ok :: "'v xtor_fn \<Rightarrow> bool" where
  "dtor_ok f \<longleftrightarrow> (\<forall>ptr. lives ptr \<longrightarrow> returns (f ptr) (\<lambda>r. length r = length ptr \<and> raws r))"

definition copy_ok :: "'v copy_fn \<Rightarrow> bool" where
  "copy_ok f \<longleftrightarrow> (\<forall>dst src. length dst = length src \<longrightarrow> lives dst \<longrightarrow> lives src \<longrightarrow> returns (f dst src) (\<lambda>r. r = src))"

definition copy_ctor_ok :: "bool \<Rightarrow> 'v copy_fn \<Rightarrow> bool" where
  "copy_ctor_ok d f \<longleftrightarrow> (\<forall>dst src. length dst = length src \<longrightarrow> (d \<longrightarrow> raws dst) \<longrightarrow> lives src \<longrightarrow>
    returns (f dst src) (\<lambda>r. r = src))"

definition move_ok :: "'v move_fn \<Rightarrow> bool" where
  "move_ok f \<longleftrightarrow> (\<forall>dst src. length dst = length src \<longrightarrow> lives dst \<longrightarrow> lives src \<longrightarrow>
    returns (f dst src) (\<lambda>(r, s). r = src \<and> length s = length src \<and> lives s))"

definition move_ctor_ok :: "bool \<Rightarrow> 'v move_fn \<Rightarrow> bool" where
  "move_ctor_ok d f \<longleftrightarrow> (\<forall>dst src. length dst = length src \<longrightarrow> (d \<longrightarrow> raws dst) \<longrightarrow> lives src \<longrightarrow>
    returns (f dst src) (\<lambda>(r, s). r = src \<and> length s = length src \<and> lives s))"

definition ctor_move_dtor_ok :: "bool \<Rightarrow> 'v move_fn \<Rightarrow> bool" where
  "ctor_move_dtor_ok d f \<longleftrightarrow> (\<forall>dst src. length dst = length src \<longrightarrow> (d \<longrightarrow> raws dst) \<longrightarrow> lives src \<longrightarrow>
    returns (f dst src) (\<lambda>(r, s). r = src \<and> length s = length src \<and> (d \<longrightarrow> raws s)))"

definition move_dtor_ok :: "bool \<Rightarrow> 'v move_fn \<Rightarrow> bool" where
  "move_dtor_ok d f \<longleftrightarrow> (\<forall>dst src. length dst = length src \<longrightarrow> lives dst \<longrightarrow> lives src \<longrightarrow>
    returns (f dst src) (\<lambda>(r, s). r = src \<and> length s = length src \<and> (d \<longrightarrow> raws s)))"

definition user_ok :: "'v type_hooks \<Rightarrow> bool" where
  \<comment> \<open>what an application that supplies hooks promises: no illegal flags, each function does what its name
    says, and a type with any lifecycle function has a constructor or one that is derived\<close>
  "user_ok h \<longleftrightarrow> h_flags h = 0 \<and>
    (let d = h_dtor h \<noteq> None in
     (case h_ctor h of None \<Rightarrow> True | Some x \<Rightarrow> \<exists>f. x = Ctor_fn f \<and> ctor_ok d f) \<and>
     (case h_dtor h of None \<Rightarrow> True | Some x \<Rightarrow> \<exists>f. x = Dtor_fn f \<and> dtor_ok f) \<and>
     (case h_copy h of None \<Rightarrow> True | Some x \<Rightarrow> \<exists>f. x = Copy_fn f \<and> copy_ok f) \<and>
     (case h_move h of None \<Rightarrow> True | Some x \<Rightarrow> \<exists>f. x = Move_fn f \<and> move_ok f) \<and>
     (case h_copy_ctor h of None \<Rightarrow> True | Some x \<Rightarrow> \<exists>f. x = Copy_ctor_fn f \<and> copy_ctor_ok d f) \<and>
     (case h_move_ctor h of None \<Rightarrow> True | Some x \<Rightarrow> \<exists>f. x = Move_ctor_fn f \<and> move_ctor_ok d f) \<and>
     (case h_ctor_move_dtor h of None \<Rightarrow> True | Some x \<Rightarrow> \<exists>f. x = Ctor_move_dtor_fn f \<and> ctor_move_dtor_ok d f) \<and>
     (case h_move_dtor h of None \<Rightarrow> True | Some x \<Rightarrow> \<exists>f. x = Move_dtor_fn f \<and> move_dtor_ok d f)) \<and>
    (h_ctor h = None \<and> h_dtor h = None \<and> h_copy h = None \<and> h_move h = None \<longrightarrow>
      h_copy_ctor h = None \<and> h_move_ctor h = None \<and> h_ctor_move_dtor h = None \<and> h_move_dtor h = None)"

definition hooks_legal :: "'v type_hooks \<Rightarrow> bool" where
  "hooks_legal t \<longleftrightarrow> \<not> has_flag (h_flags t) ECS_TYPE_HOOK_CTOR_ILLEGAL \<and> \<not> has_flag (h_flags t) ECS_TYPE_HOOK_DTOR_ILLEGAL \<and>
    \<not> has_flag (h_flags t) ECS_TYPE_HOOK_COPY_ILLEGAL \<and> \<not> has_flag (h_flags t) ECS_TYPE_HOOK_MOVE_ILLEGAL \<and>
    \<not> has_flag (h_flags t) ECS_TYPE_HOOK_COPY_CTOR_ILLEGAL \<and> \<not> has_flag (h_flags t) ECS_TYPE_HOOK_MOVE_CTOR_ILLEGAL \<and>
    \<not> has_flag (h_flags t) ECS_TYPE_HOOK_CTOR_MOVE_DTOR_ILLEGAL \<and> \<not> has_flag (h_flags t) ECS_TYPE_HOOK_MOVE_DTOR_ILLEGAL"

definition no_lifecycle :: "'v type_hooks \<Rightarrow> bool" where
  "no_lifecycle t \<longleftrightarrow> h_ctor t = None \<and> h_dtor t = None \<and> h_copy t = None \<and> h_move t = None \<and> h_copy_ctor t = None \<and>
    h_move_ctor t = None \<and> h_ctor_move_dtor t = None \<and> h_move_dtor t = None"

definition ti_ok :: "'v::zero type_info \<Rightarrow> bool" where
  \<comment> \<open>what the storage relies on: a plain type, or one whose dispatchers construct, destruct, copy and move\<close>
  "ti_ok ti \<longleftrightarrow> hooks_legal (ti_hooks ti) \<and> (no_lifecycle (ti_hooks ti) \<or>
    (let t = ti_hooks ti; d = h_dtor t \<noteq> None in
     h_ctor t \<noteq> None \<and> ctor_ok d (call_ctor t) \<and>
     (d \<longrightarrow> dtor_ok (call_dtor t)) \<and>
     (h_copy t \<noteq> None \<longrightarrow> copy_ok (flecs_type_info_copy ti)) \<and>
     (h_move t \<noteq> None \<longrightarrow> move_ok (flecs_type_info_move ti)) \<and>
     (h_copy_ctor t \<noteq> None \<longrightarrow> copy_ctor_ok d (flecs_type_info_copy_ctor ti)) \<and>
     (h_move_ctor t \<noteq> None \<longrightarrow> move_ctor_ok d (flecs_type_info_move_ctor ti)) \<and>
     ctor_move_dtor_ok d (flecs_type_info_ctor_move_dtor ti) \<and>
     move_dtor_ok d (flecs_type_info_move_dtor ti)))"

lemma raws_replicate [simp]: "raws (replicate n Raw)"
  by (auto simp: raws_def)

lemma returns_ctor_ok: "ctor_ok d f \<Longrightarrow> (d \<longrightarrow> raws ptr) \<Longrightarrow> returns (f ptr) (\<lambda>r. length r = length ptr \<and> lives r)"
  by (simp add: ctor_ok_def)

lemma default_ctor_ok: "ctor_ok d flecs_default_ctor"
  by (simp add: ctor_ok_def flecs_default_ctor_def lives_def)

lemma default_copy_ctor_ok:
  assumes "ctor_ok d (call_ctor t)" "copy_ok (call_copy t)"
  shows "copy_ctor_ok d (flecs_default_copy_ctor t)"
  unfolding copy_ctor_ok_def flecs_default_copy_ctor_def returns_bindR
proof (intro allI impI)
  fix dst src :: "'a cell list" assume "length dst = length src" "d \<longrightarrow> raws dst" "lives src"
  then show "returns (call_ctor t dst) (\<lambda>x. returns (call_copy t x src) (\<lambda>r. r = src))"
    using assms by (intro returns_mono [OF returns_ctor_ok [OF assms(1)]]) (auto simp: copy_ok_def)
qed

lemma default_move_ctor_ok:
  assumes "ctor_ok d (call_ctor t)" "move_ok (call_move t)"
  shows "move_ctor_ok d (flecs_default_move_ctor t)"
  unfolding move_ctor_ok_def flecs_default_move_ctor_def returns_bindR
proof (intro allI impI)
  fix dst src :: "'a cell list" assume "length dst = length src" "d \<longrightarrow> raws dst" "lives src"
  then show "returns (call_ctor t dst) (\<lambda>x. returns (call_move t x src) (\<lambda>(r, s). r = src \<and> length s = length src \<and> lives s))"
    using assms by (intro returns_mono [OF returns_ctor_ok [OF assms(1)]]) (auto simp: move_ok_def)
qed

lemma move_then_dtor:
  assumes m: "returns m (\<lambda>(r, s). r = src \<and> length s = length src \<and> lives s)" and d: "dtor_ok g"
  shows "returns (bindR m (\<lambda>(dst, src). bindR (g src) (\<lambda>src. Inr (dst, src))))
    (\<lambda>(r, s). r = src \<and> length s = length src \<and> (D \<longrightarrow> raws s))"
  unfolding returns_bindR
  by (rule returns_mono [OF m]) (use d in \<open>auto simp: dtor_ok_def elim!: allE impE returns_mono\<close>)

lemma ctor_w_move_w_dtor_ok:
  assumes "ctor_ok d (call_ctor t)" "move_ok (call_move t)" "dtor_ok (call_dtor t)"
  shows "ctor_move_dtor_ok d (flecs_default_ctor_w_move_w_dtor t)"
  unfolding ctor_move_dtor_ok_def
proof (intro allI impI)
  fix dst src :: "'a cell list" assume *: "length dst = length src" "d \<longrightarrow> raws dst" "lives src"
  then have "returns (flecs_default_move_ctor t dst src) (\<lambda>(r, s). r = src \<and> length s = length src \<and> lives s)"
    using default_move_ctor_ok [OF assms(1,2)] by (simp add: move_ctor_ok_def)
  from move_then_dtor [OF this assms(3), of d]
  show "returns (flecs_default_ctor_w_move_w_dtor t dst src) (\<lambda>(r, s). r = src \<and> length s = length src \<and> (d \<longrightarrow> raws s))"
    by (simp add: flecs_default_ctor_w_move_w_dtor_def flecs_default_move_ctor_def bindR_assoc)
qed

lemma move_ctor_w_dtor_ok:
  assumes "move_ctor_ok d (call_move_ctor t)" "dtor_ok (call_dtor t)"
  shows "ctor_move_dtor_ok d (flecs_default_move_ctor_w_dtor t)"
  unfolding ctor_move_dtor_ok_def flecs_default_move_ctor_w_dtor_def
  using assms(1) by (intro allI impI move_then_dtor [OF _ assms(2)]) (simp add: move_ctor_ok_def)

lemma move_w_dtor_ok:
  assumes "move_ok (call_move t)" "dtor_ok (call_dtor t)"
  shows "move_dtor_ok d (flecs_default_move_w_dtor t)"
  unfolding move_dtor_ok_def flecs_default_move_w_dtor_def
  using assms(1) by (intro allI impI move_then_dtor [OF _ assms(2)]) (simp add: move_ok_def)

lemma default_dtor_ok: "dtor_ok (call_dtor t) \<Longrightarrow> move_dtor_ok d (flecs_default_dtor t)"
  unfolding move_dtor_ok_def flecs_default_dtor_def returns_bindR
proof (intro allI impI)
  fix dst src :: "'a cell list" assume "dtor_ok (call_dtor t)" "lives dst"
  then have "returns (call_dtor t dst) (\<lambda>r. length r = length dst \<and> raws r)" by (simp add: dtor_ok_def)
  then show "returns (call_dtor t dst) (\<lambda>x. returns (relocate x src) (\<lambda>(r, s). r = src \<and> length s = length src \<and> (d \<longrightarrow> raws s)))"
    by (rule returns_mono) (simp add: relocate_def)
qed

lemma relocate_ok: "ctor_move_dtor_ok d relocate" "move_dtor_ok d relocate"
  by (simp_all add: ctor_move_dtor_ok_def move_dtor_ok_def relocate_def)

lemma move_as_relocation:
  "move_ctor_ok False f \<Longrightarrow> ctor_move_dtor_ok False f" "move_ok f \<Longrightarrow> move_dtor_ok False f"
  by (fastforce simp: move_ctor_ok_def ctor_move_dtor_ok_def elim: returns_mono,
      fastforce simp: move_ok_def move_dtor_ok_def elim: returns_mono)


section \<open>Hooks set on a fresh type\<close>

definition merged_cmd :: "'v type_hooks \<Rightarrow> 'v type_hooks \<Rightarrow> 'v ctor_move_dtor_hook option" where
  "merged_cmd h t = (if h_ctor_move_dtor h \<noteq> None then h_ctor_move_dtor h
    else if h_move h \<noteq> None then
      if h_dtor h \<noteq> None then if h_move_ctor h \<noteq> None then Some Move_ctor_w_dtor else Some Ctor_w_move_w_dtor
      else Some (As_move_ctor (case h_move_ctor h of None \<Rightarrow> Default_move_ctor | Some x \<Rightarrow> x))
    else case h_move_ctor h of
        None \<Rightarrow> h_ctor_move_dtor t
      | Some x \<Rightarrow> if h_dtor h \<noteq> None then Some Move_ctor_w_dtor else Some (As_move_ctor x))"

lemma merge_ctor_move_dtor:
  assumes "flags = 0"
  shows "default_ctor_move_dtor h (default_ctors h flags (hooks_assign h t), flags) =
    ((default_ctors h flags (hooks_assign h t))\<lparr>h_ctor_move_dtor := merged_cmd h t\<rparr>, 0)"
  using assms
  by (cases "h_ctor_move_dtor h"; cases "h_move h"; cases "h_dtor h"; cases "h_move_ctor h")
    (simp_all add: default_ctor_move_dtor_def merged_cmd_def default_ctors_def hooks_assign_def or_keep_def
      as_move_ctor_def Let_def)

definition merged_md :: "'v type_hooks \<Rightarrow> 'v type_hooks \<Rightarrow> 'v move_dtor_hook option" where
  "merged_md h t = (if h_move_dtor h \<noteq> None then h_move_dtor h
    else if h_move h \<noteq> None then if h_dtor h \<noteq> None then Some Move_w_dtor else Some Default_move
    else if h_dtor h \<noteq> None then Some Default_dtor else h_move_dtor t)"

lemma merge_move_dtor:
  assumes "h_move_dtor t = or_keep (h_move_dtor h) (h_move_dtor t')"
  shows "default_move_dtor h (t, 0) = (t\<lparr>h_move_dtor := merged_md h t'\<rparr>, 0)"
  using assms by (cases "h_move_dtor h"; cases "h_move h"; cases "h_dtor h")
    (simp_all add: default_move_dtor_def merged_md_def or_keep_def Let_def)

definition cmp_flags :: "'v type_hooks \<Rightarrow> 32 word" where
  "cmp_flags h = flag_if (h_cmp h = None) ECS_TYPE_HOOK_CMP_ILLEGAL OR
    flag_if (h_cmp h = None \<and> (h_equals h = None \<or> h_equals h = Some Equals_illegal)) ECS_TYPE_HOOK_EQUALS_ILLEGAL"

lemma merge_cmp_equals:
  "default_cmp_equals h (t, 0) = (t\<lparr>h_equals := (if (h_equals h = None \<or> h_equals h = Some Equals_illegal) \<and> h_cmp h \<noteq> None
    then Some Default_equals else h_equals t)\<rparr>, cmp_flags h)"
  by (cases t; cases "h_cmp h"; cases "h_equals h"; cases "h_equals h = Some Equals_illegal")
    (simp_all add: default_cmp_equals_def cmp_flags_def flag_if_def Let_def)

lemma cmp_flags_legal [simp]:
  "has_flag (cmp_flags h) 0x400 = False" "has_flag (cmp_flags h) 0x1000 = False" "has_flag (cmp_flags h) 0x2000 = False"
  "has_flag (cmp_flags h) 0x4000 = False" "has_flag (cmp_flags h) 0x8000 = False" "has_flag (cmp_flags h) 0x10000 = False"
  "has_flag (cmp_flags h) 0x20000 = False" "has_flag (cmp_flags h) 0x40000 = False"
  by (simp_all add: cmp_flags_def)

lemma set_flags_fields [simp]:
  "h_ctor (hooks_set_flags p t f) = h_ctor t" "h_dtor (hooks_set_flags p t f) = h_dtor t" "h_copy (hooks_set_flags p t f) = h_copy t"
  "h_move (hooks_set_flags p t f) = h_move t" "h_copy_ctor (hooks_set_flags p t f) = h_copy_ctor t"
  "h_move_ctor (hooks_set_flags p t f) = h_move_ctor t" "h_ctor_move_dtor (hooks_set_flags p t f) = h_ctor_move_dtor t"
  "h_move_dtor (hooks_set_flags p t f) = h_move_dtor t" "h_cmp (hooks_set_flags p t f) = h_cmp t"
  by (simp_all add: hooks_set_flags_def)

lemma set_flags_legal [simp]:
  assumes "m \<in> {0x400, 0x1000, 0x2000, 0x4000, 0x8000, 0x10000, 0x20000, 0x40000}" and "has_flag f m = False"
  shows "has_flag (h_flags (hooks_set_flags p t f)) m = False"
  using assms by (auto simp: hooks_set_flags_def)

lemma set_illegal_fields:
  "h_ctor (hooks_set_illegal (cmp_flags h) (hooks_set_flags p u (cmp_flags h))) = h_ctor u" "h_dtor (hooks_set_illegal (cmp_flags h) (hooks_set_flags p u (cmp_flags h))) = h_dtor u" "h_copy (hooks_set_illegal (cmp_flags h) (hooks_set_flags p u (cmp_flags h))) = h_copy u" "h_move (hooks_set_illegal (cmp_flags h) (hooks_set_flags p u (cmp_flags h))) = h_move u"
  "h_copy_ctor (hooks_set_illegal (cmp_flags h) (hooks_set_flags p u (cmp_flags h))) = h_copy_ctor u" "h_move_ctor (hooks_set_illegal (cmp_flags h) (hooks_set_flags p u (cmp_flags h))) = h_move_ctor u" "h_ctor_move_dtor (hooks_set_illegal (cmp_flags h) (hooks_set_flags p u (cmp_flags h))) = h_ctor_move_dtor u"
  "h_move_dtor (hooks_set_illegal (cmp_flags h) (hooks_set_flags p u (cmp_flags h))) = h_move_dtor u" "hooks_legal (hooks_set_illegal (cmp_flags h) (hooks_set_flags p u (cmp_flags h)))"
  "h_cmp (hooks_set_illegal (cmp_flags h) (hooks_set_flags p u (cmp_flags h))) = (if h_cmp h = None then Some Comp_illegal else h_cmp u)"
proof -
  show "hooks_legal (hooks_set_illegal (cmp_flags h) (hooks_set_flags p u (cmp_flags h)))" by (simp add: hooks_legal_def hooks_set_illegal_def)
  show "h_cmp (hooks_set_illegal (cmp_flags h) (hooks_set_flags p u (cmp_flags h))) = (if h_cmp h = None then Some Comp_illegal else h_cmp u)"
    by (auto simp: hooks_set_illegal_def) (simp_all add: cmp_flags_def)
qed (simp_all add: hooks_set_illegal_def)

lemma default_ctors_fields:
  "h_ctor (default_ctors h 0 t) = (if h_ctor h = None \<and> (h_dtor h \<noteq> None \<or> h_copy h \<noteq> None \<or> h_move h \<noteq> None)
    then Some Default_ctor else h_ctor t)"
  "h_dtor (default_ctors h 0 t) = h_dtor t" "h_copy (default_ctors h 0 t) = h_copy t" "h_move (default_ctors h 0 t) = h_move t"
  "h_copy_ctor (default_ctors h 0 t) = (if h_copy_ctor h = None \<and> h_copy h \<noteq> None then Some Default_copy_ctor else h_copy_ctor t)"
  "h_move_ctor (default_ctors h 0 t) = (if h_move_ctor h = None \<and> h_move h \<noteq> None then Some Default_move_ctor else h_move_ctor t)"
  "h_cmp (default_ctors h 0 t) = h_cmp t"
  by (simp_all add: default_ctors_def Let_def)

lemma hooks_assign_fields:
  "h_ctor (hooks_assign h t) = or_keep (h_ctor h) (h_ctor t)" "h_dtor (hooks_assign h t) = or_keep (h_dtor h) (h_dtor t)"
  "h_copy (hooks_assign h t) = or_keep (h_copy h) (h_copy t)" "h_move (hooks_assign h t) = or_keep (h_move h) (h_move t)"
  "h_copy_ctor (hooks_assign h t) = or_keep (h_copy_ctor h) (h_copy_ctor t)"
  "h_move_ctor (hooks_assign h t) = or_keep (h_move_ctor h) (h_move_ctor t)" "h_cmp (hooks_assign h t) = or_keep (h_cmp h) (h_cmp t)"
  by (simp_all add: hooks_assign_def)

lemma merge_fields:
  assumes f: "h_flags h = 0"
  shows "h_ctor (hooks_merge h t) = (if h_ctor h = None \<and> (h_dtor h \<noteq> None \<or> h_copy h \<noteq> None \<or> h_move h \<noteq> None)
      then Some Default_ctor else or_keep (h_ctor h) (h_ctor t))"
    "h_dtor (hooks_merge h t) = or_keep (h_dtor h) (h_dtor t)"
    "h_copy (hooks_merge h t) = or_keep (h_copy h) (h_copy t)"
    "h_move (hooks_merge h t) = or_keep (h_move h) (h_move t)"
    "h_copy_ctor (hooks_merge h t) = (if h_copy_ctor h = None \<and> h_copy h \<noteq> None then Some Default_copy_ctor
      else or_keep (h_copy_ctor h) (h_copy_ctor t))"
    "h_move_ctor (hooks_merge h t) = (if h_move_ctor h = None \<and> h_move h \<noteq> None then Some Default_move_ctor
      else or_keep (h_move_ctor h) (h_move_ctor t))"
    "h_ctor_move_dtor (hooks_merge h t) = merged_cmd h t"
    "h_move_dtor (hooks_merge h t) = merged_md h t"
    "hooks_legal (hooks_merge h t)"
    "h_cmp (hooks_merge h t) = (if h_cmp h = None then Some Comp_illegal else or_keep (h_cmp h) (h_cmp t))"
proof -
  let ?t1 = "(default_ctors h 0 (hooks_assign h t))\<lparr>h_ctor_move_dtor := merged_cmd h t\<rparr>"
  let ?t2 = "?t1\<lparr>h_move_dtor := merged_md h t\<rparr>"
  have 1: "h_move_dtor ?t1 = or_keep (h_move_dtor h) (h_move_dtor t)"
    by (simp add: default_ctors_def hooks_assign_def Let_def)
  let ?e = "if (h_equals h = None \<or> h_equals h = Some Equals_illegal) \<and> h_cmp h \<noteq> None
    then Some Default_equals else h_equals ?t2"
  have eq: "hooks_merge h t = hooks_set_illegal (cmp_flags h) (hooks_set_flags (h_flags t) (?t2\<lparr>h_equals := ?e\<rparr>) (cmp_flags h))"
    using f merge_ctor_move_dtor [of 0 h t] merge_move_dtor [OF 1] merge_cmp_equals [of h ?t2]
    by (simp add: hooks_merge_def Let_def del: if_split_asm)
  show "h_ctor (hooks_merge h t) = (if h_ctor h = None \<and> (h_dtor h \<noteq> None \<or> h_copy h \<noteq> None \<or> h_move h \<noteq> None)
      then Some Default_ctor else or_keep (h_ctor h) (h_ctor t))"
    "h_dtor (hooks_merge h t) = or_keep (h_dtor h) (h_dtor t)"
    "h_copy (hooks_merge h t) = or_keep (h_copy h) (h_copy t)"
    "h_move (hooks_merge h t) = or_keep (h_move h) (h_move t)"
    "h_copy_ctor (hooks_merge h t) = (if h_copy_ctor h = None \<and> h_copy h \<noteq> None then Some Default_copy_ctor
      else or_keep (h_copy_ctor h) (h_copy_ctor t))"
    "h_move_ctor (hooks_merge h t) = (if h_move_ctor h = None \<and> h_move h \<noteq> None then Some Default_move_ctor
      else or_keep (h_move_ctor h) (h_move_ctor t))"
    "h_ctor_move_dtor (hooks_merge h t) = merged_cmd h t"
    "h_move_dtor (hooks_merge h t) = merged_md h t"
    "hooks_legal (hooks_merge h t)"
    "h_cmp (hooks_merge h t) = (if h_cmp h = None then Some Comp_illegal else or_keep (h_cmp h) (h_cmp t))"
    unfolding eq by (simp_all add: set_illegal_fields default_ctors_fields hooks_assign_fields)
qed


lemma no_hooks_sel [simp]: "h_ctor no_hooks = None" "h_dtor no_hooks = None" "h_copy no_hooks = None" "h_move no_hooks = None"
  "h_copy_ctor no_hooks = None" "h_move_ctor no_hooks = None" "h_ctor_move_dtor no_hooks = None"
  "h_move_dtor no_hooks = None" "h_flags no_hooks = 0" "h_cmp no_hooks = None" "h_equals no_hooks = None"
  by (simp_all add: no_hooks_def)

lemma dispatch_legal:
  assumes "hooks_legal (ti_hooks ti)"
  shows "h_copy (ti_hooks ti) \<noteq> None \<Longrightarrow> flecs_type_info_copy ti = call_copy (ti_hooks ti)"
    "h_move (ti_hooks ti) \<noteq> None \<Longrightarrow> flecs_type_info_move ti = call_move (ti_hooks ti)"
    "h_move_ctor (ti_hooks ti) \<noteq> None \<Longrightarrow> flecs_type_info_move_ctor ti = call_move_ctor (ti_hooks ti)"
  using assms by (simp_all add: fun_eq_iff hooks_legal_def flecs_type_info_copy_def flecs_type_info_move_def
      flecs_type_info_move_ctor_def)

lemma user_fns:
  assumes "user_ok h"
  defines "d \<equiv> h_dtor h \<noteq> None"
  shows "h_flags h = 0"
    "h_ctor h = None \<or> (\<exists>f. h_ctor h = Some (Ctor_fn f) \<and> ctor_ok d f)"
    "h_dtor h = None \<or> (\<exists>f. h_dtor h = Some (Dtor_fn f) \<and> dtor_ok f)"
    "h_copy h = None \<or> (\<exists>f. h_copy h = Some (Copy_fn f) \<and> copy_ok f)"
    "h_move h = None \<or> (\<exists>f. h_move h = Some (Move_fn f) \<and> move_ok f)"
    "h_copy_ctor h = None \<or> (\<exists>f. h_copy_ctor h = Some (Copy_ctor_fn f) \<and> copy_ctor_ok d f)"
    "h_move_ctor h = None \<or> (\<exists>f. h_move_ctor h = Some (Move_ctor_fn f) \<and> move_ctor_ok d f)"
    "h_ctor_move_dtor h = None \<or> (\<exists>f. h_ctor_move_dtor h = Some (Ctor_move_dtor_fn f) \<and> ctor_move_dtor_ok d f)"
    "h_move_dtor h = None \<or> (\<exists>f. h_move_dtor h = Some (Move_dtor_fn f) \<and> move_dtor_ok d f)"
  using assms unfolding user_ok_def by (auto simp: Let_def split: option.splits)

lemma merged_calls:
  assumes u: "user_ok h" and nl: "\<not> no_lifecycle h"
  defines "t \<equiv> hooks_merge h no_hooks" and "d \<equiv> h_dtor h \<noteq> None"
  shows "h_ctor t \<noteq> None" "ctor_ok d (call_ctor t)" "d \<Longrightarrow> dtor_ok (call_dtor t)"
    "h_copy h \<noteq> None \<Longrightarrow> copy_ok (call_copy t)" "h_move h \<noteq> None \<Longrightarrow> move_ok (call_move t)"
    "h_move_ctor t \<noteq> None \<Longrightarrow> move_ctor_ok d (call_move_ctor t)"
proof -
  note fns = user_fns [OF u, folded d_def] and f = merge_fields [OF user_fns(1) [OF u], of no_hooks, folded t_def]
  show ct: "h_ctor t \<noteq> None" using u nl unfolding f(1) by (auto simp: user_ok_def no_lifecycle_def or_keep_def)
  have "h_ctor t = Some Default_ctor \<or> (\<exists>g. h_ctor t = Some (Ctor_fn g) \<and> ctor_ok d g)"
    using fns(2) ct unfolding f(1) by (auto simp: or_keep_def split: if_splits)
  then show c: "ctor_ok d (call_ctor t)"
    using default_ctor_ok [of d] by (auto simp: call_ctor_def [abs_def])
  show "d \<Longrightarrow> dtor_ok (call_dtor t)"
    using fns(3) f(2) by (auto simp: call_dtor_def [abs_def] or_keep_def d_def)
  show "h_copy h \<noteq> None \<Longrightarrow> copy_ok (call_copy t)"
    using fns(4) f(3) by (auto simp: call_copy_def [abs_def] or_keep_def)
  show m: "h_move h \<noteq> None \<Longrightarrow> move_ok (call_move t)"
    using fns(5) f(4) by (auto simp: call_move_def [abs_def] or_keep_def)
  show "h_move_ctor t \<noteq> None \<Longrightarrow> move_ctor_ok d (call_move_ctor t)"
    using fns(7) f(6) default_move_ctor_ok [OF c m]
    by (auto simp: call_move_ctor_def [abs_def] run_move_ctor_def [abs_def] or_keep_def split: if_splits)
qed

lemma merged_copy_ctor:
  assumes u: "user_ok h" and nl: "\<not> no_lifecycle h"
    and ti: "ti_hooks ti = hooks_merge h no_hooks" and set: "h_copy_ctor (ti_hooks ti) \<noteq> None"
  shows "copy_ctor_ok (h_dtor h \<noteq> None) (flecs_type_info_copy_ctor ti)"
proof -
  note f = merge_fields [OF user_fns(1) [OF u], of no_hooks, folded ti]
  note calls = merged_calls [OF u nl, folded ti]
  have legal: "\<not> has_flag (h_flags (ti_hooks ti)) ECS_TYPE_HOOK_COPY_CTOR_ILLEGAL" using f(9) unfolding hooks_legal_def by blast
  show ?thesis
  proof (cases "h_copy_ctor h = None")
    case True
    then have "h_copy h \<noteq> None" "h_copy_ctor (ti_hooks ti) = Some Default_copy_ctor"
      using set f(5) by (auto simp: or_keep_def no_hooks_def split: if_splits)
    then show ?thesis using default_copy_ctor_ok [OF calls(2) calls(4)] legal
      by (simp add: flecs_type_info_copy_ctor_def [abs_def] del: ECS_TYPE_HOOK_COPY_CTOR_ILLEGAL_def)
  next
    case False
    then obtain g where "h_copy_ctor (ti_hooks ti) = Some (Copy_ctor_fn g)" "copy_ctor_ok (h_dtor h \<noteq> None) g"
      using user_fns(6) [OF u] f(5) by (auto simp: or_keep_def)
    then show ?thesis using legal
      by (simp add: flecs_type_info_copy_ctor_def [abs_def] del: ECS_TYPE_HOOK_COPY_CTOR_ILLEGAL_def)
  qed
qed

lemma merged_ctor_move_dtor:
  assumes u: "user_ok h" and nl: "\<not> no_lifecycle h" and ti: "ti_hooks ti = hooks_merge h no_hooks"
  shows "ctor_move_dtor_ok (h_dtor h \<noteq> None) (flecs_type_info_ctor_move_dtor ti)"
proof -
  let ?t = "ti_hooks ti" and ?d = "h_dtor h \<noteq> None"
  note f = merge_fields [OF user_fns(1) [OF u], of no_hooks, folded ti]
  note calls = merged_calls [OF u nl, folded ti]
  have legal: "\<not> has_flag (h_flags ?t) ECS_TYPE_HOOK_CTOR_MOVE_DTOR_ILLEGAL" using f(9) unfolding hooks_legal_def by blast
  have mc: "?d \<Longrightarrow> h_move_ctor h \<noteq> None \<Longrightarrow> ctor_move_dtor_ok ?d (flecs_default_move_ctor_w_dtor ?t)"
    using f(6) by (intro move_ctor_w_dtor_ok calls) (auto simp: or_keep_def)
  have mw: "?d \<Longrightarrow> h_move h \<noteq> None \<Longrightarrow> ctor_move_dtor_ok ?d (flecs_default_ctor_w_move_w_dtor ?t)"
    by (intro ctor_w_move_w_dtor_ok calls)
  have am: "ctor_move_dtor_ok False (run_move_ctor ?t x)"
    if "\<not> ?d" "x = Default_move_ctor \<and> h_move h \<noteq> None \<and> h_move_ctor h = None \<or> h_move_ctor h = Some x" for x
  proof -
    have "h_move_ctor ?t = Some x" using that f(6) by (auto simp: or_keep_def)
    then have "call_move_ctor ?t = run_move_ctor ?t x" by (simp add: fun_eq_iff call_move_ctor_def)
    with calls(6) \<open>h_move_ctor ?t = Some x\<close> that(1) show ?thesis by (simp add: move_as_relocation(1))
  qed
  have eq: "flecs_type_info_ctor_move_dtor ti = (case merged_cmd h no_hooks of None \<Rightarrow> relocate
        | Some (Ctor_move_dtor_fn g) \<Rightarrow> g
        | Some Move_ctor_w_dtor \<Rightarrow> flecs_default_move_ctor_w_dtor ?t
        | Some Ctor_w_move_w_dtor \<Rightarrow> flecs_default_ctor_w_move_w_dtor ?t
        | Some (As_move_ctor h) \<Rightarrow> run_move_ctor ?t h
        | Some Ctor_move_dtor_illegal \<Rightarrow> (\<lambda>_ _. Inl ECS_INVALID_OPERATION))"
    using legal f(7) by (simp add: fun_eq_iff flecs_type_info_ctor_move_dtor_def
        del: ECS_TYPE_HOOK_CTOR_MOVE_DTOR_ILLEGAL_def split: option.split ctor_move_dtor_hook.split)
  show ?thesis
    using user_fns(8) [OF u] mc mw am relocate_ok(1) unfolding eq merged_cmd_def
    by (cases "h_ctor_move_dtor h"; cases "h_move h"; cases "h_dtor h"; cases "h_move_ctor h") auto
qed

lemma merged_move_dtor:
  fixes h :: "'v::zero type_hooks"
  assumes u: "user_ok h" and nl: "\<not> no_lifecycle h" and ti: "ti_hooks ti = hooks_merge h no_hooks"
  shows "move_dtor_ok (h_dtor h \<noteq> None) (flecs_type_info_move_dtor ti)"
proof -
  let ?t = "ti_hooks ti" and ?d = "h_dtor h \<noteq> None"
  note f = merge_fields [OF user_fns(1) [OF u], of no_hooks, folded ti]
  note calls = merged_calls [OF u nl, folded ti]
  have legal: "\<not> has_flag (h_flags ?t) ECS_TYPE_HOOK_MOVE_DTOR_ILLEGAL" using f(9) unfolding hooks_legal_def by blast
  have m: "\<not> ?d \<Longrightarrow> h_move h \<noteq> None \<Longrightarrow> move_dtor_ok False (call_move ?t)"
    by (intro move_as_relocation(2) calls)
  have eq: "flecs_type_info_move_dtor ti = (case merged_md h no_hooks of None \<Rightarrow> relocate
        | Some (Move_dtor_fn g) \<Rightarrow> g
        | Some Default_move \<Rightarrow> call_move ?t
        | Some Default_dtor \<Rightarrow> flecs_default_dtor ?t
        | Some Move_w_dtor \<Rightarrow> flecs_default_move_w_dtor ?t
        | Some Move_dtor_illegal \<Rightarrow> (\<lambda>_ _. Inl ECS_INVALID_OPERATION))"
    using legal f(8) by (simp add: fun_eq_iff flecs_type_info_move_dtor_def flecs_default_move_def
        del: ECS_TYPE_HOOK_MOVE_DTOR_ILLEGAL_def split: option.split move_dtor_hook.split)
  show ?thesis
    using user_fns(9) [OF u] m relocate_ok(2) default_dtor_ok [OF calls(3)] move_w_dtor_ok [OF calls(5) calls(3)]
    unfolding eq merged_md_def
    by (cases "h_move_dtor h"; cases "h_move h"; cases "h_dtor h") auto
qed

lemma hooks_merge_ok:
  assumes u: "user_ok h" and ti: "ti_hooks ti = hooks_merge h no_hooks"
  shows "ti_ok ti"
proof (cases "no_lifecycle h")
  case True
  have "no_lifecycle (ti_hooks ti)"
    using True merge_fields [OF user_fns(1) [OF u], of no_hooks, folded ti]
    by (simp add: no_lifecycle_def or_keep_def merged_cmd_def merged_md_def no_hooks_def)
  with merge_fields(9) [OF user_fns(1) [OF u], of no_hooks, folded ti] show ?thesis by (simp add: ti_ok_def)
next
  case False
  note f = merge_fields [OF user_fns(1) [OF u], of no_hooks, folded ti]
  note calls = merged_calls [OF u False, folded ti]
  have keep: "h_dtor (ti_hooks ti) = h_dtor h" "h_copy (ti_hooks ti) = h_copy h" "h_move (ti_hooks ti) = h_move h"
    using f by (auto simp: or_keep_def no_hooks_def)
  show ?thesis
    unfolding ti_ok_def Let_def keep
    using calls f(9) merged_copy_ctor [OF u False ti] merged_ctor_move_dtor [OF u False ti] merged_move_dtor [OF u False ti]
    by (auto simp: dispatch_legal [OF f(9)] keep)
qed


section \<open>Hooks on a part of an array\<close>

definition cells_xtor :: "('v cell list \<Rightarrow> ('v cell list \<times> bool) result) \<Rightarrow> 'v cell list \<Rightarrow> nat \<Rightarrow> nat \<Rightarrow> 'v cell list result" where
  \<comment> \<open>a constructor or destructor on the \<open>n\<close> elements from element \<open>i\<close> on\<close>
  "cells_xtor f a i n =
    (if i + n \<le> length a
     then bindR (f (take n (drop i a))) (\<lambda>(b, _). Inr (take i a @ b @ drop (i + n) a))
     else Inl Bad_Access)"

definition cells_move :: "'v move_fn \<Rightarrow> 'v cell list \<Rightarrow> nat \<Rightarrow> 'v cell list \<Rightarrow> nat \<Rightarrow> nat \<Rightarrow> ('v cell list \<times> 'v cell list) result" where
  \<comment> \<open>a move of \<open>n\<close> elements between two arrays\<close>
  "cells_move f dst i src j n =
    (if i + n \<le> length dst \<and> j + n \<le> length src
     then bindR (f (take n (drop i dst)) (take n (drop j src))) (\<lambda>(b, c).
       Inr (take i dst @ b @ drop (i + n) dst, take j src @ c @ drop (j + n) src))
     else Inl Bad_Access)"

definition needs_dtor :: "'v type_info \<Rightarrow> bool" where
  "needs_dtor ti \<longleftrightarrow> h_dtor (ti_hooks ti) \<noteq> None"

definition typed :: "'v type_info \<Rightarrow> bool" where
  \<comment> \<open>a type with hooks, whose elements are constructed\<close>
  "typed ti \<longleftrightarrow> h_ctor (ti_hooks ti) \<noteq> None"

lemma raws_simps [simp]: "raws []" "raws (x # xs) \<longleftrightarrow> x = Raw \<and> raws xs" "raws (xs @ ys) \<longleftrightarrow> raws xs \<and> raws ys"
  by (auto simp: raws_def)

lemma lives_simps [simp]: "lives []" "lives (x # xs) \<longleftrightarrow> x \<noteq> Raw \<and> lives xs" "lives (xs @ ys) \<longleftrightarrow> lives xs \<and> lives ys"
  by (auto simp: lives_def)

lemma raws_sub: "raws xs \<Longrightarrow> raws (take n xs)" "raws xs \<Longrightarrow> raws (drop n xs)"
  by (auto simp: raws_def dest: in_set_takeD in_set_dropD)

lemma lives_sub: "lives xs \<Longrightarrow> lives (take n xs)" "lives xs \<Longrightarrow> lives (drop n xs)"
  by (auto simp: lives_def dest: in_set_takeD in_set_dropD)

lemma ti_ok_typed:
  assumes "ti_ok ti" "typed ti"
  shows "ctor_ok (needs_dtor ti) (call_ctor (ti_hooks ti))" "needs_dtor ti \<Longrightarrow> dtor_ok (call_dtor (ti_hooks ti))"
    "ctor_move_dtor_ok (needs_dtor ti) (flecs_type_info_ctor_move_dtor ti)"
    "move_dtor_ok (needs_dtor ti) (flecs_type_info_move_dtor ti)"
    "h_move_ctor (ti_hooks ti) \<noteq> None \<Longrightarrow> move_ctor_ok (needs_dtor ti) (flecs_type_info_move_ctor ti)"
    "h_move (ti_hooks ti) \<noteq> None \<Longrightarrow> move_ok (flecs_type_info_move ti)"
  using assms by (auto simp: ti_ok_def typed_def needs_dtor_def no_lifecycle_def Let_def)

lemma ti_ok_plain:
  assumes "ti_ok ti" "\<not> typed ti"
  shows "no_lifecycle (ti_hooks ti)" "hooks_legal (ti_hooks ti)" "\<not> needs_dtor ti"
  using assms by (auto simp: ti_ok_def typed_def needs_dtor_def no_lifecycle_def Let_def)

lemma ti_ok_legal: "ti_ok ti \<Longrightarrow> hooks_legal (ti_hooks ti)"
  by (auto simp: ti_ok_def)

lemma cells_ctor:
  assumes ok: "ti_ok ti" and t: "typed ti" and n: "i + n \<le> length a" and raw: "needs_dtor ti \<Longrightarrow> raws (take n (drop i a))"
  shows "returns (cells_xtor (flecs_type_info_ctor ti) a i n) (\<lambda>r. length r = length a \<and> take i r = take i a \<and>
    lives (take n (drop i r)) \<and> drop (i + n) r = drop (i + n) a)"
proof -
  have len: "length (take n (drop i a)) = n" using n by simp
  have *: "returns (call_ctor (ti_hooks ti) (take n (drop i a))) (\<lambda>r. length r = n \<and> lives r)"
    using returns_ctor_ok [OF ti_ok_typed(1) [OF ok t], of "take n (drop i a)"] raw unfolding len by simp
  have "flecs_type_info_ctor ti (take n (drop i a)) = bindR (call_ctor (ti_hooks ti) (take n (drop i a))) (\<lambda>ptr. Inr (ptr, True))"
    using ti_ok_legal [OF ok] t by (simp add: flecs_type_info_ctor_def hooks_legal_def typed_def)
  then show ?thesis using n by (simp add: cells_xtor_def) (rule returns_mono [OF *], simp)
qed

lemma cells_dtor:
  assumes ok: "ti_ok ti" and n: "i + n \<le> length a" and live: "typed ti \<Longrightarrow> lives (take n (drop i a))"
  shows "returns (cells_xtor (flecs_type_info_dtor ti) a i n) (\<lambda>r. length r = length a \<and> take i r = take i a \<and>
    (needs_dtor ti \<longrightarrow> raws (take n (drop i r))) \<and> drop (i + n) r = drop (i + n) a)"
proof (cases "needs_dtor ti")
  case True
  have t: "typed ti" using True ti_ok_plain(3) [OF ok] by blast
  have len: "length (take n (drop i a)) = n" using n by simp
  have "\<forall>p. lives p \<longrightarrow> returns (call_dtor (ti_hooks ti) p) (\<lambda>r. length r = length p \<and> raws r)"
    using ti_ok_typed(2) [OF ok t True] by (simp only: dtor_ok_def)
  with live [OF t] have *: "returns (call_dtor (ti_hooks ti) (take n (drop i a))) (\<lambda>r. length r = n \<and> raws r)"
    using len by metis
  have "flecs_type_info_dtor ti (take n (drop i a)) = bindR (call_dtor (ti_hooks ti) (take n (drop i a))) (\<lambda>ptr. Inr (ptr, True))"
    using ti_ok_legal [OF ok] True by (simp add: flecs_type_info_dtor_def hooks_legal_def needs_dtor_def)
  then show ?thesis using n by (simp add: cells_xtor_def) (rule returns_mono [OF *], simp)
next
  case False
  then have "flecs_type_info_dtor ti x = Inr (x, False)" for x
    using ti_ok_legal [OF ok] by (simp add: flecs_type_info_dtor_def hooks_legal_def needs_dtor_def)
  with False n show ?thesis by (simp add: cells_xtor_def)
qed

lemma ctor_move_dtor_cells:
  assumes ok: "ti_ok ti" and "length dst = length src" "needs_dtor ti \<Longrightarrow> raws dst" "typed ti \<Longrightarrow> lives src"
  shows "returns (flecs_type_info_ctor_move_dtor ti dst src) (\<lambda>(r, s). r = src \<and> length s = length src \<and> (needs_dtor ti \<longrightarrow> raws s))"
proof (cases "typed ti")
  case True
  with ti_ok_typed(3) [OF ok True] assms show ?thesis by (simp add: ctor_move_dtor_ok_def)
next
  case False
  with ti_ok_plain [OF ok False] show ?thesis
    by (simp add: flecs_type_info_ctor_move_dtor_def no_lifecycle_def hooks_legal_def relocate_def)
qed

lemma move_dtor_cells:
  assumes ok: "ti_ok ti" and "length dst = length src" "typed ti \<Longrightarrow> lives dst" "typed ti \<Longrightarrow> lives src"
  shows "returns (flecs_type_info_move_dtor ti dst src) (\<lambda>(r, s). r = src \<and> length s = length src \<and> (needs_dtor ti \<longrightarrow> raws s))"
proof (cases "typed ti")
  case True
  with ti_ok_typed(4) [OF ok True] assms show ?thesis by (simp add: move_dtor_ok_def)
next
  case False
  with ti_ok_plain [OF ok False] show ?thesis
    by (simp add: flecs_type_info_move_dtor_def no_lifecycle_def hooks_legal_def relocate_def)
qed

lemma cells_move_ok:
  assumes f: "returns (f (take n (drop i dst)) (take n (drop j src))) (\<lambda>(r, s). r = take n (drop j src) \<and> length s = n \<and> P s)"
    and n: "i + n \<le> length dst" "j + n \<le> length src"
  shows "returns (cells_move f dst i src j n) (\<lambda>(r, s). r = take i dst @ take n (drop j src) @ drop (i + n) dst \<and>
    length s = length src \<and> take j s = take j src \<and> P (take n (drop j s)) \<and> drop (j + n) s = drop (j + n) src)"
  using n by (simp add: cells_move_def) (rule returns_mono [OF f], auto)

section \<open>Properties\<close>

lemma callbacks_default:
  "h_on_set (default_ctors h f t) = h_on_set t" "h_on_replace (default_ctors h f t) = h_on_replace t"
  "h_on_validate (default_ctors h f t) = h_on_validate t"
  "h_on_set (fst (default_ctor_move_dtor h p)) = h_on_set (fst p)" "h_on_replace (fst (default_ctor_move_dtor h p)) = h_on_replace (fst p)"
  "h_on_validate (fst (default_ctor_move_dtor h p)) = h_on_validate (fst p)"
  "h_on_set (fst (default_move_dtor h p)) = h_on_set (fst p)" "h_on_replace (fst (default_move_dtor h p)) = h_on_replace (fst p)"
  "h_on_validate (fst (default_move_dtor h p)) = h_on_validate (fst p)"
  "h_on_set (fst (default_cmp_equals h p)) = h_on_set (fst p)" "h_on_replace (fst (default_cmp_equals h p)) = h_on_replace (fst p)"
  "h_on_validate (fst (default_cmp_equals h p)) = h_on_validate (fst p)"
  by (simp_all add: default_ctors_def default_ctor_move_dtor_def default_move_dtor_def default_cmp_equals_def Let_def split_def)

lemma callbacks_merge:
  "h_on_set (hooks_merge h t) \<longleftrightarrow> h_on_set h \<or> h_on_set t" "h_on_replace (hooks_merge h t) \<longleftrightarrow> h_on_replace h \<or> h_on_replace t"
  "h_on_validate (hooks_merge h t) \<longleftrightarrow> h_on_validate h \<or> h_on_validate t"
  by (simp_all add: hooks_merge_def Let_def split_def hooks_set_illegal_def hooks_set_flags_def callbacks_default hooks_assign_def)

lemma set_hooks_run:
  assumes "user_ok h" and "ti_component ti \<in> {0, component}"
    and "ti_size ti \<noteq> 0 \<or> (\<exists>sz al. cmpt = Some (sz, al) \<and> sz \<noteq> 0)" and "\<not> in_use"
    and r: "ecs_set_hooks_id in_use cmpt component h ti = (ti', err, non_trivial)"
  shows "err = None" "ti_hooks ti' = hooks_merge h (ti_hooks ti)"
    "non_trivial = (component < FLECS_HI_COMPONENT_ID \<and> (h_on_set (ti_hooks ti') \<or> h_copy (ti_hooks ti') \<noteq> None \<or>
      h_move (ti_hooks ti') \<noteq> None \<or> h_on_replace (ti_hooks ti') \<or> h_on_validate (ti_hooks ti')))"
    "ti_size ti' \<noteq> 0" "ti_component ti' = ti_component ti"
proof -
  have "h_flags h = 0" by (rule user_fns(1) [OF assms(1)])
  then have "hooks_illegal_ok h (h_flags h AND NOT ECS_TYPE_HOOKS)" by (simp add: hooks_illegal_ok_def)
  with assms(2-4) r show "err = None" "ti_hooks ti' = hooks_merge h (ti_hooks ti)"
    "non_trivial = (component < FLECS_HI_COMPONENT_ID \<and> (h_on_set (ti_hooks ti') \<or> h_copy (ti_hooks ti') \<noteq> None \<or>
      h_move (ti_hooks ti') \<noteq> None \<or> h_on_replace (ti_hooks ti') \<or> h_on_validate (ti_hooks ti')))"
    "ti_size ti' \<noteq> 0" "ti_component ti' = ti_component ti"
    by (auto simp: ecs_set_hooks_id_def Let_def split: option.splits if_splits)
qed

text \<open>C36: When an application sets hooks that do what their names say on a component that has none, the
  missing hooks that \<open>ecs_set_hooks_id\<close> derives do so too: of every type info it produces the
  constructor constructs raw memory, copy and move keep the value and leave a constructed source,
  and \<open>ctor_move_dtor\<close> and \<open>move_dtor\<close> move the value and leave a source that needs no destructor. The
  component is marked as one with a non-trivial set exactly if its id is below \<open>FLECS_HI_COMPONENT_ID\<close> and
  the hooks given have a copy, a move or a callback for set, replace or validate.\<close>
theorem ecs_set_hooks_derives_lifecycle:
  fixes h :: "'v::zero type_hooks"
  assumes "user_ok h" and "ti_hooks ti = no_hooks" and "ti_component ti \<in> {0, component}"
    and "ti_size ti \<noteq> 0 \<or> (\<exists>sz al. cmpt = Some (sz, al) \<and> sz \<noteq> 0)" and "\<not> in_use"
  shows "case ecs_set_hooks_id in_use cmpt component h ti of (ti', err, non_trivial) \<Rightarrow>
    err = None \<and> ti_hooks ti' = hooks_merge h no_hooks \<and> ti_size ti' \<noteq> 0 \<and> ti_ok ti' \<and>
    non_trivial = (component < FLECS_HI_COMPONENT_ID \<and>
      (h_on_set h \<or> h_copy h \<noteq> None \<or> h_move h \<noteq> None \<or> h_on_replace h \<or> h_on_validate h))"
proof -
  have f: "h_flags h = 0" by (rule user_fns(1) [OF assms(1)])
  have ok: "ti_ok x" if "ti_hooks x = hooks_merge h no_hooks" for x :: "'v type_info"
    by (rule hooks_merge_ok [OF assms(1) that])
  have c: "h_copy (hooks_merge h no_hooks) = h_copy h" "h_move (hooks_merge h no_hooks) = h_move h"
    using merge_fields(3,4) [OF f, of no_hooks] by (simp_all add: or_keep_def no_hooks_def)
  obtain ti' err nt where r: "ecs_set_hooks_id in_use cmpt component h ti = (ti', err, nt)" by (rule prod_cases3)
  note s = set_hooks_run [OF assms(1,3-5) r]
  from s(1,2,4) assms(2) ok c callbacks_merge [of h no_hooks] show ?thesis
    by (simp add: r s(3) no_hooks_def)
qed

definition counter_hooks :: "nat type_hooks" where
  \<comment> \<open>hooks of a type whose default value is 7; only constructor, destructor and move are given\<close>
  "counter_hooks = no_hooks\<lparr>h_ctor := Some (Ctor_fn (\<lambda>p. Inr (map (\<lambda>_. Live 7) p))),
    h_dtor := Some (Dtor_fn (\<lambda>p. Inr (map (\<lambda>_. Raw) p))),
    h_move := Some (Move_fn (\<lambda>d s. Inr (s, map (\<lambda>_. Live 0) s)))\<rparr>"

lemma counter_hooks_ok: "user_ok counter_hooks"
  by (auto simp: user_ok_def counter_hooks_def no_hooks_def ctor_ok_def dtor_ok_def move_ok_def lives_def raws_def Let_def)

theorem ecs_set_hooks_derives_lifecycle_witness:
  "case ecs_set_hooks_id False None 20 counter_hooks \<lparr>ti_size = 4, ti_alignment = 4, ti_hooks = no_hooks, ti_component = 0\<rparr> of
    (ti', err, _) \<Rightarrow> err = None \<and> ti_ok ti' \<and>
      returns (flecs_type_info_ctor_move_dtor ti' [Raw] [Live 3]) (\<lambda>(r, s). r = [Live 3] \<and> s = [Raw])"
proof -
  let ?ti = "\<lparr>ti_size = 4, ti_alignment = 4, ti_hooks = no_hooks, ti_component = 0\<rparr>"
  obtain ti' err nt where r: "ecs_set_hooks_id False None 20 counter_hooks ?ti = (ti', err, nt)" by (rule prod_cases3)
  have ok: "err = None" "ti_hooks ti' = hooks_merge counter_hooks no_hooks" "ti_ok ti'"
    using ecs_set_hooks_derives_lifecycle [OF counter_hooks_ok, of ?ti 20 None False] r by simp_all
  have "h_dtor counter_hooks \<noteq> None" by (simp add: counter_hooks_def)
  then have "needs_dtor ti'"
    using ok(2) merge_fields(2) [OF user_fns(1) [OF counter_hooks_ok], of no_hooks] by (simp add: needs_dtor_def or_keep_def)
  then have "returns (flecs_type_info_ctor_move_dtor ti' [Raw] [Live 3]) (\<lambda>(r, s). r = [Live 3] \<and> s = [Raw])"
    by (intro returns_mono [OF ctor_move_dtor_cells [OF ok(3)]]) (auto simp: raws_def length_Suc_conv)
  with r ok show ?thesis by simp
qed

lemma merge_twice:
  fixes h :: "'v::zero type_hooks"
  assumes u: "user_ok h" and h: "h_move h \<noteq> None" "h_dtor h = None" "h_ctor_move_dtor h = None"
    and ti: "ti_hooks ti = hooks_merge h t" and a: "length dst = length src" "raws dst" "lives src"
  shows "returns (flecs_type_info_ctor_move_dtor ti dst src) (\<lambda>(r, s). r = src \<and> length s = length src \<and> lives s)"
proof -
  note f = merge_fields [OF user_fns(1) [OF u], of t, folded ti] and fns = user_fns [OF u]
  have "h_ctor (ti_hooks ti) = Some Default_ctor \<or> (\<exists>g. h_ctor (ti_hooks ti) = Some (Ctor_fn g) \<and> ctor_ok False g)"
    using fns(2) h f(1) by (auto simp: or_keep_def)
  then have c: "ctor_ok False (call_ctor (ti_hooks ti))"
    using default_ctor_ok [of False] by (auto simp: call_ctor_def [abs_def])
  have m: "move_ok (call_move (ti_hooks ti))"
    using fns(5) h f(4) by (auto simp: call_move_def [abs_def] or_keep_def)
  let ?x = "case h_move_ctor h of None \<Rightarrow> Default_move_ctor | Some x \<Rightarrow> x"
  have "move_ctor_ok False (run_move_ctor (ti_hooks ti) ?x)"
    using fns(7) h default_move_ctor_ok [OF c m] by (auto simp: run_move_ctor_def [abs_def])
  moreover have "h_ctor_move_dtor (ti_hooks ti) = Some (As_move_ctor ?x)"
    using f(7) h by (simp add: merged_cmd_def)
  ultimately show ?thesis
    using f(9) a by (simp add: flecs_type_info_ctor_move_dtor_def hooks_legal_def move_ctor_ok_def)
qed

text \<open>C37: Setting hooks twice, while the component is not in use. Both calls succeed. When the second gives a
  move but no destructor, the type keeps the destructor of the first, but \<open>ctor_move_dtor\<close> is derived from
  the hooks of the second alone: relocating an element then leaves its source constructed although the type
  has a destructor. And when the second gives no constructor, the one set by the first is replaced by the
  default one, when it gives no compare function, the one set by the first by one that aborts.\<close>
theorem ecs_set_hooks_twice:
  fixes h :: "'v::zero type_hooks"
  assumes "user_ok h1" and "ti_hooks ti = no_hooks" and "ti_component ti \<in> {0, component}"
    and "ti_size ti \<noteq> 0 \<or> (\<exists>sz al. cmpt = Some (sz, al) \<and> sz \<noteq> 0)"
    and "user_ok h" and "h_move h \<noteq> None" and "h_dtor h = None" and "h_ctor_move_dtor h = None"
    and "length dst = length src" and "raws dst" and "lives src"
  shows "case ecs_set_hooks_id False cmpt component h1 ti of (ti1, err1, _) \<Rightarrow>
    case ecs_set_hooks_id False cmpt component h ti1 of (ti2, err2, _) \<Rightarrow> err1 = None \<and> err2 = None \<and>
      h_dtor (ti_hooks ti2) = h_dtor h1 \<and>
      (h_ctor h = None \<longrightarrow> h_ctor (ti_hooks ti2) = Some Default_ctor) \<and>
      (h_cmp h = None \<longrightarrow> h_cmp (ti_hooks ti2) = Some Comp_illegal) \<and>
      returns (flecs_type_info_ctor_move_dtor ti2 dst src) (\<lambda>(r, s). r = src \<and> length s = length src \<and> lives s)"
proof -
  obtain ti1 err1 n1 where r1: "ecs_set_hooks_id False cmpt component h1 ti = (ti1, err1, n1)" by (rule prod_cases3)
  note s1 = set_hooks_run [OF assms(1,3,4) _ r1, simplified]
  obtain ti2 err2 n2 where r2: "ecs_set_hooks_id False cmpt component h ti1 = (ti2, err2, n2)" by (rule prod_cases3)
  have "ti_component ti1 \<in> {0, component}" "ti_size ti1 \<noteq> 0 \<or> (\<exists>sz al. cmpt = Some (sz, al) \<and> sz \<noteq> 0)"
    using s1(4,5) assms(3) by simp_all
  note s2 = set_hooks_run [OF assms(5) this _ r2, simplified]
  have "h_dtor (ti_hooks ti1) = h_dtor h1"
    using merge_fields(2) [OF user_fns(1) [OF assms(1)], of no_hooks] s1(2) assms(2) by (simp add: or_keep_def no_hooks_def)
  then have "h_dtor (ti_hooks ti2) = h_dtor h1" "h_ctor h = None \<longrightarrow> h_ctor (ti_hooks ti2) = Some Default_ctor"
    "h_cmp h = None \<longrightarrow> h_cmp (ti_hooks ti2) = Some Comp_illegal"
    using merge_fields(1,2,10) [OF user_fns(1) [OF assms(5)], of "ti_hooks ti1"] s2(2) assms(6,7) by (simp_all add: or_keep_def)
  with merge_twice [OF assms(5-8) s2(2) assms(9-11)] s1(1) s2(1) show ?thesis by (simp add: r1 r2)
qed

theorem ecs_set_hooks_twice_witness:
  "case ecs_set_hooks_id False None 20 counter_hooks \<lparr>ti_size = 4, ti_alignment = 4, ti_hooks = no_hooks, ti_component = 0\<rparr> of
    (ti1, err1, _) \<Rightarrow> case ecs_set_hooks_id False None 20 (counter_hooks\<lparr>h_dtor := None, h_ctor := None\<rparr>) ti1 of (ti2, err2, _) \<Rightarrow>
      needs_dtor ti2 \<and> h_ctor (ti_hooks ti2) = Some Default_ctor \<and>
      returns (flecs_type_info_ctor_move_dtor ti2 [Raw] [Live 3]) (\<lambda>(r, s). r = [Live 3] \<and> length s = 1 \<and> lives s)"
proof -
  let ?h = "counter_hooks\<lparr>h_dtor := None, h_ctor := None\<rparr>"
  have u: "user_ok ?h"
    by (auto simp: user_ok_def counter_hooks_def no_hooks_def move_ok_def lives_def Let_def)
  have h: "h_move ?h \<noteq> None" "h_dtor ?h = None" "h_ctor_move_dtor ?h = None" "h_ctor ?h = None"
    "h_dtor counter_hooks \<noteq> None"
    by (simp_all add: counter_hooks_def no_hooks_def)
  have "raws [Raw :: nat cell]" "lives [Live (3 :: nat)]" by (simp_all add: raws_def lives_def)
  then show ?thesis
    using ecs_set_hooks_twice [OF counter_hooks_ok _ _ _ u h(1-3),
        of "\<lparr>ti_size = 4, ti_alignment = 4, ti_hooks = no_hooks, ti_component = 0\<rparr>" 20 None "[Raw]" "[Live 3]"] h(4,5)
    by (simp add: split_def needs_dtor_def)
qed

text \<open>C38: While a component is in use, \<open>ecs_set_hooks_id\<close> cannot change which hooks the storage sees:
  afterwards the set of hooks, the set of illegal ones and the set of callbacks are those from
  before, and when the call fails the hooks are untouched.\<close>
theorem ecs_set_hooks_in_use:
  "case ecs_set_hooks_id True cmpt component h ti of (ti', err, _) \<Rightarrow>
    flecs_type_hooks_storage_equal (ti_hooks ti') (ti_hooks ti) \<and> (err \<noteq> None \<longrightarrow> ti_hooks ti' = ti_hooks ti)"
proof -
  have refl: "flecs_type_hooks_storage_equal x x" for x :: "'a type_hooks"
    by (simp add: flecs_type_hooks_storage_equal_def)
  show ?thesis by (auto simp: ecs_set_hooks_id_def Let_def refl split: option.splits)
qed

theorem ecs_set_hooks_in_use_witness:
  "case ecs_set_hooks_id True None 20 counter_hooks \<lparr>ti_size = 4, ti_alignment = 4, ti_hooks = no_hooks, ti_component = 20\<rparr> of
    (ti', err, _) \<Rightarrow> ti_hooks ti' = no_hooks"
proof -
  let ?ti = "\<lparr>ti_size = 4, ti_alignment = 4, ti_hooks = no_hooks, ti_component = 20\<rparr>"
  obtain ti' err nt where r: "ecs_set_hooks_id True None 20 counter_hooks ?ti = (ti', err, nt)" by (rule prod_cases3)
  have "\<not> flecs_type_hooks_storage_equal (hooks_merge counter_hooks no_hooks) no_hooks"
    by (simp add: flecs_type_hooks_storage_equal_def hooks_merge_def Let_def counter_hooks_def no_hooks_def
        ECS_TYPE_HOOKS_def ECS_TYPE_HOOKS_ILLEGAL_def default_ctors_def hooks_assign_def or_keep_def
        default_ctor_move_dtor_def default_move_dtor_def default_cmp_equals_def hooks_set_flags_def hooks_set_illegal_def flag_if_def)
  then have "err \<noteq> None" using r
    by (auto simp: ecs_set_hooks_id_def Let_def split: if_splits)
  with ecs_set_hooks_in_use [of ?ti None 20 counter_hooks] r show ?thesis by simp
qed

end
