(* ===== verification/Flecs_Bits.thy ===== *)
theory Flecs_Bits
  imports Flecs_Prelude
begin

text \<open>
  The integer routines the containers are built on (\<open>misc.c\<close>, \<open>datastructures/map.c\<close>) and the
  layout of 64-bit ids (\<open>private/api_defines.h\<close>): rounding up to a power of two on
  \<open>int32_t\<close>, the base-two logarithm by a De Bruijn table, and the index and generation halves of
  an entity id.
\<close>

unbundle bit_operations_syntax

section \<open>Smearing the highest set bit\<close>

lemma bit_smear_step:
  fixes v w :: "'a::len word"
  assumes "\<And>n. bit w n \<longleftrightarrow> (\<exists>m. n \<le> m \<and> m < n + k \<and> bit v m)"
  shows "bit (w OR drop_bit k w) n \<longleftrightarrow> (\<exists>m. n \<le> m \<and> m < n + 2 * k \<and> bit v m)"
proof -
  have "bit (w OR drop_bit k w) n \<longleftrightarrow> bit w n \<or> bit w (n + k)"
    by (simp add: bit_or_iff bit_drop_bit_eq add.commute)
  also have "\<dots> \<longleftrightarrow> (\<exists>m. n \<le> m \<and> m < n + k \<and> bit v m) \<or>
      (\<exists>m. n + k \<le> m \<and> m < n + k + k \<and> bit v m)"
    by (simp only: assms)
  also have "\<dots> \<longleftrightarrow> (\<exists>m. n \<le> m \<and> m < n + 2 * k \<and> bit v m)"
    by (auto; metis (no_types, lifting) add.assoc add_leD1 mult_2 not_le trans_less_add1)
  finally show ?thesis .
qed

lemma bit_smear_base: "bit (v :: 'a::len word) n \<longleftrightarrow> (\<exists>m. n \<le> m \<and> m < n + 1 \<and> bit v m)"
  by (metis Suc_eq_plus1 le_eq_less_or_eq less_Suc_eq_le less_irrefl not_less)

definition smear32 :: "32 word \<Rightarrow> 32 word" where
  \<comment> \<open>the five \<open>v |= v >> k\<close> steps of both routines below, on an unsigned value\<close>
  "smear32 v =
    (let v = v OR drop_bit 1 v;
         v = v OR drop_bit 2 v;
         v = v OR drop_bit 4 v;
         v = v OR drop_bit 8 v
     in v OR drop_bit 16 v)"

lemma bit_smear32: "bit (smear32 v) n \<longleftrightarrow> (\<exists>m. n \<le> m \<and> bit v m)"
proof -
  define v1 where "v1 = v OR drop_bit 1 v"
  define v2 where "v2 = v1 OR drop_bit 2 v1"
  define v4 where "v4 = v2 OR drop_bit 4 v2"
  define v8 where "v8 = v4 OR drop_bit 8 v4"
  note defs = v1_def v2_def v4_def v8_def
  have 1: "bit v1 n \<longleftrightarrow> (\<exists>m. n \<le> m \<and> m < n + 2 \<and> bit v m)" for n
    using bit_smear_step [OF bit_smear_base, of v n] by (simp add: v1_def)
  have 2: "bit v2 n \<longleftrightarrow> (\<exists>m. n \<le> m \<and> m < n + 4 \<and> bit v m)" for n
    using bit_smear_step [OF 1, of n] by (simp add: v2_def)
  have 4: "bit v4 n \<longleftrightarrow> (\<exists>m. n \<le> m \<and> m < n + 8 \<and> bit v m)" for n
    using bit_smear_step [OF 2, of n] by (simp add: v4_def)
  have 8: "bit v8 n \<longleftrightarrow> (\<exists>m. n \<le> m \<and> m < n + 16 \<and> bit v m)" for n
    using bit_smear_step [OF 4, of n] by (simp add: v8_def)
  have "bit (smear32 v) n \<longleftrightarrow> (\<exists>m. n \<le> m \<and> m < n + 32 \<and> bit v m)"
    using bit_smear_step [OF 8, of n] by (simp add: smear32_def Let_def defs)
  moreover have "bit v m \<Longrightarrow> m < 32" for m
    using bit_imp_le_length by force
  ultimately show ?thesis by (auto; metis trans_less_add2)
qed

lemma bit_iff_div: "bit (v :: 'a::len word) m \<longleftrightarrow> odd (unat v div 2 ^ m)"
  by (metis bit_iff_odd bit_unsigned_iff possible_bit_nat)

lemma smear32_mask:
  assumes lo: "2 ^ h \<le> unat v" and hi: "unat v < 2 ^ Suc h"
  shows "smear32 v = mask (Suc h)"
proof (rule bit_word_eqI)
  fix n assume n: "n < LENGTH(32)"
  have "unat v div 2 ^ h = 1"
    using lo hi by (simp add: div_nat_eqI)
  then have top: "bit v h" by (simp add: bit_iff_div)
  have above: "\<not> bit v m" if "h < m" for m
  proof -
    have "(2::nat) ^ Suc h \<le> 2 ^ m" using that by (intro power_increasing) auto
    with hi have "unat v div 2 ^ m = 0" by simp
    then show ?thesis by (simp add: bit_iff_div)
  qed
  have "bit (smear32 v) n \<longleftrightarrow> n \<le> h"
    using top above by (auto simp: bit_smear32) (meson le_less_trans not_le)
  then show "bit (smear32 v) n \<longleftrightarrow> bit (mask (Suc h) :: 32 word) n"
    using n by (auto simp: bit_mask_iff)
qed

section \<open>\<open>flecs_log2\<close>: the base-two logarithm of a 32-bit value\<close>

definition log2table :: "nat list" where
  "log2table =
    [0, 9,  1,  10, 13, 21, 2,  29, 11, 14, 16, 18, 22, 25, 3, 30,
     8, 12, 20, 28, 15, 17, 24, 7,  19, 27, 23, 6,  26, 5,  4, 31]"

definition flecs_log2 :: "32 word \<Rightarrow> nat" where
  "flecs_log2 v =
    (let v = v OR drop_bit 1 v;
         v = v OR drop_bit 2 v;
         v = v OR drop_bit 4 v;
         v = v OR drop_bit 8 v;
         v = v OR drop_bit 16 v
     in log2table ! unat (drop_bit 27 (v * 0x07C4ACDD)))"

lemma flecs_log2_smear: "flecs_log2 v = log2table ! unat (drop_bit 27 (smear32 v * 0x07C4ACDD))"
  by (simp add: flecs_log2_def smear32_def Let_def)

lemma log2table_mask:
  "h < 32 \<Longrightarrow> log2table ! unat (drop_bit 27 (mask (Suc h) * 0x07C4ACDD :: 32 word)) = h"
proof -
  assume "h < 32"
  then have "h \<in> set [0..<32]" by simp
  moreover have "\<forall>h \<in> set [0..<32].
      log2table ! unat (drop_bit 27 (mask (Suc h) * 0x07C4ACDD :: 32 word)) = h"
    by code_simp
  ultimately show ?thesis by blast
qed

lemma flecs_log2_eq:
  assumes "2 ^ h \<le> unat v" and "unat v < 2 ^ Suc h"
  shows "flecs_log2 v = h"
proof -
  have "(2::nat) ^ h < 2 ^ 32"
    using assms(1) unsigned_less [of v, where ?'a = nat] by simp
  then have "h < 32" by (rule power_less_imp_less_exp [rotated]) simp
  then show ?thesis
    using assms by (simp add: flecs_log2_smear smear32_mask log2table_mask)
qed

lemma unat_pow2: "k < 32 \<Longrightarrow> unat (2 ^ k :: 32 word) = 2 ^ k"
proof -
  assume "k < 32"
  then have "(2::nat) ^ k < 2 ^ 32" by (intro power_strict_increasing) auto
  then have "unat (of_nat (2 ^ k) :: 32 word) = 2 ^ k" by (simp only: unat_of_nat) simp
  then show ?thesis by simp
qed

lemma flecs_log2_pow2: "k < 32 \<Longrightarrow> flecs_log2 (2 ^ k) = k"
  by (rule flecs_log2_eq) (simp_all add: unat_pow2)

section \<open>\<open>flecs_next_pow_of_2\<close>: the next power of two of an \<open>int32_t\<close>\<close>

definition flecs_next_pow_of_2 :: "int \<Rightarrow> int" where
  \<comment> \<open>the last \<open>n ++\<close> is undefined in C at \<open>INT32_MAX\<close>, for arguments above \<open>2 ^ 30\<close>; here it wraps, as it
    does in two's complement\<close>
  "flecs_next_pow_of_2 n =
    (let n = (word_of_int n :: 32 word) - 1;
         n = n OR signed_drop_bit 1 n;
         n = n OR signed_drop_bit 2 n;
         n = n OR signed_drop_bit 4 n;
         n = n OR signed_drop_bit 8 n;
         n = n OR signed_drop_bit 16 n
     in sint (n + 1))"

lemma signed_drop_bit_nonneg: "\<not> bit (w :: 32 word) 31 \<Longrightarrow> signed_drop_bit k w = drop_bit k w"
proof (rule bit_word_eqI)
  fix n assume "\<not> bit w 31" "n < LENGTH(32)"
  moreover have "\<not> bit w m" if "32 \<le> m" for m
    using that bit_imp_le_length [of w m] by auto
  ultimately show "bit (signed_drop_bit k w) n \<longleftrightarrow> bit (drop_bit k w) n"
    by (auto simp: bit_signed_drop_bit_iff bit_drop_bit_eq)
qed

lemma next_pow_of_2_smear:
  assumes "\<not> bit ((word_of_int n :: 32 word) - 1) 31"
  shows "flecs_next_pow_of_2 n = sint (smear32 (word_of_int n - 1) + 1)"
proof -
  define w where "w = (word_of_int n :: 32 word) - 1"
  define w1 where "w1 = w OR drop_bit 1 w"
  define w2 where "w2 = w1 OR drop_bit 2 w1"
  define w4 where "w4 = w2 OR drop_bit 4 w2"
  define w8 where "w8 = w4 OR drop_bit 8 w4"
  have step: "\<not> bit (v OR drop_bit k v) 31" if "\<not> bit v 31" for v :: "32 word" and k
    using that bit_imp_le_length [of v "k + 31"]
    by (auto simp: bit_or_iff bit_drop_bit_eq)
  have msb: "\<not> bit w 31" "\<not> bit w1 31" "\<not> bit w2 31" "\<not> bit w4 31" "\<not> bit w8 31"
    using assms by (auto simp only: w_def w1_def w2_def w4_def w8_def intro!: step)
  have "flecs_next_pow_of_2 n = sint ((w8 OR drop_bit 16 w8) + 1)"
    unfolding flecs_next_pow_of_2_def Let_def w_def [symmetric]
    by (simp only: msb signed_drop_bit_nonneg not_False_eq_True w1_def [symmetric] w2_def [symmetric]
        w4_def [symmetric] w8_def [symmetric])
  also have "w8 OR drop_bit 16 w8 = smear32 w"
    by (simp only: smear32_def Let_def w1_def w2_def w4_def w8_def)
  finally show ?thesis by (simp only: w_def)
qed

lemma unat_word_of_int_minus_1:
  assumes "0 < n" and "n \<le> 2 ^ 31"
  shows "unat ((word_of_int n :: 32 word) - 1) = nat (n - 1)"
proof -
  have eq: "(word_of_int n :: 32 word) - 1 = word_of_int (n - 1)" by simp
  show ?thesis unfolding eq unsigned_of_int
    using assms by (simp add: take_bit_int_eq_self)
qed

lemma sint_nonneg_word:
  assumes "unat (w :: 32 word) < 2 ^ 31"
  shows "sint w = int (unat w)"
proof -
  have "uint w = int (unat w)" by simp
  with assms show ?thesis
    by (simp add: sint_uint signed_take_bit_int_eq_self del: of_nat_unat)
qed

lemma next_pow_of_2_eq:
  assumes lo: "2 ^ h < n" and hi: "n \<le> 2 ^ Suc h" and b: "n \<le> 2 ^ 30"
  shows "flecs_next_pow_of_2 n = 2 ^ Suc h"
proof -
  let ?w = "(word_of_int n :: 32 word) - 1"
  have n0: "0 < n" using lo by (meson less_trans zero_less_numeral zero_less_power)
  have u: "unat ?w = nat (n - 1)" using n0 b by (intro unat_word_of_int_minus_1) auto
  have "(2::int) ^ h < 2 ^ 30" using lo b by linarith
  then have h: "h < 30" by (rule power_less_imp_less_exp [rotated]) simp
  have "2 ^ h \<le> unat ?w" using lo u by (simp add: nat_le_eq_zle le_nat_iff)
  moreover have "unat ?w < 2 ^ Suc h" using hi u n0 by (simp add: nat_less_iff)
  ultimately have sm: "smear32 ?w = mask (Suc h)" by (rule smear32_mask)
  have "unat ?w < 2 ^ 31" using u b n0 by simp
  then have "unat ?w div 2 ^ 31 = 0" by simp
  then have "\<not> bit ?w 31" by (simp only: bit_iff_div) simp
  then have eq: "flecs_next_pow_of_2 n = sint (mask (Suc h) + 1 :: 32 word)"
    by (simp add: next_pow_of_2_smear sm)
  have "(mask (Suc h) + 1 :: 32 word) = 2 ^ Suc h" by (simp add: mask_eq_decr_exp)
  moreover have "(2::nat) ^ Suc h < 2 ^ 31" using h by (intro power_strict_increasing) auto
  ultimately show ?thesis
    using h by (simp add: eq sint_nonneg_word unat_pow2 flip: power_Suc)
qed

lemma next_pow_of_2_1: "flecs_next_pow_of_2 1 = 1"
  by code_simp

lemma next_pow_of_2_0: "flecs_next_pow_of_2 0 = 0"
  by code_simp

lemma next_pow_of_2_bounds:
  assumes "1 \<le> n" and "n \<le> 2 ^ 30"
  shows "\<exists>k \<le> 30. flecs_next_pow_of_2 n = 2 ^ k \<and> n \<le> 2 ^ k \<and> 2 ^ k < 2 * n"
proof (cases "n = 1")
  case True
  then show ?thesis by (intro exI [of _ 0]) (simp add: next_pow_of_2_1)
next
  case False
  with assms have "1 < n" by simp
  define h where "h = (LEAST k. n \<le> 2 ^ Suc k)"
  have ex: "n \<le> 2 ^ Suc 29" using assms by simp
  have le: "n \<le> 2 ^ Suc h" unfolding h_def by (rule LeastI [where P = "\<lambda>k. n \<le> 2 ^ Suc k", OF ex])
  have "h \<le> 29" unfolding h_def by (rule Least_le) (rule ex)
  moreover have gt: "2 ^ h < n"
  proof (cases h)
    case 0 with \<open>1 < n\<close> show ?thesis by simp
  next
    case (Suc j)
    then have "\<not> n \<le> 2 ^ Suc j" unfolding h_def by (metis lessI not_less_Least)
    with Suc show ?thesis by simp
  qed
  ultimately show ?thesis
    using next_pow_of_2_eq [OF gt le assms(2)] le
    by (intro exI [of _ "Suc h"]) auto
qed

section \<open>Entity ids: index and generation\<close>

type_synonym ecs_entity = "64 word"

definition ECS_GENERATION_MASK :: "64 word" where
  "ECS_GENERATION_MASK = push_bit 32 0xFFFF"

definition ECS_GENERATION :: "64 word \<Rightarrow> 64 word" where
  "ECS_GENERATION e = drop_bit 32 (e AND ECS_GENERATION_MASK)"

definition ECS_GENERATION_INC :: "64 word \<Rightarrow> 64 word" where
  "ECS_GENERATION_INC e =
    (e AND NOT ECS_GENERATION_MASK) OR push_bit 32 (0xFFFF AND (ECS_GENERATION e + 1))"

definition id_index :: "64 word \<Rightarrow> 32 word" where
  \<comment> \<open>the cast \<open>(uint32_t)e\<close>\<close>
  "id_index e = ucast e"

lemma bit_0xFFFF: "bit (0xFFFF :: 64 word) n \<longleftrightarrow> n < 16"
proof -
  have eq: "(0xFFFF :: 64 word) = mask 16" by (simp add: mask_eq_exp_minus_1)
  show ?thesis unfolding eq by (simp only: bit_mask_iff) auto
qed

lemma bit_GENERATION_MASK: "bit ECS_GENERATION_MASK n \<longleftrightarrow> 32 \<le> n \<and> n < 48"
  by (simp only: ECS_GENERATION_MASK_def bit_push_bit_iff bit_0xFFFF) auto

lemma bit_GENERATION: "bit (ECS_GENERATION e) n \<longleftrightarrow> n < 16 \<and> bit e (n + 32)"
  by (auto simp: ECS_GENERATION_def bit_drop_bit_eq bit_and_iff bit_GENERATION_MASK add.commute)

lemma bit_GENERATION_INC:
  "n < 64 \<Longrightarrow> bit (ECS_GENERATION_INC e) n \<longleftrightarrow>
    (if 32 \<le> n \<and> n < 48 then bit (ECS_GENERATION e + 1) (n - 32) else bit e n)"
  by (simp only: ECS_GENERATION_INC_def bit_or_iff bit_and_iff bit_not_iff bit_push_bit_iff
      bit_GENERATION_MASK bit_0xFFFF) auto

lemma id_index_GENERATION_INC [simp]: "id_index (ECS_GENERATION_INC e) = id_index e"
  by (rule bit_word_eqI) (simp add: id_index_def bit_ucast_iff bit_GENERATION_INC)

lemma GENERATION_take_bit: "ECS_GENERATION e = take_bit 16 (drop_bit 32 e)"
  by (rule bit_word_eqI) (auto simp: bit_GENERATION bit_take_bit_iff bit_drop_bit_eq add.commute)

lemma GENERATION_INC_gen:
  "ECS_GENERATION (ECS_GENERATION_INC e) = take_bit 16 (ECS_GENERATION e + 1)"
  by (rule bit_word_eqI) (auto simp: bit_GENERATION bit_take_bit_iff bit_GENERATION_INC)

lemma unat_GENERATION_less: "unat (ECS_GENERATION e) < 2 ^ 16"
  unfolding GENERATION_take_bit unsigned_take_bit_eq by (rule take_bit_nat_less_exp)

lemma unat_GENERATION_INC:
  "unat (ECS_GENERATION (ECS_GENERATION_INC e)) = (unat (ECS_GENERATION e) + 1) mod 2 ^ 16"
proof -
  have "unat (ECS_GENERATION e + 1) = unat (ECS_GENERATION e) + 1"
    using unat_GENERATION_less [of e]
    by (subst unat_word_ariths) simp
  then show ?thesis
    unfolding GENERATION_INC_gen unsigned_take_bit_eq by (simp only: take_bit_eq_mod)
qed

lemma GENERATION_INC_neq [simp]: "ECS_GENERATION_INC e \<noteq> e"
proof
  assume "ECS_GENERATION_INC e = e"
  then have "unat (ECS_GENERATION e) = (unat (ECS_GENERATION e) + 1) mod 2 ^ 16"
    using unat_GENERATION_INC [of e] by simp
  with unat_GENERATION_less [of e] show False
    by (cases "unat (ECS_GENERATION e) = 65535") simp_all
qed

section \<open>Properties\<close>

lemma next_pow_of_2_overflow:
  assumes "2 ^ 30 < n" and "n < 2 ^ 31"
  shows "flecs_next_pow_of_2 n = - (2 ^ 31)"
proof -
  let ?w = "(word_of_int n :: 32 word) - 1"
  have u: "unat ?w = nat (n - 1)" using assms by (intro unat_word_of_int_minus_1) auto
  have "smear32 ?w = mask (Suc 30)"
    using u assms by (intro smear32_mask) (simp_all add: le_nat_iff nat_less_iff)
  moreover have "unat ?w div 2 ^ 31 = 0" using u assms by (simp add: nat_less_iff)
  then have "\<not> bit ?w 31" by (simp only: bit_iff_div) simp
  moreover have "sint (mask (Suc 30) + 1 :: 32 word) = - (2 ^ 31)"
    by (simp add: mask_eq_exp_minus_1)
  ultimately show ?thesis by (simp add: next_pow_of_2_smear)
qed

text \<open>C25: \<open>flecs_next_pow_of_2\<close>, computed with shifts on a wrapping \<open>int32_t\<close>, returns the least power
  of two that is not below its argument for every argument from 1 to 2 to the 30; above that, the
  power does not fit and the result wraps around to the most negative value.\<close>

theorem flecs_next_pow_of_2_least:
  assumes "1 \<le> n" and "n < 2 ^ 31"
  shows "if n \<le> 2 ^ 30
    then \<exists>k \<le> 30. flecs_next_pow_of_2 n = 2 ^ k \<and> n \<le> 2 ^ k \<and> 2 ^ k < 2 * n
    else flecs_next_pow_of_2 n = - (2 ^ 31)"
  using next_pow_of_2_bounds [OF assms(1)] next_pow_of_2_overflow [OF _ assms(2)] by simp

lemma flecs_next_pow_of_2_least_witness:
  "flecs_next_pow_of_2 2147483647 = - 2147483648 \<and> (\<exists>k \<le> 30. flecs_next_pow_of_2 1000 = 2 ^ k)"
  using flecs_next_pow_of_2_least [of 2147483647] flecs_next_pow_of_2_least [of 1000] by auto

text \<open>C26: \<open>flecs_log2\<close>, which smears the highest bit and looks the product with a De Bruijn constant
  up in a table, is the integer base-two logarithm of every non-zero 32-bit value.\<close>

theorem flecs_log2_correct:
  assumes "0 < v"
  shows "2 ^ flecs_log2 v \<le> unat v \<and> unat v < 2 ^ Suc (flecs_log2 v)"
proof -
  have pos: "1 \<le> unat v" using assms by (simp add: word_less_nat_alt Suc_le_eq)
  from ex_power_ivl1 [of 2 "unat v"] pos obtain h where "2 ^ h \<le> unat v" "unat v < 2 ^ Suc h" by auto
  with flecs_log2_eq [of h v] show ?thesis by simp
qed

lemma flecs_log2_correct_witness: "2 ^ flecs_log2 1000 \<le> (1000::nat) \<and> (1000::nat) < 2 ^ Suc (flecs_log2 1000)"
  using flecs_log2_correct [of 1000] by simp

text \<open>C24: Recycling an entity id: \<open>ECS_GENERATION_INC\<close> leaves the 32-bit index alone, adds one to
  the generation modulo 65536, touches no bit outside of the generation field, and so never returns
  the id it was given.\<close>

theorem ECS_GENERATION_INC_correct:
  "id_index (ECS_GENERATION_INC e) = id_index e \<and>
   unat (ECS_GENERATION (ECS_GENERATION_INC e)) = (unat (ECS_GENERATION e) + 1) mod 65536 \<and>
   drop_bit 48 (ECS_GENERATION_INC e) = drop_bit 48 e \<and>
   ECS_GENERATION_INC e \<noteq> e"
proof -
  have "drop_bit 48 (ECS_GENERATION_INC e) = drop_bit 48 e"
  proof (rule bit_word_eqI)
    fix n
    have "48 + n < 64 \<or> (\<not> bit (ECS_GENERATION_INC e) (48 + n) \<and> \<not> bit e (48 + n))"
      using bit_imp_le_length [of "ECS_GENERATION_INC e" "48 + n"] bit_imp_le_length [of e "48 + n"]
      by auto
    then show "bit (drop_bit 48 (ECS_GENERATION_INC e)) n = bit (drop_bit 48 e) n"
      by (auto simp: bit_drop_bit_eq bit_GENERATION_INC)
  qed
  then show ?thesis using unat_GENERATION_INC [of e] by simp
qed

end
