(* ===== verification/Flecs_Vec.thy ===== *)
theory Flecs_Vec
  imports Flecs_Bits Type_Hooks
begin

text \<open>
  \<open>datastructures/vec.c\<close>: the growable array every container of the library stores its elements
  in. A vector is its allocated slots (\<open>vec_array\<close>, the empty list for a \<open>NULL\<close> array), the
  number of used slots and the number of allocated slots. The elements are values of type
  \<open>'a\<close>, so the element size the C functions take is not an argument here; slots that the
  allocator returns uninitialised hold \<open>undefined\<close>. \<open>vec_list\<close> is the abstract content, and
  the operations are shown to be the list operations on it. The \<open>int32_t\<close> product of element size and
  number of slots that sizes the allocation is therefore not computed; the theorems are about vectors
  for which it does not overflow. \<open>ecs_vec_set_count_w_type_info\<close>
  runs the lifecycle hooks of \<open>Type_Hooks\<close> on slots that are raw or hold a constructed value.
\<close>

section \<open>State\<close>

record 'a ecs_vec =
  vec_array :: "'a list"
  vec_count :: int
  vec_size :: int

definition vec_ok :: "'a ecs_vec \<Rightarrow> bool" where
  "vec_ok v \<longleftrightarrow>
    0 \<le> vec_count v \<and> vec_count v \<le> vec_size v \<and> vec_size v = int (length (vec_array v)) \<and>
    vec_size v \<le> 2 ^ 30"

definition vec_list :: "'a ecs_vec \<Rightarrow> 'a list" where
  "vec_list v = take (nat (vec_count v)) (vec_array v)"

section \<open>Operations\<close>

definition flecs_vec_alloc :: "int \<Rightarrow> 'a list" where
  "flecs_vec_alloc elem_count = (if elem_count \<noteq> 0 then replicate (nat elem_count) undefined else [])"

definition ecs_vec_init :: "int \<Rightarrow> 'a ecs_vec" where
  "ecs_vec_init elem_count =
    \<lparr>vec_array = flecs_vec_alloc elem_count, vec_count = 0, vec_size = elem_count\<rparr>"

definition ecs_vec_fini :: "'a ecs_vec \<Rightarrow> 'a ecs_vec" where
  "ecs_vec_fini v =
    (if vec_array v \<noteq> [] then \<lparr>vec_array = [], vec_count = 0, vec_size = 0\<rparr> else v)"

definition ecs_vec_clear :: "'a ecs_vec \<Rightarrow> 'a ecs_vec" where
  "ecs_vec_clear v = v\<lparr>vec_count := 0\<rparr>"

definition ecs_vec_reset :: "'a ecs_vec \<Rightarrow> 'a ecs_vec" where
  "ecs_vec_reset v = (if vec_size v = 0 then ecs_vec_init 0 else ecs_vec_clear v)"

definition ecs_vec_copy :: "'a ecs_vec \<Rightarrow> 'a ecs_vec" where
  "ecs_vec_copy v =
    \<lparr>vec_array = vec_array v, vec_count = vec_count v, vec_size = vec_size v\<rparr>"

definition ecs_vec_reclaim :: "'a ecs_vec \<Rightarrow> 'a ecs_vec" where
  "ecs_vec_reclaim v =
    (let count = vec_count v in
     if count < vec_size v then
       if count \<noteq> 0 then v\<lparr>vec_array := take (nat count) (vec_array v), vec_size := count\<rparr>
       else ecs_vec_fini v
     else v)"

definition ecs_vec_set_size :: "'a ecs_vec \<Rightarrow> int \<Rightarrow> 'a ecs_vec" where
  "ecs_vec_set_size v elem_count =
    (if vec_size v \<noteq> elem_count then
       let elem_count = (if elem_count < vec_count v then vec_count v else elem_count);
           elem_count = flecs_next_pow_of_2 elem_count;
           elem_count = (if elem_count < 2 then 2 else elem_count)
       in if elem_count \<noteq> vec_size v
          then v\<lparr>vec_array := list_resize (nat elem_count) (vec_array v), vec_size := elem_count\<rparr>
          else v
     else v)"

definition ecs_vec_set_min_size :: "'a ecs_vec \<Rightarrow> int \<Rightarrow> 'a ecs_vec" where
  "ecs_vec_set_min_size v elem_count =
    (if elem_count > vec_size v then ecs_vec_set_size v elem_count else v)"

definition ecs_vec_set_min_count :: "'a ecs_vec \<Rightarrow> int \<Rightarrow> 'a ecs_vec" where
  "ecs_vec_set_min_count v elem_count =
    (let v = ecs_vec_set_min_size v elem_count
     in if vec_count v < elem_count then v\<lparr>vec_count := elem_count\<rparr> else v)"

definition mem_fill :: "'a list \<Rightarrow> nat \<Rightarrow> nat \<Rightarrow> 'a \<Rightarrow> 'a list result" where
  \<comment> \<open>\<open>ecs_os_memset\<close> on \<open>n\<close> elements from index \<open>i\<close>\<close>
  "mem_fill xs i n z =
    (if i + n \<le> length xs then Inr (take i xs @ replicate n z @ drop (i + n) xs) else Inl Bad_Access)"

definition ecs_vec_set_min_count_zeromem :: "'a \<Rightarrow> 'a ecs_vec \<Rightarrow> int \<Rightarrow> 'a ecs_vec result" where
  "ecs_vec_set_min_count_zeromem zero v elem_count =
    (let count = vec_count v in
     if count < elem_count then
       let v = ecs_vec_set_min_count v elem_count in
       bindR (mem_fill (vec_array v) (nat count) (nat (elem_count - count)) zero)
         (\<lambda>a. Inr (v\<lparr>vec_array := a\<rparr>))
     else Inr v)"

definition ecs_vec_set_count :: "'a ecs_vec \<Rightarrow> int \<Rightarrow> 'a ecs_vec" where
  "ecs_vec_set_count v elem_count =
    (if vec_count v \<noteq> elem_count then
       let v = (if vec_size v < elem_count then ecs_vec_set_size v elem_count else v)
       in v\<lparr>vec_count := elem_count\<rparr>
     else v)"

definition ecs_vec_grow :: "'a ecs_vec \<Rightarrow> int \<Rightarrow> ('a ecs_vec \<times> int) result" where
  \<comment> \<open>the pointer returned is the index of the first added slot\<close>
  "ecs_vec_grow v elem_count =
    ecs_assert (elem_count \<ge> 0) ECS_INTERNAL_ERROR
      (let count = vec_count v in Inr (ecs_vec_set_count v (count + elem_count), count))"

definition ecs_vec_append :: "'a ecs_vec \<Rightarrow> 'a ecs_vec \<times> int" where
  "ecs_vec_append v =
    (let count = vec_count v;
         v = (if vec_size v = count then ecs_vec_set_size v (count + 1) else v)
     in (v\<lparr>vec_count := count + 1\<rparr>, count))"

definition vec_store :: "'a ecs_vec \<Rightarrow> int \<Rightarrow> 'a \<Rightarrow> 'a ecs_vec result" where
  \<comment> \<open>a write through a pointer into the array\<close>
  "vec_store v i x =
    (if i < 0 then Inl Bad_Access
     else bindR (arr_set (vec_array v) (nat i) x) (\<lambda>a. Inr (v\<lparr>vec_array := a\<rparr>)))"

definition vec_load :: "'a ecs_vec \<Rightarrow> int \<Rightarrow> 'a result" where
  \<comment> \<open>a read through a pointer into the array\<close>
  "vec_load v i = (if i < 0 then Inl Bad_Access else arr_get (vec_array v) (nat i))"

definition vec_push :: "'a ecs_vec \<Rightarrow> 'a \<Rightarrow> 'a ecs_vec result" where
  \<comment> \<open>the idiom \<open>ecs_vec_append_t(a, v, T)[0] = x\<close> of the callers\<close>
  "vec_push v x = (case ecs_vec_append v of (v, p) \<Rightarrow> vec_store v p x)"

definition ecs_vec_remove :: "'a ecs_vec \<Rightarrow> int \<Rightarrow> 'a ecs_vec result" where
  "ecs_vec_remove v index =
    ecs_assert (index < vec_count v) ECS_OUT_OF_RANGE
      (let v = v\<lparr>vec_count := vec_count v - 1\<rparr> in
       if index = vec_count v then Inr v
       else bindR (vec_load v (vec_count v)) (\<lambda>x. vec_store v index x))"

definition ecs_vec_remove_last :: "'a ecs_vec \<Rightarrow> 'a ecs_vec" where
  "ecs_vec_remove_last v = v\<lparr>vec_count := vec_count v - 1\<rparr>"

definition mem_move_down :: "'a list \<Rightarrow> nat \<Rightarrow> nat \<Rightarrow> 'a list result" where
  \<comment> \<open>\<open>memmove\<close> of the \<open>n\<close> elements after index \<open>i\<close> one slot down\<close>
  "mem_move_down xs i n =
    (if i + 1 + n \<le> length xs
     then Inr (take i xs @ take n (drop (Suc i) xs) @ drop (i + n) xs)
     else Inl Bad_Access)"

definition ecs_vec_remove_ordered :: "'a ecs_vec \<Rightarrow> int \<Rightarrow> 'a ecs_vec result" where
  "ecs_vec_remove_ordered v index =
    ecs_assert (index < vec_count v) ECS_OUT_OF_RANGE
      (let new_count = vec_count v - 1;
           v = v\<lparr>vec_count := new_count\<rparr> in
       if index = new_count then Inr v
       else if index < 0 then Inl Bad_Access
       else bindR (mem_move_down (vec_array v) (nat index) (nat (new_count - index)))
              (\<lambda>a. Inr (v\<lparr>vec_array := a\<rparr>)))"

definition ecs_vec_get :: "'a ecs_vec \<Rightarrow> int \<Rightarrow> 'a result" where
  "ecs_vec_get v index =
    ecs_assert (index \<ge> 0) ECS_OUT_OF_RANGE
      (ecs_assert (index < vec_count v) ECS_OUT_OF_RANGE (vec_load v index))"

definition ecs_vec_last :: "'a ecs_vec \<Rightarrow> 'a result" where
  "ecs_vec_last v = vec_load v (vec_count v - 1)"

lemmas vec_defs = ecs_vec_init_def ecs_vec_fini_def ecs_vec_clear_def ecs_vec_reset_def
  ecs_vec_copy_def ecs_vec_reclaim_def ecs_vec_set_min_size_def ecs_vec_set_min_count_def
  ecs_vec_set_count_def ecs_vec_grow_def ecs_vec_append_def vec_store_def vec_load_def vec_push_def
  ecs_vec_remove_def ecs_vec_remove_last_def ecs_vec_remove_ordered_def ecs_vec_get_def
  ecs_vec_last_def Let_def

section \<open>Capacity\<close>

lemma vec_set_size_ok:
  assumes ok: "vec_ok v" and n: "0 \<le> n" "n \<le> 2 ^ 30"
  shows "vec_ok (ecs_vec_set_size v n) \<and> vec_list (ecs_vec_set_size v n) = vec_list v \<and>
    vec_count (ecs_vec_set_size v n) = vec_count v \<and> n \<le> vec_size (ecs_vec_set_size v n)"
proof (cases "vec_size v = n")
  case True
  with ok show ?thesis by (simp add: ecs_vec_set_size_def)
next
  case False
  define m where "m = (if n < vec_count v then vec_count v else n)"
  define p where "p = (if flecs_next_pow_of_2 m < 2 then 2 else flecs_next_pow_of_2 m)"
  have m: "0 \<le> m" "m \<le> 2 ^ 30" "n \<le> m" "vec_count v \<le> m"
    using ok n by (auto simp: m_def vec_ok_def)
  have p: "m \<le> p" "p \<le> 2 ^ 30"
  proof -
    have "m = 0 \<or> (\<exists>k \<le> 30. flecs_next_pow_of_2 m = 2 ^ k \<and> m \<le> 2 ^ k)"
      using next_pow_of_2_bounds [of m] m by force
    moreover have "k \<le> 30 \<Longrightarrow> (2::int) ^ k \<le> 2 ^ 30" for k
      by (rule power_increasing) auto
    ultimately show "m \<le> p" "p \<le> 2 ^ 30"
      by (auto simp: p_def next_pow_of_2_0)
  qed
  have eq: "ecs_vec_set_size v n =
      (if p \<noteq> vec_size v then v\<lparr>vec_array := list_resize (nat p) (vec_array v), vec_size := p\<rparr> else v)"
    using False by (simp add: ecs_vec_set_size_def Let_def m_def p_def)
  show ?thesis
    using ok m p unfolding eq by (auto simp: vec_ok_def vec_list_def list_resize_def)
qed

section \<open>Contents\<close>

lemma length_vec_list: "vec_ok v \<Longrightarrow> length (vec_list v) = nat (vec_count v)"
  by (auto simp: vec_ok_def vec_list_def)

lemma vec_count_length: "vec_ok v \<Longrightarrow> vec_count v = int (length (vec_list v))"
  by (auto simp: vec_ok_def vec_list_def)

lemma vec_list_nth: "vec_ok v \<Longrightarrow> i < length (vec_list v) \<Longrightarrow> vec_list v ! i = vec_array v ! i"
  by (simp add: vec_list_def)

lemma vec_init_ok:
  "0 \<le> n \<Longrightarrow> n \<le> 2 ^ 30 \<Longrightarrow> vec_ok (ecs_vec_init n) \<and> vec_list (ecs_vec_init n) = []"
  by (simp add: vec_ok_def vec_list_def ecs_vec_init_def flecs_vec_alloc_def)

lemma vec_clear_ok: "vec_ok v \<Longrightarrow> vec_ok (ecs_vec_clear v) \<and> vec_list (ecs_vec_clear v) = []"
  by (simp add: vec_ok_def vec_list_def ecs_vec_clear_def)

lemma vec_fini_ok: "vec_ok v \<Longrightarrow> vec_ok (ecs_vec_fini v) \<and> vec_list (ecs_vec_fini v) = []"
  by (auto simp: vec_ok_def vec_list_def ecs_vec_fini_def)

lemma vec_reset_ok: "vec_ok v \<Longrightarrow> vec_ok (ecs_vec_reset v) \<and> vec_list (ecs_vec_reset v) = []"
  by (simp add: ecs_vec_reset_def vec_init_ok vec_clear_ok)

lemma vec_copy_ok: "ecs_vec_copy v = v"
  by (simp add: ecs_vec_copy_def)

lemma vec_reclaim_ok:
  "vec_ok v \<Longrightarrow> vec_ok (ecs_vec_reclaim v) \<and> vec_list (ecs_vec_reclaim v) = vec_list v \<and>
    vec_size (ecs_vec_reclaim v) = vec_count v"
  by (auto simp: vec_ok_def vec_list_def ecs_vec_reclaim_def ecs_vec_fini_def Let_def)

lemma vec_set_count_ok:
  assumes "vec_ok v" "0 \<le> n" "n \<le> 2 ^ 30"
  shows "vec_ok (ecs_vec_set_count v n) \<and> vec_count (ecs_vec_set_count v n) = n \<and>
    (\<forall>i < nat n. i < length (vec_list v) \<longrightarrow> vec_list (ecs_vec_set_count v n) ! i = vec_list v ! i)"
proof (cases "vec_size v < n")
  case True
  with vec_set_size_ok [OF assms] assms(1) show ?thesis
    by (auto simp: ecs_vec_set_count_def Let_def vec_ok_def vec_list_def list_eq_iff_nth_eq)
next
  case False
  with assms show ?thesis
    by (auto simp: ecs_vec_set_count_def Let_def vec_ok_def vec_list_def)
qed

lemma vec_append_ok:
  assumes ok: "vec_ok v" and n: "vec_count v < 2 ^ 30"
  shows "case ecs_vec_append v of (w, p) \<Rightarrow> vec_ok w \<and> p = vec_count v \<and>
    vec_count w = vec_count v + 1 \<and> take (nat p) (vec_array w) = vec_list v"
proof (cases "vec_size v = vec_count v")
  case True
  have "0 \<le> vec_count v + 1" "vec_count v + 1 \<le> 2 ^ 30" using ok n by (auto simp: vec_ok_def)
  from vec_set_size_ok [OF ok this] True ok show ?thesis
    by (auto simp: ecs_vec_append_def Let_def vec_ok_def vec_list_def)
next
  case False
  with ok show ?thesis by (auto simp: ecs_vec_append_def Let_def vec_ok_def vec_list_def)
qed

lemma vec_push_ok:
  assumes ok: "vec_ok v" and n: "vec_count v < 2 ^ 30"
  shows "returns (vec_push v x) (\<lambda>w. vec_ok w \<and> vec_list w = vec_list v @ [x])"
proof -
  obtain w p where a: "ecs_vec_append v = (w, p)" by fastforce
  from vec_append_ok [OF ok n] have w: "vec_ok w" "p = vec_count v" "vec_count w = vec_count v + 1"
    "take (nat p) (vec_array w) = vec_list v" unfolding a by auto
  have p: "0 \<le> p" "nat p < length (vec_array w)" using w ok by (auto simp: vec_ok_def)
  have "nat (p + 1) = Suc (nat p)" using p by simp
  then have "vec_list (w\<lparr>vec_array := (vec_array w)[nat p := x]\<rparr>) = vec_list v @ [x]"
    using w p by (simp add: vec_list_def take_Suc_conv_app_nth)
  then show ?thesis
    using w p by (simp add: vec_push_def a vec_store_def vec_ok_def)
qed

lemma vec_get_ok: "vec_ok v \<Longrightarrow> i < length (vec_list v) \<Longrightarrow> ecs_vec_get v (int i) = Inr (vec_list v ! i)"
  by (auto simp: ecs_vec_get_def vec_load_def vec_list_def vec_ok_def)

lemma vec_get_bad:
  "vec_ok v \<Longrightarrow> i < 0 \<or> int (length (vec_list v)) \<le> i \<Longrightarrow> ecs_vec_get v i = Inl ECS_OUT_OF_RANGE"
  by (auto simp: ecs_vec_get_def length_vec_list ecs_assert_def vec_ok_def)

lemma vec_remove_ok:
  assumes ok: "vec_ok v" and i: "i < length (vec_list v)"
  shows "returns (ecs_vec_remove v (int i)) (\<lambda>w. vec_ok w \<and> vec_list w = swap_remove i (vec_list v))"
proof -
  define n where "n = nat (vec_count v)"
  define a where "a = vec_array v"
  have n: "vec_count v = int n" "n \<le> length a" "i < n" "vec_size v = int (length a)"
    "int (length a) \<le> 2 ^ 30"
    using ok i by (auto simp: vec_ok_def vec_list_def n_def a_def)
  have last: "last (take n a) = a ! (n - 1)"
    using n by (subst last_conv_nth) auto
  have sw: "swap_remove i (take n a) = take (n - 1) (a[i := a ! (n - 1)])"
    using n last by (simp add: swap_remove_def butlast_conv_take take_update_swap min_def)
  show ?thesis
  proof (cases "i = n - 1")
    case True
    then have "a[i := a ! (n - 1)] = a" by simp
    with True n sw show ?thesis
      by (auto simp: ecs_vec_remove_def Let_def vec_ok_def vec_list_def a_def [symmetric] nat_diff_distrib)
  next
    case False
    with n sw show ?thesis
      by (auto simp: ecs_vec_remove_def Let_def vec_ok_def vec_list_def vec_load_def vec_store_def
          a_def [symmetric] nat_diff_distrib)
  qed
qed

lemma vec_remove_ordered_ok:
  assumes ok: "vec_ok v" and i: "i < length (vec_list v)"
  shows "returns (ecs_vec_remove_ordered v (int i))
    (\<lambda>w. vec_ok w \<and> vec_list w = take i (vec_list v) @ drop (Suc i) (vec_list v))"
proof -
  define n where "n = nat (vec_count v)"
  define a where "a = vec_array v"
  have n: "vec_count v = int n" "n \<le> length a" "i < n" "vec_size v = int (length a)"
    "int (length a) \<le> 2 ^ 30"
    using ok i by (auto simp: vec_ok_def vec_list_def n_def a_def)
  have nn: "nat (int n - 1) = n - 1" "nat (int n - 1 - int i) = n - 1 - i" using n by auto
  have shift: "take (n - Suc 0) (take i a @ take (n - Suc i) (drop (Suc i) a) @ drop (n - Suc 0) a)
      = take i (take n a) @ drop (Suc i) (take n a)"
  proof (cases "i = n - 1")
    case True
    with n show ?thesis by (simp add: take_drop min_def)
  next
    case False
    with n have "\<not> n - Suc 0 \<le> i" by auto
    with n show ?thesis by (simp add: take_drop min_def)
  qed
  show ?thesis
  proof (cases "i = n - 1")
    case True
    with n have "int i = int n - 1" "take (n - 1) a = take i (take n a)" "drop (Suc i) (take n a) = []"
      by (auto simp: min_def)
    with n show ?thesis
      by (simp add: ecs_vec_remove_ordered_def vec_ok_def vec_list_def a_def [symmetric] nn)
  next
    case False
    with n have "int i \<noteq> int n - 1" "Suc (i + (n - 1 - i)) \<le> length a" by auto
    with n shift show ?thesis
      by (simp add: ecs_vec_remove_ordered_def vec_ok_def vec_list_def a_def [symmetric] nn
          mem_move_down_def)
  qed
qed

lemma vec_set_min_count_ok:
  assumes "vec_ok v" "0 \<le> n" "n \<le> 2 ^ 30"
  shows "vec_ok (ecs_vec_set_min_count v n) \<and>
    vec_count (ecs_vec_set_min_count v n) = max (vec_count v) n \<and>
    take (nat (vec_count v)) (vec_array (ecs_vec_set_min_count v n)) = vec_list v"
proof (cases "vec_size v < n")
  case True
  with vec_set_size_ok [OF assms] assms(1) show ?thesis
    by (auto simp: ecs_vec_set_min_count_def ecs_vec_set_min_size_def Let_def vec_ok_def vec_list_def)
next
  case False
  with assms show ?thesis
    by (auto simp: ecs_vec_set_min_count_def ecs_vec_set_min_size_def Let_def vec_ok_def vec_list_def)
qed

lemma vec_set_min_count_zeromem_ok:
  assumes ok: "vec_ok v" and n: "0 \<le> n" "n \<le> 2 ^ 30"
  shows "returns (ecs_vec_set_min_count_zeromem z v n)
    (\<lambda>w. vec_ok w \<and> vec_list w = vec_list v @ replicate (nat n - length (vec_list v)) z)"
proof (cases "vec_count v < n")
  case True
  define w where "w = ecs_vec_set_min_count v n"
  from vec_set_min_count_ok [OF assms] True have w: "vec_ok w" "vec_count w = n"
    "take (nat (vec_count v)) (vec_array w) = vec_list v" by (simp_all add: w_def)
  have le: "nat (vec_count v) + nat (n - vec_count v) = nat n" "nat n \<le> length (vec_array w)"
    "length (vec_list v) = nat (vec_count v)" "nat n - nat (vec_count v) = nat (n - vec_count v)"
    "0 \<le> vec_count v"
    using ok w True by (auto simp: vec_ok_def length_vec_list)
  with True w show ?thesis
    by (simp add: ecs_vec_set_min_count_zeromem_def Let_def mem_fill_def w_def [symmetric]
        vec_ok_def vec_list_def)
next
  case False
  with ok show ?thesis
    by (auto simp: ecs_vec_set_min_count_zeromem_def Let_def vec_count_length)
qed

section \<open>The interface the other containers use\<close>

text \<open>
  What a client of a vector relies on: appending, indexed reads, and the two ways of removing
  act on the contents as the list operations do. \<open>limit\<close> is the number of elements up to which
  the \<open>int32_t\<close> capacity arithmetic does not overflow.
\<close>

locale dyn_array =
  fixes inv :: "'v \<Rightarrow> bool"
    and contents :: "'v \<Rightarrow> 'a list"
    and push :: "'v \<Rightarrow> 'a \<Rightarrow> 'v result"
    and get :: "'v \<Rightarrow> int \<Rightarrow> 'a result"
    and remove :: "'v \<Rightarrow> int \<Rightarrow> 'v result"
    and remove_ordered :: "'v \<Rightarrow> int \<Rightarrow> 'v result"
    and limit :: nat
  assumes push: "inv v \<Longrightarrow> length (contents v) < limit \<Longrightarrow>
      returns (push v x) (\<lambda>w. inv w \<and> contents w = contents v @ [x])"
    and get: "inv v \<Longrightarrow> i < length (contents v) \<Longrightarrow> get v (int i) = Inr (contents v ! i)"
    and get_bad: "inv v \<Longrightarrow> k < 0 \<or> int (length (contents v)) \<le> k \<Longrightarrow>
      get v k = Inl ECS_OUT_OF_RANGE"
    and remove: "inv v \<Longrightarrow> i < length (contents v) \<Longrightarrow>
      returns (remove v (int i)) (\<lambda>w. inv w \<and> contents w = swap_remove i (contents v))"
    and remove_ordered: "inv v \<Longrightarrow> i < length (contents v) \<Longrightarrow>
      returns (remove_ordered v (int i))
        (\<lambda>w. inv w \<and> contents w = take i (contents v) @ drop (Suc i) (contents v))"
begin

definition push_all :: "'v \<Rightarrow> 'a list \<Rightarrow> 'v result" where
  "push_all v xs = fold (\<lambda>x m. bindR m (\<lambda>v. push v x)) xs (Inr v)"

lemma push_all_contents:
  "inv v \<Longrightarrow> length (contents v) + length xs \<le> limit \<Longrightarrow>
    returns (push_all v xs) (\<lambda>w. inv w \<and> contents w = contents v @ xs)"
proof (induction xs rule: rev_induct)
  case Nil
  then show ?case by (simp add: push_all_def)
next
  case (snoc x xs)
  then have "returns (push_all v xs) (\<lambda>w. inv w \<and> contents w = contents v @ xs)" by simp
  then have "returns (push_all v xs) (\<lambda>u. returns (push u x)
      (\<lambda>w. inv w \<and> contents w = contents v @ xs @ [x]))"
  proof (rule returns_mono)
    fix u assume "inv u \<and> contents u = contents v @ xs"
    then show "returns (push u x) (\<lambda>w. inv w \<and> contents w = contents v @ xs @ [x])"
      using push [of u x] snoc.prems by simp
  qed
  then show ?case by (simp add: push_all_def)
qed

lemma push_then_get:
  "inv v \<Longrightarrow> length (contents v) < limit \<Longrightarrow> i \<le> length (contents v) \<Longrightarrow>
    returns (push v x) (\<lambda>w. get w (int i) =
      Inr (if i = length (contents v) then x else contents v ! i))"
  by (rule returns_mono [OF push]) (auto simp: get nth_append)

lemma push_then_remove:
  assumes v: "inv v" "length (contents v) < limit"
  shows "returns (bindR (push v x) (\<lambda>w. remove w (int (length (contents v)))))
    (\<lambda>w. inv w \<and> contents w = contents v)"
proof -
  have "returns (push v x) (\<lambda>w. returns (remove w (int (length (contents v))))
      (\<lambda>w. inv w \<and> contents w = contents v))"
  proof (rule returns_mono [OF push [OF v]])
    fix w assume w: "inv w \<and> contents w = contents v @ [x]"
    then have sw: "swap_remove (length (contents v)) (contents w) = contents v"
      by (simp add: swap_remove_def list_update_append)
    from w have "length (contents v) < length (contents w)" by simp
    with w have "returns (remove w (int (length (contents v))))
        (\<lambda>u. inv u \<and> contents u = swap_remove (length (contents v)) (contents w))"
      by (intro remove) simp_all
    then show "returns (remove w (int (length (contents v)))) (\<lambda>w. inv w \<and> contents w = contents v)"
      by (simp add: sw)
  qed
  then show ?thesis by simp
qed

end

interpretation vec: dyn_array vec_ok vec_list vec_push ecs_vec_get ecs_vec_remove
  ecs_vec_remove_ordered "2 ^ 30"
proof
  fix v :: "'a ecs_vec" and x :: 'a
  assume "vec_ok v" "length (vec_list v) < 2 ^ 30"
  then show "returns (vec_push v x) (\<lambda>w. vec_ok w \<and> vec_list w = vec_list v @ [x])"
    by (intro vec_push_ok) (simp_all add: vec_count_length)
qed (simp_all add: vec_get_ok vec_get_bad vec_remove_ok vec_remove_ordered_ok)

section \<open>Setting the count with lifecycle hooks\<close>

definition ecs_vec_set_count_w_type_info ::
    "'v::zero type_info \<Rightarrow> 'v cell ecs_vec \<Rightarrow> int \<Rightarrow> ('v cell ecs_vec \<times> 'v cell list) result" where
  \<comment> \<open>the second result is the array handed to the allocator by \<open>flecs_vec_free\<close>, if any\<close>
  "ecs_vec_set_count_w_type_info ti v elem_count =
    (if vec_count v = elem_count then Inr (v, [])
     else if h_ctor_move_dtor (ti_hooks ti) = None then Inr (ecs_vec_set_count v elem_count, [])
     else if vec_size v > elem_count then
       bindR (if elem_count > vec_count v
              then cells_xtor (flecs_type_info_ctor ti) (vec_array v) (nat (vec_count v)) (nat (elem_count - vec_count v))
              else Inr (vec_array v)) (\<lambda>a.
       bindR (if elem_count < vec_count v
              then cells_xtor (flecs_type_info_dtor ti) a (nat elem_count) (nat (vec_count v - elem_count))
              else Inr a) (\<lambda>a.
       Inr (v\<lparr>vec_array := a, vec_count := elem_count\<rparr>, [])))
     else
       (let new_size = flecs_next_pow_of_2 elem_count;
            arr = replicate (nat new_size) Raw;
            move_count = (if elem_count > vec_count v then vec_count v else elem_count) in
        bindR (cells_move (flecs_type_info_ctor_move_dtor ti) arr 0 (vec_array v) 0 (nat move_count)) (\<lambda>(arr, old).
        bindR (if move_count < vec_count v
               then cells_xtor (flecs_type_info_dtor ti) old (nat move_count) (nat (vec_count v - move_count))
               else Inr old) (\<lambda>old.
        bindR (if move_count < elem_count
               then cells_xtor (flecs_type_info_ctor ti) arr (nat move_count) (nat (elem_count - move_count))
               else Inr arr) (\<lambda>arr.
        Inr (v\<lparr>vec_array := arr, vec_size := new_size, vec_count := elem_count\<rparr>, old))))))"

definition ecs_vec_set_min_count_w_type_info ::
    "'v::zero type_info \<Rightarrow> 'v cell ecs_vec \<Rightarrow> int \<Rightarrow> ('v cell ecs_vec \<times> 'v cell list) result" where
  "ecs_vec_set_min_count_w_type_info ti v elem_count =
    (if vec_count v < elem_count then ecs_vec_set_count_w_type_info ti v elem_count else Inr (v, []))"

definition live_vec :: "'v type_info \<Rightarrow> 'v cell ecs_vec \<Rightarrow> bool" where
  \<comment> \<open>exactly the slots below the count hold constructed values, as far as the type has a destructor\<close>
  "live_vec ti v \<longleftrightarrow> vec_ok v \<and> lives (vec_list v) \<and> (needs_dtor ti \<longrightarrow> raws (drop (nat (vec_count v)) (vec_array v)))"

lemma vec_type_info_grow:
  assumes ok: "ti_ok ti" "typed ti" and v: "length a = k" "c \<le> n" "n \<le> k" "lives (take c a)" "needs_dtor ti \<longrightarrow> raws (drop c a)"
  shows "returns (cells_xtor (flecs_type_info_ctor ti) a c (n - c)) (\<lambda>r. length r = k \<and> take c r = take c a \<and>
    lives (take n r) \<and> (needs_dtor ti \<longrightarrow> raws (drop n r)))"
proof -
  have n: "c + (n - c) \<le> length a" using v by simp
  have raw: "needs_dtor ti \<Longrightarrow> raws (take (n - c) (drop c a))" using v(5) by (simp add: raws_sub)
  show ?thesis
  proof (rule returns_mono, rule cells_ctor [OF ok n], erule raw, elim conjE)
    fix r assume r: "length r = length a" "take c r = take c a" "lives (take (n - c) (drop c r))" "drop (c + (n - c)) r = drop (c + (n - c)) a"
    have "take n r = take c r @ take (n - c) (drop c r)" using v(2) by (metis le_add_diff_inverse take_add)
    moreover have "drop n r = drop (n - c) (drop c a)" using r(4) v(2) by simp
    ultimately show "length r = k \<and> take c r = take c a \<and> lives (take n r) \<and> (needs_dtor ti \<longrightarrow> raws (drop n r))"
      using r v raws_sub(2) [of "drop c a" "n - c"] by simp
  qed
qed

lemma vec_type_info_shrink:
  assumes ok: "ti_ok ti" and v: "length a = k" "n \<le> c" "c \<le> k" "lives (take c a)" "needs_dtor ti \<longrightarrow> raws (drop c a)"
  shows "returns (cells_xtor (flecs_type_info_dtor ti) a n (c - n)) (\<lambda>r. length r = k \<and> take n r = take n a \<and>
    (needs_dtor ti \<longrightarrow> raws (drop n r)))"
proof -
  have n: "n + (c - n) \<le> length a" using v by simp
  have live: "lives (take (c - n) (drop n a))" using lives_sub(2) [OF v(4), of n] by (simp add: drop_take)
  show ?thesis
  proof (rule returns_mono [OF cells_dtor [OF ok n live]], elim conjE)
    fix r assume r: "length r = length a" "take n r = take n a" "needs_dtor ti \<longrightarrow> raws (take (c - n) (drop n r))"
      "drop (n + (c - n)) r = drop (n + (c - n)) a"
    have "drop n r = take (c - n) (drop n r) @ drop c r"
      using v(2) append_take_drop_id [of "c - n" "drop n r"] by simp
    then have "raws (drop n r) \<longleftrightarrow> raws (take (c - n) (drop n r)) \<and> raws (drop c r)" by (metis raws_simps(3))
    then show "length r = k \<and> take n r = take n a \<and> (needs_dtor ti \<longrightarrow> raws (drop n r))"
      using r v by simp
  qed
qed

lemma vec_set_count_w_type_info_ok:
  assumes ti: "ti_ok ti" and hook: "h_ctor_move_dtor (ti_hooks ti) \<noteq> None" and v: "live_vec ti v" and n: "n \<le> 2 ^ 30"
  shows "returns (ecs_vec_set_count_w_type_info ti v (int n)) (\<lambda>(w, freed). live_vec ti w \<and> vec_count w = int n \<and>
    take (length (vec_list v)) (vec_list w) = take n (vec_list v) \<and> (needs_dtor ti \<longrightarrow> raws freed))"
proof -
  define k where "k = length (vec_array v)"
  define c where "c = nat (vec_count v)"
  define a where "a = vec_array v"
  have t: "typed ti" using ti hook by (auto simp: ti_ok_def no_lifecycle_def typed_def Let_def)
  have vi: "vec_count v = int c" "vec_size v = int k" "length a = k" "c \<le> k" "int k \<le> 2 ^ 30" "vec_array v = a"
    "vec_list v = take c a" "lives (take c a)" "needs_dtor ti \<longrightarrow> raws (drop c a)"
    using v by (auto simp: live_vec_def vec_ok_def k_def c_def a_def vec_list_def)
  consider (same) "n = c" | (grow) "c < n" "n < k" | (shrink) "n < c" | (realloc) "c < n" "k \<le> n" by linarith
  then show ?thesis
  proof cases
    case same
    with v vi show ?thesis by (simp add: ecs_vec_set_count_w_type_info_def)
  next
    case grow
    then have m: "nat (int n - int c) = n - c" by simp
    show ?thesis using grow vi hook m
      by (simp add: ecs_vec_set_count_w_type_info_def live_vec_def vec_ok_def vec_list_def del: not_None_eq)
        (rule returns_mono [OF vec_type_info_grow [OF ti t vi(3) _ _ vi(8,9)]], auto simp: min_def)
  next
    case shrink
    then have m: "nat (int c - int n) = c - n" by simp
    show ?thesis using shrink vi hook m
      by (simp add: ecs_vec_set_count_w_type_info_def live_vec_def vec_ok_def vec_list_def del: not_None_eq)
        (rule returns_mono [OF vec_type_info_shrink [OF ti vi(3) _ vi(4,8,9)]],
          use vi(3,4) lives_sub(1) [OF vi(8), of n] in \<open>auto simp: min_def\<close>)
  next
    case realloc
    then obtain p where p: "flecs_next_pow_of_2 (int n) = int p" "n \<le> p" "p \<le> 2 ^ 30"
    proof -
      have "1 \<le> int n" "int n \<le> 2 ^ 30" using realloc n by auto
      from next_pow_of_2_bounds [OF this] obtain e where e: "e \<le> 30"
        "flecs_next_pow_of_2 (int n) = 2 ^ e" "int n \<le> 2 ^ e" by auto
      moreover have "(2::nat) ^ e \<le> 2 ^ 30" using e(1) by (intro power_increasing) auto
      moreover have "n \<le> 2 ^ e"
        using e(3) by (metis of_nat_le_iff of_nat_numeral of_nat_power)
      ultimately show thesis by (intro that [of "2 ^ e"]) simp_all
    qed
    let ?arr = "replicate p Raw"
    have mv: "returns (cells_move (flecs_type_info_ctor_move_dtor ti) ?arr 0 a 0 c) (\<lambda>(r, s).
        r = take 0 ?arr @ take c (drop 0 a) @ drop (0 + c) ?arr \<and>
        length s = length a \<and> take 0 s = take 0 a \<and> (needs_dtor ti \<longrightarrow> raws (take c (drop 0 s))) \<and> drop (0 + c) s = drop (0 + c) a)"
    proof (rule cells_move_ok)
      have "returns (flecs_type_info_ctor_move_dtor ti (take c ?arr) (take c a)) (\<lambda>(r, s). r = take c a \<and>
          length s = length (take c a) \<and> (needs_dtor ti \<longrightarrow> raws s))"
        by (rule ctor_move_dtor_cells [OF ti]) (use realloc p vi in \<open>simp_all add: raws_sub\<close>)
      then show "returns (flecs_type_info_ctor_move_dtor ti (take c (drop 0 ?arr)) (take c (drop 0 a))) (\<lambda>(r, s).
          r = take c (drop 0 a) \<and> length s = c \<and> (needs_dtor ti \<longrightarrow> raws s))"
        using vi by simp
    qed (use realloc p vi in simp_all)
    have fin: "returns (cells_xtor (flecs_type_info_ctor ti) r c (n - c)) (\<lambda>arr.
        live_vec ti (v\<lparr>vec_array := arr, vec_size := int p, vec_count := int n\<rparr>) \<and>
        take c (take n arr) = take c a \<and> (needs_dtor ti \<longrightarrow> raws s))"
      if r: "r = take c a @ drop c ?arr" and s: "needs_dtor ti \<longrightarrow> raws (take c s)" "drop c s = drop c a" for r s
    proof -
      have len: "length r = p" "c \<le> n" "lives (take c r)" "needs_dtor ti \<longrightarrow> raws (drop c r)" "take c r = take c a"
        using r vi realloc p by (simp_all add: raws_sub)
      have "raws s \<longleftrightarrow> raws (take c s) \<and> raws (drop c s)" by (metis append_take_drop_id raws_simps(3))
      then have "needs_dtor ti \<longrightarrow> raws s" using s vi by simp
      then show ?thesis
        by (intro returns_mono [OF vec_type_info_grow [OF ti t len(1,2) p(2) len(3,4)]])
          (use p len in \<open>auto simp: live_vec_def vec_ok_def vec_list_def min_def\<close>)
    qed
    have eq: "ecs_vec_set_count_w_type_info ti v (int n) = bindR (cells_move (flecs_type_info_ctor_move_dtor ti) ?arr 0 a 0 c)
        (\<lambda>(r, s). bindR (cells_xtor (flecs_type_info_ctor ti) r c (n - c)) (\<lambda>arr.
          Inr (v\<lparr>vec_array := arr, vec_size := int p, vec_count := int n\<rparr>, s)))"
      using realloc vi hook p by (simp add: ecs_vec_set_count_w_type_info_def Let_def nat_diff_distrib del: not_None_eq)
    show ?thesis unfolding eq returns_bindR
    proof (rule returns_mono [OF mv], clarify)
      fix s assume s: "needs_dtor ti \<longrightarrow> raws (take c (drop 0 s))" "drop (0 + c) s = drop (0 + c) a"
      show "returns (bindR (cells_xtor (flecs_type_info_ctor ti) (take 0 ?arr @ take c (drop 0 a) @ drop (0 + c) ?arr) c (n - c))
          (\<lambda>arr. Inr (v\<lparr>vec_array := arr, vec_size := int p, vec_count := int n\<rparr>, s)))
        (\<lambda>(w, freed). live_vec ti w \<and> vec_count w = int n \<and>
          take (length (vec_list v)) (vec_list w) = take n (vec_list v) \<and> (needs_dtor ti \<longrightarrow> raws freed))"
        unfolding returns_bindR
      proof (rule returns_mono [OF fin])
        show "take 0 ?arr @ take c (drop 0 a) @ drop (0 + c) ?arr = take c a @ drop c ?arr" by simp
        show "needs_dtor ti \<longrightarrow> raws (take c s)" "drop c s = drop c a" using s by simp_all
        fix x assume x: "live_vec ti (v\<lparr>vec_array := x, vec_size := int p, vec_count := int n\<rparr>) \<and>
          take c (take n x) = take c a \<and> (needs_dtor ti \<longrightarrow> raws s)"
        have "length (vec_list v) = c" "take n (vec_list v) = take c a" using vi realloc by (simp_all add: min_def)
        with x show "returns (Inr (v\<lparr>vec_array := x, vec_size := int p, vec_count := int n\<rparr>, s)) (\<lambda>(w, freed).
            live_vec ti w \<and> vec_count w = int n \<and> take (length (vec_list v)) (vec_list w) = take n (vec_list v) \<and>
            (needs_dtor ti \<longrightarrow> raws freed))"
          by (simp add: vec_list_def)
      qed
    qed
  qed
qed

section \<open>Properties\<close>

definition vec_example :: "nat ecs_vec" where
  "vec_example = \<lparr>vec_array = [5, 6, 7, 8], vec_count = 3, vec_size = 4\<rparr>"

lemma vec_example_ok: "vec_ok vec_example" "vec_list vec_example = [5, 6, 7]"
  by (simp_all add: vec_ok_def vec_list_def vec_example_def)

text \<open>C21: A vector is a list. Appending an element, across the reallocation of a full array, adds
  it at the end; \<open>ecs_vec_get\<close> returns the element at an index and asserts on every index that is
  negative or not below the count; \<open>ecs_vec_remove\<close> moves the last element into the removed slot;
  \<open>ecs_vec_remove_ordered\<close> closes the gap. None of them accesses memory outside of the array.\<close>

theorem ecs_vec_implements_list:
  assumes "vec_ok v" and "length (vec_list v) < 2 ^ 30" and "i < length (vec_list v)"
  shows "returns (vec_push v x) (\<lambda>w. vec_ok w \<and> vec_list w = vec_list v @ [x]) \<and>
    (\<forall>k. ecs_vec_get v k =
      (if 0 \<le> k \<and> k < int (length (vec_list v)) then Inr (vec_list v ! nat k) else Inl ECS_OUT_OF_RANGE)) \<and>
    returns (ecs_vec_remove v (int i)) (\<lambda>w. vec_ok w \<and> vec_list w = swap_remove i (vec_list v)) \<and>
    returns (ecs_vec_remove_ordered v (int i))
      (\<lambda>w. vec_ok w \<and> vec_list w = take i (vec_list v) @ drop (Suc i) (vec_list v))"
proof -
  have "ecs_vec_get v k =
      (if 0 \<le> k \<and> k < int (length (vec_list v)) then Inr (vec_list v ! nat k) else Inl ECS_OUT_OF_RANGE)" for k
    using vec.get [OF assms(1), of "nat k"] vec.get_bad [OF assms(1), of k] by auto
  then show ?thesis
    using vec.push [OF assms(1,2)] vec.remove [OF assms(1,3)] vec.remove_ordered [OF assms(1,3)] by blast
qed

lemma ecs_vec_implements_list_witness:
  "returns (vec_push vec_example 9) (\<lambda>w. vec_list w = [5, 6, 7, 9]) \<and>
   returns (ecs_vec_remove vec_example 0) (\<lambda>w. vec_list w = [7, 6]) \<and>
   returns (ecs_vec_remove_ordered vec_example 0) (\<lambda>w. vec_list w = [6, 7])"
  using ecs_vec_implements_list [OF vec_example_ok(1), of 0 9]
  by (auto simp: vec_example_ok(2) swap_remove_def elim!: returns_mono)

text \<open>Capacity. Setting the size keeps the elements and reaches the size asked for; setting the
  count keeps every element below the new count; the zeroing variant extends the list by zeros;
  reclaiming keeps the elements and makes the size equal to the count; clearing, resetting and
  finalising leave the empty list.\<close>

lemma ecs_vec_capacity:
  assumes "vec_ok v" and "0 \<le> n" and "n \<le> 2 ^ 30"
  shows "(vec_ok (ecs_vec_set_size v n) \<and> vec_list (ecs_vec_set_size v n) = vec_list v \<and>
      n \<le> vec_size (ecs_vec_set_size v n)) \<and>
    (vec_ok (ecs_vec_set_count v n) \<and> length (vec_list (ecs_vec_set_count v n)) = nat n \<and>
      take (length (vec_list v)) (vec_list (ecs_vec_set_count v n)) = take (nat n) (vec_list v)) \<and>
    returns (ecs_vec_set_min_count_zeromem z v n) (\<lambda>w. vec_ok w \<and>
      vec_list w = vec_list v @ replicate (nat n - length (vec_list v)) z) \<and>
    (vec_ok (ecs_vec_reclaim v) \<and> vec_list (ecs_vec_reclaim v) = vec_list v \<and>
      vec_size (ecs_vec_reclaim v) = int (length (vec_list v))) \<and>
    vec_list (ecs_vec_clear v) = [] \<and> vec_list (ecs_vec_reset v) = [] \<and> vec_list (ecs_vec_fini v) = []"
proof -
  let ?w = "ecs_vec_set_count v n"
  have len: "length (vec_list ?w) = nat n" and nth: "\<And>i. i < nat n \<Longrightarrow> i < length (vec_list v) \<Longrightarrow>
      vec_list ?w ! i = vec_list v ! i"
    using vec_set_count_ok [OF assms] by (auto simp: length_vec_list)
  have "take (length (vec_list v)) (vec_list ?w) = take (nat n) (vec_list v)"
    using nth by (intro nth_equalityI) (auto simp: len)
  with len show ?thesis
    using vec_set_size_ok [OF assms] vec_set_count_ok [OF assms]
      vec_set_min_count_zeromem_ok [OF assms] vec_reclaim_ok [OF assms(1)] vec_clear_ok [OF assms(1)]
      vec_reset_ok [OF assms(1)] vec_fini_ok [OF assms(1)] vec_count_length [OF assms(1)]
    by metis
qed

lemma ecs_vec_capacity_witness:
  "vec_list (ecs_vec_set_size vec_example 100) = [5, 6, 7] \<and>
   returns (ecs_vec_set_min_count_zeromem 0 vec_example 5) (\<lambda>w. vec_list w = [5, 6, 7, 0, 0])"
proof -
  show ?thesis
    using ecs_vec_capacity [OF vec_example_ok(1), of 100 0]
      ecs_vec_capacity [OF vec_example_ok(1), of 5 0]
    by (auto simp: vec_example_ok(2) numeral_2_eq_2 elim!: returns_mono)
qed

text \<open>C22: Resizing a vector of a type with lifecycle hooks. When exactly the slots below the count
  hold constructed values, then the same is true after setting any count: the surviving values are
  kept in order, new slots are constructed, removed values are destructed exactly once, no hook runs
  on a slot in the wrong state, and the array that is freed on reallocation holds no constructed
  value. For a type whose \<open>ctor_move_dtor\<close> is not set no hook runs at all, whether or not the type
  has a constructor and a destructor.\<close>

theorem ecs_vec_set_count_lifecycle:
  assumes "ti_ok ti" and "live_vec ti v" and "n \<le> 2 ^ 30"
  shows "if h_ctor_move_dtor (ti_hooks ti) \<noteq> None
    then returns (ecs_vec_set_count_w_type_info ti v (int n)) (\<lambda>(w, freed). live_vec ti w \<and> vec_count w = int n \<and>
      take (length (vec_list v)) (vec_list w) = take n (vec_list v) \<and> (needs_dtor ti \<longrightarrow> raws freed))
    else ecs_vec_set_count_w_type_info ti v (int n) = Inr (ecs_vec_set_count v (int n), [])"
proof (cases "h_ctor_move_dtor (ti_hooks ti) = None")
  case True
  have "0 \<le> vec_count v" "vec_count v \<le> vec_size v" using assms(2) by (auto simp: live_vec_def vec_ok_def)
  with True show ?thesis by (simp add: ecs_vec_set_count_w_type_info_def ecs_vec_set_count_def)
next
  case False
  from vec_set_count_w_type_info_ok [OF assms(1) this assms(2,3)] False show ?thesis by simp
qed

definition counter_type :: "nat type_info" where
  "counter_type = \<lparr>ti_size = 4, ti_alignment = 4, ti_hooks = hooks_merge counter_hooks no_hooks, ti_component = 20\<rparr>"

lemma counter_type_ok: "ti_ok counter_type" "needs_dtor counter_type" "h_ctor_move_dtor (ti_hooks counter_type) \<noteq> None"
proof -
  note f = merge_fields [OF user_fns(1) [OF counter_hooks_ok], of no_hooks]
  show "ti_ok counter_type" by (rule hooks_merge_ok [OF counter_hooks_ok]) (simp add: counter_type_def)
  show "needs_dtor counter_type" "h_ctor_move_dtor (ti_hooks counter_type) \<noteq> None"
    using f(2,7) by (simp_all add: needs_dtor_def counter_type_def or_keep_def merged_cmd_def)
      (simp_all add: counter_hooks_def)
qed

lemma ecs_vec_set_count_lifecycle_witness:
  "returns (ecs_vec_set_count_w_type_info counter_type \<lparr>vec_array = [Live 5, Live 6], vec_count = 2, vec_size = 2\<rparr> (int 3))
    (\<lambda>(w, freed). vec_count w = 3 \<and> take 2 (vec_list w) = [Live 5, Live 6] \<and> raws freed)"
proof -
  let ?v = "\<lparr>vec_array = [Live 5, Live 6], vec_count = 2, vec_size = 2\<rparr> :: nat cell ecs_vec"
  have v: "live_vec counter_type ?v" "vec_list ?v = [Live 5, Live 6]"
    by (simp_all add: live_vec_def vec_ok_def vec_list_def)
  have "returns (ecs_vec_set_count_w_type_info counter_type ?v (int 3)) (\<lambda>(w, freed). live_vec counter_type w \<and> vec_count w = int 3 \<and>
      take (length (vec_list ?v)) (vec_list w) = take 3 (vec_list ?v) \<and> (needs_dtor counter_type \<longrightarrow> raws freed))"
    using ecs_vec_set_count_lifecycle [OF counter_type_ok(1) v(1), of 3] counter_type_ok(3) by simp
  then show ?thesis by (rule returns_mono) (auto simp: v(2) counter_type_ok(2) numeral_2_eq_2)
qed

end
