(* ===== verification/Flecs_Bitset.thy ===== *)
theory Flecs_Bitset
  imports Flecs_Bits
begin

text \<open>
  \<open>datastructures/bitset.c\<close>: the bitset that stores one toggle bit per table row. \<open>bs_data\<close> is
  the array of 64-bit words, \<open>bs_size\<close> the number of bits allocated and \<open>bs_count\<close> the number
  in use. \<open>bs_list\<close> is the abstract content, a list of booleans; every operation is shown to be
  the corresponding list operation, the failing \<open>ecs_check\<close>s included.
\<close>

section \<open>State and operations\<close>

record ecs_bitset =
  bs_data :: "64 word list"
  bs_count :: int
  bs_size :: int

definition flecs_bitset_ensure_size :: "ecs_bitset \<Rightarrow> int \<Rightarrow> ecs_bitset result" where
  \<comment> \<open>byte sizes are counted in words of 8 bytes; the rounded number of bits is an \<open>int32_t\<close>, the number of
    bytes is smaller\<close>
  "flecs_bitset_ensure_size bs sz =
    (if bs_size bs = 0 then
       let new_size = c_div (sz - 1) 64 + 1 in
       ecs_assert (int32 (sz - 1) \<and> int32 ((c_div (sz - 1) 64 + 1) * 64)) Int_Overflow
         (Inr (bs\<lparr>bs_size := (c_div (sz - 1) 64 + 1) * 64, bs_data := replicate (nat new_size) 0\<rparr>))
     else if sz > bs_size bs then
       let prev_size = c_div (bs_size bs - 1) 64 + 1;
           new_size = c_div (sz - 1) 64 + 1 in
       ecs_assert (int32 ((c_div (sz - 1) 64 + 1) * 64)) Int_Overflow
         (Inr (bs\<lparr>bs_size := (c_div (sz - 1) 64 + 1) * 64,
             bs_data := take (nat prev_size) (bs_data bs) @ replicate (nat (new_size - prev_size)) 0\<rparr>))
     else Inr bs)"

definition flecs_bitset_init :: ecs_bitset where
  "flecs_bitset_init = \<lparr>bs_data = [], bs_count = 0, bs_size = 0\<rparr>"

definition flecs_bitset_ensure :: "ecs_bitset \<Rightarrow> int \<Rightarrow> ecs_bitset result" where
  "flecs_bitset_ensure bs cnt =
    (if cnt > bs_count bs then flecs_bitset_ensure_size (bs\<lparr>bs_count := cnt\<rparr>) cnt else Inr bs)"

definition flecs_bitset_fini :: "ecs_bitset \<Rightarrow> ecs_bitset" where
  "flecs_bitset_fini bs = bs\<lparr>bs_data := [], bs_count := 0\<rparr>"

definition flecs_bitset_addn :: "ecs_bitset \<Rightarrow> int \<Rightarrow> ecs_bitset result" where
  "flecs_bitset_addn bs cnt =
    (let elem = bs_count bs + cnt in
     ecs_assert (int32 elem) Int_Overflow (flecs_bitset_ensure_size (bs\<lparr>bs_count := elem\<rparr>) elem))"

definition flecs_bitset_set :: "ecs_bitset \<Rightarrow> int \<Rightarrow> bool \<Rightarrow> ecs_bitset result" where
  \<comment> \<open>a failing \<open>ecs_check\<close> returns without changing the bitset\<close>
  "flecs_bitset_set bs elem value =
    (if \<not> elem \<ge> 0 then Inr bs
     else if \<not> elem < bs_count bs then Inr bs
     else
       let hi = nat elem div 64; lo = nat elem mod 64 in
       bindR (arr_get (bs_data bs) hi) (\<lambda>v.
       bindR (arr_set (bs_data bs) hi
                ((v AND NOT (push_bit lo 1)) OR push_bit lo (of_bool value))) (\<lambda>d.
       Inr (bs\<lparr>bs_data := d\<rparr>))))"

definition flecs_bitset_get :: "ecs_bitset \<Rightarrow> int \<Rightarrow> bool result" where
  "flecs_bitset_get bs elem =
    (if \<not> elem \<ge> 0 then Inr False
     else if \<not> elem < bs_count bs then Inr False
     else
       bindR (arr_get (bs_data bs) (nat elem div 64)) (\<lambda>v.
       Inr (v AND push_bit (nat elem mod 64) 1 \<noteq> 0)))"

definition flecs_bitset_remove :: "ecs_bitset \<Rightarrow> int \<Rightarrow> ecs_bitset result" where
  "flecs_bitset_remove bs elem =
    (if \<not> elem \<ge> 0 then Inr bs
     else if \<not> elem < bs_count bs then Inr bs
     else
       let last = bs_count bs - 1 in
       bindR (flecs_bitset_get bs last) (\<lambda>last_value.
       bindR (flecs_bitset_set bs elem last_value) (\<lambda>bs.
       bindR (flecs_bitset_set bs last False) (\<lambda>bs.
       Inr (bs\<lparr>bs_count := bs_count bs - 1\<rparr>)))))"

definition flecs_bitset_swap :: "ecs_bitset \<Rightarrow> int \<Rightarrow> int \<Rightarrow> ecs_bitset result" where
  "flecs_bitset_swap bs elem_a elem_b =
    (if \<not> elem_a \<ge> 0 then Inr bs
     else if \<not> elem_b \<ge> 0 then Inr bs
     else if \<not> elem_a < bs_count bs then Inr bs
     else if \<not> elem_b < bs_count bs then Inr bs
     else
       bindR (flecs_bitset_get bs elem_a) (\<lambda>a.
       bindR (flecs_bitset_get bs elem_b) (\<lambda>b.
       bindR (flecs_bitset_set bs elem_a b) (\<lambda>bs.
       flecs_bitset_set bs elem_b a))))"

section \<open>Abstract content\<close>

definition bs_bit :: "ecs_bitset \<Rightarrow> nat \<Rightarrow> bool" where
  "bs_bit bs i = bit (bs_data bs ! (i div 64)) (i mod 64)"

definition bs_list :: "ecs_bitset \<Rightarrow> bool list" where
  "bs_list bs = map (bs_bit bs) [0..<nat (bs_count bs)]"

definition bs_ok :: "ecs_bitset \<Rightarrow> bool" where
  \<comment> \<open>bits above the count are clear, so that growing yields cleared bits; the size is an \<open>int32_t\<close>\<close>
  "bs_ok bs \<longleftrightarrow>
    0 \<le> bs_count bs \<and> bs_count bs \<le> bs_size bs \<and> bs_size bs = 64 * int (length (bs_data bs)) \<and> int32 (bs_size bs) \<and>
    (\<forall>i. nat (bs_count bs) \<le> i \<longrightarrow> i < 64 * length (bs_data bs) \<longrightarrow> \<not> bs_bit bs i)"

lemma length_bs_list [simp]: "length (bs_list bs) = nat (bs_count bs)"
  by (simp add: bs_list_def)

lemma bs_list_nth: "i < nat (bs_count bs) \<Longrightarrow> bs_list bs ! i = bs_bit bs i"
  by (simp add: bs_list_def)

lemma bit_pow2: "k < 64 \<Longrightarrow> bit (2 ^ k :: 64 word) j \<longleftrightarrow> j = k"
  by (auto simp: bit_exp_iff)

lemma and_pow2: "k < 64 \<Longrightarrow> (v :: 64 word) AND 2 ^ k \<noteq> 0 \<longleftrightarrow> bit v k"
  using bit_iff_and_push_bit_not_eq_0 [of v k] by simp

lemma bit_set_word:
  fixes v :: "64 word"
  assumes k: "k < 64" and j: "j < 64"
  shows "bit (v AND NOT (2 ^ k) OR 2 ^ k) j \<longleftrightarrow> j = k \<or> bit v j"
    and "bit (v AND NOT (2 ^ k)) j \<longleftrightarrow> j \<noteq> k \<and> bit v j"
  unfolding bit_or_iff bit_and_iff bit_not_iff bit_pow2 [OF k] using j by auto

lemma bs_index: "bs_ok bs \<Longrightarrow> 0 \<le> i \<Longrightarrow> i < bs_count bs \<Longrightarrow> nat i div 64 < length (bs_data bs)"
  by (auto simp: bs_ok_def)

lemma bitset_get_ok:
  assumes "bs_ok bs"
  shows "flecs_bitset_get bs i =
    Inr (if 0 \<le> i \<and> i < bs_count bs then bs_list bs ! nat i else False)"
proof (cases "0 \<le> i \<and> i < bs_count bs")
  case True
  then have "nat i < nat (bs_count bs)" by auto
  with True bs_index [OF assms, of i] show ?thesis
    by (simp add: flecs_bitset_get_def and_pow2 bs_list_nth bs_bit_def)
qed (auto simp: flecs_bitset_get_def)

lemma bs_bit_update:
  assumes "i div 64 < length (bs_data bs)"
  shows "bs_bit (bs\<lparr>bs_data := (bs_data bs)[i div 64 :=
      (bs_data bs ! (i div 64) AND NOT (push_bit (i mod 64) 1)) OR push_bit (i mod 64) (of_bool b)]\<rparr>) j
    = (if j = i then b else bs_bit bs j)"
proof (cases "j div 64 = i div 64")
  case True
  then have "j = i \<longleftrightarrow> j mod 64 = i mod 64" by (metis div_mult_mod_eq)
  with True assms show ?thesis
    by (simp add: bs_bit_def bit_set_word)
next
  case False
  then show ?thesis by (auto simp: bs_bit_def)
qed

lemma bitset_set_ok:
  assumes ok: "bs_ok bs"
  shows "returns (flecs_bitset_set bs i b) (\<lambda>bs'. bs_ok bs' \<and> bs_count bs' = bs_count bs \<and>
    bs_list bs' = (if 0 \<le> i then (bs_list bs)[nat i := b] else bs_list bs))"
proof (cases "0 \<le> i \<and> i < bs_count bs")
  case True
  then have lt: "nat i < nat (bs_count bs)" by auto
  note idx = bs_index [OF ok, of i]
  define bs' where "bs' = bs\<lparr>bs_data := (bs_data bs)[nat i div 64 :=
      (bs_data bs ! (nat i div 64) AND NOT (push_bit (nat i mod 64) 1)) OR
      push_bit (nat i mod 64) (of_bool b)]\<rparr>"
  have upd: "bs_bit bs' j = (if j = nat i then b else bs_bit bs j)" for j
    unfolding bs'_def using idx True by (intro bs_bit_update) simp
  have "bs_count bs' = bs_count bs" "bs_size bs' = bs_size bs"
    "length (bs_data bs') = length (bs_data bs)" by (simp_all add: bs'_def)
  note fields = this
  have "bs_ok bs'"
    using ok lt unfolding bs_ok_def fields by (auto simp: upd)
  moreover have "bs_list bs' = (bs_list bs)[nat i := b]"
    using lt by (auto intro!: nth_equalityI simp: fields bs_list_def upd nth_list_update)
  ultimately have "bs_ok bs' \<and> bs_count bs' = bs_count bs \<and> bs_list bs' = (bs_list bs)[nat i := b]"
    by (simp add: fields)
  moreover have "flecs_bitset_set bs i b = Inr bs'"
    using True idx by (simp add: flecs_bitset_set_def bs'_def Let_def)
  ultimately show ?thesis using True by simp
next
  case False
  then have "0 \<le> i \<Longrightarrow> length (bs_list bs) \<le> nat i" by auto
  with ok False show ?thesis
    by (auto simp: flecs_bitset_set_def list_update_beyond)
qed

section \<open>Growing\<close>

definition bs_max :: int where
  \<comment> \<open>the largest number of bits: the next one rounds up to 2^31\<close>
  "bs_max = 2147483584"

lemma bs_max: "int32 (64 * int k) \<longleftrightarrow> 64 * int k \<le> bs_max"
  by (auto simp: int32_def bs_max_def)

lemma bs_count_max: "bs_ok bs \<Longrightarrow> bs_count bs \<le> bs_max"
  using bs_max [of "length (bs_data bs)"] by (auto simp: bs_ok_def)

lemma bitset_ensure_size_data:
  assumes ok: "bs_ok bs" and n: "0 \<le> n"
  shows "(\<exists>k. flecs_bitset_ensure_size (bs\<lparr>bs_count := c\<rparr>) n =
      ecs_assert (n \<le> bs_max) Int_Overflow (Inr (bs\<lparr>bs_count := c, bs_data := bs_data bs @ replicate k 0,
        bs_size := 64 * int (length (bs_data bs) + k)\<rparr>)) \<and>
      n \<le> 64 * int (length (bs_data bs) + k) \<and> (n \<le> bs_max \<longrightarrow> int32 (64 * int (length (bs_data bs) + k))))"
proof -
  define L where "L = length (bs_data bs)"
  have sz: "bs_size bs = 64 * int L" and L: "64 * int L \<le> bs_max" using ok bs_max [of L] by (auto simp: bs_ok_def L_def)
  define m where "m = c_div (n - 1) 64 + 1"
  have m1: "m = (if n = 0 then 1 else (n - 1) div 64 + 1)" using n by (simp add: m_def c_div_def)
  have m: "n \<le> 64 * m" "1 \<le> m" "64 * m < n + 64 \<or> m = 1" using n unfolding m1 by auto
  have "m * 64 \<le> 2147483647 \<longleftrightarrow> m \<le> 33554431" by presburger
  then have fit: "int32 (m * 64) \<longleftrightarrow> n \<le> bs_max" "n \<le> bs_max \<Longrightarrow> int32 (n - 1)"
    using m n by (auto simp: int32_def bs_max_def)
  consider (empty) "L = 0" | (fits) "0 < L" "n \<le> 64 * int L" | (grow) "0 < L" "64 * int L < n"
    by linarith
  then show ?thesis
  proof cases
    case empty
    then have "bs_data bs = []" by (simp add: L_def)
    with empty sz m fit show ?thesis
      by (intro exI [of _ "nat m"]) (auto simp: flecs_bitset_ensure_size_def m_def [symmetric] ecs_assert_def mult.commute)
  next
    case fits
    with sz L show ?thesis
      by (intro exI [of _ 0]) (simp add: flecs_bitset_ensure_size_def L_def [symmetric] ecs_assert_def bs_max)
  next
    case grow
    then have prev: "c_div (bs_size bs - 1) 64 + 1 = int L"
      unfolding sz by (cases L) (auto simp: c_div_def)
    have mL: "m = int L + int (nat (m - int L))" using grow m by linarith
    have "flecs_bitset_ensure_size (bs\<lparr>bs_count := c\<rparr>) n =
        ecs_assert (n \<le> bs_max) Int_Overflow
          (Inr (bs\<lparr>bs_count := c, bs_data := bs_data bs @ replicate (nat (m - int L)) 0, bs_size := m * 64\<rparr>))"
    proof -
      have "\<not> bs_size bs = 0" "n > bs_size bs" using grow sz by simp_all
      then show ?thesis
        by (simp add: flecs_bitset_ensure_size_def Let_def prev fit(1) L_def [symmetric] del: One_nat_def flip: m_def)
          (cases bs, simp add: L_def)
    qed
    with mL m fit show ?thesis
      by (intro exI [of _ "nat (m - int L)"]) (simp add: L_def [symmetric] mult.commute)
  qed
qed

lemma bitset_resize:
  assumes ok: "bs_ok bs" and n: "bs_count bs \<le> n"
  shows "if n \<le> bs_max
    then returns (flecs_bitset_ensure_size (bs\<lparr>bs_count := n\<rparr>) n) (\<lambda>bs'. bs_ok bs' \<and> bs_count bs' = n \<and>
      bs_list bs' = bs_list bs @ replicate (nat (n - bs_count bs)) False)
    else flecs_bitset_ensure_size (bs\<lparr>bs_count := n\<rparr>) n = Inl Int_Overflow"
proof -
  have c0: "0 \<le> bs_count bs" using ok by (simp add: bs_ok_def)
  with n have "0 \<le> n" by simp
  from bitset_ensure_size_data [OF ok this] obtain k where
    run: "flecs_bitset_ensure_size (bs\<lparr>bs_count := n\<rparr>) n =
      ecs_assert (n \<le> bs_max) Int_Overflow (Inr (bs\<lparr>bs_count := n, bs_data := bs_data bs @ replicate k 0,
        bs_size := 64 * int (length (bs_data bs) + k)\<rparr>))"
    and le: "n \<le> 64 * int (length (bs_data bs) + k)" "n \<le> bs_max \<Longrightarrow> int32 (64 * int (length (bs_data bs) + k))"
    by blast
  define bs' where eq: "bs' = bs\<lparr>bs_count := n, bs_data := bs_data bs @ replicate k 0,
        bs_size := 64 * int (length (bs_data bs) + k)\<rparr>"
  have cnt: "bs_count bs' = n" by (simp add: eq)
  have bits: "bs_bit bs' i = (i < nat (bs_count bs) \<and> bs_bit bs i)"
    if "i < 64 * length (bs_data bs')" for i
  proof (cases "i div 64 < length (bs_data bs)")
    case True
    then have lt: "i < 64 * length (bs_data bs)" by auto
    have same: "bs_bit bs' i = bs_bit bs i" using True by (simp add: bs_bit_def eq nth_append)
    have "\<not> bs_bit bs i" if "nat (bs_count bs) \<le> i"
      using ok lt that unfolding bs_ok_def by blast
    then show ?thesis unfolding same by (metis not_le)
  next
    case False
    with that have "\<not> bs_bit bs' i" by (auto simp: bs_bit_def eq nth_append)
    moreover have "\<not> i < nat (bs_count bs)" using False ok by (auto simp: bs_ok_def)
    ultimately show ?thesis by simp
  qed
  have "bs_ok bs'" if "n \<le> bs_max"
    using c0 n le(1) le(2) [OF that] bits unfolding bs_ok_def cnt by (auto simp: eq)
  moreover have len: "nat n \<le> 64 * length (bs_data bs')" using le by (simp add: eq)
  have "bs_list bs' = bs_list bs @ replicate (nat (n - bs_count bs)) False"
    using c0 n len
    by (intro nth_equalityI) (auto simp: cnt bs_list_nth nth_append bits nat_diff_distrib)
  ultimately show ?thesis unfolding run eq [symmetric] by (simp add: cnt ecs_assert_def)
qed

lemma bitset_addn_ok:
  assumes "bs_ok bs" "0 \<le> n"
  shows "if bs_count bs + n \<le> bs_max
    then returns (flecs_bitset_addn bs n) (\<lambda>bs'. bs_ok bs' \<and> bs_count bs' = bs_count bs + n \<and>
      bs_list bs' = bs_list bs @ replicate (nat n) False)
    else flecs_bitset_addn bs n = Inl Int_Overflow"
proof -
  have "0 \<le> bs_count bs" using assms(1) by (simp add: bs_ok_def)
  then have "bs_count bs + n \<le> bs_max \<Longrightarrow> int32 (bs_count bs + n)" using assms(2) by (simp add: int32_def bs_max_def)
  then show ?thesis
    using bitset_resize [OF assms(1), of "bs_count bs + n"] assms(2)
    by (cases "bs_count bs + n \<le> bs_max") (simp_all add: flecs_bitset_addn_def Let_def ecs_assert_def)
qed

lemma bitset_ensure_ok:
  assumes "bs_ok bs"
  shows "if n \<le> bs_max
    then returns (flecs_bitset_ensure bs n) (\<lambda>bs'. bs_ok bs' \<and> bs_count bs' = max (bs_count bs) n \<and>
      bs_list bs' = bs_list bs @ replicate (nat n - length (bs_list bs)) False)
    else flecs_bitset_ensure bs n = Inl Int_Overflow"
proof (cases "bs_count bs < n")
  case True
  moreover have "nat n - nat (bs_count bs) = nat (n - bs_count bs)" using assms True by (simp add: bs_ok_def nat_diff_distrib)
  ultimately show ?thesis
    using bitset_resize [OF assms, of n] by (simp add: flecs_bitset_ensure_def)
next
  case False
  then show ?thesis using assms bs_count_max [OF assms] by (simp add: flecs_bitset_ensure_def)
qed

lemma bitset_init_ok: "bs_ok flecs_bitset_init \<and> bs_list flecs_bitset_init = []"
  by (simp add: bs_ok_def bs_list_def flecs_bitset_init_def int32_def)

section \<open>Removing and swapping\<close>

lemma bitset_swap_ok:
  assumes ok: "bs_ok bs"
    and i: "0 \<le> i" "i < bs_count bs" and j: "0 \<le> j" "j < bs_count bs"
  shows "returns (flecs_bitset_swap bs i j) (\<lambda>bs'. bs_ok bs' \<and>
    bs_list bs' = (bs_list bs)[nat i := bs_list bs ! nat j, nat j := bs_list bs ! nat i])"
proof -
  let ?a = "bs_list bs ! nat i" and ?b = "bs_list bs ! nat j"
  have "returns (flecs_bitset_set bs i ?b) (\<lambda>b1. returns (flecs_bitset_set b1 j ?a)
      (\<lambda>bs'. bs_ok bs' \<and> bs_list bs' = (bs_list bs)[nat i := ?b, nat j := ?a]))"
  proof (rule returns_mono [OF bitset_set_ok [OF ok]])
    fix b1 assume b1: "bs_ok b1 \<and> bs_count b1 = bs_count bs \<and>
        bs_list b1 = (if 0 \<le> i then (bs_list bs)[nat i := ?b] else bs_list bs)"
    then show "returns (flecs_bitset_set b1 j ?a)
        (\<lambda>bs'. bs_ok bs' \<and> bs_list bs' = (bs_list bs)[nat i := ?b, nat j := ?a])"
      using i j by (intro returns_mono [OF bitset_set_ok]) simp_all
  qed
  then show ?thesis
    using i j by (simp add: flecs_bitset_swap_def bitset_get_ok [OF ok])
qed

lemma bs_ok_drop_last:
  assumes ok: "bs_ok bs" and pos: "0 < bs_count bs" and clear: "\<not> bs_list bs ! nat (bs_count bs - 1)"
  shows "bs_ok (bs\<lparr>bs_count := bs_count bs - 1\<rparr>) \<and>
    bs_list (bs\<lparr>bs_count := bs_count bs - 1\<rparr>) = butlast (bs_list bs)"
proof -
  define n where "n = nat (bs_count bs - 1)"
  have n: "bs_count bs = int (Suc n)" using pos by (simp add: n_def)
  have bit: "bs_bit (bs\<lparr>bs_count := c\<rparr>) i = bs_bit bs i" for c i by (simp add: bs_bit_def)
  have "\<not> bs_bit bs n" using clear by (simp add: bs_list_nth n n_def [symmetric])
  then have "\<not> bs_bit bs i" if "n \<le> i" "i < 64 * length (bs_data bs)" for i
    using ok that unfolding bs_ok_def n by (cases "i = n") auto
  with ok have "bs_ok (bs\<lparr>bs_count := bs_count bs - 1\<rparr>)"
    unfolding bs_ok_def n by (auto simp: bit)
  moreover have "bs_list (bs\<lparr>bs_count := bs_count bs - 1\<rparr>) = butlast (bs_list bs)"
    unfolding bs_list_def n map_butlast by (simp add: bit nat_add_distrib)
  ultimately show ?thesis by simp
qed

lemma bitset_remove_ok:
  assumes ok: "bs_ok bs" and i: "0 \<le> i" "i < bs_count bs"
  shows "returns (flecs_bitset_remove bs i)
    (\<lambda>bs'. bs_ok bs' \<and> bs_list bs' = swap_remove (nat i) (bs_list bs))"
proof -
  define last where "last = bs_count bs - 1"
  have last: "0 \<le> last" "last < bs_count bs" "nat last = length (bs_list bs) - 1"
    using i by (auto simp: last_def)
  have ne: "bs_list bs \<noteq> []" using i by (auto simp: bs_list_def)
  let ?b = "bs_list bs ! nat last"
  have b: "?b = List.last (bs_list bs)" using ne last by (simp add: last_conv_nth)
  have "returns (flecs_bitset_set bs i ?b) (\<lambda>b1. returns (flecs_bitset_set b1 last False)
      (\<lambda>b2. bs_ok (b2\<lparr>bs_count := bs_count b2 - 1\<rparr>) \<and>
        bs_list (b2\<lparr>bs_count := bs_count b2 - 1\<rparr>) = swap_remove (nat i) (bs_list bs)))"
  proof (rule returns_mono [OF bitset_set_ok [OF ok]], elim conjE)
    fix b1 assume b1: "bs_ok b1" "bs_count b1 = bs_count bs"
      "bs_list b1 = (if 0 \<le> i then (bs_list bs)[nat i := ?b] else bs_list bs)"
    show "returns (flecs_bitset_set b1 last False)
      (\<lambda>b2. bs_ok (b2\<lparr>bs_count := bs_count b2 - 1\<rparr>) \<and>
        bs_list (b2\<lparr>bs_count := bs_count b2 - 1\<rparr>) = swap_remove (nat i) (bs_list bs))"
    proof (rule returns_mono [OF bitset_set_ok [OF b1(1)]], elim conjE)
      fix b2 assume b2: "bs_ok b2" "bs_count b2 = bs_count b1"
        "bs_list b2 = (if 0 \<le> last then (bs_list b1)[nat last := False] else bs_list b1)"
      then have l2: "bs_list b2 = ((bs_list bs)[nat i := ?b])[nat last := False]"
        using b1 i last by simp
      have "bs_ok (b2\<lparr>bs_count := bs_count b2 - 1\<rparr>) \<and>
          bs_list (b2\<lparr>bs_count := bs_count b2 - 1\<rparr>) = butlast (bs_list b2)"
        using b1 b2 i last by (intro bs_ok_drop_last) (simp_all add: l2 last_def)
      moreover have "butlast (bs_list b2) = swap_remove (nat i) (bs_list bs)"
        unfolding l2 b last(3) swap_remove_def using ne
        by (simp add: butlast_list_update last_conv_nth del: length_bs_list)
      ultimately show "bs_ok (b2\<lparr>bs_count := bs_count b2 - 1\<rparr>) \<and>
          bs_list (b2\<lparr>bs_count := bs_count b2 - 1\<rparr>) = swap_remove (nat i) (bs_list bs)" by simp
    qed
  qed
  then show ?thesis
    using i last by (simp add: flecs_bitset_remove_def Let_def bitset_get_ok [OF ok] last_def [symmetric])
qed

definition flecs_bitset_count :: "ecs_bitset \<Rightarrow> int" where
  "flecs_bitset_count bs = bs_count bs"

section \<open>Properties\<close>

text \<open>C23: A bitset is a list of booleans. Growing it appends cleared bits (also where the 64-bit
  words are already allocated) as long as the number of bits, rounded up to whole words, is an \<open>int32_t\<close>,
  which is up to 2^31 - 64 bits, and overflows beyond; writing and reading a bit are the list update and
  access, and an index out of range changes nothing and reads false; removal moves the last bit into the removed
  position; swapping exchanges two bits. Every operation keeps the bits above the count clear.\<close>

theorem flecs_bitset_implements_list:
  assumes "bs_ok bs" and "0 \<le> n"
  shows "(if bs_count bs + n \<le> 2 ^ 31 - 64
      then returns (flecs_bitset_addn bs n) (\<lambda>bs'. bs_ok bs' \<and> bs_list bs' = bs_list bs @ replicate (nat n) False)
      else flecs_bitset_addn bs n = Inl Int_Overflow) \<and>
    (if n \<le> 2 ^ 31 - 64
      then returns (flecs_bitset_ensure bs n) (\<lambda>bs'. bs_ok bs' \<and>
        bs_list bs' = bs_list bs @ replicate (nat n - length (bs_list bs)) False)
      else flecs_bitset_ensure bs n = Inl Int_Overflow) \<and>
    flecs_bitset_get bs i =
      Inr (if 0 \<le> i \<and> i < flecs_bitset_count bs then bs_list bs ! nat i else False) \<and>
    returns (flecs_bitset_set bs i b) (\<lambda>bs'. bs_ok bs' \<and>
      bs_list bs' = (if 0 \<le> i then (bs_list bs)[nat i := b] else bs_list bs)) \<and>
    returns (flecs_bitset_remove bs i) (\<lambda>bs'. bs_ok bs' \<and>
      bs_list bs' = (if 0 \<le> i \<and> i < flecs_bitset_count bs then swap_remove (nat i) (bs_list bs)
        else bs_list bs)) \<and>
    returns (flecs_bitset_swap bs i j) (\<lambda>bs'. bs_ok bs' \<and>
      bs_list bs' = (if 0 \<le> i \<and> i < flecs_bitset_count bs \<and> 0 \<le> j \<and> j < flecs_bitset_count bs
        then (bs_list bs)[nat i := bs_list bs ! nat j, nat j := bs_list bs ! nat i] else bs_list bs))"
proof -
  have mx: "(2 :: int) ^ 31 - 64 = bs_max" by (simp add: bs_max_def)
  have "if bs_count bs + n \<le> bs_max
      then returns (flecs_bitset_addn bs n) (\<lambda>bs'. bs_ok bs' \<and> bs_list bs' = bs_list bs @ replicate (nat n) False)
      else flecs_bitset_addn bs n = Inl Int_Overflow"
    using bitset_addn_ok [OF assms] by (auto elim!: returns_mono)
  moreover have "if n \<le> bs_max
      then returns (flecs_bitset_ensure bs n) (\<lambda>bs'. bs_ok bs' \<and>
        bs_list bs' = bs_list bs @ replicate (nat n - length (bs_list bs)) False)
      else flecs_bitset_ensure bs n = Inl Int_Overflow"
    using bitset_ensure_ok [OF assms(1), of n] by (auto elim!: returns_mono)
  moreover have "returns (flecs_bitset_set bs i b) (\<lambda>bs'. bs_ok bs' \<and>
      bs_list bs' = (if 0 \<le> i then (bs_list bs)[nat i := b] else bs_list bs))"
    by (rule returns_mono [OF bitset_set_ok [OF assms(1)]]) simp
  moreover have "returns (flecs_bitset_remove bs i) (\<lambda>bs'. bs_ok bs' \<and>
      bs_list bs' = (if 0 \<le> i \<and> i < bs_count bs then swap_remove (nat i) (bs_list bs) else bs_list bs))"
    using bitset_remove_ok [OF assms(1), of i] assms(1) by (auto simp: flecs_bitset_remove_def)
  moreover have "returns (flecs_bitset_swap bs i j) (\<lambda>bs'. bs_ok bs' \<and>
      bs_list bs' = (if 0 \<le> i \<and> i < bs_count bs \<and> 0 \<le> j \<and> j < bs_count bs
        then (bs_list bs)[nat i := bs_list bs ! nat j, nat j := bs_list bs ! nat i] else bs_list bs))"
    using bitset_swap_ok [OF assms(1), of i j] assms(1) by (auto simp: flecs_bitset_swap_def)
  ultimately show ?thesis
    using bitset_get_ok [OF assms(1)] unfolding flecs_bitset_count_def mx by blast
qed

lemma flecs_bitset_implements_list_witness:
  "returns (flecs_bitset_addn \<lparr>bs_data = [5], bs_count = 3, bs_size = 64\<rparr> 2) (\<lambda>bs'. bs_list bs' = [True, False, True, False, False]) \<and>
   flecs_bitset_addn \<lparr>bs_data = [5], bs_count = 3, bs_size = 64\<rparr> 2147483600 = Inl Int_Overflow \<and>
   returns (flecs_bitset_remove \<lparr>bs_data = [5], bs_count = 3, bs_size = 64\<rparr> 1) (\<lambda>bs'. bs_list bs' = [True, True])"
proof -
  let ?bs = "\<lparr>bs_data = [5], bs_count = 3, bs_size = 64\<rparr>"
  have bits: "bit (5 :: int) i \<longleftrightarrow> i = 0 \<or> i = 2" for i
  proof -
    have "(5 :: int) = push_bit 2 1 OR 1" by simp
    then show ?thesis by (simp only: bit_or_iff bit_push_bit_iff bit_1_iff) auto
  qed
  have l: "bs_list ?bs = [True, False, True]"
    by (simp add: bs_list_def bs_bit_def upt_rec bits)
  have ok: "bs_ok ?bs" by (auto simp: bs_ok_def bs_bit_def bits int32_def)
  show ?thesis
    using flecs_bitset_implements_list [OF ok, of 2 1] flecs_bitset_implements_list [OF ok, of 2147483600 1] l
    by (simp add: flecs_bitset_count_def swap_remove_def numeral_2_eq_2 returns_conj_iff)
qed

end
