(* ===== verification/Flecs_Map.thy ===== *)
theory Flecs_Map
  imports Flecs_Bits
begin

text \<open>
  \<open>datastructures/map.c\<close>: the hash map from 64-bit keys to 64-bit values that the storage and the
  name indices are built on. A bucket is a singly linked list of entries, modelled as the list
  of its entries in order; a pointer to an entry is the rest of the list that starts there. The
  number of buckets is a power of two, keys are hashed by Fibonacci multiplication and a shift.
  The value type is any type with a zero (\<open>NULL\<close> for pointers); \<open>count\<close> is a bit field of 26
  bits and \<open>bucket_shift\<close> one of 6 bits. \<open>change_count\<close> and \<open>last_iterated\<close> are the fields of
  the debug build that detect a map modified while it is iterated.

  \<open>map_abs\<close> is the partial function the map stands for; the operations are shown to act on it as
  the updates of that function, and iteration to visit every entry exactly once.
\<close>

instantiation option :: (type) zero
begin

definition zero_option :: "'a option" where
  "zero_option = None"

instance ..

end

section \<open>State\<close>

type_synonym 'v entry = "64 word \<times> 'v"

record 'v ecs_map =
  m_buckets :: "'v entry list list"
  m_bucket_count :: int
  m_count :: nat
  m_bucket_shift :: nat
  m_change_count :: "32 word"
  m_last_iterated :: "64 word"

definition ecs_map_is_init :: "'v ecs_map \<Rightarrow> bool" where
  "ecs_map_is_init m = (m_bucket_shift m \<noteq> 0)"

section \<open>Buckets\<close>

definition flecs_map_get_bucket_count :: "int \<Rightarrow> int" where
  \<comment> \<open>\<open>count * ECS_LOAD_FACTOR * 0.1\<close> truncated to an integer: the double nearest to 0.1 is above
     0.1 by less than a unit in the last place, so the truncated product is the quotient by 10\<close>
  "flecs_map_get_bucket_count cnt = flecs_next_pow_of_2 (c_div (cnt * 12) 10)"

definition flecs_map_get_bucket_shift :: "int \<Rightarrow> nat" where
  "flecs_map_get_bucket_shift bucket_count = 64 - flecs_log2 (word_of_int bucket_count)"

definition flecs_map_get_bucket_index :: "nat \<Rightarrow> 64 word \<Rightarrow> int result" where
  "flecs_map_get_bucket_index bucket_shift key =
    ecs_assert (bucket_shift \<noteq> 0) ECS_INTERNAL_ERROR
      (Inr (sint (ucast (drop_bit bucket_shift (11400714819323198485 * key)) :: 32 word)))"

definition flecs_map_get_bucket :: "'v ecs_map \<Rightarrow> 64 word \<Rightarrow> nat result" where
  \<comment> \<open>a bucket pointer is the index of the bucket\<close>
  "flecs_map_get_bucket m key =
    bindR (flecs_map_get_bucket_index (m_bucket_shift m) key) (\<lambda>bucket_id.
    ecs_assert (bucket_id < m_bucket_count m) ECS_INTERNAL_ERROR
      (if bucket_id < 0 then Inl Bad_Access else Inr (nat bucket_id)))"

definition flecs_map_bucket_add :: "'v entry list list \<Rightarrow> nat \<Rightarrow> 64 word \<Rightarrow> 'v \<Rightarrow> 'v entry list list result" where
  \<comment> \<open>the new entry goes to the front; both callers store the value at once\<close>
  "flecs_map_bucket_add bs b key v =
    bindR (arr_get bs b) (\<lambda>first. arr_set bs b ((key, v) # first))"

fun bucket_unlink :: "64 word \<Rightarrow> 'v entry list \<Rightarrow> ('v \<times> 'v entry list) option" where
  "bucket_unlink key [] = None"
| "bucket_unlink key ((k, v) # es) =
    (if k = key then Some (v, es)
     else case bucket_unlink key es of None \<Rightarrow> None | Some (w, r) \<Rightarrow> Some (w, (k, v) # r))"

definition flecs_map_bucket_remove ::
    "'v::zero ecs_map \<Rightarrow> nat \<Rightarrow> 64 word \<Rightarrow> ('v ecs_map \<times> 'v) result" where
  "flecs_map_bucket_remove m b key =
    bindR (arr_get (m_buckets m) b) (\<lambda>first.
    case bucket_unlink key first of
      Some (v, rest) \<Rightarrow>
        Inr (m\<lparr>m_buckets := (m_buckets m)[b := rest],
               m_count := (m_count m + 2 ^ 26 - 1) mod 2 ^ 26\<rparr>, v)
    | None \<Rightarrow> Inr (m, 0))"

fun flecs_map_bucket_get :: "'v entry list \<Rightarrow> 64 word \<Rightarrow> 'v option" where
  "flecs_map_bucket_get [] key = None"
| "flecs_map_bucket_get ((k, v) # es) key =
    (if k = key then Some v else flecs_map_bucket_get es key)"

fun flecs_map_remap_bucket ::
    "nat \<Rightarrow> 'v entry list \<Rightarrow> 'v entry list list \<Rightarrow> 'v entry list list result" where
  "flecs_map_remap_bucket shift [] bs = Inr bs"
| "flecs_map_remap_bucket shift ((k, v) # es) bs =
    bindR (flecs_map_get_bucket_index shift k) (\<lambda>i.
    bindR (if i < 0 then Inl Bad_Access else flecs_map_bucket_add bs (nat i) k v) (\<lambda>bs.
    flecs_map_remap_bucket shift es bs))"

fun flecs_map_remap ::
    "nat \<Rightarrow> 'v entry list list \<Rightarrow> 'v entry list list \<Rightarrow> 'v entry list list result" where
  "flecs_map_remap shift [] bs = Inr bs"
| "flecs_map_remap shift (b # olds) bs =
    bindR (flecs_map_remap_bucket shift b bs) (\<lambda>bs. flecs_map_remap shift olds bs)"

definition flecs_map_rehash :: "'v ecs_map \<Rightarrow> int \<Rightarrow> 'v ecs_map result" where
  "flecs_map_rehash m cnt =
    (let cnt = flecs_next_pow_of_2 cnt;
         cnt = (if cnt < 2 then 2 else cnt);
         old_count = m_bucket_count m;
         shift = flecs_map_get_bucket_shift cnt mod 64 in
     bindR (if nat old_count \<le> length (m_buckets m)
            then flecs_map_remap shift (take (nat old_count) (m_buckets m)) (replicate (nat cnt) [])
            else Inl Bad_Access)
       (\<lambda>bs. Inr (m\<lparr>m_buckets := bs, m_bucket_count := cnt, m_bucket_shift := shift\<rparr>)))"

section \<open>Operations\<close>

definition map_zero :: "'v ecs_map" where
  \<comment> \<open>zeroed memory\<close>
  "map_zero = \<lparr>m_buckets = [], m_bucket_count = 0, m_count = 0, m_bucket_shift = 0,
    m_change_count = 0, m_last_iterated = 0\<rparr>"

definition ecs_map_init :: "'v ecs_map result" where
  "ecs_map_init = flecs_map_rehash map_zero 0"

definition ecs_map_init_if :: "'v ecs_map \<Rightarrow> 'v ecs_map result" where
  "ecs_map_init_if m = (if \<not> ecs_map_is_init m then ecs_map_init else Inr m)"

definition ecs_map_fini :: "'v ecs_map \<Rightarrow> 'v ecs_map" where
  \<comment> \<open>the bucket array is freed; the pointer to it dangles and is never read again\<close>
  "ecs_map_fini m =
    (if \<not> ecs_map_is_init m then m else m\<lparr>m_buckets := [], m_bucket_shift := 0\<rparr>)"

definition ecs_map_get :: "'v ecs_map \<Rightarrow> 64 word \<Rightarrow> 'v option result" where
  \<comment> \<open>\<open>None\<close> is the null pointer, \<open>Some v\<close> a pointer to a slot that holds \<open>v\<close>\<close>
  "ecs_map_get m key =
    bindR (flecs_map_get_bucket m key) (\<lambda>b.
    bindR (arr_get (m_buckets m) b) (\<lambda>bucket. Inr (flecs_map_bucket_get bucket key)))"

definition ecs_map_get_deref :: "'v::zero ecs_map \<Rightarrow> 64 word \<Rightarrow> 'v result" where
  "ecs_map_get_deref m key =
    bindR (ecs_map_get m key) (\<lambda>ptr. case ptr of Some v \<Rightarrow> Inr v | None \<Rightarrow> Inr 0)"

fun bucket_store :: "64 word \<Rightarrow> 'v \<Rightarrow> 'v entry list \<Rightarrow> 'v entry list" where
  "bucket_store key v [] = []"
| "bucket_store key v ((k, w) # es) =
    (if k = key then (k, v) # es else (k, w) # bucket_store key v es)"

definition map_store :: "'v ecs_map \<Rightarrow> 64 word \<Rightarrow> 'v \<Rightarrow> 'v ecs_map result" where
  \<comment> \<open>a write through the pointer that \<open>ecs_map_get\<close> or \<open>ecs_map_ensure\<close> returned for the key\<close>
  "map_store m key v =
    bindR (flecs_map_get_bucket m key) (\<lambda>b.
    bindR (arr_get (m_buckets m) b) (\<lambda>bucket.
    bindR (arr_set (m_buckets m) b (bucket_store key v bucket)) (\<lambda>bs.
    Inr (m\<lparr>m_buckets := bs\<rparr>))))"

definition map_put_new :: "'v ecs_map \<Rightarrow> 64 word \<Rightarrow> 'v \<Rightarrow> 'v ecs_map result" where
  \<comment> \<open>the part \<open>ecs_map_insert\<close> and \<open>ecs_map_ensure\<close> have in common: count, grow, add\<close>
  "map_put_new m key v =
    (let map_count = (m_count m + 1) mod 2 ^ 26;
         m = m\<lparr>m_count := map_count\<rparr>;
         tgt_bucket_count = flecs_map_get_bucket_count (int map_count);
         bucket_count = m_bucket_count m in
     bindR (if tgt_bucket_count > bucket_count then flecs_map_rehash m tgt_bucket_count else Inr m)
       (\<lambda>m.
     bindR (flecs_map_get_bucket m key) (\<lambda>b.
     bindR (flecs_map_bucket_add (m_buckets m) b key v) (\<lambda>bs.
     Inr (m\<lparr>m_buckets := bs, m_change_count := m_change_count m + 1\<rparr>)))))"

definition ecs_map_insert :: "'v ecs_map \<Rightarrow> 64 word \<Rightarrow> 'v \<Rightarrow> 'v ecs_map result" where
  "ecs_map_insert m key value =
    bindR (ecs_map_get m key) (\<lambda>ptr.
    ecs_assert (ptr = None) ECS_INVALID_PARAMETER (map_put_new m key value))"

definition ecs_map_insert_alloc :: "'v \<Rightarrow> 'v ecs_map \<Rightarrow> 64 word \<Rightarrow> ('v ecs_map \<times> 'v) result" where
  \<comment> \<open>\<open>elem\<close> is the pointer \<open>calloc\<close> returned\<close>
  "ecs_map_insert_alloc elem m key = bindR (ecs_map_insert m key elem) (\<lambda>m. Inr (m, elem))"

definition ecs_map_ensure :: "'v::zero ecs_map \<Rightarrow> 64 word \<Rightarrow> ('v ecs_map \<times> 'v) result" where
  \<comment> \<open>the second component is the value in the slot the returned pointer designates\<close>
  "ecs_map_ensure m key =
    bindR (ecs_map_get m key) (\<lambda>result.
    case result of
      Some v \<Rightarrow> Inr (m, v)
    | None \<Rightarrow> bindR (map_put_new m key 0) (\<lambda>m. Inr (m, 0)))"

definition ecs_map_ensure_alloc :: "'v::zero \<Rightarrow> 'v ecs_map \<Rightarrow> 64 word \<Rightarrow> ('v ecs_map \<times> 'v) result" where
  "ecs_map_ensure_alloc elem m key =
    bindR (ecs_map_ensure m key) (\<lambda>(m, val).
    if val = 0 then bindR (map_store m key elem) (\<lambda>m. Inr (m, elem)) else Inr (m, val))"

definition ecs_map_remove :: "'v::zero ecs_map \<Rightarrow> 64 word \<Rightarrow> ('v ecs_map \<times> 'v) result" where
  "ecs_map_remove m key =
    (let m = (if m_last_iterated m \<noteq> key then m\<lparr>m_change_count := m_change_count m + 1\<rparr> else m) in
     bindR (flecs_map_get_bucket m key) (\<lambda>b. flecs_map_bucket_remove m b key))"

definition ecs_map_remove_free :: "'v::zero ecs_map \<Rightarrow> 64 word \<Rightarrow> ('v ecs_map \<times> 'v option) result" where
  \<comment> \<open>the second component is the pointer handed to \<open>ecs_os_free\<close>, if any\<close>
  "ecs_map_remove_free m key =
    bindR (ecs_map_remove m key) (\<lambda>(m, val). Inr (m, if val \<noteq> 0 then Some val else None))"

definition ecs_map_reclaim :: "'v ecs_map \<Rightarrow> 'v ecs_map result" where
  "ecs_map_reclaim m =
    (let tgt_bucket_count = flecs_map_get_bucket_count (int (m_count m) - 1) in
     if tgt_bucket_count \<noteq> m_bucket_count m then flecs_map_rehash m tgt_bucket_count else Inr m)"

definition ecs_map_clear :: "'v ecs_map \<Rightarrow> 'v ecs_map result" where
  "ecs_map_clear m =
    bindR (flecs_map_rehash (m\<lparr>m_buckets := [], m_bucket_count := 0, m_count := 0\<rparr>) 2) (\<lambda>m.
    Inr (m\<lparr>m_change_count := m_change_count m + 1\<rparr>))"

section \<open>Invariant and abstraction\<close>

definition hash_index :: "nat \<Rightarrow> 64 word \<Rightarrow> nat" where
  \<comment> \<open>the bucket of a key in a table of \<open>2 ^ k\<close> buckets\<close>
  "hash_index k key = unat (drop_bit (64 - k) (11400714819323198485 * key))"

definition shape :: "nat \<Rightarrow> 'v entry list list \<Rightarrow> bool" where
  \<comment> \<open>every entry is in the bucket of its key, and no key occurs twice\<close>
  "shape k bs \<longleftrightarrow> 1 \<le> k \<and> k \<le> 30 \<and> length bs = 2 ^ k \<and>
    (\<forall>b < length bs. distinct (map fst (bs ! b)) \<and> (\<forall>e \<in> set (bs ! b). hash_index k (fst e) = b))"

definition entries :: "'v ecs_map \<Rightarrow> 'v entry list" where
  "entries m = concat (m_buckets m)"

definition map_ok :: "'v ecs_map \<Rightarrow> bool" where
  "map_ok m \<longleftrightarrow> (\<exists>k. shape k (m_buckets m) \<and> m_bucket_count m = 2 ^ k \<and> m_bucket_shift m = 64 - k) \<and>
    m_count m = length (entries m) \<and> length (entries m) < 2 ^ 26"

definition map_abs :: "'v ecs_map \<Rightarrow> 64 word \<rightharpoonup> 'v" where
  "map_abs m = map_of (entries m)"

lemma hash_index_less:
  assumes "k \<le> 30"
  shows "hash_index k key < 2 ^ k"
proof -
  have "unat (drop_bit (64 - k) (11400714819323198485 * key)) =
      unat (11400714819323198485 * key) div 2 ^ (64 - k)"
    unfolding unat_drop_bit_eq by (rule drop_bit_eq_div)
  moreover have "unat (11400714819323198485 * key) < 2 ^ k * 2 ^ (64 - k)"
    using unsigned_less [of "11400714819323198485 * key", where ?'a = nat] assms
    by (simp flip: power_add)
  ultimately show ?thesis unfolding hash_index_def by (simp only: less_mult_imp_div_less)
qed

lemma get_bucket_index_ok:
  assumes "1 \<le> k" "k \<le> 30"
  shows "flecs_map_get_bucket_index (64 - k) key = Inr (int (hash_index k key))"
proof -
  let ?w = "drop_bit (64 - k) (11400714819323198485 * key)"
  have "hash_index k key < 2 ^ k" using assms by (intro hash_index_less)
  also have "(2::nat) ^ k \<le> 2 ^ 30" using assms by (intro power_increasing) auto
  finally have lt: "unat ?w < 2 ^ 30" by (simp add: hash_index_def)
  then have "unat (ucast ?w :: 32 word) = unat ?w"
    by (simp add: unsigned_ucast_eq take_bit_nat_eq_self)
  with lt have "sint (ucast ?w :: 32 word) = int (hash_index k key)"
    by (simp add: sint_nonneg_word hash_index_def)
  with assms show ?thesis by (simp add: flecs_map_get_bucket_index_def)
qed

lemma distinct_concat_keyed:
  assumes "\<forall>i < length bs. distinct (map fst (bs ! i)) \<and> (\<forall>e \<in> set (bs ! i). h (fst e) = i + off)"
  shows "distinct (map fst (concat bs)) \<and> (\<forall>e \<in> set (concat bs). off \<le> h (fst e))"
  using assms
proof (induction bs arbitrary: off)
  case Nil
  then show ?case by simp
next
  case (Cons b bs)
  have b: "distinct (map fst b)" "\<forall>e \<in> set b. h (fst e) = off"
    using Cons.prems [rule_format, of 0] by auto
  have "\<forall>i < length bs. distinct (map fst (bs ! i)) \<and> (\<forall>e \<in> set (bs ! i). h (fst e) = i + Suc off)"
    using Cons.prems [rule_format, of "Suc _"] by auto
  from Cons.IH [OF this] b show ?case by fastforce
qed

lemma shape_distinct: "shape k bs \<Longrightarrow> distinct (map fst (concat bs))"
  using distinct_concat_keyed [of bs "hash_index k" 0] by (simp add: shape_def)

lemma shape_bucket:
  "shape k bs \<Longrightarrow> b < length bs \<Longrightarrow> e \<in> set (bs ! b) \<Longrightarrow> hash_index k (fst e) = b"
  by (simp add: shape_def)

lemma shape_hash_less: "shape k bs \<Longrightarrow> hash_index k key < length bs"
  by (simp add: shape_def hash_index_less)

lemma shape_map_of:
  assumes sh: "shape k bs"
  shows "map_of (concat bs) key = map_of (bs ! hash_index k key) key"
proof -
  let ?b = "bs ! hash_index k key"
  have lt: "hash_index k key < length bs" using sh by (rule shape_hash_less)
  have d: "distinct (map fst (concat bs))" "distinct (map fst ?b)"
    using sh lt by (auto simp: shape_distinct) (simp add: shape_def)
  have "(key, v) \<in> set (concat bs) \<longleftrightarrow> (key, v) \<in> set ?b" for v
  proof
    assume "(key, v) \<in> set (concat bs)"
    then obtain i where "i < length bs" "(key, v) \<in> set (bs ! i)"
      by (metis in_set_conv_nth nth_mem set_concat UN_E)
    with shape_bucket [OF sh this] show "(key, v) \<in> set ?b" by simp
  next
    assume "(key, v) \<in> set ?b"
    with lt show "(key, v) \<in> set (concat bs)" by auto
  qed
  with d have "map_of (concat bs) key = Some v \<longleftrightarrow> map_of ?b key = Some v" for v
    by (simp only: map_of_eq_Some_iff)
  then show ?thesis by (metis not_None_eq)
qed

lemma bucket_get_map_of: "flecs_map_bucket_get es key = map_of es key"
  by (induction es) auto

lemma map_okE:
  assumes "map_ok m"
  obtains k where "shape k (m_buckets m)" "m_bucket_count m = 2 ^ k" "m_bucket_shift m = 64 - k"
    "m_count m = length (entries m)" "length (entries m) < 2 ^ 26"
  using assms unfolding map_ok_def by blast

lemma get_bucket_ok:
  assumes "shape k (m_buckets m)" "m_bucket_count m = 2 ^ k" "m_bucket_shift m = 64 - k"
  shows "flecs_map_get_bucket m key = Inr (hash_index k key)"
proof -
  have k: "1 \<le> k" "k \<le> 30" using assms(1) by (auto simp: shape_def)
  then have "int (hash_index k key) < int (2 ^ k)" by (simp only: of_nat_less_iff hash_index_less)
  with assms k get_bucket_index_ok [OF k] show ?thesis by (simp add: flecs_map_get_bucket_def)
qed

lemma map_get_ok: "map_ok m \<Longrightarrow> ecs_map_get m key = Inr (map_abs m key)"
  by (erule map_okE)
    (simp add: ecs_map_get_def get_bucket_ok shape_hash_less bucket_get_map_of map_abs_def entries_def
      shape_map_of)

lemma map_abs_distinct: "map_ok m \<Longrightarrow> distinct (map fst (entries m))"
  by (auto simp: map_ok_def entries_def shape_distinct)

lemma finite_dom_map_abs: "finite (dom (map_abs m))"
  by (simp add: map_abs_def finite_dom_map_of)

lemma map_count_card:
  assumes "map_ok m"
  shows "m_count m = card (dom (map_abs m))"
proof -
  have "card (fst ` set (entries m)) = length (entries m)"
    using distinct_card [OF map_abs_distinct [OF assms]] by simp
  with assms show ?thesis by (simp add: map_abs_def dom_map_of_conv_image_fst map_ok_def)
qed

section \<open>Growing and adding\<close>

lemma shape_update:
  "shape k bs \<Longrightarrow> distinct (map fst es) \<Longrightarrow> \<forall>e \<in> set es. hash_index k (fst e) = b \<Longrightarrow> shape k (bs[b := es])"
  by (cases "b < length bs") (auto simp: shape_def nth_list_update list_update_beyond)

lemma mset_concat_update:
  assumes "b < length bs"
  shows "mset (concat (bs[b := es])) + mset (bs ! b) = mset (concat bs) + mset es"
proof -
  have "mset (concat bs) = mset (concat (take b bs @ bs ! b # drop (Suc b) bs))"
    using assms by (simp add: id_take_nth_drop [symmetric])
  then show ?thesis using assms by (simp add: upd_conv_take_nth_drop)
qed

lemma map_of_mset_eq:
  assumes "distinct (map fst xs)" and eq: "mset xs = mset ys"
  shows "map_of xs = map_of ys" and "distinct (map fst ys)"
proof -
  have "mset (map fst xs) = mset (map fst ys)" using eq by simp
  with assms(1) show d: "distinct (map fst ys)" by (metis mset_eq_imp_distinct_iff)
  have "set xs = set ys" using eq by (rule mset_eq_setD)
  with assms(1) d have "map_of xs key = Some v \<longleftrightarrow> map_of ys key = Some v" for key v
    by (simp only: map_of_eq_Some_iff)
  then show "map_of xs = map_of ys" by (metis not_None_eq ext)
qed

lemma bucket_add_ok:
  assumes sh: "shape k bs" and new: "key \<notin> fst ` set (concat bs)"
  shows "returns (flecs_map_bucket_add bs (hash_index k key) key v)
    (\<lambda>bs'. shape k bs' \<and> mset (concat bs') = add_mset (key, v) (mset (concat bs)))"
proof -
  let ?b = "hash_index k key"
  have lt: "?b < length bs" using sh by (rule shape_hash_less)
  have "distinct (map fst (bs ! ?b))" using sh lt by (simp add: shape_def)
  moreover have "key \<notin> fst ` set (bs ! ?b)" using new nth_mem [OF lt] by (auto simp: image_iff)
  ultimately have "shape k (bs[?b := (key, v) # bs ! ?b])"
    using shape_bucket [OF sh lt] by (intro shape_update [OF sh]) auto
  moreover have "mset (concat (bs[?b := (key, v) # bs ! ?b])) = add_mset (key, v) (mset (concat bs))"
    using mset_concat_update [OF lt, of "(key, v) # bs ! ?b"] by simp
  ultimately show ?thesis using lt by (simp add: flecs_map_bucket_add_def)
qed

lemma remap_bucket_ok:
  assumes "shape k bs" and "distinct (map fst (es @ concat bs))"
  shows "returns (flecs_map_remap_bucket (64 - k) es bs)
    (\<lambda>bs'. shape k bs' \<and> mset (concat bs') = mset es + mset (concat bs))"
  using assms
proof (induction es arbitrary: bs)
  case Nil
  then show ?case by simp
next
  case (Cons e es)
  obtain key v where e: "e = (key, v)" by fastforce
  have k: "1 \<le> k" "k \<le> 30" using Cons.prems(1) by (auto simp: shape_def)
  have new: "key \<notin> fst ` set (concat bs)" using Cons.prems(2) by (auto simp: e)
  let ?Q = "\<lambda>bs'. shape k bs' \<and> mset (concat bs') = mset (e # es) + mset (concat bs)"
  have "returns (flecs_map_bucket_add bs (hash_index k key) key v)
      (\<lambda>bs1. returns (flecs_map_remap_bucket (64 - k) es bs1) ?Q)"
  proof (rule returns_mono [OF bucket_add_ok [OF Cons.prems(1) new]], elim conjE)
    fix bs1 assume bs1: "shape k bs1" "mset (concat bs1) = add_mset (key, v) (mset (concat bs))"
    then have "mset (es @ concat bs1) = mset ((e # es) @ concat bs)" by (simp add: e)
    from map_of_mset_eq(2) [OF Cons.prems(2) this [symmetric]] Cons.IH [OF bs1(1)] bs1(2)
    show "returns (flecs_map_remap_bucket (64 - k) es bs1) ?Q"
      by (auto simp: e elim!: returns_mono)
  qed
  then show ?case by (simp add: e get_bucket_index_ok [OF k])
qed

lemma remap_ok:
  assumes "shape k bs" and "distinct (map fst (concat olds @ concat bs))"
  shows "returns (flecs_map_remap (64 - k) olds bs)
    (\<lambda>bs'. shape k bs' \<and> mset (concat bs') = mset (concat olds) + mset (concat bs))"
  using assms
proof (induction olds arbitrary: bs)
  case Nil
  then show ?case by simp
next
  case (Cons b olds)
  let ?Q = "\<lambda>bs'. shape k bs' \<and> mset (concat bs') = mset (concat (b # olds)) + mset (concat bs)"
  have d: "distinct (map fst (b @ concat bs))"
    using Cons.prems(2) unfolding concat.simps append_assoc map_append distinct_append by (simp only: set_append) blast
  have "returns (flecs_map_remap_bucket (64 - k) b bs)
      (\<lambda>bs1. returns (flecs_map_remap (64 - k) olds bs1) ?Q)"
  proof (rule returns_mono [OF remap_bucket_ok [OF Cons.prems(1) d]], elim conjE)
    fix bs1 assume bs1: "shape k bs1" "mset (concat bs1) = mset b + mset (concat bs)"
    then have "mset (concat (b # olds) @ concat bs) = mset (concat olds @ concat bs1)" by simp
    from map_of_mset_eq(2) [OF Cons.prems(2) this] Cons.IH [OF bs1(1)] bs1(2)
    show "returns (flecs_map_remap (64 - k) olds bs1) ?Q"
      by (auto elim!: returns_mono)
  qed
  then show ?case by simp
qed

lemma bucket_count_pow2:
  assumes "0 \<le> n" "n \<le> 2 ^ 30"
  obtains k where "1 \<le> k" "k \<le> 30" "n \<le> 2 ^ k"
    "(if flecs_next_pow_of_2 n < 2 then 2 else flecs_next_pow_of_2 n) = 2 ^ k"
proof (cases "n \<le> 1")
  case True
  with assms have "n = 0 \<or> n = 1" by auto
  then show thesis by (intro that [of 1]) (auto simp: next_pow_of_2_0 next_pow_of_2_1)
next
  case False
  with assms next_pow_of_2_bounds [of n] obtain k where k: "k \<le> 30" "flecs_next_pow_of_2 n = 2 ^ k"
    "n \<le> 2 ^ k" by auto
  from k False have "1 \<le> k" by (cases k) auto
  moreover from k False have "\<not> flecs_next_pow_of_2 n < 2" by simp
  ultimately show thesis using k by (intro that [of k]) simp_all
qed

lemma bucket_shift_pow2:
  "1 \<le> k \<Longrightarrow> k \<le> 30 \<Longrightarrow> flecs_map_get_bucket_shift (2 ^ k) mod 64 = 64 - k"
  by (simp add: flecs_map_get_bucket_shift_def flecs_log2_pow2)

lemma shape_empty: "1 \<le> k \<Longrightarrow> k \<le> 30 \<Longrightarrow> shape k (replicate (2 ^ k) [])"
  by (simp add: shape_def)

lemma map_rehash_ok:
  assumes d: "distinct (map fst (entries m))" and old: "m_bucket_count m = int (length (m_buckets m))"
    and n: "0 \<le> n" "n \<le> 2 ^ 30"
  shows "returns (flecs_map_rehash m n) (\<lambda>m'. \<exists>k bs. shape k bs \<and> n \<le> 2 ^ k \<and>
    mset (concat bs) = mset (entries m) \<and>
    m' = m\<lparr>m_buckets := bs, m_bucket_count := 2 ^ k, m_bucket_shift := 64 - k\<rparr>)"
proof -
  from bucket_count_pow2 [OF n] obtain k where k: "1 \<le> k" "k \<le> 30" "n \<le> 2 ^ k"
    "(if flecs_next_pow_of_2 n < 2 then 2 else flecs_next_pow_of_2 n) = 2 ^ k" by metis
  have "returns (flecs_map_remap (64 - k) (m_buckets m) (replicate (2 ^ k) []))
      (\<lambda>bs. shape k bs \<and> mset (concat bs) = mset (entries m))"
    using remap_ok [OF shape_empty [OF k(1,2)], of "m_buckets m"] d by (simp add: entries_def)
  then show ?thesis
    using k bucket_shift_pow2 [OF k(1,2)] old
    by (auto simp: flecs_map_rehash_def Let_def nat_power_eq elim!: returns_mono)
qed

lemma map_init_ok: "returns (ecs_map_init :: 'v ecs_map result) (\<lambda>m. map_ok m \<and> map_abs m = Map.empty)"
proof -
  let ?z = "map_zero :: 'v ecs_map"
  have "returns (flecs_map_rehash ?z 0) (\<lambda>m'. \<exists>k bs. shape k bs \<and> 0 \<le> (2::int) ^ k \<and>
      mset (concat bs) = mset (entries ?z) \<and>
      m' = ?z\<lparr>m_buckets := bs, m_bucket_count := 2 ^ k, m_bucket_shift := 64 - k\<rparr>)"
    by (rule map_rehash_ok) (simp_all add: entries_def map_zero_def)
  then show ?thesis unfolding ecs_map_init_def
  proof (rule returns_mono, elim exE conjE)
    fix m and k and bs :: "'v entry list list"
    assume sh: "shape k bs" and "mset (concat bs) = mset (entries ?z)"
      and m: "m = ?z\<lparr>m_buckets := bs, m_bucket_count := 2 ^ k, m_bucket_shift := 64 - k\<rparr>"
    then have e: "entries m = []" by (simp add: entries_def map_zero_def)
    have f: "m_buckets m = bs" "m_bucket_count m = 2 ^ k" "m_bucket_shift m = 64 - k" "m_count m = 0"
      by (simp_all add: m map_zero_def)
    show "map_ok m \<and> map_abs m = Map.empty"
      unfolding map_ok_def map_abs_def e f using sh by auto
  qed
qed

lemma rehashed_ok:
  \<comment> \<open>what rehashing leaves, for a map whose entries are sound\<close>
  assumes "shape k (m_buckets m)" "m_bucket_count m = 2 ^ k" "0 \<le> n" "n \<le> 2 ^ 30"
  shows "returns (flecs_map_rehash m n) (\<lambda>m'. \<exists>k. shape k (m_buckets m') \<and>
    m_bucket_count m' = 2 ^ k \<and> m_bucket_shift m' = 64 - k \<and> mset (entries m') = mset (entries m) \<and>
    m_count m' = m_count m \<and> m_change_count m' = m_change_count m \<and>
    m_last_iterated m' = m_last_iterated m)"
proof -
  have "distinct (map fst (entries m))" using assms(1) by (simp add: entries_def shape_distinct)
  moreover have "m_bucket_count m = int (length (m_buckets m))" using assms(1,2) by (simp add: shape_def)
  ultimately show ?thesis
    using assms(3,4) by (rule returns_mono [OF map_rehash_ok]) (auto simp: entries_def)
qed

lemma tgt_bucket_count_bound:
  assumes "n < 2 ^ 26"
  shows "0 \<le> flecs_map_get_bucket_count (int n) \<and> flecs_map_get_bucket_count (int n) \<le> 2 ^ 30"
proof -
  define t where "t = int n * 12 div 10"
  have t: "0 \<le> t" "t \<le> 2 ^ 28" using assms by (auto simp: t_def)
  have eq: "flecs_map_get_bucket_count (int n) = flecs_next_pow_of_2 t"
    by (simp add: flecs_map_get_bucket_count_def t_def)
  show ?thesis
  proof (cases "t = 0")
    case True
    then show ?thesis by (simp add: eq next_pow_of_2_0)
  next
    case False
    with t next_pow_of_2_bounds [of t] obtain j where "flecs_next_pow_of_2 t = 2 ^ j" "2 ^ j < 2 * t"
      by auto
    with t show ?thesis by (simp add: eq)
  qed
qed

lemma map_put_new_ok:
  assumes ok: "map_ok m" and new: "map_abs m key = None" and room: "m_count m + 1 < 2 ^ 26"
  shows "returns (map_put_new m key v) (\<lambda>m'. map_ok m' \<and> map_abs m' = (map_abs m)(key \<mapsto> v) \<and>
    mset (entries m') = add_mset (key, v) (mset (entries m)))"
proof -
  from ok obtain k where k: "shape k (m_buckets m)" "m_bucket_count m = 2 ^ k"
    "m_bucket_shift m = 64 - k" "m_count m = length (entries m)" "length (entries m) < 2 ^ 26"
    by (rule map_okE)
  define m1 where "m1 = m\<lparr>m_count := m_count m + 1\<rparr>"
  define tgt where "tgt = flecs_map_get_bucket_count (int (m_count m + 1))"
  have tgt: "0 \<le> tgt" "tgt \<le> 2 ^ 30" using tgt_bucket_count_bound [OF room] by (simp_all add: tgt_def)
  have e1: "entries m1 = entries m" "m_buckets m1 = m_buckets m" by (simp_all add: m1_def entries_def)
  let ?R = "\<lambda>m'. \<exists>k. shape k (m_buckets m') \<and>
    m_bucket_count m' = 2 ^ k \<and> m_bucket_shift m' = 64 - k \<and> mset (entries m') = mset (entries m) \<and>
    m_count m' = m_count m + 1"
  have grow: "returns (if tgt > m_bucket_count m then flecs_map_rehash m1 tgt else Inr m1) ?R"
  proof (cases "tgt > m_bucket_count m")
    case True
    have "shape k (m_buckets m1)" "m_bucket_count m1 = 2 ^ k" using k by (simp_all add: m1_def)
    from rehashed_ok [OF this tgt] True show ?thesis
      by (auto simp: e1 elim!: returns_mono) (auto simp: m1_def)
  next
    case False
    with k show ?thesis by (auto simp: m1_def entries_def)
  qed
  let ?Q = "\<lambda>m'. map_ok m' \<and> map_abs m' = (map_abs m)(key \<mapsto> v) \<and>
    mset (entries m') = add_mset (key, v) (mset (entries m))"
  have "returns (if tgt > m_bucket_count m then flecs_map_rehash m1 tgt else Inr m1)
    (\<lambda>m. returns (bindR (flecs_map_get_bucket m key) (\<lambda>b.
       bindR (flecs_map_bucket_add (m_buckets m) b key v) (\<lambda>bs.
       Inr (m\<lparr>m_buckets := bs, m_change_count := m_change_count m + 1\<rparr>)))) ?Q)"
  proof (rule returns_mono [OF grow], elim exE conjE)
    fix m2 j
    assume m2: "shape j (m_buckets m2)" "m_bucket_count m2 = 2 ^ j" "m_bucket_shift m2 = 64 - j"
      "mset (entries m2) = mset (entries m)" "m_count m2 = m_count m + 1"
    have keys: "set (entries m2) = set (entries m)" using m2(4) by (rule mset_eq_setD)
    have new2: "key \<notin> fst ` set (concat (m_buckets m2))"
      using new keys by (simp add: map_abs_def map_of_eq_None_iff flip: entries_def)
    show "returns (bindR (flecs_map_get_bucket m2 key) (\<lambda>b.
       bindR (flecs_map_bucket_add (m_buckets m2) b key v) (\<lambda>bs.
       Inr (m2\<lparr>m_buckets := bs, m_change_count := m_change_count m2 + 1\<rparr>)))) ?Q"
      unfolding get_bucket_ok [OF m2(1-3)] bindR_Inr returns_bindR returns_Inr
    proof (rule returns_mono [OF bucket_add_ok [OF m2(1) new2]], elim conjE)
      fix bs assume bs: "shape j bs" "mset (concat bs) = add_mset (key, v) (mset (concat (m_buckets m2)))"
      let ?m = "m2\<lparr>m_buckets := bs, m_change_count := m_change_count m2 + 1\<rparr>"
      have es: "mset (entries ?m) = mset ((key, v) # entries m)"
        using bs(2) m2(4) by (simp add: entries_def)
      have len: "length (entries ?m) = length (entries m) + 1"
        using mset_eq_length [OF es] by simp
      have "distinct (map fst (entries ?m))" using bs(1) by (simp add: entries_def shape_distinct)
      from map_of_mset_eq(1) [OF this es] have "map_abs ?m = (map_abs m)(key \<mapsto> v)"
        by (simp add: map_abs_def)
      moreover have "map_ok ?m"
        unfolding map_ok_def len using bs(1) m2 k room by auto
      ultimately show "?Q ?m" using es by simp
    qed
  qed
  moreover have "(m_count m + 1) mod 2 ^ 26 = m_count m + 1" "m_bucket_count m1 = m_bucket_count m"
    using room by (simp_all add: m1_def)
  ultimately show ?thesis
    unfolding map_put_new_def Let_def by (simp only: returns_bindR flip: m1_def tgt_def)
qed

lemma map_insert_ok:
  assumes "map_ok m" "map_abs m key = None" "m_count m + 1 < 2 ^ 26"
  shows "returns (ecs_map_insert m key v) (\<lambda>m'. map_ok m' \<and> map_abs m' = (map_abs m)(key \<mapsto> v))"
  using map_put_new_ok [OF assms, of v] assms
  by (auto simp: ecs_map_insert_def map_get_ok elim: returns_mono)

lemma map_insert_present:
  "map_ok m \<Longrightarrow> map_abs m key \<noteq> None \<Longrightarrow> ecs_map_insert m key v = Inl ECS_INVALID_PARAMETER"
  by (auto simp: ecs_map_insert_def map_get_ok ecs_assert_def)

lemma map_ensure_ok:
  assumes "map_ok m" "m_count m + 1 < 2 ^ 26"
  shows "returns (ecs_map_ensure m key) (\<lambda>(m', v). map_ok m' \<and>
    v = (case map_abs m key of None \<Rightarrow> 0 | Some v \<Rightarrow> v) \<and> map_abs m' = (map_abs m)(key \<mapsto> v))"
proof (cases "map_abs m key")
  case None
  with map_put_new_ok [OF assms(1) None assms(2), of 0] show ?thesis
    by (auto simp: ecs_map_ensure_def map_get_ok [OF assms(1)] elim!: returns_mono)
next
  case (Some v)
  then show ?thesis using assms(1)
    by (auto simp: ecs_map_ensure_def map_get_ok [OF assms(1)])
qed

section \<open>Writing through a slot pointer, and removing\<close>

lemma bucket_store_keys [simp]: "map fst (bucket_store key v es) = map fst es"
  by (induction es rule: bucket_store.induct) auto

lemma map_of_bucket_store:
  "map_of (bucket_store key v es) =
    (if key \<in> fst ` set es then (map_of es)(key \<mapsto> v) else map_of es)"
  by (induction es rule: bucket_store.induct) (auto simp: fun_eq_iff image_iff)

lemma bucket_store_set: "fst ` set (bucket_store key v es) = fst ` set es"
  by (metis bucket_store_keys set_map)

lemma bucket_store_length [simp]: "length (bucket_store key v es) = length es"
  by (metis bucket_store_keys length_map)

lemma length_concat_update:
  "b < length bs \<Longrightarrow> length (concat (bs[b := es])) + length (bs ! b) = length (concat bs) + length es"
  using mset_concat_update [of b bs es] by (metis size_mset size_union)

lemma map_of_update_bucket:
  assumes sh: "shape k bs" "shape k (bs[hash_index k key := es])"
    and other: "\<And>x. x \<noteq> key \<Longrightarrow> map_of es x = map_of (bs ! hash_index k key) x"
  shows "map_of (concat (bs[hash_index k key := es])) = (map_of (concat bs))(key := map_of es key)"
proof
  fix x
  let ?b = "hash_index k key"
  have lt: "?b < length bs" using sh(1) by (rule shape_hash_less)
  show "map_of (concat (bs[?b := es])) x = ((map_of (concat bs))(key := map_of es key)) x"
    unfolding fun_upd_apply shape_map_of [OF sh(2)] shape_map_of [OF sh(1)]
    using lt other by (auto simp: nth_list_update)
qed

lemma map_store_ok:
  assumes ok: "map_ok m" and mem: "map_abs m key \<noteq> None"
  shows "returns (map_store m key v) (\<lambda>m'. map_ok m' \<and> map_abs m' = (map_abs m)(key \<mapsto> v) \<and>
    m_change_count m' = m_change_count m \<and> m_count m' = m_count m)"
proof -
  from ok obtain k where k: "shape k (m_buckets m)" "m_bucket_count m = 2 ^ k"
    "m_bucket_shift m = 64 - k" "m_count m = length (entries m)" "length (entries m) < 2 ^ 26"
    by (rule map_okE)
  let ?b = "hash_index k key" and ?bs = "m_buckets m"
  let ?es = "bucket_store key v (?bs ! ?b)"
  have lt: "?b < length ?bs" using k(1) by (rule shape_hash_less)
  have d: "distinct (map fst (?bs ! ?b))" using k(1) lt by (simp add: shape_def)
  have "\<forall>x \<in> fst ` set ?es. hash_index k x = ?b"
    unfolding bucket_store_set using shape_bucket [OF k(1) lt] by auto
  then have sh: "shape k (?bs[?b := ?es])" using d by (intro shape_update [OF k(1)]) auto
  have mem2: "key \<in> fst ` set (?bs ! ?b)"
    using mem shape_map_of [OF k(1), of key] by (simp add: map_abs_def entries_def map_of_eq_None_iff)
  let ?m = "m\<lparr>m_buckets := ?bs[?b := ?es]\<rparr>"
  have "map_abs ?m = (map_abs m)(key \<mapsto> v)"
    using map_of_update_bucket [OF k(1) sh] mem2
    by (simp add: map_abs_def entries_def map_of_bucket_store)
  moreover have "length (entries ?m) = length (entries m)"
    using length_concat_update [OF lt, of ?es] by (simp add: entries_def)
  then have "map_ok ?m" unfolding map_ok_def using sh k by auto
  ultimately show ?thesis
    using lt by (simp add: map_store_def get_bucket_ok [OF k(1-3)])
qed

lemma bucket_unlink_split:
  assumes "distinct (map fst es)"
  shows "bucket_unlink key es = (case map_of es key of None \<Rightarrow> None
    | Some v \<Rightarrow> Some (v, filter (\<lambda>e. fst e \<noteq> key) es))"
  using assms
proof (induction es rule: bucket_unlink.induct)
  case (2 key k v es)
  show ?case
  proof (cases "k = key")
    case True
    with 2 have "filter (\<lambda>e. fst e \<noteq> key) es = es" by (intro filter_True) auto
    with True show ?thesis by simp
  next
    case False
    with 2 show ?thesis by (auto split: option.splits)
  qed
qed simp

lemma map_of_filter_key: "map_of (filter (\<lambda>e. fst e \<noteq> key) es) = (map_of es)(key := None)"
  by (induction es) (auto simp: fun_eq_iff)

lemma length_filter_key:
  "distinct (map fst es) \<Longrightarrow> map_of es key = Some v \<Longrightarrow>
    Suc (length (filter (\<lambda>e. fst e \<noteq> key) es)) = length es"
proof (induction es)
  case (Cons e es)
  show ?case
  proof (cases "fst e = key")
    case True
    with Cons.prems have "filter (\<lambda>e. fst e \<noteq> key) es = es"
      by (intro filter_True) (auto simp: image_iff)
    with True show ?thesis by simp
  qed (use Cons in auto)
qed simp

lemma map_remove_ok:
  assumes ok: "map_ok m"
  shows "returns (ecs_map_remove m key) (\<lambda>(m', v). map_ok m' \<and>
    map_abs m' = (map_abs m)(key := None) \<and>
    v = (case map_abs m key of None \<Rightarrow> 0 | Some v \<Rightarrow> v) \<and>
    m_buckets m' = map (filter (\<lambda>e. fst e \<noteq> key)) (m_buckets m) \<and>
    m_bucket_count m' = m_bucket_count m \<and>
    m_last_iterated m' = m_last_iterated m \<and>
    m_change_count m' = m_change_count m + of_bool (m_last_iterated m \<noteq> key))"
proof -
  from ok obtain k where k: "shape k (m_buckets m)" "m_bucket_count m = 2 ^ k"
    "m_bucket_shift m = 64 - k" "m_count m = length (entries m)" "length (entries m) < 2 ^ 26"
    by (rule map_okE)
  let ?b = "hash_index k key" and ?bs = "m_buckets m"
  let ?es = "filter (\<lambda>e. fst e \<noteq> key) (?bs ! ?b)"
  have lt: "?b < length ?bs" using k(1) by (rule shape_hash_less)
  have d: "distinct (map fst (?bs ! ?b))" using k(1) lt by (simp add: shape_def)
  have abs: "map_abs m key = map_of (?bs ! ?b) key"
    using shape_map_of [OF k(1), of key] by (simp add: map_abs_def entries_def)
  have all: "?bs[?b := ?es] = map (filter (\<lambda>e. fst e \<noteq> key)) ?bs"
  proof (rule nth_equalityI)
    fix i assume "i < length (?bs[?b := ?es])"
    then have i: "i < length ?bs" by simp
    have "i \<noteq> ?b \<Longrightarrow> \<forall>e \<in> set (?bs ! i). fst e \<noteq> key" using shape_bucket [OF k(1) i] by auto
    then have "i \<noteq> ?b \<Longrightarrow> filter (\<lambda>e. fst e \<noteq> key) (?bs ! i) = ?bs ! i" by (intro filter_True) auto
    with i show "?bs[?b := ?es] ! i = map (filter (\<lambda>e. fst e \<noteq> key)) ?bs ! i"
      by (cases "i = ?b") auto
  qed simp
  define m1 where "m1 = (if m_last_iterated m \<noteq> key then m\<lparr>m_change_count := m_change_count m + 1\<rparr> else m)"
  have m1: "m_buckets m1 = ?bs" "m_bucket_count m1 = 2 ^ k" "m_bucket_shift m1 = 64 - k"
    "m_count m1 = length (entries m)" "m_last_iterated m1 = m_last_iterated m"
    "m_change_count m1 = m_change_count m + of_bool (m_last_iterated m \<noteq> key)"
    using k by (auto simp: m1_def)
  then have gb: "flecs_map_get_bucket m1 key = Inr ?b" using k(1) by (intro get_bucket_ok) simp_all
  show ?thesis
  proof (cases "map_of (?bs ! ?b) key")
    case None
    then have "key \<notin> fst ` set (?bs ! ?b)" by (simp add: map_of_eq_None_iff)
    then have "?es = ?bs ! ?b" by (intro filter_True) auto
    then have "map (filter (\<lambda>e. fst e \<noteq> key)) ?bs = ?bs" using all by (metis list_update_id)
    moreover have "entries m1 = entries m" by (simp add: entries_def m1)
    moreover have "map_ok m1" unfolding map_ok_def using k m1 by (auto simp: entries_def)
    ultimately show ?thesis
      using None lt abs m1 d k(2)
      by (auto simp: ecs_map_remove_def Let_def m1_def [symmetric] gb flecs_map_bucket_remove_def
          bucket_unlink_split map_abs_def)
  next
    case (Some v)
    let ?m = "m1\<lparr>m_buckets := ?bs[?b := ?es], m_count := (m_count m1 + 2 ^ 26 - 1) mod 2 ^ 26\<rparr>"
    have sh: "shape k (?bs[?b := ?es])"
      using shape_bucket [OF k(1) lt] d by (intro shape_update [OF k(1)]) (auto simp: distinct_map_filter)
    have "map_abs ?m = (map_abs m)(key := None)"
      using map_of_update_bucket [OF k(1) sh]
      by (simp add: map_abs_def entries_def map_of_filter_key)
    moreover have len: "Suc (length (entries ?m)) = length (entries m)"
      using length_concat_update [OF lt, of ?es] length_filter_key [OF d Some]
      by (simp add: entries_def)
    define L where "L = length (entries ?m)"
    have L: "length (entries m) = Suc L" using len by (simp add: L_def)
    have "(length (entries m) + 2 ^ 26 - 1) mod 2 ^ 26 = L"
      using k(5) unfolding L by simp
    then have "(length (entries m) + 2 ^ 26 - 1) mod 2 ^ 26 = length (entries ?m)"
      by (simp only: L_def)
    then have "map_ok ?m" unfolding map_ok_def using sh k m1 len by auto
    moreover have "ecs_map_remove m key = Inr (?m, v)"
      unfolding ecs_map_remove_def Let_def m1_def [symmetric] gb bindR_Inr
        flecs_map_bucket_remove_def m1(1)
      using lt by (simp add: bucket_unlink_split [OF d] Some m1(1))
    moreover have "m_buckets ?m = map (filter (\<lambda>e. fst e \<noteq> key)) ?bs" "m_bucket_count ?m = m_bucket_count m"
      "m_last_iterated ?m = m_last_iterated m"
      "m_change_count ?m = m_change_count m + of_bool (m_last_iterated m \<noteq> key)"
      using all m1 k(2) by simp_all
    ultimately show ?thesis
      by (simp only: returns_Inr split_beta fst_conv snd_conv abs Some option.case simp_thms)
  qed
qed

section \<open>Reclaiming, clearing\<close>

lemma map_ok_rehashed:
  assumes ok: "map_ok m" and m': "shape k (m_buckets m')" "m_bucket_count m' = 2 ^ k"
    "m_bucket_shift m' = 64 - k" "mset (entries m') = mset (entries m)" "m_count m' = m_count m"
  shows "map_ok m' \<and> map_abs m' = map_abs m"
proof -
  have "length (entries m') = length (entries m)" using m'(4) by (rule mset_eq_length)
  with ok m' have "map_ok m'" unfolding map_ok_def by auto
  with map_of_mset_eq(1) [OF map_abs_distinct m'(4)] show ?thesis by (simp add: map_abs_def)
qed

lemma tgt_bucket_count_minus_1:
  "n < 2 ^ 26 \<Longrightarrow> 0 \<le> flecs_map_get_bucket_count (int n - 1) \<and>
    flecs_map_get_bucket_count (int n - 1) \<le> 2 ^ 30"
proof (cases n)
  case 0
  have "flecs_map_get_bucket_count (- 1) = 0" by code_simp
  with 0 show ?thesis by simp
next
  case (Suc j)
  moreover assume "n < 2 ^ 26"
  ultimately show ?thesis using tgt_bucket_count_bound [of j] by simp
qed

lemma map_reclaim_ok:
  assumes ok: "map_ok m"
  shows "returns (ecs_map_reclaim m) (\<lambda>m'. map_ok m' \<and> map_abs m' = map_abs m)"
proof -
  from ok obtain k where k: "shape k (m_buckets m)" "m_bucket_count m = 2 ^ k" "m_count m < 2 ^ 26"
    by (auto elim!: map_okE)
  note t = tgt_bucket_count_minus_1 [OF k(3)]
  have "returns (flecs_map_rehash m (flecs_map_get_bucket_count (int (m_count m) - 1)))
      (\<lambda>m'. map_ok m' \<and> map_abs m' = map_abs m)"
    using t by (intro returns_mono [OF rehashed_ok [OF k(1,2)]]) (auto dest: map_ok_rehashed [OF ok])
  with ok show ?thesis by (simp add: ecs_map_reclaim_def Let_def)
qed

lemma map_clear_ok:
  "returns (ecs_map_clear (m :: 'v ecs_map)) (\<lambda>m'. map_ok m' \<and> map_abs m' = Map.empty \<and>
    m_change_count m' = m_change_count m + 1)"
proof -
  let ?z = "m\<lparr>m_buckets := [], m_bucket_count := 0, m_count := 0\<rparr>"
  have "returns (flecs_map_rehash ?z 2) (\<lambda>m'. \<exists>k bs. shape k bs \<and> 2 \<le> (2::int) ^ k \<and>
      mset (concat bs) = mset (entries ?z) \<and>
      m' = ?z\<lparr>m_buckets := bs, m_bucket_count := 2 ^ k, m_bucket_shift := 64 - k\<rparr>)"
    by (rule map_rehash_ok) (simp_all add: entries_def)
  then show ?thesis unfolding ecs_map_clear_def returns_bindR returns_Inr
  proof (rule returns_mono, elim exE conjE)
    fix m1 and k and bs :: "'v entry list list"
    assume sh: "shape k bs" and "mset (concat bs) = mset (entries ?z)"
      and m1: "m1 = ?z\<lparr>m_buckets := bs, m_bucket_count := 2 ^ k, m_bucket_shift := 64 - k\<rparr>"
    let ?m = "m1\<lparr>m_change_count := m_change_count m1 + 1\<rparr>"
    have e: "entries ?m = []"
      using \<open>mset (concat bs) = mset (entries ?z)\<close> by (simp add: entries_def m1)
    have f: "m_buckets ?m = bs" "m_bucket_count ?m = 2 ^ k" "m_bucket_shift ?m = 64 - k"
      "m_count ?m = 0" "m_change_count ?m = m_change_count m + 1"
      by (simp_all add: m1)
    show "map_ok ?m \<and> map_abs ?m = Map.empty \<and> m_change_count ?m = m_change_count m + 1"
      unfolding map_ok_def map_abs_def e f using sh by auto
  qed
qed

section \<open>The interface the other components use\<close>

text \<open>
  What a client relies on: \<open>get\<close> reads the partial function \<open>lookup\<close>, and each update is the update
  of that function. \<open>room m\<close> says that the element counter has space for one more.
\<close>

locale word_map =
  fixes inv :: "'m \<Rightarrow> bool" and lookup :: "'m \<Rightarrow> 64 word \<rightharpoonup> ('v::zero)" and room :: "'m \<Rightarrow> bool"
    and get :: "'m \<Rightarrow> 64 word \<Rightarrow> 'v option result"
    and insert :: "'m \<Rightarrow> 64 word \<Rightarrow> 'v \<Rightarrow> 'm result"
    and ensure :: "'m \<Rightarrow> 64 word \<Rightarrow> ('m \<times> 'v) result"
    and store :: "'m \<Rightarrow> 64 word \<Rightarrow> 'v \<Rightarrow> 'm result"
    and remove :: "'m \<Rightarrow> 64 word \<Rightarrow> ('m \<times> 'v) result"
  assumes get: "inv m \<Longrightarrow> get m key = Inr (lookup m key)"
    and insert: "inv m \<Longrightarrow> lookup m key = None \<Longrightarrow> room m \<Longrightarrow>
      returns (insert m key v) (\<lambda>m'. inv m' \<and> lookup m' = (lookup m)(key \<mapsto> v))"
    and insert_present: "inv m \<Longrightarrow> lookup m key \<noteq> None \<Longrightarrow> insert m key v = Inl ECS_INVALID_PARAMETER"
    and ensure: "inv m \<Longrightarrow> room m \<Longrightarrow> returns (ensure m key) (\<lambda>(m', v). inv m' \<and>
      v = (case lookup m key of None \<Rightarrow> 0 | Some v \<Rightarrow> v) \<and> lookup m' = (lookup m)(key \<mapsto> v))"
    and store: "inv m \<Longrightarrow> lookup m key \<noteq> None \<Longrightarrow>
      returns (store m key v) (\<lambda>m'. inv m' \<and> lookup m' = (lookup m)(key \<mapsto> v))"
    and remove: "inv m \<Longrightarrow> returns (remove m key) (\<lambda>(m', v). inv m' \<and>
      lookup m' = (lookup m)(key := None) \<and> v = (case lookup m key of None \<Rightarrow> 0 | Some v \<Rightarrow> v))"
begin

lemma insert_then_get:
  "inv m \<Longrightarrow> lookup m key = None \<Longrightarrow> room m \<Longrightarrow>
    returns (insert m key v) (\<lambda>m'. get m' k = (if k = key then Inr (Some v) else get m k))"
  by (rule returns_mono [OF insert]) (auto simp: get)

lemma insert_twice:
  "inv m \<Longrightarrow> lookup m key = None \<Longrightarrow> room m \<Longrightarrow>
    returns (insert m key v) (\<lambda>m'. insert m' key w = Inl ECS_INVALID_PARAMETER)"
  by (rule returns_mono [OF insert]) (auto simp: insert_present)

lemma insert_then_remove:
  assumes m: "inv m" "lookup m key = None" "room m"
  shows "returns (bindR (insert m key v) (\<lambda>m'. remove m' key))
    (\<lambda>(m', w). inv m' \<and> w = v \<and> lookup m' = lookup m)"
proof -
  have "returns (insert m key v)
      (\<lambda>m'. returns (remove m' key) (\<lambda>(m', w). inv m' \<and> w = v \<and> lookup m' = lookup m))"
  proof (rule returns_mono [OF insert [OF m]], elim conjE)
    fix m1 assume m1: "inv m1" "lookup m1 = (lookup m)(key \<mapsto> v)"
    show "returns (remove m1 key) (\<lambda>(m', w). inv m' \<and> w = v \<and> lookup m' = lookup m)"
      using m by (rule_tac returns_mono [OF remove [OF m1(1)]]) (auto simp: m1(2))
  qed
  then show ?thesis by simp
qed

lemma ensure_then_store:
  assumes m: "inv m" "room m"
  shows "returns (bindR (ensure m key) (\<lambda>(m', _). store m' key v))
    (\<lambda>m'. inv m' \<and> lookup m' = (lookup m)(key \<mapsto> v))"
proof -
  have "returns (ensure m key) (\<lambda>(m', _). returns (store m' key v)
      (\<lambda>m'. inv m' \<and> lookup m' = (lookup m)(key \<mapsto> v)))"
  proof (rule returns_mono [OF ensure [OF m]], clarify)
    fix m1 assume "inv m1" "lookup m1 = (lookup m)(key \<mapsto> case lookup m key of None \<Rightarrow> 0 | Some v \<Rightarrow> v)"
    then show "returns (store m1 key v) (\<lambda>m'. inv m' \<and> lookup m' = (lookup m)(key \<mapsto> v))"
      by (intro returns_mono [OF store]) auto
  qed
  then show ?thesis by (simp add: split_def)
qed

end

definition map_room :: "'v ecs_map \<Rightarrow> bool" where
  "map_room m \<longleftrightarrow> m_count m + 1 < 2 ^ 26"

interpretation wmap: word_map map_ok map_abs map_room ecs_map_get ecs_map_insert ecs_map_ensure
  map_store ecs_map_remove
proof
  fix m :: "'a::zero ecs_map" and key and v :: 'a
  assume ok: "map_ok m"
  show "ecs_map_get m key = Inr (map_abs m key)" using ok by (rule map_get_ok)
  show "map_abs m key = None \<Longrightarrow> map_room m \<Longrightarrow> returns (ecs_map_insert m key v)
      (\<lambda>m'. map_ok m' \<and> map_abs m' = (map_abs m)(key \<mapsto> v))"
    using ok by (simp add: map_room_def map_insert_ok)
  show "map_abs m key \<noteq> None \<Longrightarrow> ecs_map_insert m key v = Inl ECS_INVALID_PARAMETER"
    using ok by (rule map_insert_present)
  show "map_room m \<Longrightarrow> returns (ecs_map_ensure m key) (\<lambda>(m', v). map_ok m' \<and>
      v = (case map_abs m key of None \<Rightarrow> 0 | Some v \<Rightarrow> v) \<and> map_abs m' = (map_abs m)(key \<mapsto> v))"
    using ok by (simp add: map_room_def map_ensure_ok)
  show "map_abs m key \<noteq> None \<Longrightarrow> returns (map_store m key v)
      (\<lambda>m'. map_ok m' \<and> map_abs m' = (map_abs m)(key \<mapsto> v))"
    using ok by (rule returns_mono [OF map_store_ok]) auto
  show "returns (ecs_map_remove m key) (\<lambda>(m', v). map_ok m' \<and>
      map_abs m' = (map_abs m)(key := None) \<and> v = (case map_abs m key of None \<Rightarrow> 0 | Some v \<Rightarrow> v))"
    by (rule returns_mono [OF map_remove_ok [OF ok]]) auto
qed

section \<open>Iteration\<close>

text \<open>
  An iterator points at a bucket (\<open>it_bucket\<close>, \<open>None\<close> for \<open>NULL\<close>) and at the entries of it that
  are still to be visited (\<open>it_entry\<close>). \<open>iter_rest\<close> is the sequence of entries the iterator will
  still yield.
\<close>

record 'v map_iter =
  it_map :: bool \<comment> \<open>whether the iterator has a map\<close>
  it_bucket :: "nat option"
  it_entry :: "'v entry list"
  it_res :: "'v entry option"
  it_change_count :: "32 word"

definition ecs_map_iter :: "'v ecs_map \<Rightarrow> 'v map_iter" where
  "ecs_map_iter m =
    (if ecs_map_is_init m
     then \<lparr>it_map = True, it_bucket = None, it_entry = [], it_res = None, it_change_count = m_change_count m\<rparr>
     else \<lparr>it_map = False, it_bucket = None, it_entry = [], it_res = None, it_change_count = 0\<rparr>)"

definition ecs_map_iter_valid :: "'v ecs_map \<Rightarrow> 'v map_iter \<Rightarrow> bool" where
  "ecs_map_iter_valid m it =
    (if \<not> it_map it then False else if m_change_count m \<noteq> it_change_count it then False else True)"

function next_bucket :: "'v entry list list \<Rightarrow> nat \<Rightarrow> nat \<Rightarrow> nat result" where
  \<comment> \<open>the scans for the next bucket that is not empty, or the end\<close>
  "next_bucket bs end i =
    (if i = end then Inr i
     else if length bs \<le> i then Inl Bad_Access
     else if bs ! i \<noteq> [] then Inr i
     else next_bucket bs end (Suc i))"
  by pat_completeness auto
termination by (relation "measure (\<lambda>(bs, end, i). length bs - i)") auto

declare next_bucket.simps [simp del]

definition iter_yield :: "'v ecs_map \<Rightarrow> 'v map_iter \<Rightarrow> 'v entry list \<Rightarrow>
    (bool \<times> 'v map_iter \<times> 'v ecs_map) result" where
  \<comment> \<open>the end of \<open>ecs_map_next\<close>, from the assertion that the entry is not null\<close>
  "iter_yield m it entry =
    (case entry of
      [] \<Rightarrow> Inl ECS_INTERNAL_ERROR
    | e # next \<Rightarrow> Inr (True, it\<lparr>it_entry := next, it_res := Some e\<rparr>, m\<lparr>m_last_iterated := fst e\<rparr>))"

definition iter_scan :: "'v ecs_map \<Rightarrow> 'v map_iter \<Rightarrow> nat \<Rightarrow>
    (bool \<times> 'v map_iter \<times> 'v ecs_map) result" where
  \<comment> \<open>move to the first bucket from \<open>i\<close> on that is not empty\<close>
  "iter_scan m it i =
    bindR (next_bucket (m_buckets m) (nat (m_bucket_count m)) i) (\<lambda>b.
    if b = nat (m_bucket_count m) then Inr (False, it\<lparr>it_bucket := Some b\<rparr>, m)
    else iter_yield m (it\<lparr>it_bucket := Some b\<rparr>) (m_buckets m ! b))"

definition ecs_map_next :: "'v ecs_map \<Rightarrow> 'v map_iter \<Rightarrow>
    (bool \<times> 'v map_iter \<times> 'v ecs_map) result" where
  "ecs_map_next m it =
    (if \<not> it_map it then Inr (False, it, m)
     else ecs_assert (m_change_count m = it_change_count it) ECS_INVALID_PARAMETER
      (if it_bucket it = Some (nat (m_bucket_count m)) then Inr (False, it, m)
       else case it_bucket it of
         None \<Rightarrow> iter_scan m it 0
       | Some b \<Rightarrow>
           if it_entry it = [] then iter_scan m it (Suc b)
           else iter_yield m it (it_entry it)))"

definition iter_rest :: "'v ecs_map \<Rightarrow> 'v map_iter \<Rightarrow> 'v entry list" where
  "iter_rest m it =
    (case it_bucket it of
      None \<Rightarrow> concat (m_buckets m)
    | Some b \<Rightarrow> it_entry it @ concat (drop (Suc b) (m_buckets m)))"

definition iter_ok :: "'v ecs_map \<Rightarrow> 'v map_iter \<Rightarrow> bool" where
  \<comment> \<open>the iterator is valid and what it points at is part of a bucket of the map\<close>
  "iter_ok m it \<longleftrightarrow> it_map it \<and> m_change_count m = it_change_count it \<and>
    m_bucket_count m = int (length (m_buckets m)) \<and>
    (\<forall>b. it_bucket it = Some b \<longrightarrow>
      (b = length (m_buckets m) \<and> it_entry it = []) \<or>
      (b < length (m_buckets m) \<and> (\<exists>pre. m_buckets m ! b = pre @ it_entry it)))"

lemma next_bucket_ok:
  assumes "i \<le> length bs"
  shows "returns (next_bucket bs (length bs) i) (\<lambda>j. i \<le> j \<and> j \<le> length bs \<and>
    concat (drop i bs) = concat (drop j bs) \<and> (j < length bs \<longrightarrow> bs ! j \<noteq> []))"
  using assms
proof (induction "length bs - i" arbitrary: i)
  case 0
  then show ?case by (simp add: next_bucket.simps)
next
  case (Suc n)
  then have i: "i < length bs" by simp
  show ?case
  proof (cases "bs ! i = []")
    case False
    with i show ?thesis by (simp add: next_bucket.simps)
  next
    case True
    have "concat (drop i bs) = concat (drop (Suc i) bs)"
      using i True by (simp flip: Cons_nth_drop_Suc)
    moreover have "returns (next_bucket bs (length bs) (Suc i)) (\<lambda>j. Suc i \<le> j \<and> j \<le> length bs \<and>
        concat (drop (Suc i) bs) = concat (drop j bs) \<and> (j < length bs \<longrightarrow> bs ! j \<noteq> []))"
      using Suc by (intro Suc.hyps) auto
    ultimately show ?thesis
      using i True by (subst next_bucket.simps) (auto elim!: returns_mono)
  qed
qed

lemma map_next_scan_ok:
  assumes len: "m_bucket_count m = int (length (m_buckets m))" and i: "i \<le> length (m_buckets m)"
    and it: "it_map it" "m_change_count m = it_change_count it"
    and entry: "it_bucket it \<noteq> None \<Longrightarrow> it_entry it = []" "it_bucket it = None \<Longrightarrow> it_entry it = []"
  shows "returns (iter_scan m it i)
    (\<lambda>(r, it', m'). case concat (drop i (m_buckets m)) of
       [] \<Rightarrow> \<not> r \<and> m' = m \<and> iter_ok m' it' \<and> iter_rest m' it' = []
     | e # rest \<Rightarrow> r \<and> it_res it' = Some e \<and> m' = m\<lparr>m_last_iterated := fst e\<rparr> \<and>
         iter_ok m' it' \<and> iter_rest m' it' = rest \<and>
         (\<exists>b pre. it_bucket it' = Some b \<and> b < length (m_buckets m) \<and> m_buckets m ! b = pre @ e # it_entry it'))"
  unfolding iter_scan_def len nat_int returns_bindR
proof (rule returns_mono [OF next_bucket_ok [OF i]], elim conjE)
  fix j
  let ?bs = "m_buckets m"
  assume j: "i \<le> j" "j \<le> length ?bs" "concat (drop i ?bs) = concat (drop j ?bs)"
    "j < length ?bs \<longrightarrow> ?bs ! j \<noteq> []"
  show "returns (if j = length ?bs then Inr (False, it\<lparr>it_bucket := Some j\<rparr>, m)
      else iter_yield m (it\<lparr>it_bucket := Some j\<rparr>) (?bs ! j))
    (\<lambda>(r, it', m'). case concat (drop i ?bs) of
       [] \<Rightarrow> \<not> r \<and> m' = m \<and> iter_ok m' it' \<and> iter_rest m' it' = []
     | e # rest \<Rightarrow> r \<and> it_res it' = Some e \<and> m' = m\<lparr>m_last_iterated := fst e\<rparr> \<and>
         iter_ok m' it' \<and> iter_rest m' it' = rest \<and>
         (\<exists>b pre. it_bucket it' = Some b \<and> b < length ?bs \<and> ?bs ! b = pre @ e # it_entry it'))"
  proof (cases "j = length ?bs")
    case True
    then have nil: "concat (drop i ?bs) = []" using j(3) by simp
    have "it_entry it = []" using entry by (cases "it_bucket it") auto
    with True len it show ?thesis unfolding nil by (simp add: iter_ok_def iter_rest_def)
  next
    case False
    with j obtain e r where e: "?bs ! j = e # r" "j < length ?bs" by (auto simp: neq_Nil_conv)
    then have "concat (drop j ?bs) = e # r @ concat (drop (Suc j) ?bs)"
      by (simp flip: Cons_nth_drop_Suc)
    with j(3) have cons: "concat (drop i ?bs) = e # r @ concat (drop (Suc j) ?bs)" by simp
    show ?thesis using False e len it unfolding cons
      by (auto simp: iter_yield_def iter_ok_def iter_rest_def intro: exI [of _ "[]"] exI [of _ "[e]"])
  qed
qed

lemma map_next_ok:
  assumes ok: "iter_ok m it" and fresh: "it_bucket it = None \<Longrightarrow> it_entry it = []"
  shows "returns (ecs_map_next m it) (\<lambda>(r, it', m'). case iter_rest m it of
       [] \<Rightarrow> \<not> r \<and> m' = m \<and> iter_ok m' it' \<and> iter_rest m' it' = []
     | e # rest \<Rightarrow> r \<and> it_res it' = Some e \<and> m' = m\<lparr>m_last_iterated := fst e\<rparr> \<and>
         iter_ok m' it' \<and> iter_rest m' it' = rest \<and>
         (\<exists>b pre. it_bucket it' = Some b \<and> b < length (m_buckets m) \<and> m_buckets m ! b = pre @ e # it_entry it'))"
proof -
  have len: "m_bucket_count m = int (length (m_buckets m))" and it: "it_map it"
    "m_change_count m = it_change_count it"
    using ok by (auto simp: iter_ok_def)
  note scan = map_next_scan_ok [OF len _ it]
  show ?thesis
  proof (cases "it_bucket it")
    case None
    with scan [of 0] fresh it show ?thesis
      by (simp add: ecs_map_next_def iter_rest_def)
  next
    case (Some b)
    show ?thesis
    proof (cases "b = length (m_buckets m)")
      case True
      with Some ok len show ?thesis
        by (auto simp: ecs_map_next_def iter_rest_def iter_ok_def)
    next
      case False
      with Some ok obtain pre where b: "b < length (m_buckets m)" "m_buckets m ! b = pre @ it_entry it"
        by (auto simp: iter_ok_def)
      show ?thesis
      proof (cases "it_entry it")
        case Nil
        with scan [of "Suc b"] b Some it False len show ?thesis
          by (simp add: ecs_map_next_def iter_rest_def)
      next
        case (Cons e r)
        with b Some it False len show ?thesis
          by (auto simp: ecs_map_next_def iter_rest_def iter_yield_def iter_ok_def
              intro: exI [of _ "pre @ [e]"] exI [of _ pre])
      qed
    qed
  qed
qed

section \<open>Loops over a map\<close>

lemma next_bucket_Inr:
  "next_bucket bs end i = Inr j \<Longrightarrow> j \<noteq> end \<Longrightarrow> i \<le> j \<and> j < length bs \<and> bs ! j \<noteq> []"
proof (induction bs "end" i rule: next_bucket.induct)
  case (1 bs "end" i)
  then show ?case
    by (subst (asm) next_bucket.simps) (auto split: if_splits dest: Suc_leD)
qed

lemma length_concat_drop: "i \<le> j \<Longrightarrow> length (concat (drop j bs)) \<le> length (concat (drop i bs))"
proof -
  assume "i \<le> j"
  then have "drop j bs = drop (j - i) (drop i bs)" by simp
  moreover have "concat (drop i bs) = concat (take (j - i) (drop i bs)) @ concat (drop (j - i) (drop i bs))"
    by (metis append_take_drop_id concat_append)
  ultimately show ?thesis by simp
qed

lemma iter_scan_less:
  assumes "iter_scan m it i = Inr (True, it', m')"
  shows "length (iter_rest m' it') < length (concat (drop i (m_buckets m)))"
proof -
  from assms obtain j where j: "next_bucket (m_buckets m) (nat (m_bucket_count m)) i = Inr j"
    "j \<noteq> nat (m_bucket_count m)"
    "iter_yield m (it\<lparr>it_bucket := Some j\<rparr>) (m_buckets m ! j) = Inr (True, it', m')"
    by (auto simp: iter_scan_def bindR_eq_Inr split: if_splits)
  from next_bucket_Inr [OF j(1,2)] have b: "i \<le> j" "j < length (m_buckets m)" by auto
  from j(3) obtain e r where "m_buckets m ! j = e # r" "it_entry it' = r" "it_bucket it' = Some j"
    "m_buckets m' = m_buckets m"
    by (auto simp: iter_yield_def split: list.splits)
  then have "length (iter_rest m' it') < length (concat (drop j (m_buckets m)))"
    using b by (simp add: iter_rest_def flip: Cons_nth_drop_Suc)
  with length_concat_drop [OF b(1), of "m_buckets m"] show ?thesis by linarith
qed

lemma map_next_less:
  assumes "ecs_map_next m it = Inr (True, it', m')"
  shows "length (iter_rest m' it') < length (iter_rest m it)"
proof (cases "it_bucket it")
  case None
  then have "iter_scan m it 0 = Inr (True, it', m')"
    using assms by (auto simp: ecs_map_next_def split: if_splits)
  from iter_scan_less [OF this] None show ?thesis by (simp add: iter_rest_def)
next
  case (Some b)
  show ?thesis
  proof (cases "it_entry it")
    case Nil
    with Some assms have "iter_scan m it (Suc b) = Inr (True, it', m')"
      by (auto simp: ecs_map_next_def split: if_splits)
    from iter_scan_less [OF this] Some Nil show ?thesis by (simp add: iter_rest_def)
  next
    case (Cons e r)
    with Some assms have "it' = it\<lparr>it_entry := r, it_res := Some e\<rparr>" "m_buckets m' = m_buckets m"
      by (auto simp: ecs_map_next_def iter_yield_def split: if_splits)
    with Some Cons show ?thesis by (simp add: iter_rest_def)
  qed
qed

function map_visit :: "'v ecs_map \<Rightarrow> 'v map_iter \<Rightarrow> ('v entry list \<times> 'v ecs_map) result" where
  \<comment> \<open>the loop \<open>while (ecs_map_next(&it))\<close>, with the entries its body sees\<close>
  "map_visit m it =
    (case ecs_map_next m it of
      Inl err \<Rightarrow> Inl err
    | Inr (r, it', m') \<Rightarrow>
        if r then bindR (map_visit m' it') (\<lambda>(es, m''). Inr (the (it_res it') # es, m''))
        else Inr ([], m'))"
  by pat_completeness auto
termination by (relation "measure (\<lambda>(m, it). length (iter_rest m it))") (auto dest: map_next_less)

declare map_visit.simps [simp del]

lemma map_visit_ok:
  assumes "iter_ok m it" "it_bucket it = None \<Longrightarrow> it_entry it = []"
  shows "returns (map_visit m it) (\<lambda>(es, m'). es = iter_rest m it \<and>
    m_buckets m' = m_buckets m \<and> m_change_count m' = m_change_count m)"
  using assms
proof (induction m it rule: map_visit.induct)
  case (1 m it)
  obtain r it' m' where nx: "ecs_map_next m it = Inr (r, it', m')" and
    res: "case iter_rest m it of
       [] \<Rightarrow> \<not> r \<and> m' = m \<and> iter_ok m' it' \<and> iter_rest m' it' = []
     | e # rest \<Rightarrow> r \<and> it_res it' = Some e \<and> m' = m\<lparr>m_last_iterated := fst e\<rparr> \<and>
         iter_ok m' it' \<and> iter_rest m' it' = rest \<and>
         (\<exists>b pre. it_bucket it' = Some b \<and> b < length (m_buckets m) \<and> m_buckets m ! b = pre @ e # it_entry it')"
    using returnsE [OF map_next_ok [OF 1(2,3)]] by blast
  show ?case
  proof (cases "iter_rest m it")
    case Nil
    with nx res show ?thesis by (subst map_visit.simps) simp
  next
    case (Cons e rest)
    with res have f: "r" "it_res it' = Some e" "m' = m\<lparr>m_last_iterated := fst e\<rparr>" "iter_ok m' it'"
      "iter_rest m' it' = rest" "it_bucket it' \<noteq> None" by auto
    have "returns (map_visit m' it') (\<lambda>(es, m''). es = iter_rest m' it' \<and>
        m_buckets m'' = m_buckets m' \<and> m_change_count m'' = m_change_count m')"
      using nx f by (intro 1(1)) auto
    with nx f Cons show ?thesis
      by (subst map_visit.simps) (auto elim!: returns_mono)
  qed
qed

lemma iter_start:
  assumes "map_ok m"
  shows "iter_ok m (ecs_map_iter m)" and "iter_rest m (ecs_map_iter m) = entries m"
    and "it_bucket (ecs_map_iter m) = None" and "it_entry (ecs_map_iter m) = []"
proof -
  from assms obtain k where k: "shape k (m_buckets m)" "m_bucket_count m = 2 ^ k" "m_bucket_shift m = 64 - k"
    by (rule map_okE)
  then have "ecs_map_is_init m" "m_bucket_count m = int (length (m_buckets m))"
    by (auto simp: ecs_map_is_init_def shape_def)
  then show "iter_ok m (ecs_map_iter m)" "iter_rest m (ecs_map_iter m) = entries m"
    "it_bucket (ecs_map_iter m) = None" "it_entry (ecs_map_iter m) = []"
    by (simp_all add: ecs_map_iter_def iter_ok_def iter_rest_def entries_def)
qed

function map_copy_loop :: "'v ecs_map \<Rightarrow> 'v map_iter \<Rightarrow> 'v ecs_map \<Rightarrow> ('v ecs_map \<times> 'v ecs_map) result" where
  "map_copy_loop src it dst =
    (case ecs_map_next src it of
      Inl err \<Rightarrow> Inl err
    | Inr (r, it', src') \<Rightarrow>
        if r then
          (case ecs_map_insert dst (fst (the (it_res it'))) (snd (the (it_res it'))) of
            Inl err \<Rightarrow> Inl err
          | Inr dst' \<Rightarrow> map_copy_loop src' it' dst')
        else Inr (dst, src'))"
  by pat_completeness auto
termination by (relation "measure (\<lambda>(m, it, _). length (iter_rest m it))") (auto dest: map_next_less)

declare map_copy_loop.simps [simp del]

definition ecs_map_copy :: "'v ecs_map \<Rightarrow> 'v ecs_map \<Rightarrow> ('v ecs_map \<times> 'v ecs_map) result" where
  \<comment> \<open>returns the destination and the source, whose \<open>last_iterated\<close> changes\<close>
  "ecs_map_copy dst src =
    bindR (if ecs_map_is_init dst
           then ecs_assert (m_count dst = 0) ECS_INVALID_PARAMETER (Inr (ecs_map_fini dst))
           else Inr dst) (\<lambda>dst.
    if \<not> ecs_map_is_init src then Inr (dst, src)
    else bindR ecs_map_init (\<lambda>dst. map_copy_loop src (ecs_map_iter src) dst))"

lemma map_copy_loop_ok:
  assumes "iter_ok src it" "it_bucket it = None \<Longrightarrow> it_entry it = []"
    and "map_ok dst" "distinct (map fst (iter_rest src it))"
    and "\<forall>e \<in> set (iter_rest src it). map_abs dst (fst e) = None"
    and "m_count dst + length (iter_rest src it) < 2 ^ 26"
  shows "returns (map_copy_loop src it dst) (\<lambda>(dst', src'). map_ok dst' \<and>
    map_abs dst' = map_abs dst ++ map_of (iter_rest src it) \<and> m_buckets src' = m_buckets src)"
  using assms
proof (induction src it dst rule: map_copy_loop.induct)
  case (1 src it dst)
  obtain r it' src' where nx: "ecs_map_next src it = Inr (r, it', src')" and
    res: "case iter_rest src it of
       [] \<Rightarrow> \<not> r \<and> src' = src \<and> iter_ok src' it' \<and> iter_rest src' it' = []
     | e # rest \<Rightarrow> r \<and> it_res it' = Some e \<and> src' = src\<lparr>m_last_iterated := fst e\<rparr> \<and>
         iter_ok src' it' \<and> iter_rest src' it' = rest \<and>
         (\<exists>b pre. it_bucket it' = Some b \<and> b < length (m_buckets src) \<and> m_buckets src ! b = pre @ e # it_entry it')"
    using returnsE [OF map_next_ok [OF 1(2,3)]] by blast
  show ?case
  proof (cases "iter_rest src it")
    case Nil
    with nx res 1(4) show ?thesis by (subst map_copy_loop.simps) simp
  next
    case (Cons e rest)
    with res have f: "r" "it_res it' = Some e" "src' = src\<lparr>m_last_iterated := fst e\<rparr>" "iter_ok src' it'"
      "iter_rest src' it' = rest" "it_bucket it' \<noteq> None" by auto
    have new: "map_abs dst (fst e) = None" and room: "m_count dst + 1 < 2 ^ 26"
      using 1(6,7) Cons by auto
    from returnsE [OF map_insert_ok [OF 1(4) new room, of "snd e"]] obtain dst' where
      ins: "ecs_map_insert dst (fst e) (snd e) = Inr dst'" "map_ok dst'"
        "map_abs dst' = (map_abs dst)(fst e \<mapsto> snd e)" by blast
    have cnt: "m_count dst' = m_count dst + 1"
      using new by (simp add: map_count_card ins(2,3) 1(4) finite_dom_map_abs domIff)
    have "returns (map_copy_loop src' it' dst') (\<lambda>(dst'', src''). map_ok dst'' \<and>
        map_abs dst'' = map_abs dst' ++ map_of (iter_rest src' it') \<and> m_buckets src'' = m_buckets src')"
    proof -
      have "distinct (map fst rest)" "fst e \<notin> fst ` set rest" using 1(5) Cons by simp_all
      moreover from this have "\<forall>x \<in> set rest. map_abs dst' (fst x) = None"
        using 1(6) Cons by (auto simp: ins(3) image_iff)
      moreover have "m_count dst' + length rest < 2 ^ 26" using 1(7) Cons cnt by simp
      ultimately show ?thesis using f(4,6) ins(2) by (intro 1(1)) (simp_all add: nx f(1,2,5) ins(1))
    qed
    moreover have "map_abs dst' ++ map_of rest = map_abs dst ++ map_of (e # rest)"
    proof -
      have "fst e \<notin> dom (map_of rest)" using 1(5) Cons by (auto simp: dom_map_of_conv_image_fst)
      then show ?thesis by (auto simp: ins(3) map_add_def fun_eq_iff split: option.splits)
    qed
    ultimately show ?thesis
      using nx f ins Cons by (subst map_copy_loop.simps) simp
  qed
qed

lemma map_copy_ok:
  assumes src: "map_ok src" and dst: "ecs_map_is_init dst \<Longrightarrow> m_count dst = 0"
  shows "returns (ecs_map_copy dst src) (\<lambda>(dst', src'). map_ok dst' \<and> map_abs dst' = map_abs src \<and>
    m_buckets src' = m_buckets src)"
proof -
  note it = iter_start [OF src]
  have init: "ecs_map_is_init src" using it(1) by (auto simp: iter_ok_def ecs_map_iter_def split: if_splits)
  have len: "length (entries src) < 2 ^ 26" using src by (simp add: map_ok_def)
  have "returns ecs_map_init (\<lambda>d. returns (map_copy_loop src (ecs_map_iter src) d)
    (\<lambda>(dst', src'). map_ok dst' \<and> map_abs dst' = map_abs src \<and> m_buckets src' = m_buckets src))"
  proof (rule returns_mono [OF map_init_ok], elim conjE)
    fix d :: "'a ecs_map" assume d: "map_ok d" "map_abs d = Map.empty"
    then have "m_count d = 0" by (simp add: map_count_card)
    with returns_mono [OF map_copy_loop_ok [OF it(1)]] d map_abs_distinct [OF src] len
    show "returns (map_copy_loop src (ecs_map_iter src) d)
      (\<lambda>(dst', src'). map_ok dst' \<and> map_abs dst' = map_abs src \<and> m_buckets src' = m_buckets src)"
      by (auto simp: it map_abs_def)
  qed
  with dst init show ?thesis by (auto simp: ecs_map_copy_def)
qed

lemma map_remove_current:
  \<comment> \<open>the entry an iterator stands on may be removed\<close>
  assumes ok: "map_ok m" and it: "iter_ok m it" and b: "it_bucket it = Some b" "b < length (m_buckets m)"
    "m_buckets m ! b = pre @ e # it_entry it" and last: "m_last_iterated m = fst e"
  shows "returns (ecs_map_remove m (fst e)) (\<lambda>(m', v). map_ok m' \<and> v = snd e \<and>
    map_abs m' = (map_abs m)(fst e := None) \<and> iter_ok m' it \<and> iter_rest m' it = iter_rest m it)"
proof -
  let ?bs = "m_buckets m" and ?f = "filter (\<lambda>x. fst x \<noteq> fst e)"
  have split: "entries m = concat (take b ?bs) @ pre @ e # it_entry it @ concat (drop (Suc b) ?bs)"
    using b by (simp add: entries_def flip: id_take_nth_drop [OF b(2)] concat.simps(2) concat_append)
      (metis append.assoc append_Cons b(3) concat.simps(2) concat_append id_take_nth_drop)
  note d = map_abs_distinct [OF ok, unfolded split]
  have val: "map_abs m (fst e) = Some (snd e)"
    using map_abs_distinct [OF ok] unfolding map_abs_def
    by (subst map_of_eq_Some_iff) (simp_all add: split)
  have keep: "?f xs = xs" if "set xs \<subseteq> set (it_entry it @ concat (drop (Suc b) ?bs))" for xs
  proof (intro filter_True ballI)
    fix x assume "x \<in> set xs"
    then have "fst x \<in> fst ` set (it_entry it @ concat (drop (Suc b) ?bs))" using that by blast
    moreover have "fst e \<notin> fst ` set (it_entry it @ concat (drop (Suc b) ?bs))"
      using d by (simp add: image_Un)
    ultimately show "fst x \<noteq> fst e" by metis
  qed
  have rest: "map ?f (drop (Suc b) ?bs) = drop (Suc b) ?bs"
    by (intro map_idI keep) auto
  have bucket: "?f (?bs ! b) = ?f pre @ it_entry it" using keep [of "it_entry it"] b by simp
  show ?thesis
  proof (rule returns_mono [OF map_remove_ok [OF ok]], unfold split_paired_all prod.case, elim conjE)
    fix m' v
    assume m': "map_ok m'" "map_abs m' = (map_abs m)(fst e := None)"
      "v = (case map_abs m (fst e) of None \<Rightarrow> 0 | Some v \<Rightarrow> v)" "m_buckets m' = map ?f ?bs" "m_bucket_count m' = m_bucket_count m"
      "m_change_count m' = m_change_count m + of_bool (m_last_iterated m \<noteq> fst e)"
    have "iter_rest m' it = iter_rest m it"
      by (simp add: iter_rest_def b(1) m'(4) drop_map rest)
    moreover have "iter_ok m' it"
      using it b bucket last unfolding iter_ok_def m' by auto
    ultimately show "map_ok m' \<and> v = snd e \<and>
        map_abs m' = (map_abs m)(fst e := None) \<and> iter_ok m' it \<and> iter_rest m' it = iter_rest m it"
      using m' val by simp
  qed
qed

section \<open>Properties\<close>

definition map_example :: "64 word ecs_map" where
  "map_example = \<lparr>m_buckets = [[(2, 20)], [(1, 10)]], m_bucket_count = 2, m_count = 2,
    m_bucket_shift = 63, m_change_count = 2, m_last_iterated = 0\<rparr>"

lemma map_example_ok: "map_ok map_example" and map_example_room: "map_room map_example"
proof -
  have h: "hash_index 1 1 = 1" "hash_index 1 2 = 0" by (simp_all add: hash_index_def)
  have "shape 1 (m_buckets map_example)"
    unfolding shape_def map_example_def using h by (auto simp: less_Suc_eq numeral_2_eq_2)
  then show "map_ok map_example"
    unfolding map_ok_def by (auto simp: map_example_def entries_def intro!: exI [of _ 1])
qed (simp add: map_example_def map_room_def)

lemma map_example_abs: "map_abs map_example = [2 \<mapsto> 20, 1 \<mapsto> 10]"
  by (auto simp: map_abs_def entries_def map_example_def)

lemma map_example_entries: "entries map_example = [(2, 20), (1, 10)]" "m_count map_example = 2"
  by (simp_all add: entries_def map_example_def)

text \<open>C11: The hash map implements a partial function. On a well-formed map with room for another
  element, \<open>ecs_map_get\<close> reads the function; \<open>ecs_map_insert\<close> of a new key, across the growth of
  the bucket array, extends it and asserts on a key that is present; \<open>ecs_map_ensure\<close> returns the
  value present or adds a zero; a write through the returned pointer replaces the value; and
  \<open>ecs_map_remove\<close> deletes the key and returns its value, or zero. All keep the map well formed.\<close>

theorem ecs_map_implements_function:
  fixes m :: "('v::zero) ecs_map"
  assumes "map_ok m" and "map_room m"
  shows "ecs_map_get m k = Inr (map_abs m k) \<and>
    (if map_abs m k = None
     then returns (ecs_map_insert m k v) (\<lambda>m'. map_ok m' \<and> map_abs m' = (map_abs m)(k \<mapsto> v))
     else ecs_map_insert m k v = Inl ECS_INVALID_PARAMETER) \<and>
    returns (ecs_map_ensure m k) (\<lambda>(m', w). map_ok m' \<and>
      w = (case map_abs m k of None \<Rightarrow> 0 | Some w \<Rightarrow> w) \<and> map_abs m' = (map_abs m)(k \<mapsto> w)) \<and>
    returns (bindR (ecs_map_ensure m k) (\<lambda>(m', _). map_store m' k v))
      (\<lambda>m'. map_ok m' \<and> map_abs m' = (map_abs m)(k \<mapsto> v)) \<and>
    returns (ecs_map_remove m k) (\<lambda>(m', w). map_ok m' \<and> map_abs m' = (map_abs m)(k := None) \<and>
      w = (case map_abs m k of None \<Rightarrow> 0 | Some w \<Rightarrow> w))"
proof -
  note m = assms
  have "map_abs m k = None \<Longrightarrow>
      returns (ecs_map_insert m k v) (\<lambda>m'. map_ok m' \<and> map_abs m' = (map_abs m)(k \<mapsto> v))"
    using m by (rule_tac wmap.insert)
  moreover have "returns (ecs_map_ensure m k) (\<lambda>(m', w). map_ok m' \<and>
      w = (case map_abs m k of None \<Rightarrow> 0 | Some w \<Rightarrow> w) \<and> map_abs m' = (map_abs m)(k \<mapsto> w))"
    by (rule wmap.ensure [OF m])
  moreover have "returns (bindR (ecs_map_ensure m k) (\<lambda>(m', _). map_store m' k v))
      (\<lambda>m'. map_ok m' \<and> map_abs m' = (map_abs m)(k \<mapsto> v))"
    by (rule wmap.ensure_then_store [OF m])
  moreover have "returns (ecs_map_remove m k) (\<lambda>(m', w). map_ok m' \<and>
      map_abs m' = (map_abs m)(k := None) \<and> w = (case map_abs m k of None \<Rightarrow> 0 | Some w \<Rightarrow> w))"
    by (rule wmap.remove [OF m(1)])
  ultimately show ?thesis
    using wmap.get [OF m(1), of k] wmap.insert_present [OF m(1), of k v] by (simp only: if_split simp_thms) blast
qed

lemma ecs_map_implements_function_witness:
  "ecs_map_get map_example 2 = Inr (Some 20) \<and> ecs_map_insert map_example 1 5 = Inl ECS_INVALID_PARAMETER"
  using ecs_map_implements_function [OF map_example_ok map_example_room, of 2]
    ecs_map_implements_function [OF map_example_ok map_example_room, of 1 5]
  by (simp add: map_example_abs)

text \<open>C13: Iterating a well-formed map terminates and yields every entry exactly once: the loop
  \<open>while (ecs_map_next(&it))\<close> sees distinct keys, as many as the map counts, and the pairs it sees
  are those of the map.\<close>

theorem ecs_map_iteration_complete:
  assumes "map_ok m"
  shows "returns (map_visit m (ecs_map_iter m)) (\<lambda>(es, m'). distinct (map fst es) \<and>
    map_of es = map_abs m \<and> length es = m_count m)"
  by (rule returns_mono [OF map_visit_ok [OF iter_start(1) [OF assms] iter_start(4) [OF assms]]])
    (use map_abs_distinct [OF assms] assms in \<open>auto simp: iter_start(2) [OF assms] map_abs_def map_ok_def\<close>)

lemma ecs_map_iteration_complete_witness:
  "returns (map_visit map_example (ecs_map_iter map_example))
    (\<lambda>(es, m'). map_of es = [2 \<mapsto> 20, 1 \<mapsto> 10] \<and> length es = 2)"
  by (rule returns_mono [OF ecs_map_iteration_complete [OF map_example_ok]])
    (auto simp: map_example_abs map_example_entries)

text \<open>C12: Removing the entry that an iteration has just yielded is safe: the key is deleted, the
  iterator stays valid (the change counter is not touched), points into the remaining chain, and
  yields exactly the entries it had still to yield.\<close>

theorem ecs_map_remove_while_iterating:
  assumes "map_ok m" and "iter_ok m it" and "it_bucket it = None \<Longrightarrow> it_entry it = []"
    and "iter_rest m it = e # rest"
  shows "returns (ecs_map_next m it) (\<lambda>(r, it', m'). r \<and> it_res it' = Some e \<and>
    returns (ecs_map_remove m' (fst e)) (\<lambda>(m'', v). map_ok m'' \<and> v = snd e \<and>
      map_abs m'' = (map_abs m)(fst e := None) \<and> iter_ok m'' it' \<and> iter_rest m'' it' = rest))"
proof (rule returns_mono [OF map_next_ok [OF assms(2,3)]], simp, unfold assms(4) split_paired_all prod.case list.case,
    elim conjE exE)
  fix r it' m' b pre
  assume f: "r" "it_res it' = Some e" "m' = m\<lparr>m_last_iterated := fst e\<rparr>" "iter_ok m' it'"
    "iter_rest m' it' = rest" "it_bucket it' = Some b" "b < length (m_buckets m)"
    "m_buckets m ! b = pre @ e # it_entry it'"
  have "map_ok m'" "map_abs m' = map_abs m"
    using assms(1) unfolding f(3) map_ok_def map_abs_def by (simp_all add: entries_def)
  then show "r \<and> it_res it' = Some e \<and>
    returns (ecs_map_remove m' (fst e)) (\<lambda>(m'', v). map_ok m'' \<and> v = snd e \<and>
      map_abs m'' = (map_abs m)(fst e := None) \<and> iter_ok m'' it' \<and> iter_rest m'' it' = rest)"
    using map_remove_current [of m' it' b pre e] f by simp
qed

lemma ecs_map_remove_while_iterating_witness:
  "returns (ecs_map_next map_example (ecs_map_iter map_example)) (\<lambda>(r, it', m'). r \<and>
    it_res it' = Some (2, 20) \<and>
    returns (ecs_map_remove m' 2) (\<lambda>(m'', v). v = 20 \<and> iter_rest m'' it' = [(1, 10)]))"
  by (rule returns_mono [OF ecs_map_remove_while_iterating [OF map_example_ok
        iter_start(1,4) [OF map_example_ok], of "(2, 20)" "[(1, 10)]"]])
    (auto simp: iter_start(2) [OF map_example_ok] map_example_entries elim!: returns_mono)

text \<open>C14: The bulk operations: a new and a cleared map are empty, \<open>ecs_map_reclaim\<close>, which picks
  a new number of buckets from the element count, keeps the function the map implements also for
  an empty map (where the count it computes with is -1), and \<open>ecs_map_copy\<close> makes the destination
  implement the function of the source, without modifying the entries of the source.\<close>

theorem ecs_map_bulk_operations:
  fixes m dst :: "('v::zero) ecs_map"
  assumes "map_ok m" and "ecs_map_is_init dst \<Longrightarrow> m_count dst = 0"
  shows "returns (ecs_map_init :: 'v ecs_map result) (\<lambda>m'. map_ok m' \<and> map_abs m' = Map.empty) \<and>
    returns (ecs_map_clear m) (\<lambda>m'. map_ok m' \<and> map_abs m' = Map.empty) \<and>
    returns (ecs_map_reclaim m) (\<lambda>m'. map_ok m' \<and> map_abs m' = map_abs m) \<and>
    returns (ecs_map_copy dst m) (\<lambda>(dst', m'). map_ok dst' \<and> map_abs dst' = map_abs m \<and>
      m_buckets m' = m_buckets m)"
  by (intro conjI map_init_ok map_reclaim_ok map_copy_ok assms returns_mono [OF map_clear_ok]) auto

lemma ecs_map_bulk_operations_witness:
  "returns (ecs_map_copy (map_zero :: 64 word ecs_map) map_example) (\<lambda>(dst, m). map_abs dst 1 = Some 10)"
proof -
  have "m_count (map_zero :: 64 word ecs_map) = 0" by (simp add: map_zero_def)
  from conjunct2 [OF conjunct2 [OF conjunct2 [OF ecs_map_bulk_operations [OF map_example_ok this]]]]
  show ?thesis by (rule returns_mono) (auto simp: map_example_abs)
qed

end
