(* ===== verification/Flecs_Ids.thy ===== *)
theory Flecs_Ids
  imports Flecs_Bits
begin

unbundle bit_operations_syntax

text \<open>
  \<open>id.c\<close> and the id macros of \<open>api_defines.h\<close>: component ids are 64-bit words. The upper 4 bits
  are flags, bit 63 marks a pair and bits 63 and 60 together a value pair; a pair holds a
  relationship in the bits 32 to 59 and a target (or a value) in the lower 32 bits. This theory
  models the construction and matching of ids and their normal form in the component index
  (\<open>flecs_component_hash\<close> of \<open>component_index.c\<close>). A failing \<open>ecs_check\<close> takes the function's error
  path.
\<close>

section \<open>Flags and pairs\<close>

definition ECS_ID_FLAGS_MASK :: "64 word" where
  "ECS_ID_FLAGS_MASK = push_bit 60 0xFF"

definition ECS_COMPONENT_MASK :: "64 word" where
  "ECS_COMPONENT_MASK = NOT ECS_ID_FLAGS_MASK"

definition ECS_PAIR :: "64 word" where
  "ECS_PAIR = push_bit 63 1"

definition ECS_AUTO_OVERRIDE :: "64 word" where
  "ECS_AUTO_OVERRIDE = push_bit 62 1"

definition ECS_TOGGLE :: "64 word" where
  "ECS_TOGGLE = push_bit 61 1"

definition ECS_VALUE_PAIR :: "64 word" where
  "ECS_VALUE_PAIR = push_bit 60 1 OR push_bit 63 1"

definition EcsFlag :: "64 word" where
  "EcsFlag = 1024 + 13"

definition EcsWildcard :: "64 word" where
  "EcsWildcard = 1024 + 14"

definition EcsAny :: "64 word" where
  "EcsAny = 1024 + 15"

definition ECS_HAS_ID_FLAG :: "64 word \<Rightarrow> 64 word \<Rightarrow> bool" where
  "ECS_HAS_ID_FLAG e flag \<longleftrightarrow> e AND flag \<noteq> 0"

definition ECS_IS_VALUE_PAIR :: "64 word \<Rightarrow> bool" where
  "ECS_IS_VALUE_PAIR cid \<longleftrightarrow> cid AND ECS_ID_FLAGS_MASK = ECS_VALUE_PAIR"

definition ECS_IS_PAIR :: "64 word \<Rightarrow> bool" where
  "ECS_IS_PAIR cid \<longleftrightarrow> cid AND ECS_ID_FLAGS_MASK = ECS_PAIR \<or> ECS_IS_VALUE_PAIR cid"

definition ecs_entity_t_lo :: "64 word \<Rightarrow> 64 word" where
  "ecs_entity_t_lo v = ucast (ucast v :: 32 word)"

definition ecs_entity_t_hi :: "64 word \<Rightarrow> 64 word" where
  "ecs_entity_t_hi v = ucast (ucast (drop_bit 32 v) :: 32 word)"

definition ecs_entity_t_comb :: "64 word \<Rightarrow> 64 word \<Rightarrow> 64 word" where
  "ecs_entity_t_comb lo hi = push_bit 32 hi + ecs_entity_t_lo lo"

definition ECS_PAIR_FIRST :: "64 word \<Rightarrow> 64 word" where
  "ECS_PAIR_FIRST e = ecs_entity_t_hi (e AND ECS_COMPONENT_MASK)"

definition ECS_PAIR_SECOND :: "64 word \<Rightarrow> 64 word" where
  "ECS_PAIR_SECOND e = ecs_entity_t_lo e"

definition ecs_pair :: "64 word \<Rightarrow> 64 word \<Rightarrow> 64 word" where
  "ecs_pair rel tgt = ECS_PAIR OR ecs_entity_t_comb tgt rel"

definition ecs_value_pair :: "64 word \<Rightarrow> 64 word \<Rightarrow> 64 word" where
  "ecs_value_pair rel val = ECS_VALUE_PAIR OR ecs_entity_t_comb val rel"

section \<open>Operations\<close>

definition match_check :: "64 word \<Rightarrow> bool" where
  \<comment> \<open>the checks that the elements of a pair are not 0\<close>
  "match_check cid \<longleftrightarrow> ECS_PAIR_FIRST cid \<noteq> 0 \<and> (ECS_IS_VALUE_PAIR cid \<or> ECS_PAIR_SECOND cid \<noteq> 0)"

definition ecs_id_match :: "64 word \<Rightarrow> 64 word \<Rightarrow> bool" where
  "ecs_id_match cid pattern =
    (if cid = pattern then True
     else if ECS_HAS_ID_FLAG pattern ECS_PAIR then
       if \<not> ECS_HAS_ID_FLAG cid ECS_PAIR then False
       else
         let id_first = ECS_PAIR_FIRST cid;
             id_second = ECS_PAIR_SECOND cid;
             pattern_first = ECS_PAIR_FIRST pattern;
             pattern_second = ECS_PAIR_SECOND pattern in
         if \<not> match_check cid \<or> \<not> match_check pattern then False
         else if ECS_IS_VALUE_PAIR pattern \<and> \<not> ECS_IS_VALUE_PAIR cid then False
         else
           let pattern_first_wildcard = (\<not> ECS_IS_VALUE_PAIR pattern \<and> pattern_first = EcsWildcard);
               pattern_second_wc = (\<not> ECS_IS_VALUE_PAIR pattern \<and> pattern_second = EcsWildcard) in
           if pattern_first_wildcard then pattern_second_wc \<or> pattern_second = id_second
           else if pattern_first = EcsFlag then
             ECS_HAS_ID_FLAG cid ECS_PAIR \<and> \<not> ECS_IS_PAIR cid \<and>
               (ECS_PAIR_FIRST cid = pattern_second \<or> ECS_PAIR_SECOND cid = pattern_second)
           else if pattern_second = EcsWildcard then pattern_first = id_first
           else False
     else if cid AND ECS_ID_FLAGS_MASK \<noteq> pattern AND ECS_ID_FLAGS_MASK then False
     else ECS_COMPONENT_MASK AND pattern = EcsWildcard)"

definition ecs_id_is_pair :: "64 word \<Rightarrow> bool" where
  "ecs_id_is_pair cid = ECS_HAS_ID_FLAG cid ECS_PAIR"

definition ecs_id_is_wildcard :: "64 word \<Rightarrow> bool" where
  "ecs_id_is_wildcard cid =
    (if cid = EcsWildcard \<or> cid = EcsAny then True
     else if \<not> ECS_IS_PAIR cid then False
     else
       let fst_id = ECS_PAIR_FIRST cid in
       if ECS_IS_VALUE_PAIR cid then fst_id = EcsWildcard \<or> fst_id = EcsAny
       else
         let snd_id = ECS_PAIR_SECOND cid in
         fst_id = EcsWildcard \<or> snd_id = EcsWildcard \<or> fst_id = EcsAny \<or> snd_id = EcsAny)"

definition ecs_id_is_any :: "64 word \<Rightarrow> bool" where
  "ecs_id_is_any cid =
    (if cid = EcsAny then True
     else if \<not> ECS_IS_PAIR cid then False
     else ECS_PAIR_FIRST cid = EcsAny \<or> ECS_PAIR_SECOND cid = EcsAny)"

datatype id_error =
    Zero_Id | Wildcard_Id | Value_Pair_First_0 | Pair_Both_0 | Pair_First_0 | Pair_Second_0

definition flecs_id_invalid_reason :: "(64 word \<Rightarrow> bool) \<Rightarrow> 64 word \<Rightarrow> id_error option result" where
  \<comment> \<open>the messages are the constructors of \<open>id_error\<close>; \<open>ecs_is_valid\<close> is that of the world\<close>
  "flecs_id_invalid_reason ecs_is_valid cid =
    (if cid = 0 then Inr (Some Zero_Id)
     else if ecs_id_is_wildcard cid then Inr (Some Wildcard_Id)
     else if ECS_IS_VALUE_PAIR cid then
       if ECS_PAIR_FIRST cid = 0 then Inr (Some Value_Pair_First_0) else Inr None
     else if ECS_HAS_ID_FLAG cid ECS_PAIR then
       if ECS_PAIR_FIRST cid = 0 \<and> ECS_PAIR_SECOND cid = 0 then Inr (Some Pair_Both_0)
       else if ECS_PAIR_FIRST cid = 0 then Inr (Some Pair_First_0)
       else if ECS_PAIR_SECOND cid = 0 then Inr (Some Pair_Second_0)
       else Inr None
     else if cid AND ECS_ID_FLAGS_MASK \<noteq> 0 then
       if \<not> ecs_is_valid (cid AND ECS_COMPONENT_MASK) then Inl ECS_INTERNAL_ERROR else Inr None
     else Inr None)"

definition ecs_id_is_valid :: "(64 word \<Rightarrow> bool) \<Rightarrow> 64 word \<Rightarrow> bool result" where
  "ecs_id_is_valid ecs_is_valid cid = bindR (flecs_id_invalid_reason ecs_is_valid cid) (\<lambda>r. Inr (r = None))"

definition ecs_id_flag_str :: "64 word \<Rightarrow> string" where
  "ecs_id_flag_str e =
    (if ECS_IS_VALUE_PAIR e then ''VALUE_PAIR''
     else if ECS_HAS_ID_FLAG e ECS_PAIR then ''PAIR''
     else if ECS_HAS_ID_FLAG e ECS_TOGGLE then ''TOGGLE''
     else if ECS_HAS_ID_FLAG e ECS_AUTO_OVERRIDE then ''AUTO_OVERRIDE''
     else ''UNKNOWN'')"

definition ecs_make_pair :: "64 word \<Rightarrow> 64 word \<Rightarrow> 64 word result" where
  "ecs_make_pair relationship target =
    ecs_assert (\<not> ECS_IS_PAIR relationship \<and> \<not> ECS_IS_PAIR target) ECS_INVALID_PARAMETER
      (Inr (ecs_pair relationship target))"

definition ecs_strip_generation :: "64 word \<Rightarrow> 64 word" where
  "ecs_strip_generation e = (if e AND ECS_ID_FLAGS_MASK = 0 then e AND NOT ECS_GENERATION_MASK else e)"

definition flecs_component_hash :: "64 word \<Rightarrow> 64 word" where
  "flecs_component_hash cid =
    (let cid = ecs_strip_generation cid in
     if ECS_IS_PAIR cid then
       let r = ECS_PAIR_FIRST cid; t = ECS_PAIR_SECOND cid in
       if ECS_IS_VALUE_PAIR cid then ecs_value_pair r t
       else ecs_pair (if r = EcsAny then EcsWildcard else r) (if t = EcsAny then EcsWildcard else t)
     else cid)"

section \<open>Bits of an cid\<close>

lemma bit_0xFF: "bit (0xFF :: 64 word) n \<longleftrightarrow> n < 8"
proof -
  have eq: "(0xFF :: 64 word) = mask 8" by (simp add: mask_eq_exp_minus_1)
  show ?thesis unfolding eq by (simp only: bit_mask_iff) auto
qed

lemma bit_flags_mask: "bit ECS_ID_FLAGS_MASK n \<longleftrightarrow> 60 \<le> n \<and> n < 64"
  by (simp only: ECS_ID_FLAGS_MASK_def bit_push_bit_iff bit_0xFF) auto

lemma bit_component_mask: "bit ECS_COMPONENT_MASK n \<longleftrightarrow> n < 60"
  by (auto simp: ECS_COMPONENT_MASK_def bit_not_iff bit_flags_mask)

lemma bit_flag_consts:
  "bit ECS_PAIR n \<longleftrightarrow> n = 63" "bit ECS_VALUE_PAIR n \<longleftrightarrow> n = 63 \<or> n = 60"
  "bit ECS_TOGGLE n \<longleftrightarrow> n = 61" "bit ECS_AUTO_OVERRIDE n \<longleftrightarrow> n = 62"
  by (simp_all only: ECS_PAIR_def ECS_VALUE_PAIR_def ECS_TOGGLE_def ECS_AUTO_OVERRIDE_def bit_push_bit_iff bit_or_iff
      bit_1_iff) auto

lemma bit_lo: "bit (ecs_entity_t_lo v) n \<longleftrightarrow> n < 32 \<and> bit v n"
  by (auto simp: ecs_entity_t_lo_def bit_ucast_iff)

lemma bit_hi: "bit (ecs_entity_t_hi v) n \<longleftrightarrow> n < 32 \<and> bit v (n + 32)"
  by (auto simp: ecs_entity_t_hi_def bit_ucast_iff bit_drop_bit_eq add.commute)

lemma bit_comb: "bit (ecs_entity_t_comb lo hi) n \<longleftrightarrow>
    n < 64 \<and> (if n < 32 then bit lo n else bit hi (n - 32))"
proof -
  have "push_bit 32 hi AND ecs_entity_t_lo lo = 0"
    by (rule bit_word_eqI) (auto simp: bit_and_iff bit_push_bit_iff bit_lo)
  then have "ecs_entity_t_comb lo hi = push_bit 32 hi OR ecs_entity_t_lo lo"
    unfolding ecs_entity_t_comb_def by (rule disjunctive_add_eq_or)
  then show ?thesis by (auto simp: bit_or_iff bit_push_bit_iff bit_lo)
qed

lemma bit_FIRST: "bit (ECS_PAIR_FIRST e) n \<longleftrightarrow> n < 28 \<and> bit e (n + 32)"
  by (auto simp: ECS_PAIR_FIRST_def bit_hi bit_and_iff bit_component_mask)

lemma bit_SECOND: "bit (ECS_PAIR_SECOND e) n \<longleftrightarrow> n < 32 \<and> bit e n"
  by (simp add: ECS_PAIR_SECOND_def bit_lo)

lemma has_flag_pair: "ECS_HAS_ID_FLAG e ECS_PAIR \<longleftrightarrow> bit e 63"
proof -
  have "e AND ECS_PAIR = (if bit e 63 then ECS_PAIR else 0)"
    by (rule bit_word_eqI) (auto simp: bit_and_iff bit_flag_consts)
  moreover have "ECS_PAIR \<noteq> 0" by (simp add: ECS_PAIR_def)
  ultimately show ?thesis by (simp add: ECS_HAS_ID_FLAG_def)
qed

lemma flags_eq_iff: "x AND ECS_ID_FLAGS_MASK = y AND ECS_ID_FLAGS_MASK \<longleftrightarrow> (\<forall>n. 60 \<le> n \<and> n < 64 \<longrightarrow> bit x n = bit y n)"
  by (auto simp: bit_eq_iff bit_and_iff bit_flags_mask)

lemma is_value_pair_bits: "ECS_IS_VALUE_PAIR c \<longleftrightarrow> bit c 63 \<and> \<not> bit c 62 \<and> \<not> bit c 61 \<and> bit c 60"
proof -
  have "ECS_VALUE_PAIR = ECS_VALUE_PAIR AND ECS_ID_FLAGS_MASK"
    by (rule bit_word_eqI) (auto simp: bit_and_iff bit_flags_mask bit_flag_consts)
  then have "ECS_IS_VALUE_PAIR c \<longleftrightarrow> (\<forall>n. 60 \<le> n \<and> n < 64 \<longrightarrow> bit c n = bit ECS_VALUE_PAIR n)"
    unfolding ECS_IS_VALUE_PAIR_def by (metis flags_eq_iff)
  moreover have "60 \<le> n \<and> n < 64 \<longleftrightarrow> n = 60 \<or> n = 61 \<or> n = 62 \<or> n = 63" for n :: nat by auto
  ultimately show ?thesis by (auto simp: bit_flag_consts)
qed

lemma is_pair_bits: "ECS_IS_PAIR c \<longleftrightarrow> bit c 63 \<and> \<not> bit c 62 \<and> \<not> bit c 61"
proof -
  have "ECS_PAIR = ECS_PAIR AND ECS_ID_FLAGS_MASK"
    by (rule bit_word_eqI) (auto simp: bit_and_iff bit_flags_mask bit_flag_consts)
  then have "c AND ECS_ID_FLAGS_MASK = ECS_PAIR \<longleftrightarrow> (\<forall>n. 60 \<le> n \<and> n < 64 \<longrightarrow> bit c n = bit ECS_PAIR n)"
    by (metis flags_eq_iff)
  moreover have "60 \<le> n \<and> n < 64 \<longleftrightarrow> n = 60 \<or> n = 61 \<or> n = 62 \<or> n = 63" for n :: nat by auto
  ultimately show ?thesis by (auto simp: bit_flag_consts ECS_IS_PAIR_def is_value_pair_bits)
qed

definition rel_id :: "64 word \<Rightarrow> bool" where
  \<comment> \<open>an id that fits the relationship of a pair\<close>
  "rel_id r \<longleftrightarrow> r \<noteq> 0 \<and> r < 2 ^ 28"

definition tgt_id :: "64 word \<Rightarrow> bool" where
  \<comment> \<open>an id that fits the target of a pair\<close>
  "tgt_id t \<longleftrightarrow> t \<noteq> 0 \<and> t < 2 ^ 32"

lemma bit_above:
  assumes "(r :: 64 word) < 2 ^ k" "bit r n"
  shows "n < k"
proof (rule ccontr)
  assume k: "\<not> n < k"
  from assms(2) have n: "n < 64" by (rule bit_imp_le_length [where 'a = 64, simplified])
  have "(2 :: nat) ^ k < 2 ^ 64" using k n by (intro power_strict_increasing) simp_all
  then have "unat (of_nat (2 ^ k) :: 64 word) = 2 ^ k" by (simp only: unat_of_nat) simp
  then have "unat (2 ^ k :: 64 word) = 2 ^ k" by simp
  then have "unat r < 2 ^ k" using assms(1) by (simp add: word_less_nat_alt)
  moreover have "2 ^ n \<le> unat r"
  proof -
    have "odd (unat r div 2 ^ n)" using assms(2) by (simp add: bit_iff_div odd_iff_mod_2_eq_one)
    then have "unat r div 2 ^ n \<noteq> 0" by (cases "unat r div 2 ^ n = 0") simp_all
    then show ?thesis by (simp add: div_eq_0_iff not_less)
  qed
  moreover have "(2 :: nat) ^ k \<le> 2 ^ n" using k by (intro power_increasing) simp_all
  ultimately show False by linarith
qed

lemma bits_pair: "rel_id r \<Longrightarrow> bit (ecs_pair r t) n \<longleftrightarrow>
    n < 64 \<and> (if n < 32 then bit t n else if n < 60 then bit r (n - 32) else n = 63)"
  using bit_above [of r 28 "n - 32"] by (auto simp: ecs_pair_def bit_or_iff bit_comb bit_flag_consts rel_id_def)

lemma bits_value_pair: "rel_id r \<Longrightarrow> bit (ecs_value_pair r t) n \<longleftrightarrow>
    n < 64 \<and> (if n < 32 then bit t n else if n < 60 then bit r (n - 32) else n = 63 \<or> n = 60)"
  using bit_above [of r 28 "n - 32"] by (auto simp: ecs_value_pair_def bit_or_iff bit_comb bit_flag_consts rel_id_def)

lemma pair_parts:
  assumes "rel_id r"
  shows "ECS_PAIR_FIRST (ecs_pair r t) = r" "ECS_PAIR_FIRST (ecs_value_pair r t) = r"
    and "ECS_IS_PAIR (ecs_pair r t)" "ECS_IS_PAIR (ecs_value_pair r t)"
    and "\<not> ECS_IS_VALUE_PAIR (ecs_pair r t)" "ECS_IS_VALUE_PAIR (ecs_value_pair r t)"
    and "ECS_HAS_ID_FLAG (ecs_pair r t) ECS_PAIR" "ECS_HAS_ID_FLAG (ecs_value_pair r t) ECS_PAIR"
proof -
  have b: "bit r n \<Longrightarrow> n < 28" for n using assms bit_above [of r 28] by (simp add: rel_id_def)
  show "ECS_PAIR_FIRST (ecs_pair r t) = r" "ECS_PAIR_FIRST (ecs_value_pair r t) = r"
    by (auto intro!: bit_word_eqI simp: bit_FIRST bits_pair [OF assms] bits_value_pair [OF assms] dest: b)
qed (simp_all add: bits_pair [OF assms] bits_value_pair [OF assms] is_pair_bits is_value_pair_bits has_flag_pair)

lemma pair_second:
  assumes "rel_id r" "t < 2 ^ 32"
  shows "ECS_PAIR_SECOND (ecs_pair r t) = t" "ECS_PAIR_SECOND (ecs_value_pair r t) = t"
  using assms bit_above [of t 32]
  by (auto intro!: bit_word_eqI simp: bit_SECOND bits_pair bits_value_pair)

lemma pair_inject:
  assumes "rel_id r" "rel_id a" "t < 2 ^ 32" "b < 2 ^ 32"
  shows "ecs_pair r t = ecs_pair a b \<longleftrightarrow> r = a \<and> t = b"
    and "ecs_value_pair r t = ecs_value_pair a b \<longleftrightarrow> r = a \<and> t = b"
    and "ecs_pair r t \<noteq> ecs_value_pair a b"
  using assms pair_parts [of r t] pair_parts [of a b] pair_second [of r t] pair_second [of a b] by metis+

lemma match_check_pair:
  assumes "rel_id r" "t < 2 ^ 32"
  shows "match_check (ecs_pair r t) \<longleftrightarrow> t \<noteq> 0" "match_check (ecs_value_pair r t)"
  using assms pair_parts [of r t] pair_second [of r t] by (auto simp: match_check_def rel_id_def)

section \<open>Matching\<close>

lemma match_pair_pair:
  assumes "rel_id r" "tgt_id t" "rel_id a" "tgt_id b" "a \<noteq> EcsFlag"
  shows "ecs_id_match (ecs_pair r t) (ecs_pair a b) \<longleftrightarrow>
    (a = EcsWildcard \<or> a = r) \<and> (b = EcsWildcard \<or> b = t)"
  using assms pair_parts [of r t] pair_second [of r t] pair_parts [of a b] pair_second [of a b]
    match_check_pair [of r t] match_check_pair [of a b] pair_inject(1) [of r a t b]
  by (auto simp: ecs_id_match_def tgt_id_def)

lemma match_value_pair:
  assumes "rel_id r" "v < 2 ^ 32" "rel_id a" "tgt_id b" "a \<noteq> EcsFlag"
  shows "ecs_id_match (ecs_value_pair r v) (ecs_pair a b) \<longleftrightarrow>
    (a = r \<and> b = EcsWildcard) \<or> (a = EcsWildcard \<and> (b = EcsWildcard \<or> b = v))"
  using assms pair_parts [of r v] pair_second [of r v] pair_parts [of a b] pair_second [of a b]
    match_check_pair [of r v] match_check_pair [of a b] pair_inject(3) [of a r b v]
  by (auto simp: ecs_id_match_def tgt_id_def)

lemma match_value_value:
  assumes "rel_id r" "v < 2 ^ 32" "rel_id a" "w < 2 ^ 32" "a \<noteq> EcsFlag"
  shows "ecs_id_match (ecs_value_pair r v) (ecs_value_pair a w) \<longleftrightarrow>
    a = r \<and> (w = v \<or> w = EcsWildcard)"
  using assms pair_parts [of r v] pair_second [of r v] pair_parts [of a w] pair_second [of a w]
    match_check_pair [of r v] match_check_pair [of a w] pair_inject(2) [of r a v w]
  by (auto simp: ecs_id_match_def)

lemma match_pair_value:
  assumes "rel_id r" "tgt_id t" "rel_id a" "w < 2 ^ 32"
  shows "\<not> ecs_id_match (ecs_pair r t) (ecs_value_pair a w)"
  using assms pair_parts [of r t] pair_parts [of a w] match_check_pair [of r t] match_check_pair [of a w]
    pair_inject(3) [of r a t w]
  by (simp add: ecs_id_match_def tgt_id_def)

lemma match_entity:
  assumes "\<not> bit p 63"
  shows "ecs_id_match x p \<longleftrightarrow> x = p \<or>
    x AND ECS_ID_FLAGS_MASK = p AND ECS_ID_FLAGS_MASK \<and> ECS_COMPONENT_MASK AND p = EcsWildcard"
  using assms by (simp add: ecs_id_match_def has_flag_pair)

text \<open>C27: Matching an id against a pattern. A pair (R, T) matches the patterns (R, T), (R, *), (*, T)
  and (*, *) and no other pair. A pattern without pair flag matches only itself or, if it is the
  wildcard, every id with the same flags. A pair of an id and a value matches the pair patterns with
  the same relationship or a wildcard and a wildcard target; but (*, T) also matches when the value
  happens to equal T, and a value-pair pattern whose value equals the number of \<open>EcsWildcard\<close>
  matches every value, although the code sets its wildcard flags to false for value pairs.\<close>

theorem ecs_id_match_correct:
  assumes "rel_id r" and "tgt_id t" and "v < 2 ^ 32" and "rel_id a" and "a \<noteq> EcsFlag" and "tgt_id b"
    and "w < 2 ^ 32"
  shows "(ecs_id_match (ecs_pair r t) (ecs_pair a b) \<longleftrightarrow> (a = EcsWildcard \<or> a = r) \<and> (b = EcsWildcard \<or> b = t)) \<and>
    (ecs_id_match (ecs_value_pair r v) (ecs_pair a b) \<longleftrightarrow>
      (a = r \<and> b = EcsWildcard) \<or> (a = EcsWildcard \<and> (b = EcsWildcard \<or> b = v))) \<and>
    (ecs_id_match (ecs_value_pair r v) (ecs_value_pair a w) \<longleftrightarrow> a = r \<and> (w = v \<or> w = EcsWildcard)) \<and>
    \<not> ecs_id_match (ecs_pair r t) (ecs_value_pair a w) \<and>
    (\<forall>x e. \<not> bit e 63 \<longrightarrow> (ecs_id_match x e \<longleftrightarrow> x = e \<or>
      x AND ECS_ID_FLAGS_MASK = e AND ECS_ID_FLAGS_MASK \<and> ECS_COMPONENT_MASK AND e = EcsWildcard))"
  using assms match_pair_pair match_value_pair match_value_value match_pair_value match_entity
  by (simp add: tgt_id_def)

lemma ecs_id_match_correct_witness:
  "ecs_id_match (ecs_pair 7 300) (ecs_pair EcsWildcard 300) \<and>
   \<not> ecs_id_match (ecs_pair 7 300) (ecs_pair 8 EcsWildcard) \<and>
   ecs_id_match (ecs_value_pair 7 5) (ecs_value_pair 7 EcsWildcard)"
proof -
  have w: "rel_id 7" "tgt_id 300" "rel_id 8" "tgt_id EcsWildcard" "rel_id EcsWildcard"
    "(7 :: 64 word) \<noteq> EcsFlag" "(8 :: 64 word) \<noteq> EcsFlag" "EcsWildcard \<noteq> EcsFlag"
    "EcsWildcard < 2 ^ 32" "(5 :: 64 word) < 2 ^ 32"
    by (simp_all add: rel_id_def tgt_id_def EcsWildcard_def EcsFlag_def)
  show ?thesis
    using ecs_id_match_correct [OF w(1,2,10,5,8,2,9)] ecs_id_match_correct [OF w(1,2,10,3,7,4,9)]
      ecs_id_match_correct [OF w(1,2,10,1,6,2,9)]
    by simp (simp add: EcsWildcard_def)
qed

section \<open>Normal forms\<close>

lemma bit_strip: "n < 64 \<Longrightarrow> bit (ecs_strip_generation e) n \<longleftrightarrow>
    bit e n \<and> (e AND ECS_ID_FLAGS_MASK = 0 \<longrightarrow> \<not> (32 \<le> n \<and> n < 48))"
  by (auto simp: ecs_strip_generation_def bit_and_iff bit_not_iff bit_GENERATION_MASK)

lemma strip_flags: "ecs_strip_generation e AND ECS_ID_FLAGS_MASK = e AND ECS_ID_FLAGS_MASK"
  by (simp add: flags_eq_iff bit_strip)

lemma strip_strip [simp]: "ecs_strip_generation (ecs_strip_generation e) = ecs_strip_generation e"
  using strip_flags [of e] by (auto simp: ecs_strip_generation_def and.assoc)

lemma flags_0_pair: "bit e 63 \<Longrightarrow> e AND ECS_ID_FLAGS_MASK \<noteq> 0"
  using flags_eq_iff [of e 0] by auto

lemma strip_pair [simp]: "rel_id r \<Longrightarrow> ecs_strip_generation (ecs_pair r t) = ecs_pair r t"
    "rel_id r \<Longrightarrow> ecs_strip_generation (ecs_value_pair r t) = ecs_value_pair r t"
  using flags_0_pair by (simp_all add: ecs_strip_generation_def bits_pair bits_value_pair)

definition any_to_wildcard :: "64 word \<Rightarrow> 64 word" where
  "any_to_wildcard e = (if e = EcsAny then EcsWildcard else e)"

lemma hash_pair:
  assumes "rel_id r" "t < 2 ^ 32"
  shows "flecs_component_hash (ecs_pair r t) = ecs_pair (any_to_wildcard r) (any_to_wildcard t)"
    and "flecs_component_hash (ecs_value_pair r t) = ecs_value_pair r t"
  using assms pair_parts [of r t] pair_second [of r t]
  by (simp_all add: flecs_component_hash_def any_to_wildcard_def)

lemma any_to_wildcard_id:
  "rel_id r \<Longrightarrow> rel_id (any_to_wildcard r)" "t < 2 ^ 32 \<Longrightarrow> any_to_wildcard t < 2 ^ 32"
  "any_to_wildcard (any_to_wildcard e) = any_to_wildcard e"
  by (auto simp: any_to_wildcard_def rel_id_def EcsWildcard_def EcsAny_def)

lemma hash_entity: "\<not> bit e 63 \<Longrightarrow> flecs_component_hash e = ecs_strip_generation e"
  by (simp add: flecs_component_hash_def is_pair_bits bit_strip)

text \<open>C29: The key of the component index. Two pairs have the same key exactly when their elements agree
  after \<open>EcsAny\<close> is read as \<open>EcsWildcard\<close>, two value pairs only when they are the same, a pair and a
  value pair never do; an entity id is keyed without its generation. A key is its own key.\<close>

theorem flecs_component_hash_correct:
  assumes "rel_id r" and "rel_id a" and "t < 2 ^ 32" and "b < 2 ^ 32" and "\<not> bit e 63"
  shows "(flecs_component_hash (ecs_pair r t) = flecs_component_hash (ecs_pair a b) \<longleftrightarrow>
      any_to_wildcard r = any_to_wildcard a \<and> any_to_wildcard t = any_to_wildcard b) \<and>
    (flecs_component_hash (ecs_value_pair r t) = flecs_component_hash (ecs_value_pair a b) \<longleftrightarrow> r = a \<and> t = b) \<and>
    flecs_component_hash (ecs_pair r t) \<noteq> flecs_component_hash (ecs_value_pair a b) \<and>
    (flecs_component_hash e = (if e AND ECS_ID_FLAGS_MASK = 0 then e AND NOT ECS_GENERATION_MASK else e)) \<and>
    (\<forall>x \<in> {e, ecs_pair r t, ecs_value_pair r t}. flecs_component_hash (flecs_component_hash x) = flecs_component_hash x)"
proof -
  note n = any_to_wildcard_id
  have "flecs_component_hash e = ecs_strip_generation e" "\<not> bit (ecs_strip_generation e) 63"
    using assms(5) by (simp_all add: hash_entity bit_strip)
  then have "flecs_component_hash (flecs_component_hash e) = flecs_component_hash e"
    by (simp add: hash_entity)
  then show ?thesis
    using assms pair_inject(1) [OF n(1) [OF assms(1)] n(1) [OF assms(2)] n(2) [OF assms(3)] n(2) [OF assms(4)]]
      pair_inject(2) [OF assms(1-4)] pair_inject(3) [OF n(1) [OF assms(1)] assms(2) n(2) [OF assms(3)] assms(4)]
      hash_pair [OF n(1) [OF assms(1)] n(2) [OF assms(3)]] n(3)
    by (simp add: hash_pair hash_entity ecs_strip_generation_def)
qed

lemma flecs_component_hash_correct_witness:
  "flecs_component_hash (ecs_pair 7 EcsAny) = flecs_component_hash (ecs_pair 7 EcsWildcard) \<and>
   flecs_component_hash (ecs_value_pair 7 EcsAny) \<noteq> flecs_component_hash (ecs_value_pair 7 EcsWildcard) \<and>
   flecs_component_hash 0x500000009 = 9"
proof -
  have w: "rel_id 7" "EcsAny < 2 ^ 32" "EcsWildcard < 2 ^ 32" "any_to_wildcard EcsAny = any_to_wildcard EcsWildcard"
    "EcsAny \<noteq> EcsWildcard" "\<not> bit (0x500000009 :: 64 word) 63"
    by (simp_all add: rel_id_def EcsWildcard_def EcsAny_def any_to_wildcard_def)
  have e: "0x500000009 AND ECS_ID_FLAGS_MASK = 0" "0x500000009 AND NOT ECS_GENERATION_MASK = 9"
    by (simp_all add: ECS_ID_FLAGS_MASK_def ECS_GENERATION_MASK_def)
  show ?thesis
    using flecs_component_hash_correct [OF w(1) w(1) w(2) w(3) w(6)] w(4,5) e by simp
qed

lemma pair_not_small:
  assumes "rel_id r" "bit x 63 = False"
  shows "ecs_pair r t \<noteq> x" "ecs_value_pair r t \<noteq> x"
  using assms bits_pair [of r t 63] bits_value_pair [of r t 63] by auto

lemma bit63_wildcard: "bit EcsWildcard 63 = False" "bit EcsAny 63 = False" "bit (0 :: 64 word) 63 = False"
  by (simp_all add: EcsWildcard_def EcsAny_def)

text \<open>C28: Wildcards and validity of pairs. A pair is a wildcard when one of its elements is
  \<open>EcsWildcard\<close> or \<open>EcsAny\<close>, a value pair only when its relationship is; an id can be added exactly
  when it is no wildcard and has no zero element, and as a pattern such a pair matches only itself.
  \<open>ecs_id_is_any\<close>, unlike \<open>ecs_id_is_wildcard\<close>, reads the value of a value pair as a target.\<close>

theorem ecs_id_wildcards:
  assumes "rel_id r" and "t < 2 ^ 32" and "rel_id a" and "tgt_id b"
  shows "(ecs_id_is_wildcard (ecs_pair r t) \<longleftrightarrow> r \<in> {EcsWildcard, EcsAny} \<or> t \<in> {EcsWildcard, EcsAny}) \<and>
    (ecs_id_is_wildcard (ecs_value_pair r t) \<longleftrightarrow> r \<in> {EcsWildcard, EcsAny}) \<and>
    (ecs_id_is_valid valid (ecs_pair r t) = Inr (\<not> ecs_id_is_wildcard (ecs_pair r t) \<and> t \<noteq> 0)) \<and>
    (ecs_id_is_valid valid (ecs_value_pair r t) = Inr (\<not> ecs_id_is_wildcard (ecs_value_pair r t))) \<and>
    (\<not> ecs_id_is_wildcard (ecs_pair a b) \<and> a \<noteq> EcsFlag \<and> t \<noteq> 0 \<longrightarrow>
      (ecs_id_match (ecs_pair r t) (ecs_pair a b) \<longleftrightarrow> ecs_pair r t = ecs_pair a b)) \<and>
    (ecs_id_is_any (ecs_pair r t) \<longleftrightarrow> r = EcsAny \<or> t = EcsAny) \<and>
    (ecs_id_is_any (ecs_value_pair r t) \<longleftrightarrow> r = EcsAny \<or> t = EcsAny)"
proof -
  have r0: "r \<noteq> 0" and b: "b < 2 ^ 32" using assms by (simp_all add: rel_id_def tgt_id_def)
  note small = pair_not_small [OF assms(1)] bit63_wildcard
  note parts = pair_parts [OF assms(1), of t] pair_second [OF assms(1,2)]
  have wild: "ecs_id_is_wildcard (ecs_pair a b) \<longleftrightarrow> a \<in> {EcsWildcard, EcsAny} \<or> b \<in> {EcsWildcard, EcsAny}"
    using pair_parts [OF assms(3), of b] pair_second [OF assms(3) b] pair_not_small [OF assms(3)] bit63_wildcard
    by (auto simp: ecs_id_is_wildcard_def)
  have "ecs_id_match (ecs_pair r t) (ecs_pair a b) \<longleftrightarrow> ecs_pair r t = ecs_pair a b"
    if "\<not> ecs_id_is_wildcard (ecs_pair a b)" "a \<noteq> EcsFlag" "t \<noteq> 0"
  proof -
    have "tgt_id t" using that(3) assms(2) by (simp add: tgt_id_def)
    from match_pair_pair [OF assms(1) this assms(3,4) that(2)] that(1) wild pair_inject(1) [OF assms(1,3,2) b]
    show ?thesis by auto
  qed
  then show ?thesis
    using r0 small parts
    by (auto simp: ecs_id_is_wildcard_def ecs_id_is_any_def ecs_id_is_valid_def flecs_id_invalid_reason_def)
qed

lemma ecs_id_wildcards_witness:
  "ecs_id_is_any (ecs_value_pair 7 EcsAny) \<and> \<not> ecs_id_is_wildcard (ecs_value_pair 7 EcsAny) \<and>
   ecs_id_is_valid (\<lambda>_. True) (ecs_pair 7 0) = Inr False"
proof -
  have w: "rel_id 7" "tgt_id 300" "EcsAny < 2 ^ 32" "(0 :: 64 word) < 2 ^ 32" "(7 :: 64 word) \<notin> {EcsWildcard, EcsAny}"
    by (simp_all add: rel_id_def tgt_id_def EcsWildcard_def EcsAny_def)
  show ?thesis
    using ecs_id_wildcards [OF w(1,3,1,2)] ecs_id_wildcards [OF w(1,4,1,2), of "\<lambda>_. True"] w(5) by simp
qed

end
