(* ===== verification/Table_Type.thy ===== *)
theory Table_Type
  imports Flecs_Ids
begin

text \<open>
  The operations on table types at the start of \<open>storage/table_graph.c\<close>. A type is the array of the
  component ids of a table, sorted and without duplicates; it is modelled as the list of its ids.
  Functions that report failure with -1 and fill an output parameter return an option. The ids that
  match a wildcard are removed as one run, so the result depends on how ids of one relationship
  are ordered.
\<close>

section \<open>Operations\<close>

type_synonym ecs_type = "64 word list"

fun type_compare_loop :: "ecs_type \<Rightarrow> ecs_type \<Rightarrow> int" where
  "type_compare_loop (a # as) (b # bs) =
    (let result = of_bool (a > b) - of_bool (a < b) in if result \<noteq> 0 then result else type_compare_loop as bs)"
| "type_compare_loop _ _ = 0"

definition flecs_type_compare :: "ecs_type \<Rightarrow> ecs_type \<Rightarrow> int" where
  "flecs_type_compare t1 t2 =
    (if length t1 \<noteq> length t2 then of_bool (length t1 > length t2) - of_bool (length t1 < length t2)
     else type_compare_loop t1 t2)"

fun find_insert_loop :: "nat \<Rightarrow> ecs_type \<Rightarrow> 64 word \<Rightarrow> nat option" where
  "find_insert_loop i [] to_add = Some i"
| "find_insert_loop i (x # xs) to_add =
    (if x = to_add then None else if x > to_add then Some i else find_insert_loop (Suc i) xs to_add)"

definition flecs_type_find_insert :: "ecs_type \<Rightarrow> nat \<Rightarrow> 64 word \<Rightarrow> nat option" where
  "flecs_type_find_insert type offset to_add = find_insert_loop offset (drop offset type) to_add"

fun type_find_loop :: "nat \<Rightarrow> ecs_type \<Rightarrow> 64 word \<Rightarrow> nat option" where
  "type_find_loop i [] p = None"
| "type_find_loop i (x # xs) p =
    (if ecs_id_match x p then Some i
     else if \<not> ECS_IS_PAIR p \<and> x > p then None
     else type_find_loop (Suc i) xs p)"

definition flecs_type_find :: "ecs_type \<Rightarrow> 64 word \<Rightarrow> nat option" where
  "flecs_type_find type p = type_find_loop 0 type p"

fun find_index_loop :: "nat \<Rightarrow> ecs_type \<Rightarrow> 64 word \<Rightarrow> nat option" where
  "find_index_loop i [] e = None"
| "find_index_loop i (x # xs) e = (if id_index x = id_index e then Some i else find_index_loop (Suc i) xs e)"

definition flecs_type_find_ignoring_generation :: "ecs_type \<Rightarrow> 64 word \<Rightarrow> nat option" where
  "flecs_type_find_ignoring_generation type e = find_index_loop 0 type e"

fun count_matches_loop :: "ecs_type \<Rightarrow> 64 word \<Rightarrow> nat" where
  "count_matches_loop [] wildcard = 0"
| "count_matches_loop (x # xs) wildcard =
    (if \<not> ecs_id_match x wildcard then 0 else Suc (count_matches_loop xs wildcard))"

definition flecs_type_count_matches :: "ecs_type \<Rightarrow> 64 word \<Rightarrow> nat \<Rightarrow> nat" where
  "flecs_type_count_matches type wildcard offset = count_matches_loop (drop offset type) wildcard"

definition flecs_type_new_with :: "ecs_type \<Rightarrow> 64 word \<Rightarrow> ecs_type option" where
  "flecs_type_new_with src w =
    (case flecs_type_find_insert src 0 w of
      None \<Rightarrow> None
    | Some at \<Rightarrow> Some (take at src @ [w] @ drop at src))"

fun filtered_loop :: "ecs_type \<Rightarrow> 64 word \<Rightarrow> ecs_type" where
  "filtered_loop [] wildcard = []"
| "filtered_loop (x # xs) wildcard =
    (if \<not> ecs_id_match x wildcard then x # filtered_loop xs wildcard else filtered_loop xs wildcard)"

definition flecs_type_new_filtered :: "ecs_type \<Rightarrow> 64 word \<Rightarrow> nat \<Rightarrow> ecs_type" where
  "flecs_type_new_filtered src wildcard at = take at src @ filtered_loop (drop (at + 1) src) wildcard"

definition flecs_type_new_without :: "ecs_type \<Rightarrow> 64 word \<Rightarrow> ecs_type option" where
  "flecs_type_new_without src without =
    (case flecs_type_find src without of
      None \<Rightarrow> None
    | Some at \<Rightarrow>
        if length src = 1 then Some []
        else if ecs_id_is_wildcard without \<and> ECS_IS_PAIR without \<and>
          ECS_PAIR_FIRST without = EcsWildcard \<and> ECS_PAIR_SECOND without \<noteq> EcsWildcard
        then Some (flecs_type_new_filtered src without at)
        else
          let cnt = 1 + (if ecs_id_is_wildcard without then flecs_type_count_matches src without (at + 1) else 0);
              dst_count = length src - cnt in
          if dst_count = 0 then Some []
          else Some (take at src @ take (dst_count - at) (drop (at + cnt) src)))"

definition flecs_type_new_without_ignoring_generation :: "ecs_type \<Rightarrow> 64 word \<Rightarrow> ecs_type option result" where
  "flecs_type_new_without_ignoring_generation src without =
    ecs_assert (\<not> ecs_id_is_wildcard without) ECS_INVALID_PARAMETER
     (ecs_assert (\<not> ECS_IS_PAIR without) ECS_INVALID_PARAMETER
      (case flecs_type_find_ignoring_generation src without of
        None \<Rightarrow> Inr None
      | Some at \<Rightarrow>
          if length src = 1 then Inr (Some [])
          else
            let dst_count = length src - 1 in
            Inr (Some (take at src @ take (dst_count - at) (drop (at + 1) src)))))"

definition flecs_type_copy :: "ecs_type \<Rightarrow> ecs_type" where
  "flecs_type_copy src = (if length src = 0 then [] else take (length src) src)"

definition flecs_type_add :: "ecs_type \<Rightarrow> 64 word \<Rightarrow> ecs_type" where
  "flecs_type_add type add = (case flecs_type_new_with type add of None \<Rightarrow> type | Some new_type \<Rightarrow> new_type)"

definition flecs_type_remove :: "ecs_type \<Rightarrow> 64 word \<Rightarrow> ecs_type" where
  "flecs_type_remove type rem = (case flecs_type_new_without type rem of None \<Rightarrow> type | Some new_type \<Rightarrow> new_type)"

definition flecs_type_remove_ignoring_generation :: "ecs_type \<Rightarrow> 64 word \<Rightarrow> ecs_type result" where
  "flecs_type_remove_ignoring_generation type rem =
    bindR (flecs_type_new_without_ignoring_generation type rem) (\<lambda>r.
    Inr (case r of None \<Rightarrow> type | Some new_type \<Rightarrow> new_type))"

section \<open>Adding\<close>

lemma find_insert_ok:
  assumes "sorted_wrt (<) xs"
  shows "find_insert_loop i xs x = (if x \<in> set xs then None else Some (i + length (takeWhile (\<lambda>y. y < x) xs)))"
  using assms by (induction xs arbitrary: i) (auto simp: not_less_iff_gr_or_eq)

lemma take_drop_while:
  "take (length (takeWhile P xs)) xs = takeWhile P xs" "drop (length (takeWhile P xs)) xs = dropWhile P xs"
  by (induction xs) simp_all

lemma type_add_ok:
  assumes s: "sorted_wrt (<) xs"
  shows "sorted_wrt (<) (flecs_type_add xs x)" and "set (flecs_type_add xs x) = insert x (set xs)"
proof -
  let ?l = "takeWhile (\<lambda>y. y < x) xs" and ?r = "dropWhile (\<lambda>y. y < x) xs"
  have eq: "flecs_type_add xs x = (if x \<in> set xs then xs else ?l @ x # ?r)"
    using s by (simp add: flecs_type_add_def flecs_type_new_with_def flecs_type_find_insert_def find_insert_ok
        take_drop_while)
  have "x < y" if "x \<notin> set xs" "y \<in> set ?r" for y
    using s that by (induction xs) (auto simp: not_less_iff_gr_or_eq split: if_splits)
  moreover have "y < x" if "y \<in> set ?l" for y using that by (metis set_takeWhileD)
  moreover have "sorted_wrt (<) (?l @ ?r)" using s by simp
  then have "sorted_wrt (<) ?l" "sorted_wrt (<) ?r" by (simp_all only: sorted_wrt_append)
  ultimately have "sorted_wrt (<) (?l @ x # ?r)" if "x \<notin> set xs"
    using that by (fastforce simp: sorted_wrt_append)
  then show "sorted_wrt (<) (flecs_type_add xs x)" using s by (simp add: eq)
  have "set (?l @ x # ?r) = insert x (set (?l @ ?r))" by (simp del: takeWhile_dropWhile_id)
  then show "set (flecs_type_add xs x) = insert x (set xs)" unfolding eq takeWhile_dropWhile_id by auto
qed

section \<open>Removing\<close>

definition plain_id :: "64 word \<Rightarrow> bool" where
  \<comment> \<open>an entity, possibly with flags, or a pair of two entities without other flags\<close>
  "plain_id x \<longleftrightarrow> (bit x 63 \<longrightarrow> ECS_IS_PAIR x \<and> \<not> ECS_IS_VALUE_PAIR x \<and> match_check x)"

lemma unat_shift: "unat (drop_bit n (x :: 64 word)) = unat x div 2 ^ n"
  unfolding unat_drop_bit_eq by (rule drop_bit_eq_div)

lemma FIRST_eq: "ECS_PAIR_FIRST x = take_bit 28 (drop_bit 32 x)"
  by (rule bit_word_eqI) (auto simp: bit_FIRST bit_take_bit_iff bit_drop_bit_eq add.commute)

lemma unat_FIRST: "unat (ECS_PAIR_FIRST x) = unat x div 2 ^ 32 mod 2 ^ 28"
  unfolding FIRST_eq unsigned_take_bit_eq unat_shift by (simp only: take_bit_eq_mod)

lemma bit63: "bit x 63 \<longleftrightarrow> 2 ^ 63 \<le> unat (x :: 64 word)"
proof -
  have "unat x < 2 ^ 64" using unsigned_less [of x] by simp
  then have "unat x div 2 ^ 63 < 2" by (simp add: less_mult_imp_div_less)
  moreover have "odd q \<longleftrightarrow> q \<noteq> 0" if "q < 2" for q :: nat using that by (cases q) auto
  ultimately have "odd (unat x div 2 ^ 63) \<longleftrightarrow> unat x div 2 ^ 63 \<noteq> 0" by blast
  then show ?thesis by (simp only: bit_iff_div div_eq_0_iff) (simp add: not_less)
qed

lemma bit63_mono: "bit x 63 \<Longrightarrow> x \<le> y \<Longrightarrow> bit (y :: 64 word) 63"
  by (simp add: bit63 word_le_nat_alt)

lemma flags_nat: "x AND ECS_ID_FLAGS_MASK = y AND ECS_ID_FLAGS_MASK \<longleftrightarrow> unat x div 2 ^ 60 = unat y div 2 ^ 60"
proof -
  have "x AND ECS_ID_FLAGS_MASK = y AND ECS_ID_FLAGS_MASK \<longleftrightarrow> drop_bit 60 x = drop_bit 60 y"
    unfolding flags_eq_iff
  proof
    assume a: "\<forall>n. 60 \<le> n \<and> n < 64 \<longrightarrow> bit x n = bit y n"
    show "drop_bit 60 x = drop_bit 60 y"
    proof (rule bit_word_eqI)
      fix n assume "n < LENGTH(64)"
      show "bit (drop_bit 60 x) n = bit (drop_bit 60 y) n"
        using a [rule_format, of "60 + n"] bit_imp_le_length [of x "60 + n"] bit_imp_le_length [of y "60 + n"]
        by (auto simp: bit_drop_bit_eq)
    qed
  next
    assume a: "drop_bit 60 x = drop_bit 60 y"
    show "\<forall>n. 60 \<le> n \<and> n < 64 \<longrightarrow> bit x n = bit y n"
    proof (intro allI impI)
      fix n :: nat assume "60 \<le> n \<and> n < 64"
      then show "bit x n = bit y n"
        using arg_cong [OF a, of "\<lambda>v. bit v (n - 60)"] by (simp add: bit_drop_bit_eq)
    qed
  qed
  then show ?thesis by (metis unat_shift word_unat_eq_iff)
qed

lemma plain_pair_flags: "plain_id x \<Longrightarrow> plain_id y \<Longrightarrow> bit x 63 \<Longrightarrow> bit y 63 \<Longrightarrow>
    unat x div 2 ^ 60 = unat y div 2 ^ 60"
  unfolding flags_nat [symmetric] plain_id_def ECS_IS_PAIR_def by metis

lemma FIRST_mono:
  assumes "plain_id x" "plain_id y" "bit x 63" "x \<le> y"
  shows "ECS_PAIR_FIRST x \<le> ECS_PAIR_FIRST y"
proof -
  have y: "bit y 63" using assms bit63_mono by blast
  let ?x = "unat x div 2 ^ 32" and ?y = "unat y div 2 ^ 32"
  have le: "?x \<le> ?y" using assms(4) by (simp add: word_le_nat_alt div_le_mono)
  have "?x div 2 ^ 28 = ?y div 2 ^ 28"
    using plain_pair_flags [OF assms(1,2,3) y] by (simp add: div_mult2_eq [symmetric])
  then have "?x mod 2 ^ 28 \<le> ?y mod 2 ^ 28"
    using le by (metis diff_le_mono minus_mult_div_eq_mod)
  then show ?thesis by (simp only: word_le_nat_alt unat_FIRST)
qed

lemma FIRST_bound: "ECS_PAIR_FIRST x < 2 ^ 28" and SECOND_bound: "ECS_PAIR_SECOND x < 2 ^ 32"
proof -
  have "unat (ECS_PAIR_FIRST x) < 2 ^ 28" by (simp only: unat_FIRST) simp
  then show "ECS_PAIR_FIRST x < 2 ^ 28" by (simp add: word_less_nat_alt)
  have "ECS_PAIR_SECOND x = take_bit 32 x"
    by (rule bit_word_eqI) (auto simp: bit_SECOND bit_take_bit_iff)
  then have "unat (ECS_PAIR_SECOND x) = unat x mod 2 ^ 32"
    by (simp only: unsigned_take_bit_eq) (simp only: take_bit_eq_mod)
  then have "unat (ECS_PAIR_SECOND x) < 2 ^ 32" by simp
  then show "ECS_PAIR_SECOND x < 2 ^ 32" by (simp add: word_less_nat_alt)
qed

lemma pair_eta:
  assumes "ECS_IS_PAIR x" "\<not> ECS_IS_VALUE_PAIR x" "match_check x"
  shows "x = ecs_pair (ECS_PAIR_FIRST x) (ECS_PAIR_SECOND x)" and "rel_id (ECS_PAIR_FIRST x)"
    and "tgt_id (ECS_PAIR_SECOND x)"
proof -
  show r: "rel_id (ECS_PAIR_FIRST x)" and "tgt_id (ECS_PAIR_SECOND x)"
    using assms(2,3) FIRST_bound [of x] SECOND_bound [of x] by (auto simp: rel_id_def tgt_id_def match_check_def)
  have f: "bit x 63" "\<not> bit x 62" "\<not> bit x 61" "\<not> bit x 60"
    using assms(1,2) by (auto simp: is_pair_bits is_value_pair_bits)
  show "x = ecs_pair (ECS_PAIR_FIRST x) (ECS_PAIR_SECOND x)"
  proof (rule bit_word_eqI)
    fix n assume "n < LENGTH(64)"
    then consider "n < 32" | "32 \<le> n" "n < 60" | "n = 60" | "n = 61" | "n = 62" | "n = 63" by fastforce
    then show "bit x n = bit (ecs_pair (ECS_PAIR_FIRST x) (ECS_PAIR_SECOND x)) n"
      by cases (auto simp: bits_pair [OF r] bit_FIRST bit_SECOND f)
  qed
qed

lemma match_plain:
  assumes "plain_id x" "bit x 63" "plain_id p" "bit p 63" "ECS_PAIR_FIRST p \<noteq> EcsFlag"
  shows "ecs_id_match x p \<longleftrightarrow> (ECS_PAIR_FIRST p = EcsWildcard \<or> ECS_PAIR_FIRST p = ECS_PAIR_FIRST x) \<and>
    (ECS_PAIR_SECOND p = EcsWildcard \<or> ECS_PAIR_SECOND p = ECS_PAIR_SECOND x)"
  using assms pair_eta [of x] pair_eta [of p]
    match_pair_pair [of "ECS_PAIR_FIRST x" "ECS_PAIR_SECOND x" "ECS_PAIR_FIRST p" "ECS_PAIR_SECOND p"]
  by (simp add: plain_id_def)

lemma match_no_pair: "bit p 63 \<Longrightarrow> \<not> bit x 63 \<Longrightarrow> \<not> ecs_id_match x p"
  by (auto simp: ecs_id_match_def has_flag_pair)

lemma match_flag:
  assumes "plain_id x" "plain_id p" "bit p 63" "ECS_PAIR_FIRST p = EcsFlag"
  shows "ecs_id_match x p \<longleftrightarrow> x = p"
  using assms match_no_pair [of p x]
  by (auto simp: ecs_id_match_def has_flag_pair plain_id_def EcsFlag_def EcsWildcard_def)

definition run_pattern :: "64 word \<Rightarrow> bool" where
  \<comment> \<open>the matches of the pattern are one run of a sorted type\<close>
  "run_pattern p \<longleftrightarrow> \<not> (ECS_PAIR_FIRST p = EcsWildcard \<and> ECS_PAIR_SECOND p \<noteq> EcsWildcard \<and> bit p 63)"

lemma match_convex:
  assumes "plain_id p" "run_pattern p" "plain_id x" "plain_id y" "plain_id z" "x < y" "y < z"
    and xz: "ecs_id_match x p" "ecs_id_match z p"
  shows "ecs_id_match y p"
proof (cases "bit p 63")
  case False
  show ?thesis
  proof (cases "ECS_COMPONENT_MASK AND p = EcsWildcard")
    case True
    have "x AND ECS_ID_FLAGS_MASK = p AND ECS_ID_FLAGS_MASK" "z AND ECS_ID_FLAGS_MASK = p AND ECS_ID_FLAGS_MASK"
      using xz match_entity [OF False] by auto
    moreover have "unat x div 2 ^ 60 \<le> unat y div 2 ^ 60" "unat y div 2 ^ 60 \<le> unat z div 2 ^ 60"
      using assms(6,7) by (simp_all add: word_less_nat_alt div_le_mono)
    ultimately have "y AND ECS_ID_FLAGS_MASK = p AND ECS_ID_FLAGS_MASK"
      by (metis flags_nat order_antisym)
    with True show ?thesis by (simp add: match_entity [OF False])
  next
    case False
    then have "x = p" "z = p" using xz match_entity [OF \<open>\<not> bit p 63\<close>] by auto
    with assms(6,7) show ?thesis by simp
  qed
next
  case True
  have b: "bit x 63" "bit y 63" "bit z 63"
    using xz match_no_pair [OF True] bit63_mono [of x y] assms(6) by (blast, fastforce, blast)
  show ?thesis
  proof (cases "ECS_PAIR_FIRST p = EcsFlag")
    case F: True
    then have "x = p" "z = p" using xz match_flag assms(1,3,5) True by blast+
    with assms(6,7) show ?thesis by simp
  next
    case F: False
    note m = match_plain [OF _ _ assms(1) True F]
    have mx: "(ECS_PAIR_FIRST p = EcsWildcard \<or> ECS_PAIR_FIRST p = ECS_PAIR_FIRST x) \<and>
        (ECS_PAIR_SECOND p = EcsWildcard \<or> ECS_PAIR_SECOND p = ECS_PAIR_SECOND x)"
      "(ECS_PAIR_FIRST p = EcsWildcard \<or> ECS_PAIR_FIRST p = ECS_PAIR_FIRST z) \<and>
        (ECS_PAIR_SECOND p = EcsWildcard \<or> ECS_PAIR_SECOND p = ECS_PAIR_SECOND z)"
      using m [OF assms(3) b(1)] m [OF assms(5) b(3)] xz by blast+
    show ?thesis
    proof (cases "ECS_PAIR_SECOND p = EcsWildcard")
      case True
      have "ECS_PAIR_FIRST x \<le> ECS_PAIR_FIRST y" "ECS_PAIR_FIRST y \<le> ECS_PAIR_FIRST z"
        using FIRST_mono [OF assms(3,4) b(1)] FIRST_mono [OF assms(4,5) b(2)] assms(6,7) by simp_all
      with mx True show ?thesis using m [OF assms(4) b(2)] by (metis order_antisym)
    next
      case False
      then have "ECS_PAIR_FIRST p \<noteq> EcsWildcard" using assms(2) \<open>bit p 63\<close> by (auto simp: run_pattern_def)
      then have "x = p" "z = p"
        using mx False pair_eta(1) [of x] pair_eta(1) [of z] pair_eta(1) [of p] b \<open>bit p 63\<close> assms(1,3,5)
        by (metis plain_id_def)+
      with assms(6,7) show ?thesis by simp
    qed
  qed
qed

lemma find_loop_ok:
  assumes "sorted_wrt (<) xs" "\<And>x y. x \<in> set xs \<Longrightarrow> y \<in> set xs \<Longrightarrow> \<not> ECS_IS_PAIR p \<Longrightarrow> p < x \<Longrightarrow> x \<le> y \<Longrightarrow>
    ecs_id_match y p \<Longrightarrow> ecs_id_match x p"
  shows "type_find_loop i xs p = (if \<exists>x \<in> set xs. ecs_id_match x p
    then Some (i + length (takeWhile (\<lambda>x. \<not> ecs_id_match x p) xs)) else None)"
  using assms
proof (induction xs arbitrary: i)
  case (Cons x xs)
  have IH: "type_find_loop (Suc i) xs p = (if \<exists>x \<in> set xs. ecs_id_match x p
    then Some (Suc i + length (takeWhile (\<lambda>x. \<not> ecs_id_match x p) xs)) else None)"
    using Cons.prems by (intro Cons.IH) auto
  have "\<not> ecs_id_match y p" if "y \<in> set xs" "\<not> ecs_id_match x p" "\<not> ECS_IS_PAIR p" "p < x" for y
    using Cons.prems(2) [of x y] that Cons.prems(1) by fastforce
  then show ?case by (auto simp: IH)
qed simp

lemma count_matches_takeWhile: "count_matches_loop xs p = length (takeWhile (\<lambda>x. ecs_id_match x p) xs)"
  by (induction xs) simp_all

lemma filtered_filter: "filtered_loop xs p = filter (\<lambda>x. \<not> ecs_id_match x p) xs"
  by (induction xs) simp_all

lemma convex_run:
  assumes "sorted_wrt (<) xs" "\<And>x y z. x \<in> set xs \<Longrightarrow> y \<in> set xs \<Longrightarrow> z \<in> set xs \<Longrightarrow> x < y \<Longrightarrow> y < z \<Longrightarrow> P x \<Longrightarrow> P z \<Longrightarrow> P (y :: 64 word)"
  shows "filter (\<lambda>x. \<not> P x) xs = takeWhile (\<lambda>x. \<not> P x) xs @ dropWhile P (dropWhile (\<lambda>x. \<not> P x) xs)"
  using assms
proof (induction xs)
  case (Cons x xs)
  have IH: "filter (\<lambda>x. \<not> P x) xs = takeWhile (\<lambda>x. \<not> P x) xs @ dropWhile P (dropWhile (\<lambda>x. \<not> P x) xs)"
    using Cons.prems by (intro Cons.IH) auto
  show ?case
  proof (cases "P x")
    case True
    have "dropWhile P xs = filter (\<lambda>x. \<not> P x) xs"
    proof (cases "dropWhile P xs")
      case Nil
      then show ?thesis by (simp add: dropWhile_eq_Nil_conv filter_False)
    next
      case (Cons y ys)
      have xs: "xs = takeWhile P xs @ y # ys" using Cons by (metis takeWhile_dropWhile_id)
      have "\<not> P y" using Cons by (metis hd_dropWhile list.distinct(1) list.sel(1))
      have s: "sorted_wrt (<) (takeWhile P xs @ y # ys)" "\<forall>z \<in> set xs. x < z"
        using Cons.prems(1) xs by (metis sorted_wrt.simps(2))+
      have "\<not> P z" if "z \<in> set ys" for z
      proof
        assume "P z"
        have m: "y \<in> set xs" "z \<in> set xs" using that by (subst xs, simp)+
        have "y < z" using s(1) that by (simp add: sorted_wrt_append)
        with Cons.prems(2) [of x y z] m s(2) True \<open>P z\<close> \<open>\<not> P y\<close> show False by simp
      qed
      then have "filter (\<lambda>x. \<not> P x) (takeWhile P xs @ y # ys) = y # ys"
        using \<open>\<not> P y\<close> by (auto simp: filter_id_conv filter_empty_conv dest: set_takeWhileD)
      with Cons xs show ?thesis by metis
    qed
    with True show ?thesis by simp
  next
    case False
    with IH show ?thesis by simp
  qed
qed simp

definition pattern_ok :: "64 word \<Rightarrow> bool" where
  "pattern_ok p \<longleftrightarrow> plain_id p \<and> (bit p 63 \<or> p = EcsWildcard \<or> ECS_COMPONENT_MASK AND p \<noteq> EcsWildcard)"

lemma single_match:
  assumes "pattern_ok p" "\<not> ecs_id_is_wildcard p" "plain_id x" "ecs_id_match x p"
  shows "x = p"
proof (cases "bit p 63")
  case False
  with assms show ?thesis by (auto simp: match_entity pattern_ok_def ecs_id_is_wildcard_def)
next
  case True
  have p: "plain_id p" "ECS_IS_PAIR p" "\<not> ECS_IS_VALUE_PAIR p" "match_check p"
    using assms(1) True by (auto simp: pattern_ok_def plain_id_def)
  have x: "bit x 63" using assms(4) match_no_pair [OF True] by blast
  show ?thesis
  proof (cases "ECS_PAIR_FIRST p = EcsFlag")
    case True
    with match_flag [OF assms(3) p(1) \<open>bit p 63\<close>] assms(4) show ?thesis by simp
  next
    case False
    have "ECS_PAIR_FIRST p \<noteq> EcsWildcard" "ECS_PAIR_SECOND p \<noteq> EcsWildcard"
      using assms(2) p by (auto simp: ecs_id_is_wildcard_def Let_def split: if_splits)
    then have "ECS_PAIR_FIRST p = ECS_PAIR_FIRST x" "ECS_PAIR_SECOND p = ECS_PAIR_SECOND x"
      using match_plain [OF assms(3) x p(1) True False] assms(4) by blast+
    then show ?thesis using pair_eta(1) [of x] pair_eta(1) [OF p(2-4)] assms(3) x by (simp add: plain_id_def)
  qed
qed

lemma find_ok:
  assumes s: "sorted_wrt (<) xs" and pl: "\<forall>x \<in> set xs. plain_id x" and p: "pattern_ok p"
  shows "flecs_type_find xs p = (if \<exists>x \<in> set xs. ecs_id_match x p
    then Some (length (takeWhile (\<lambda>x. \<not> ecs_id_match x p) xs)) else None)"
proof -
  have "ecs_id_match x p" if "x \<in> set xs" "y \<in> set xs" "\<not> ECS_IS_PAIR p" "p < x" "x \<le> y" "ecs_id_match y p" for x y
  proof -
    have b: "\<not> bit p 63" using p that(3) by (auto simp: pattern_ok_def plain_id_def)
    have "y \<noteq> p" using that(4,5) by auto
    then have y: "y AND ECS_ID_FLAGS_MASK = p AND ECS_ID_FLAGS_MASK" "ECS_COMPONENT_MASK AND p = EcsWildcard"
      using that(6) match_entity [OF b] by auto
    have "unat p div 2 ^ 60 \<le> unat x div 2 ^ 60" "unat x div 2 ^ 60 \<le> unat y div 2 ^ 60"
      using that(4,5) by (simp_all add: word_less_nat_alt word_le_nat_alt div_le_mono)
    then have "x AND ECS_ID_FLAGS_MASK = p AND ECS_ID_FLAGS_MASK"
      using y(1) unfolding flags_nat by linarith
    with y(2) show ?thesis by (simp add: match_entity [OF b])
  qed
  with find_loop_ok [OF s, of p 0] show ?thesis by (simp add: flecs_type_find_def)
qed

lemma remove_run:
  assumes s: "sorted_wrt (<) xs" and pl: "\<forall>x \<in> set xs. plain_id x" and p: "pattern_ok p"
    and run: "run_pattern p \<or> \<not> ecs_id_is_wildcard p"
    and d: "dropWhile (\<lambda>x. \<not> ecs_id_match x p) xs = m # rest"
  shows "filter (\<lambda>x. \<not> ecs_id_match x p) xs =
      takeWhile (\<lambda>x. \<not> ecs_id_match x p) xs @ dropWhile (\<lambda>x. ecs_id_match x p) rest"
    and "\<not> ecs_id_is_wildcard p \<Longrightarrow> takeWhile (\<lambda>x. ecs_id_match x p) rest = []"
proof -
  let ?P = "\<lambda>x. ecs_id_match x p" and ?N = "\<lambda>x. \<not> ecs_id_match x p"
  have P: "?P m" using d by (metis hd_dropWhile list.distinct(1) list.sel(1))
  have xs: "takeWhile ?N xs @ m # rest = xs" using d by (metis takeWhile_dropWhile_id)
  have rs: "sorted_wrt (<) (takeWhile ?N xs @ m # rest)" using s by (simp only: xs)
  have eq: "x = p" if "\<not> ecs_id_is_wildcard p" "?P x" "x \<in> set xs" for x
    using single_match [OF p] pl that by blast
  have neq: False if "\<not> ecs_id_is_wildcard p" "x \<in> set xs" "z \<in> set xs" "x < z" "?P x" "?P z" for x z
    using eq [OF that(1,5,2)] eq [OF that(1,6,3)] that(4) by simp
  have "filter ?N xs = takeWhile ?N xs @ dropWhile ?P (dropWhile ?N xs)"
    using run
  proof
    assume "run_pattern p"
    then show ?thesis
      using match_convex [of p] p pl by (intro convex_run [OF s]) (auto simp: pattern_ok_def)
  next
    assume "\<not> ecs_id_is_wildcard p"
    with neq show ?thesis by (intro convex_run [OF s]) (blast dest: less_trans)
  qed
  with d P show "filter ?N xs = takeWhile ?N xs @ dropWhile ?P rest" by simp
  show "takeWhile ?P rest = []" if nw: "\<not> ecs_id_is_wildcard p"
  proof (cases rest)
    case (Cons r rest')
    have "m \<in> set (takeWhile ?N xs @ m # rest)" "r \<in> set (takeWhile ?N xs @ m # rest)" using Cons by simp_all
    then have "m \<in> set xs" "r \<in> set xs" unfolding xs by blast+
    moreover have "m < r" using rs Cons by (simp add: sorted_wrt_append)
    ultimately have "\<not> ?P r" using neq nw P by blast
    with Cons show ?thesis by simp
  qed simp
qed

lemma type_remove_ok:
  assumes s: "sorted_wrt (<) xs" and pl: "\<forall>x \<in> set xs. plain_id x" and p: "pattern_ok p"
  shows "flecs_type_remove xs p = filter (\<lambda>x. \<not> ecs_id_match x p) xs"
proof (cases "\<exists>x \<in> set xs. ecs_id_match x p")
  case False
  then show ?thesis
    using find_ok [OF s pl p] by (simp add: flecs_type_remove_def flecs_type_new_without_def filter_id_conv)
next
  case True
  let ?P = "\<lambda>x. ecs_id_match x p" and ?N = "\<lambda>x. \<not> ecs_id_match x p"
  let ?at = "length (takeWhile ?N xs)"
  obtain m rest where d: "dropWhile ?N xs = m # rest"
    using True by (cases "dropWhile ?N xs") (auto simp: dropWhile_eq_Nil_conv)
  have P: "?P m" using d by (metis hd_dropWhile list.distinct(1) list.sel(1))
  have xs: "takeWhile ?N xs @ m # rest = xs" using d by (metis takeWhile_dropWhile_id)
  have tk: "take ?at xs = takeWhile ?N xs" by (rule take_drop_while)
  have dr: "drop (?at + n) xs = drop n (m # rest)" for n by (metis add.commute d drop_drop take_drop_while(2))
  have len: "length xs = ?at + 1 + length rest" by (subst xs [symmetric]) simp
  have fn: "filter ?N (takeWhile ?N xs) = takeWhile ?N xs" by (auto simp: filter_id_conv dest: set_takeWhileD)
  have fx: "filter ?N xs = takeWhile ?N xs @ filter ?N rest"
    by (subst xs [symmetric], subst filter_append) (simp add: fn P)
  have find: "flecs_type_find xs p = Some ?at" using find_ok [OF s pl p] True by simp
  consider (one) "length xs = 1" | (filt) "length xs \<noteq> 1" "\<not> run_pattern p" "ecs_id_is_wildcard p" "ECS_IS_PAIR p"
    | (run) "length xs \<noteq> 1" "run_pattern p \<or> \<not> ecs_id_is_wildcard p \<or> \<not> ECS_IS_PAIR p"
    by blast
  then show ?thesis
  proof cases
    case one
    then show ?thesis
      using len fx find by (simp add: flecs_type_remove_def flecs_type_new_without_def)
  next
    case filt
    then show ?thesis
      using find fx tk dr [of 1]
      by (simp add: flecs_type_remove_def flecs_type_new_without_def run_pattern_def
          flecs_type_new_filtered_def filtered_filter)
  next
    case run
    let ?c = "if ecs_id_is_wildcard p then flecs_type_count_matches xs p (?at + 1) else 0"
    have nf: "\<not> (ecs_id_is_wildcard p \<and> ECS_IS_PAIR p \<and> ECS_PAIR_FIRST p = EcsWildcard \<and> ECS_PAIR_SECOND p \<noteq> EcsWildcard)"
      using run(2) by (auto simp: run_pattern_def is_pair_bits)
    have nw: "run_pattern p \<or> \<not> ecs_id_is_wildcard p"
      using run(2) p by (auto simp: run_pattern_def pattern_ok_def plain_id_def)
    note r = remove_run [OF s pl p nw d]
    have c: "?c = length (takeWhile ?P rest)"
      using r(2) dr [of 1] by (simp add: flecs_type_count_matches_def count_matches_takeWhile)
    have dw: "drop (length (takeWhile ?P rest)) rest = dropWhile ?P rest" by (rule take_drop_while)
    have ld: "length (dropWhile ?P rest) = length rest - length (takeWhile ?P rest)" by (metis dw length_drop)
    note fr = r(1)
    have eq: "flecs_type_new_without xs p = (let cnt = 1 + ?c; dst_count = length xs - cnt in
        if dst_count = 0 then Some [] else Some (take ?at xs @ take (dst_count - ?at) (drop (?at + cnt) xs)))"
      unfolding flecs_type_new_without_def find option.case if_not_P [OF run(1)] if_not_P [OF nf] by (rule refl)
    have d2: "drop (?at + (1 + length (takeWhile ?P rest))) xs = dropWhile ?P rest"
      using dr [of "1 + length (takeWhile ?P rest)"] dw by simp
    have n: "length xs - (1 + length (takeWhile ?P rest)) - ?at = length (dropWhile ?P rest)"
      using len ld by simp
    have "flecs_type_new_without xs p = Some (filter ?N xs)"
    proof (cases "length xs - (1 + length (takeWhile ?P rest)) = 0")
      case True
      moreover have "length (takeWhile ?P rest) \<le> length rest" by (rule length_takeWhile_le)
      ultimately have "?at = 0" "length (dropWhile ?P rest) = 0" using len n by linarith+
      then have "filter ?N xs = []" unfolding fr by simp
      with True show ?thesis unfolding eq c Let_def by simp
    next
      case False
      then show ?thesis unfolding eq c Let_def fr tk d2 n by simp
    qed
    then show ?thesis by (simp add: flecs_type_remove_def)
  qed
qed

section \<open>Comparing\<close>

lemma type_compare_loop_ok:
  "length as = length bs \<Longrightarrow>
    (type_compare_loop as bs < 0 \<longleftrightarrow> (as, bs) \<in> lex {(x, y). x < y}) \<and>
    (type_compare_loop as bs = 0 \<longleftrightarrow> as = bs) \<and> type_compare_loop bs as = - type_compare_loop as bs"
proof (induction as bs rule: type_compare_loop.induct)
  case (1 a as b bs)
  consider "a < b" | "a = b" | "b < a" by fastforce
  then show ?case using 1 by cases (auto simp: Cons_in_lex)
qed simp_all

section \<open>Properties\<close>

text \<open>C30: Adding an id to a type: the result is sorted without duplicates and has the ids of the type
  and the new one; a type that has the id already is returned as it is.\<close>

theorem table_type_add:
  assumes "sorted_wrt (<) type"
  shows "sorted_wrt (<) (flecs_type_add type i) \<and> set (flecs_type_add type i) = insert i (set type) \<and>
    (i \<in> set type \<longrightarrow> flecs_type_add type i = type)"
  using type_add_ok [OF assms, of i] assms
  by (auto simp: flecs_type_add_def flecs_type_new_with_def flecs_type_find_insert_def find_insert_ok)

lemma table_type_add_witness: "set (flecs_type_add [3, 5, ecs_pair 7 300] 4) = {4, 3, 5, ecs_pair 7 300}"
proof -
  have "3 < ecs_pair 7 300" "5 < ecs_pair 7 300" by (simp_all add: ecs_pair_def ECS_PAIR_def ecs_entity_t_comb_def ecs_entity_t_lo_def)
  then have "sorted_wrt (<) [3, 5, ecs_pair 7 300]" by simp
  from table_type_add [OF this, of 4] show ?thesis by simp
qed

text \<open>C31: Removing an id or a wildcard from a type of entities and plain pairs removes exactly the ids
  that match, in one pass, and keeps the order. A type that also holds value pairs can keep some
  of them: in [(7, 300), (8, 300), (7, @5)] the ids that match (7, *) are not one run, and the value
  pair stays.\<close>

theorem table_type_remove:
  assumes "sorted_wrt (<) type" and "\<forall>x \<in> set type. plain_id x" and "pattern_ok p"
  shows "flecs_type_remove type p = filter (\<lambda>x. \<not> ecs_id_match x p) type \<and>
    sorted_wrt (<) (flecs_type_remove type p) \<and>
    flecs_type_remove [ecs_pair 7 300, ecs_pair 8 300, ecs_value_pair 7 5] (ecs_pair 7 EcsWildcard) =
      [ecs_pair 8 300, ecs_value_pair 7 5] \<and>
    ecs_id_match (ecs_value_pair 7 5) (ecs_pair 7 EcsWildcard)"
proof -
  have w: "rel_id 7" "rel_id 8" "tgt_id 300" "tgt_id EcsWildcard" "(7 :: 64 word) \<noteq> EcsFlag"
    "(7 :: 64 word) \<noteq> EcsWildcard" "(5 :: 64 word) < 2 ^ 32" "EcsWildcard < 2 ^ 32"
    by (simp_all add: rel_id_def tgt_id_def EcsWildcard_def EcsFlag_def)
  have m: "ecs_id_match (ecs_pair 7 300) (ecs_pair 7 EcsWildcard)"
    "\<not> ecs_id_match (ecs_pair 8 300) (ecs_pair 7 EcsWildcard)"
    "ecs_id_match (ecs_value_pair 7 5) (ecs_pair 7 EcsWildcard)"
    using match_pair_pair [OF w(1,3,1,4,5)] match_pair_pair [OF w(2,3,1,4,5)] match_value_pair [OF w(1,7,1,4,5)] w(6)
    by auto
  have "ecs_id_is_wildcard (ecs_pair 7 EcsWildcard)"
    using pair_parts [OF w(1), of EcsWildcard] pair_second [OF w(1,8)] by (simp add: ecs_id_is_wildcard_def)
  then have "flecs_type_remove [ecs_pair 7 300, ecs_pair 8 300, ecs_value_pair 7 5] (ecs_pair 7 EcsWildcard) =
      [ecs_pair 8 300, ecs_value_pair 7 5]"
    using m w(6) pair_parts [OF w(1), of EcsWildcard]
    by (simp add: flecs_type_remove_def flecs_type_new_without_def flecs_type_find_def
        flecs_type_count_matches_def)
  with m(3) type_remove_ok [OF assms] sorted_wrt_filter [OF assms(1)] show ?thesis by simp
qed

lemma table_type_remove_witness:
  "flecs_type_remove [3, 5, ecs_pair 7 300] EcsWildcard = [ecs_pair 7 300]"
proof -
  have r: "rel_id 7" "(300 :: 64 word) < 2 ^ 32" by (simp_all add: rel_id_def)
  have "3 < ecs_pair 7 300" "5 < ecs_pair 7 300" by (simp_all add: ecs_pair_def ECS_PAIR_def ecs_entity_t_comb_def ecs_entity_t_lo_def)
  then have s: "sorted_wrt (<) [3, 5, ecs_pair 7 300]" by simp
  have pl: "\<forall>x \<in> set [3, 5, ecs_pair 7 300]. plain_id x"
    using pair_parts [OF r(1), of 300] match_check_pair [OF r] by (simp add: plain_id_def)
  have p: "pattern_ok EcsWildcard" by (simp add: pattern_ok_def plain_id_def EcsWildcard_def)
  have f: "\<not> bit EcsWildcard 63" "EcsWildcard AND ECS_ID_FLAGS_MASK = 0" "ECS_COMPONENT_MASK AND EcsWildcard = EcsWildcard"
    by (simp_all add: EcsWildcard_def ECS_ID_FLAGS_MASK_def ECS_COMPONENT_MASK_def)
  have "ecs_pair 7 300 AND ECS_ID_FLAGS_MASK \<noteq> 0" "ecs_pair 7 300 \<noteq> EcsWildcard"
    using bits_pair [OF r(1), of 300 63] f(1) flags_0_pair by auto
  moreover have "(3 :: 64 word) AND ECS_ID_FLAGS_MASK = 0" "(5 :: 64 word) AND ECS_ID_FLAGS_MASK = 0"
    by (simp_all add: ECS_ID_FLAGS_MASK_def)
  ultimately show ?thesis
    using table_type_remove [OF s pl p] f by (simp add: match_entity)
qed

text \<open>C32: \<open>flecs_type_compare\<close> orders types by length and then lexicographically; it returns 0 only
  for equal types, so the table map has one entry for a type, and it is antisymmetric.\<close>

theorem flecs_type_compare_correct:
  "(flecs_type_compare t1 t2 = 0 \<longleftrightarrow> t1 = t2) \<and>
   (flecs_type_compare t1 t2 < 0 \<longleftrightarrow> (t1, t2) \<in> lenlex {(x, y). x < y}) \<and>
   flecs_type_compare t2 t1 = - flecs_type_compare t1 t2"
  using type_compare_loop_ok [of t1 t2]
  by (auto simp: flecs_type_compare_def lenlex_conv)

end
