(* ===== verification/Flecs_Dense.thy ===== *)
theory Flecs_Dense
  imports Flecs_Bits
begin

text \<open>
  What \<open>datastructures/sparse.c\<close> and \<open>storage/entity_index.c\<close> have in common: a dense array of ids,
  of which the first \<open>n\<close> are alive and the rest wait to be recycled, and a sparse lookup from the
  32-bit index of an id to its position in the dense array, where position 0 means that the index
  was never issued. \<open>paired\<close> is the invariant that ties the two together; the lemmas say what
  swapping, overwriting, appending and truncating do to it. \<open>alive_ids\<close> is the set of live ids.

  The sparse side is stored in pages of \<open>2 ^ b\<close> cells that are allocated on demand.
\<close>

section \<open>Paged lookup\<close>

definition page_index :: "nat \<Rightarrow> 32 word \<Rightarrow> nat" where
  \<comment> \<open>\<open>id >> BITS\<close>\<close>
  "page_index b k = unat (drop_bit b k)"

definition page_offset :: "nat \<Rightarrow> 32 word \<Rightarrow> nat" where
  \<comment> \<open>\<open>id & ((1 << BITS) - 1)\<close>\<close>
  "page_offset b k = unat (k AND mask b)"

lemma page_index_div: "page_index b k = unat k div 2 ^ b"
  unfolding page_index_def unat_drop_bit_eq by (rule drop_bit_eq_div)

lemma page_offset_mod: "page_offset b k = unat k mod 2 ^ b"
  unfolding page_offset_def take_bit_eq_mask [symmetric] unsigned_take_bit_eq by (rule take_bit_eq_mod)

lemma page_cell_inj: "page_index b k = page_index b l \<Longrightarrow> page_offset b k = page_offset b l \<Longrightarrow> k = l"
  unfolding page_index_div page_offset_mod by (metis div_mult_mod_eq word_unat_eq_iff)

lemma page_cell_eq: "page_index b k = page_index b l \<and> page_offset b k = page_offset b l \<longleftrightarrow> k = l"
  using page_cell_inj by blast

lemma page_index_less: "page_index b k < 2 ^ 32"
proof -
  have "unat k div 2 ^ b \<le> unat k" by (rule div_le_dividend)
  also have "unat k < 2 ^ 32" using unsigned_less [of k, where ?'a = nat] by simp
  finally show ?thesis by (simp add: page_index_div)
qed

section \<open>The pairing of the dense array and the sparse lookup\<close>

definition paired :: "(32 word \<Rightarrow> nat) \<Rightarrow> ecs_entity list \<Rightarrow> bool" where
  "paired look d \<longleftrightarrow> d \<noteq> [] \<and>
    (\<forall>i. 1 \<le> i \<longrightarrow> i < length d \<longrightarrow> look (id_index (d ! i)) = i) \<and>
    (\<forall>k. look k \<noteq> 0 \<longrightarrow> look k < length d \<and> id_index (d ! look k) = k)"

definition alive_ids :: "ecs_entity list \<Rightarrow> nat \<Rightarrow> ecs_entity set" where
  "alive_ids d n = (\<lambda>i. d ! i) ` {1..<min n (length d)}"

lemma pairedI:
  assumes "d \<noteq> []" "\<And>i. 1 \<le> i \<Longrightarrow> i < length d \<Longrightarrow> look (id_index (d ! i)) = i"
    and "\<And>k. look k \<noteq> 0 \<Longrightarrow> look k < length d \<and> id_index (d ! look k) = k"
  shows "paired look d"
  using assms by (auto simp: paired_def)

lemma paired_look: "paired look d \<Longrightarrow> 1 \<le> i \<Longrightarrow> i < length d \<Longrightarrow> look (id_index (d ! i)) = i"
  by (simp add: paired_def)

lemma paired_bound: "paired look d \<Longrightarrow> look k < length d"
  by (cases "look k = 0") (auto simp: paired_def)

lemma paired_back: "paired look d \<Longrightarrow> look k \<noteq> 0 \<Longrightarrow> id_index (d ! look k) = k"
  by (simp add: paired_def)

lemma paired_inj:
  "paired look d \<Longrightarrow> 1 \<le> i \<Longrightarrow> i < length d \<Longrightarrow> 1 \<le> j \<Longrightarrow> j < length d \<Longrightarrow>
    id_index (d ! i) = id_index (d ! j) \<longleftrightarrow> i = j"
  by (metis paired_look)

lemma paired_ext: "paired look d \<Longrightarrow> (\<And>k. look' k = look k) \<Longrightarrow> paired look' d"
  by (simp add: paired_def)

lemma in_alive_ids: "e \<in> alive_ids d n \<longleftrightarrow> (\<exists>i. 1 \<le> i \<and> i < n \<and> i < length d \<and> d ! i = e)"
  by (auto simp: alive_ids_def)

lemma alive_iff_look:
  assumes "paired look d" and "n \<le> length d"
  shows "e \<in> alive_ids d n \<longleftrightarrow> look (id_index e) \<noteq> 0 \<and> look (id_index e) < n \<and> d ! look (id_index e) = e"
proof
  assume "e \<in> alive_ids d n"
  then obtain i where "1 \<le> i" "i < n" "i < length d" "d ! i = e" by (auto simp: in_alive_ids)
  with paired_look [OF assms(1) this(1,3)] show "look (id_index e) \<noteq> 0 \<and> look (id_index e) < n \<and>
      d ! look (id_index e) = e" by auto
next
  assume "look (id_index e) \<noteq> 0 \<and> look (id_index e) < n \<and> d ! look (id_index e) = e"
  with assms(2) show "e \<in> alive_ids d n"
    unfolding in_alive_ids by (intro exI [of _ "look (id_index e)"]) auto
qed

lemma finite_alive_ids: "finite (alive_ids d n)"
  by (simp add: alive_ids_def)

lemma card_alive_ids:
  assumes "paired look d" and "1 \<le> n" "n \<le> length d"
  shows "card (alive_ids d n) = n - 1"
proof -
  have "inj_on (\<lambda>i. d ! i) {1..<n}"
    using assms(3) by (intro inj_onI) (metis atLeastLessThan_iff less_le_trans paired_look [OF assms(1)])
  then show ?thesis using assms(3) by (simp add: alive_ids_def card_image min_def)
qed

lemma paired_swap:
  assumes p: "paired look d" and i: "1 \<le> i" "i < length d" and j: "1 \<le> j" "j < length d"
  shows "paired (look(id_index (d ! i) := j, id_index (d ! j) := i)) (d[i := d ! j, j := d ! i])"
    (is "paired ?l ?d")
proof (rule pairedI)
  show "?d \<noteq> []" using i by auto
next
  fix m assume m: "1 \<le> m" "m < length ?d"
  have inj: "id_index (d ! a) = id_index (d ! b) \<longleftrightarrow> a = b" if "a \<in> {i, j, m}" "b \<in> {i, j, m}" for a b
    using paired_inj [OF p, of a b] that i j m by auto
  show "?l (id_index (?d ! m)) = m"
    using i j m paired_look [OF p, of m] by (auto simp: nth_list_update inj)
next
  fix k assume k: "?l k \<noteq> 0"
  show "?l k < length ?d \<and> id_index (?d ! ?l k) = k"
  proof (cases "k = id_index (d ! i) \<or> k = id_index (d ! j)")
    case True
    then show ?thesis using i j by (auto simp: nth_list_update)
  next
    case False
    then have "look k \<noteq> 0" using k by auto
    with paired_bound [OF p, of k] paired_back [OF p, of k]
    have "look k < length d" "id_index (d ! look k) = k" "look k \<noteq> i" "look k \<noteq> j"
      using False by auto
    with False show ?thesis by auto
  qed
qed

lemma paired_regen:
  assumes p: "paired look d" and e: "id_index e = id_index (d ! i)"
  shows "paired look (d[i := e])"
proof (cases "i < length d")
  case True
  have "id_index (d[i := e] ! m) = id_index (d ! m)" if "m < length d" for m
    using that e by (cases "m = i") auto
  with p show ?thesis by (auto simp: paired_def)
qed (simp add: p list_update_beyond)

lemma paired_append:
  assumes p: "paired look d" and new: "look (id_index e) = 0"
  shows "paired (look(id_index e := length d)) (d @ [e])"
proof (rule pairedI)
  fix m assume m: "1 \<le> m" "m < length (d @ [e])"
  show "(look(id_index e := length d)) (id_index ((d @ [e]) ! m)) = m"
  proof (cases "m < length d")
    case True
    with paired_look [OF p m(1) True] new m show ?thesis by (auto simp: nth_append)
  qed (use m in \<open>auto simp: nth_append less_Suc_eq\<close>)
next
  fix k assume k: "(look(id_index e := length d)) k \<noteq> 0"
  with p paired_bound [OF p, of k] paired_back [OF p, of k]
  show "(look(id_index e := length d)) k < length (d @ [e]) \<and>
      id_index ((d @ [e]) ! ((look(id_index e := length d)) k)) = k"
    by (auto simp: nth_append)
qed simp

lemma paired_take:
  assumes p: "paired look d" and n: "1 \<le> n" "n \<le> length d"
  shows "paired (\<lambda>k. if look k < n then look k else 0) (take n d)"
proof (rule pairedI)
  fix m assume m: "1 \<le> m" "m < length (take n d)"
  with paired_look [OF p m(1)] show "(if look (id_index (take n d ! m)) < n
      then look (id_index (take n d ! m)) else 0) = m" by auto
next
  fix k assume "(if look k < n then look k else 0) \<noteq> 0"
  then have k: "look k < n" "look k \<noteq> 0" by (auto split: if_splits)
  with paired_back [OF p k(2)] n show "(if look k < n then look k else 0) < length (take n d) \<and>
      id_index (take n d ! (if look k < n then look k else 0)) = k"
    by auto
qed (use p n in \<open>auto simp: paired_def\<close>)

lemma paired_swap_remove:
  assumes p: "paired look d" and i: "1 \<le> i" "i < length d"
  shows "paired (look(id_index (last d) := i, id_index (d ! i) := 0)) (swap_remove i d)"
proof -
  let ?n = "length d - 1"
  have "d \<noteq> []" using i by auto
  then have n: "1 \<le> ?n" "?n < length d" "last d = d ! ?n" using i by (auto simp: last_conv_nth)
  let ?look = "look(id_index (d ! i) := ?n, id_index (d ! ?n) := i)"
  let ?d = "d[i := d ! ?n, ?n := d ! i]"
  have "paired ?look ?d" by (rule paired_swap [OF p i n(1,2)])
  from paired_take [OF this n(1)]
  have "paired (\<lambda>k. if ?look k < ?n then ?look k else 0) (take ?n ?d)" using n by simp
  moreover have "take ?n ?d = swap_remove i d"
    using swap_remove_snoc [OF i(2)] i by (simp add: n(3))
  ultimately have t: "paired (\<lambda>k. if ?look k < ?n then ?look k else 0) (swap_remove i d)" by simp
  have "(look(id_index (last d) := i, id_index (d ! i) := 0)) k =
      (if ?look k < ?n then ?look k else 0)" for k
  proof -
    have "k \<noteq> id_index (d ! i) \<Longrightarrow> k \<noteq> id_index (d ! ?n) \<Longrightarrow> look k < ?n"
      using paired_bound [OF p, of k] paired_back [OF p, of k] n by (cases "look k = ?n") auto
    moreover have "id_index (d ! i) = id_index (d ! ?n) \<longleftrightarrow> i = ?n" by (rule paired_inj [OF p i n(1,2)])
    ultimately show ?thesis using i by (auto simp: n(3))
  qed
  then show ?thesis by (rule paired_ext [OF t])
qed

lemma paired_indices: "paired look d \<Longrightarrow> look k \<noteq> 0 \<longleftrightarrow> k \<in> id_index ` set (drop 1 d)"
proof
  assume p: "paired look d" and k: "look k \<noteq> 0"
  then have "look k < length d" "id_index (d ! look k) = k" by (auto simp: paired_def)
  moreover from this k have "d ! look k = drop 1 d ! (look k - 1)" by simp
  moreover have "look k - 1 < length (drop 1 d)" using k \<open>look k < length d\<close> by simp
  ultimately show "k \<in> id_index ` set (drop 1 d)" by (metis image_eqI nth_mem)
next
  assume p: "paired look d" and "k \<in> id_index ` set (drop 1 d)"
  then obtain j where "j < length (drop 1 d)" "k = id_index (drop 1 d ! j)"
    by (auto simp: in_set_conv_nth)
  with paired_look [OF p, of "Suc j"] show "look k \<noteq> 0" by simp
qed

lemma alive_swap_remove:
  assumes p: "paired look d" and i: "1 \<le> i" "i < n" and n: "n \<le> length d"
  shows "alive_ids (d[i := d ! (n - 1), n - 1 := x]) (n - 1) = alive_ids d n - {d ! i}"
proof (rule set_eqI)
  fix e
  have inj: "d ! a = d ! b \<longleftrightarrow> a = b" if "1 \<le> a" "a < n" "1 \<le> b" "b < n" for a b
    using paired_inj [OF p, of a b] that n by (metis less_le_trans)
  show "e \<in> alive_ids (d[i := d ! (n - 1), n - 1 := x]) (n - 1) \<longleftrightarrow> e \<in> alive_ids d n - {d ! i}"
  proof
    assume "e \<in> alive_ids (d[i := d ! (n - 1), n - 1 := x]) (n - 1)"
    then obtain m where m: "1 \<le> m" "m < n - 1" "d[i := d ! (n - 1), n - 1 := x] ! m = e"
      by (auto simp: in_alive_ids)
    then have "e = d ! (if m = i then n - 1 else m)" using n by (auto simp: nth_list_update)
    moreover have "(if m = i then n - 1 else m) \<noteq> i" "m < n" using m by auto
    ultimately show "e \<in> alive_ids d n - {d ! i}"
      using m n i inj [of "if m = i then n - 1 else m" i] unfolding in_alive_ids Diff_iff
      by (auto intro!: exI [of _ "if m = i then n - 1 else m"])
  next
    assume "e \<in> alive_ids d n - {d ! i}"
    then obtain m where m: "1 \<le> m" "m < n" "d ! m = e" "m \<noteq> i" by (auto simp: in_alive_ids)
    then show "e \<in> alive_ids (d[i := d ! (n - 1), n - 1 := x]) (n - 1)"
      using n i unfolding in_alive_ids
      by (intro exI [of _ "if m = n - 1 then i else m"]) (auto simp: nth_list_update)
  qed
qed

lemma alive_swap_add:
  assumes i: "n \<le> i" "i < length d" and n: "1 \<le> n"
  shows "alive_ids (d[i := d ! n, n := x]) (n + 1) = insert x (alive_ids d n)"
proof (rule set_eqI)
  fix e
  show "e \<in> alive_ids (d[i := d ! n, n := x]) (n + 1) \<longleftrightarrow> e \<in> insert x (alive_ids d n)"
    using i n by (auto simp: in_alive_ids nth_list_update less_Suc_eq)
qed

lemma alive_ids_cong:
  assumes "\<And>i. i < n \<Longrightarrow> d' ! i = d ! i" "n \<le> length d" "n \<le> length d'"
  shows "alive_ids d' n = alive_ids d n"
proof -
  have "min n (length d') = n" "min n (length d) = n" using assms by auto
  then show ?thesis unfolding alive_ids_def using assms(1) by (intro image_cong) auto
qed

lemma alive_ids_append: "n \<le> length d \<Longrightarrow> alive_ids (d @ xs) n = alive_ids d n"
  by (rule alive_ids_cong) (auto simp: nth_append)

lemma alive_ids_extend:
  assumes "1 \<le> n" "n + c \<le> length d"
  shows "alive_ids d (n + c) = alive_ids d n \<union> set (take c (drop n d))"
proof (rule set_eqI)
  fix e
  have split: "1 \<le> i \<and> i < n + c \<longleftrightarrow> 1 \<le> i \<and> i < n \<or> n \<le> i \<and> i < n + c" for i
    using assms by auto
  have "e \<in> set (take c (drop n d)) \<longleftrightarrow> (\<exists>i. n \<le> i \<and> i < n + c \<and> d ! i = e)"
  proof
    assume "e \<in> set (take c (drop n d))"
    then obtain j where "j < length (take c (drop n d))" "take c (drop n d) ! j = e"
      by (metis in_set_conv_nth)
    then show "\<exists>i. n \<le> i \<and> i < n + c \<and> d ! i = e"
      by (intro exI [of _ "n + j"]) auto
  next
    assume "\<exists>i. n \<le> i \<and> i < n + c \<and> d ! i = e"
    then obtain i where i: "n \<le> i" "i < n + c" "d ! i = e" by blast
    then have "take c (drop n d) ! (i - n) = e" "i - n < length (take c (drop n d))"
      using assms by auto
    then show "e \<in> set (take c (drop n d))" by (metis nth_mem)
  qed
  moreover have "e \<in> alive_ids d (n + c) \<longleftrightarrow> (\<exists>i. 1 \<le> i \<and> i < n + c \<and> d ! i = e)"
    "e \<in> alive_ids d n \<longleftrightarrow> (\<exists>i. 1 \<le> i \<and> i < n \<and> d ! i = e)"
    using assms by (auto simp: in_alive_ids)
  ultimately show "e \<in> alive_ids d (n + c) \<longleftrightarrow> e \<in> alive_ids d n \<union> set (take c (drop n d))"
    unfolding Un_iff using split by blast
qed

lemma new_ids_distinct:
  assumes p: "paired look d" and n: "1 \<le> n" "n + c \<le> length d"
  shows "distinct (map id_index (take c (drop n d)))"
    and "id_index ` set (take c (drop n d)) \<inter> id_index ` alive_ids d n = {}"
proof -
  show "distinct (map id_index (take c (drop n d)))"
    unfolding distinct_conv_nth using paired_inj [OF p, of "n + _" "n + _"] n by auto
  have "id_index x \<noteq> id_index y" if x: "x \<in> set (take c (drop n d))" and y: "y \<in> alive_ids d n" for x y
  proof -
    from x obtain j where j: "j < length (take c (drop n d))" "x = take c (drop n d) ! j"
      by (metis in_set_conv_nth)
    from y obtain i where i: "1 \<le> i" "i < n" "i < length d" "y = d ! i" by (auto simp: in_alive_ids)
    have "x = d ! (n + j)" "n + j < length d" using j n by auto
    with i paired_inj [OF p, of "n + j" i] show ?thesis by auto
  qed
  then show "id_index ` set (take c (drop n d)) \<inter> id_index ` alive_ids d n = {}" by blast
qed

lemma alive_unique:
  assumes "paired look d" "e \<in> alive_ids d n" "e' \<in> alive_ids d n" "id_index e = id_index e'"
  shows "e = e'"
  using assms(2-4) paired_look [OF assms(1)] by (auto simp: in_alive_ids) (metis)

section \<open>The interface: a pool of ids with generations\<close>

text \<open>
  What the users of an entity index or a sparse set with generations rely on. \<open>alive s\<close> is the set
  of live ids. Removing a live id takes it out of the set and keeps the others; a removed id is not
  alive; a new id is one that was not alive, and no other live id has its index.
\<close>

locale id_pool =
  fixes inv :: "'s \<Rightarrow> bool" and room :: "'s \<Rightarrow> bool"
    and alive :: "'s \<Rightarrow> ecs_entity set"
    and is_alive :: "'s \<Rightarrow> ecs_entity \<Rightarrow> bool result"
    and new_id :: "'s \<Rightarrow> ('s \<times> ecs_entity) result"
    and remove :: "'s \<Rightarrow> ecs_entity \<Rightarrow> 's result"
  assumes is_alive: "inv s \<Longrightarrow> is_alive s e = Inr (e \<in> alive s)"
    and unique: "inv s \<Longrightarrow> e \<in> alive s \<Longrightarrow> e' \<in> alive s \<Longrightarrow> id_index e = id_index e' \<Longrightarrow> e = e'"
    and new_id: "inv s \<Longrightarrow> room s \<Longrightarrow> returns (new_id s) (\<lambda>(s', e). inv s' \<and>
      id_index e \<notin> id_index ` alive s \<and> alive s' = insert e (alive s))"
    and remove: "inv s \<Longrightarrow> e \<in> alive s \<Longrightarrow> returns (remove s e) (\<lambda>s'. inv s' \<and>
      alive s' = alive s - {e})"
begin

lemma new_then_alive:
  "inv s \<Longrightarrow> room s \<Longrightarrow> returns (new_id s) (\<lambda>(s', e). is_alive s e = Inr False \<and>
    is_alive s' e = Inr True \<and> (\<forall>x. x \<noteq> e \<longrightarrow> is_alive s' x = is_alive s x))"
  by (rule returns_mono [OF new_id]) (auto simp: is_alive)

lemma new_then_remove:
  assumes s: "inv s" "room s"
  shows "returns (bindR (new_id s) (\<lambda>(s', e). remove s' e)) (\<lambda>s'. inv s' \<and> alive s' = alive s)"
proof -
  have "returns (new_id s) (\<lambda>(s', e). returns (remove s' e) (\<lambda>s'. inv s' \<and> alive s' = alive s))"
  proof (rule returns_mono [OF new_id [OF s]], clarify)
    fix s1 e assume "inv s1" "id_index e \<notin> id_index ` alive s" "alive s1 = insert e (alive s)"
    then show "returns (remove s1 e) (\<lambda>s'. inv s' \<and> alive s' = alive s)"
      by (intro returns_mono [OF remove]) auto
  qed
  then show ?thesis by (simp add: split_def)
qed

lemma remove_then_dead:
  "inv s \<Longrightarrow> e \<in> alive s \<Longrightarrow> returns (remove s e) (\<lambda>s'. is_alive s' e = Inr False \<and>
    (\<forall>x. x \<noteq> e \<longrightarrow> is_alive s' x = is_alive s x))"
  by (rule returns_mono [OF remove]) (auto simp: is_alive)

end

end
