(* ===== verification/Flecs_Sparse.thy ===== *)
theory Flecs_Sparse
  imports Flecs_Dense
begin

text \<open>
  \<open>datastructures/sparse.c\<close>: a sparse set that maps the 32-bit indices of ids to values. \<open>sp_dense\<close>
  holds the ids, those at positions 1 to \<open>sp_count - 1\<close> are alive; a page holds for 64 consecutive
  indices the position in the dense array (0 when there is none) and the value. A page pointer is the
  index of the page, a pointer to a value the index of the id; with element size 0 there are no
  values and such a pointer is \<open>NULL\<close>. Zeroed memory is the value 0 of the type.
\<close>

section \<open>State\<close>

record 'v sparse_page =
  pg_sparse :: "nat \<Rightarrow> nat"
  pg_data :: "nat \<Rightarrow> 'v"

record 'v ecs_sparse =
  sp_dense :: "64 word list"
  sp_pages :: "'v sparse_page option list"
  sp_size :: nat
  sp_count :: nat
  sp_max_id :: "64 word"

definition sp_page :: "'v ecs_sparse \<Rightarrow> nat \<Rightarrow> 'v sparse_page result" where
  \<comment> \<open>a read through a page pointer\<close>
  "sp_page s p = (case arr_get (sp_pages s) p of Inl e \<Rightarrow> Inl e
    | Inr None \<Rightarrow> Inl Bad_Access | Inr (Some page) \<Rightarrow> Inr page)"

definition sp_put :: "'v ecs_sparse \<Rightarrow> nat \<Rightarrow> ('v sparse_page \<Rightarrow> 'v sparse_page) \<Rightarrow> 'v ecs_sparse result" where
  \<comment> \<open>a write through a page pointer\<close>
  "sp_put s p f = bindR (sp_page s p) (\<lambda>page. Inr (s\<lparr>sp_pages := (sp_pages s)[p := Some (f page)]\<rparr>))"

definition SPARSE_PAGE :: "64 word \<Rightarrow> nat" where
  "SPARSE_PAGE e = page_index 6 (id_index e)"

definition SPARSE_OFFSET :: "64 word \<Rightarrow> nat" where
  "SPARSE_OFFSET e = page_offset 6 (id_index e)"

definition sp_ptr :: "'v ecs_sparse \<Rightarrow> 64 word \<Rightarrow> 32 word option" where
  \<comment> \<open>\<open>DATA(page->data, sparse->size, offset)\<close> for the page and offset of \<open>e\<close>\<close>
  "sp_ptr s e = (if sp_size s = 0 then None else Some (id_index e))"

section \<open>Operations\<close>

definition flecs_sparse_page_new :: "'v::zero ecs_sparse \<Rightarrow> nat \<Rightarrow> 'v ecs_sparse result" where
  "flecs_sparse_page_new s p =
    (let pages = (if length (sp_pages s) \<le> p
                  then sp_pages s @ replicate (p + 1 - length (sp_pages s)) None else sp_pages s) in
     ecs_assert (pages ! p = None) ECS_INTERNAL_ERROR
       (Inr (s\<lparr>sp_pages := pages[p := Some \<lparr>pg_sparse = \<lambda>_. 0, pg_data = \<lambda>_. 0\<rparr>]\<rparr>)))"

definition flecs_sparse_get_page :: "'v ecs_sparse \<Rightarrow> nat \<Rightarrow> 'v sparse_page option" where
  \<comment> \<open>\<open>None\<close> when there is no page or the page has no arrays, which the callers treat alike\<close>
  "flecs_sparse_get_page s p = (if p \<ge> length (sp_pages s) then None else sp_pages s ! p)"

definition flecs_sparse_get_or_create_page :: "'v::zero ecs_sparse \<Rightarrow> nat \<Rightarrow> 'v ecs_sparse result" where
  "flecs_sparse_get_or_create_page s p =
    (case flecs_sparse_get_page s p of Some _ \<Rightarrow> Inr s | None \<Rightarrow> flecs_sparse_page_new s p)"

definition flecs_sparse_assign_index :: "'v ecs_sparse \<Rightarrow> nat \<Rightarrow> 64 word \<Rightarrow> nat \<Rightarrow> 'v ecs_sparse result" where
  "flecs_sparse_assign_index s p e dense =
    bindR (sp_put s p (\<lambda>page. page\<lparr>pg_sparse := (pg_sparse page)(SPARSE_OFFSET e := dense)\<rparr>)) (\<lambda>s.
    bindR (arr_set (sp_dense s) dense e) (\<lambda>ids. Inr (s\<lparr>sp_dense := ids\<rparr>)))"

definition flecs_sparse_create_id :: "'v::zero ecs_sparse \<Rightarrow> nat \<Rightarrow> ('v ecs_sparse \<times> 64 word) result" where
  "flecs_sparse_create_id s dense =
    (let s = s\<lparr>sp_max_id := sp_max_id s + 1\<rparr>;
         e = sp_max_id s;
         s = s\<lparr>sp_dense := sp_dense s @ [0]\<rparr> in
     bindR (flecs_sparse_get_or_create_page s (SPARSE_PAGE e)) (\<lambda>s.
     bindR (sp_page s (SPARSE_PAGE e)) (\<lambda>page.
     ecs_assert (pg_sparse page (SPARSE_OFFSET e) = 0) ECS_INTERNAL_ERROR
       (bindR (flecs_sparse_assign_index s (SPARSE_PAGE e) e dense) (\<lambda>s. Inr (s, e))))))"

definition flecs_sparse_new_index :: "'v::zero ecs_sparse \<Rightarrow> ('v ecs_sparse \<times> 64 word) result" where
  "flecs_sparse_new_index s =
    (let dense_count = length (sp_dense s);
         cnt = sp_count s;
         s = s\<lparr>sp_count := cnt + 1\<rparr> in
     ecs_assert (cnt \<le> dense_count) ECS_INTERNAL_ERROR
       (if cnt < dense_count then bindR (arr_get (sp_dense s) cnt) (\<lambda>e. Inr (s, e))
        else flecs_sparse_create_id s cnt))"

definition flecs_sparse_get_sparse :: "'v ecs_sparse \<Rightarrow> nat \<Rightarrow> 64 word \<Rightarrow> 32 word option result" where
  "flecs_sparse_get_sparse s dense e =
    (case flecs_sparse_get_page s (SPARSE_PAGE e) of
      None \<Rightarrow> Inr None
    | Some page \<Rightarrow>
        ecs_assert (dense = pg_sparse page (SPARSE_OFFSET e)) ECS_INTERNAL_ERROR (Inr (sp_ptr s e)))"

definition flecs_sparse_swap_dense :: "'v::zero ecs_sparse \<Rightarrow> nat \<Rightarrow> nat \<Rightarrow> nat \<Rightarrow> 'v ecs_sparse result" where
  "flecs_sparse_swap_dense s page_a a b =
    bindR (arr_get (sp_dense s) a) (\<lambda>id_a.
    bindR (arr_get (sp_dense s) b) (\<lambda>id_b.
    bindR (flecs_sparse_get_or_create_page s (SPARSE_PAGE id_b)) (\<lambda>s.
    bindR (flecs_sparse_assign_index s page_a id_a b) (\<lambda>s.
    flecs_sparse_assign_index s (SPARSE_PAGE id_b) id_b a))))"

definition flecs_sparse_init :: "nat \<Rightarrow> 'v ecs_sparse" where
  "flecs_sparse_init sz = \<lparr>sp_dense = [0], sp_pages = [], sp_size = sz, sp_count = 1, sp_max_id = - 1\<rparr>"

definition flecs_sparse_clear :: "'v ecs_sparse \<Rightarrow> 'v ecs_sparse" where
  "flecs_sparse_clear s =
    s\<lparr>sp_pages := map (map_option (\<lambda>page. page\<lparr>pg_sparse := \<lambda>_. 0\<rparr>)) (sp_pages s),
      sp_dense := list_resize 1 (sp_dense s), sp_count := 1, sp_max_id := 0\<rparr>"

definition flecs_sparse_fini :: "'v ecs_sparse \<Rightarrow> 'v ecs_sparse" where
  "flecs_sparse_fini s = s\<lparr>sp_pages := [], sp_dense := []\<rparr>"

definition flecs_sparse_new_id :: "'v::zero ecs_sparse \<Rightarrow> ('v ecs_sparse \<times> 64 word) result" where
  "flecs_sparse_new_id s = flecs_sparse_new_index s"

definition flecs_sparse_add :: "'v::zero ecs_sparse \<Rightarrow> nat \<Rightarrow> ('v ecs_sparse \<times> 32 word option) result" where
  \<comment> \<open>the offset of the element returned is a multiple of the size given, not of the size of the set: with size 0
    it is the first element of the page\<close>
  "flecs_sparse_add s sz =
    ecs_assert (sz = 0 \<or> sz = sp_size s) ECS_INVALID_PARAMETER
     (bindR (flecs_sparse_new_index s) (\<lambda>(s, e).
      ecs_assert (flecs_sparse_get_page s (SPARSE_PAGE e) \<noteq> None) ECS_INTERNAL_ERROR
       (ecs_assert (sp_size s \<noteq> 0) ECS_INTERNAL_ERROR
         (Inr (s, Some (if sz = 0 then id_index e - of_nat (SPARSE_OFFSET e) else id_index e))))))"

definition flecs_sparse_last_id :: "'v ecs_sparse \<Rightarrow> 64 word result" where
  "flecs_sparse_last_id s = (if sp_count s = 0 then Inl Bad_Access else arr_get (sp_dense s) (sp_count s - 1))"

definition flecs_sparse_ensure ::
    "'v::zero ecs_sparse \<Rightarrow> nat \<Rightarrow> 64 word \<Rightarrow> ('v ecs_sparse \<times> 32 word option \<times> bool) result" where
  \<comment> \<open>the last component is \<open>is_new\<close>\<close>
  "flecs_sparse_ensure s sz e =
    ecs_assert (sz = 0 \<or> sz = sp_size s) ECS_INVALID_PARAMETER
    (ecs_assert (length (sp_dense s) > 0) ECS_INTERNAL_ERROR
     (bindR (flecs_sparse_get_or_create_page s (SPARSE_PAGE e)) (\<lambda>s.
      bindR (sp_page s (SPARSE_PAGE e)) (\<lambda>page.
      let dense = pg_sparse page (SPARSE_OFFSET e) in
      if dense \<noteq> 0 then
        let cnt = sp_count s in
        if dense \<ge> cnt then
          bindR (flecs_sparse_swap_dense s (SPARSE_PAGE e) dense cnt) (\<lambda>s.
          let s = s\<lparr>sp_count := sp_count s + 1\<rparr> in
          bindR (arr_set (sp_dense s) cnt e) (\<lambda>ids.
          Inr (s\<lparr>sp_dense := ids\<rparr>, sp_ptr s e, True)))
        else Inr (s, sp_ptr s e, False)
      else
        let s = s\<lparr>sp_dense := sp_dense s @ [0]\<rparr>;
            dense_count = length (sp_dense s) - 1;
            cnt = sp_count s;
            s = s\<lparr>sp_count := cnt + 1\<rparr>;
            s = (if ucast (id_index e) \<ge> sp_max_id s then s\<lparr>sp_max_id := ucast (id_index e)\<rparr> else s) in
        bindR (if cnt < dense_count then
                 bindR (arr_get (sp_dense s) cnt) (\<lambda>unused.
                 bindR (flecs_sparse_get_or_create_page s (SPARSE_PAGE unused)) (\<lambda>s.
                 flecs_sparse_assign_index s (SPARSE_PAGE unused) unused dense_count))
               else Inr s) (\<lambda>s.
        bindR (flecs_sparse_assign_index s (SPARSE_PAGE e) e cnt) (\<lambda>s.
        Inr (s, sp_ptr s e, True)))))))"

definition flecs_sparse_ensure_fast ::
    "'v::zero ecs_sparse \<Rightarrow> nat \<Rightarrow> 64 word \<Rightarrow> ('v ecs_sparse \<times> 32 word option) result" where
  "flecs_sparse_ensure_fast s sz e =
    ecs_assert (sz = 0 \<or> sz = sp_size s) ECS_INVALID_PARAMETER
    (ecs_assert (length (sp_dense s) > 0) ECS_INTERNAL_ERROR
     (bindR (flecs_sparse_get_or_create_page s (SPARSE_PAGE e)) (\<lambda>s.
      bindR (sp_page s (SPARSE_PAGE e)) (\<lambda>page.
      let dense = pg_sparse page (SPARSE_OFFSET e); cnt = sp_count s in
      if dense = 0 then
        let s = s\<lparr>sp_count := cnt + 1\<rparr>;
            s = (if cnt = length (sp_dense s) then s\<lparr>sp_dense := sp_dense s @ [0]\<rparr> else s) in
        bindR (flecs_sparse_assign_index s (SPARSE_PAGE e) (ucast (id_index e)) cnt) (\<lambda>s.
        Inr (s, sp_ptr s e))
      else Inr (s, sp_ptr s e)))))"

definition sp_reset :: "'v::zero ecs_sparse \<Rightarrow> 64 word \<Rightarrow> 'v ecs_sparse result" where
  \<comment> \<open>reset the memory of an element to zero\<close>
  "sp_reset s e =
    (if sp_size s \<noteq> 0
     then sp_put s (SPARSE_PAGE e) (\<lambda>page. page\<lparr>pg_data := (pg_data page)(SPARSE_OFFSET e := 0)\<rparr>)
     else Inr s)"

definition flecs_sparse_remove :: "'v::zero ecs_sparse \<Rightarrow> nat \<Rightarrow> 64 word \<Rightarrow> ('v ecs_sparse \<times> bool) result" where
  "flecs_sparse_remove s sz e =
    ecs_assert (sz = 0 \<or> sz = sp_size s) ECS_INVALID_PARAMETER
    (case flecs_sparse_get_page s (SPARSE_PAGE e) of
      None \<Rightarrow> Inr (s, False)
    | Some page \<Rightarrow>
        let dense = pg_sparse page (SPARSE_OFFSET e) in
        if dense \<noteq> 0 then
          let cnt = sp_count s in
          bindR (if dense = cnt - 1 then Inr (s\<lparr>sp_count := cnt - 1\<rparr>)
                 else if dense < cnt then
                   bindR (flecs_sparse_swap_dense s (SPARSE_PAGE e) dense (cnt - 1)) (\<lambda>s.
                   Inr (s\<lparr>sp_count := sp_count s - 1\<rparr>))
                 else Inr s) (\<lambda>s.
          bindR (sp_reset s e) (\<lambda>s. Inr (s, True)))
        else Inr (s, False))"

definition flecs_sparse_remove_w_gen ::
    "'v::zero ecs_sparse \<Rightarrow> nat \<Rightarrow> 64 word \<Rightarrow> ('v ecs_sparse \<times> bool) result" where
  "flecs_sparse_remove_w_gen s sz e =
    ecs_assert (sz = 0 \<or> sz = sp_size s) ECS_INVALID_PARAMETER
    (case flecs_sparse_get_page s (SPARSE_PAGE e) of
      None \<Rightarrow> Inr (s, False)
    | Some page \<Rightarrow>
        let dense = pg_sparse page (SPARSE_OFFSET e) in
        if dense \<noteq> 0 then
          bindR (arr_get (sp_dense s) dense) (\<lambda>x.
          ecs_assert (x = e) ECS_INVALID_PARAMETER
           (bindR (arr_set (sp_dense s) dense (ECS_GENERATION_INC e)) (\<lambda>ids.
            let s = s\<lparr>sp_dense := ids\<rparr>; cnt = sp_count s in
            if dense = cnt - 1 then bindR (sp_reset (s\<lparr>sp_count := cnt - 1\<rparr>) e) (\<lambda>s. Inr (s, True))
            else if dense < cnt then
              bindR (flecs_sparse_swap_dense s (SPARSE_PAGE e) dense (cnt - 1)) (\<lambda>s.
              bindR (sp_reset (s\<lparr>sp_count := sp_count s - 1\<rparr>) e) (\<lambda>s. Inr (s, True)))
            else Inr (s, False))))
        else Inr (s, False))"

definition flecs_sparse_get_dense :: "'v ecs_sparse \<Rightarrow> nat \<Rightarrow> nat \<Rightarrow> 32 word option result" where
  "flecs_sparse_get_dense s sz dense_index =
    ecs_assert (sz = 0 \<or> sz = sp_size s) ECS_INVALID_PARAMETER
    (ecs_assert (dense_index < sp_count s) ECS_INVALID_PARAMETER
     (bindR (arr_get (sp_dense s) (dense_index + 1)) (\<lambda>e.
      flecs_sparse_get_sparse s (dense_index + 1) e)))"

definition flecs_sparse_is_alive :: "'v ecs_sparse \<Rightarrow> 64 word \<Rightarrow> bool" where
  "flecs_sparse_is_alive s e =
    (case flecs_sparse_get_page s (SPARSE_PAGE e) of
      None \<Rightarrow> False
    | Some page \<Rightarrow>
        let dense = pg_sparse page (SPARSE_OFFSET e) in
        if dense = 0 \<or> dense \<ge> sp_count s then False else True)"

definition flecs_sparse_get_w_check :: "'v ecs_sparse \<Rightarrow> nat \<Rightarrow> 64 word \<Rightarrow> bool \<Rightarrow> 32 word option result" where
  "flecs_sparse_get_w_check s sz e checked =
    ecs_assert (sz = sp_size s) ECS_INVALID_PARAMETER
    (if checked \<and> SPARSE_PAGE e \<ge> length (sp_pages s) then Inr None
     else ecs_assert (SPARSE_PAGE e < length (sp_pages s)) ECS_OUT_OF_RANGE
      (if checked then
         case sp_pages s ! SPARSE_PAGE e of
           None \<Rightarrow> Inr None
         | Some page \<Rightarrow>
             let dense = pg_sparse page (SPARSE_OFFSET e) in
             if dense = 0 \<or> dense \<ge> sp_count s then Inr None else Inr (sp_ptr s e)
       else Inr (sp_ptr s e)))"

definition flecs_sparse_get :: "'v ecs_sparse \<Rightarrow> nat \<Rightarrow> 64 word \<Rightarrow> 32 word option result" where
  "flecs_sparse_get s sz e = flecs_sparse_get_w_check s sz e True"

definition flecs_sparse_has :: "'v ecs_sparse \<Rightarrow> 64 word \<Rightarrow> bool" where
  "flecs_sparse_has s e =
    (case flecs_sparse_get_page s (SPARSE_PAGE e) of
      None \<Rightarrow> False
    | Some page \<Rightarrow> let dense = pg_sparse page (SPARSE_OFFSET e) in dense \<noteq> 0 \<and> dense < sp_count s)"

definition flecs_sparse_count :: "'v ecs_sparse \<Rightarrow> nat" where
  "flecs_sparse_count s = (if sp_count s = 0 then 0 else sp_count s - 1)"

definition flecs_sparse_ids :: "'v ecs_sparse \<Rightarrow> 64 word list" where
  \<comment> \<open>the pointer points at the live ids\<close>
  "flecs_sparse_ids s = take (flecs_sparse_count s) (drop 1 (sp_dense s))"

fun sparse_shrink_pages :: "'v ecs_sparse \<Rightarrow> nat \<Rightarrow> 'v sparse_page option list \<Rightarrow> int \<Rightarrow> 'v ecs_sparse \<times> int" where
  \<comment> \<open>the loop over the pages from page \<open>i\<close> on; the last argument is \<open>max_page_index\<close>\<close>
  "sparse_shrink_pages s i [] m = (s, m)"
| "sparse_shrink_pages s i (p # ps) m =
    (if p = None then sparse_shrink_pages s (Suc i) ps m
     else if \<exists>e \<in> {0..<64}. flecs_sparse_is_alive s (word_of_nat (i * 64 + e))
     then sparse_shrink_pages s (Suc i) ps (int i)
     else sparse_shrink_pages (s\<lparr>sp_pages := (sp_pages s)[i := None]\<rparr>) (Suc i) ps m)"

definition flecs_sparse_shrink :: "'v ecs_sparse \<Rightarrow> 'v ecs_sparse" where
  "flecs_sparse_shrink s =
    (let (s, m) = sparse_shrink_pages s 0 (sp_pages s) (- 1) in
     s\<lparr>sp_pages := list_resize (nat (m + 1)) (sp_pages s),
       sp_dense := list_resize (sp_count s) (sp_dense s)\<rparr>)"

section \<open>Page accesses\<close>

definition sp_look :: "'v ecs_sparse \<Rightarrow> 32 word \<Rightarrow> nat" where
  "sp_look s k = (case flecs_sparse_get_page s (page_index 6 k) of
    None \<Rightarrow> 0 | Some page \<Rightarrow> pg_sparse page (page_offset 6 k))"

definition sp_val :: "'v::zero ecs_sparse \<Rightarrow> 32 word \<Rightarrow> 'v" where
  "sp_val s k = (case flecs_sparse_get_page s (page_index 6 k) of
    None \<Rightarrow> 0 | Some page \<Rightarrow> pg_data page (page_offset 6 k))"

definition sp_upd :: "'v ecs_sparse \<Rightarrow> nat \<Rightarrow> ('v sparse_page \<Rightarrow> 'v sparse_page) \<Rightarrow> 'v ecs_sparse" where
  "sp_upd s p f = s\<lparr>sp_pages := (sp_pages s)[p := map_option f (sp_pages s ! p)]\<rparr>"

definition sp_touch :: "'v::zero ecs_sparse \<Rightarrow> nat \<Rightarrow> 'v ecs_sparse" where
  "sp_touch s p = (case flecs_sparse_get_or_create_page s p of Inl _ \<Rightarrow> s | Inr s' \<Rightarrow> s')"

lemma get_page_fields [simp]:
  "flecs_sparse_get_page (s\<lparr>sp_dense := d\<rparr>) = flecs_sparse_get_page s"
  "flecs_sparse_get_page (s\<lparr>sp_count := n\<rparr>) = flecs_sparse_get_page s"
  "flecs_sparse_get_page (s\<lparr>sp_max_id := m\<rparr>) = flecs_sparse_get_page s"
  by (simp_all add: flecs_sparse_get_page_def fun_eq_iff)

lemma sp_look_fields [simp]:
  "sp_look (s\<lparr>sp_dense := d\<rparr>) = sp_look s" "sp_look (s\<lparr>sp_count := n\<rparr>) = sp_look s"
  "sp_look (s\<lparr>sp_max_id := m\<rparr>) = sp_look s"
  by (simp_all add: sp_look_def fun_eq_iff)

lemma sp_val_fields [simp]:
  "sp_val (s\<lparr>sp_dense := d\<rparr>) = sp_val s" "sp_val (s\<lparr>sp_count := n\<rparr>) = sp_val s"
  "sp_val (s\<lparr>sp_max_id := m\<rparr>) = sp_val s"
  by (simp_all add: sp_val_def fun_eq_iff)

lemma sp_upd_fields [simp]:
  "sp_dense (sp_upd s p f) = sp_dense s" "sp_count (sp_upd s p f) = sp_count s"
  "sp_size (sp_upd s p f) = sp_size s" "sp_max_id (sp_upd s p f) = sp_max_id s"
  by (simp_all add: sp_upd_def)

lemma get_page_upd [simp]:
  "flecs_sparse_get_page (sp_upd s p f) q =
    (if q = p then map_option f (flecs_sparse_get_page s p) else flecs_sparse_get_page s q)"
  by (auto simp: flecs_sparse_get_page_def sp_upd_def)

lemma sp_put_ok: "flecs_sparse_get_page s p \<noteq> None \<Longrightarrow> sp_put s p f = Inr (sp_upd s p f)"
  by (auto simp: sp_put_def sp_page_def flecs_sparse_get_page_def sp_upd_def split: if_splits)

lemma sp_page_ok: "flecs_sparse_get_page s p = Some page \<Longrightarrow> sp_page s p = Inr page"
  by (auto simp: sp_page_def flecs_sparse_get_page_def split: if_splits)

lemma page_new_get:
  assumes "flecs_sparse_get_page s p = None"
  shows "returns (flecs_sparse_page_new s p) (\<lambda>s'. (\<forall>q. flecs_sparse_get_page s' q =
      (if q = p then Some \<lparr>pg_sparse = \<lambda>_. 0, pg_data = \<lambda>_. 0\<rparr> else flecs_sparse_get_page s q)) \<and>
    sp_dense s' = sp_dense s \<and> sp_count s' = sp_count s \<and> sp_size s' = sp_size s \<and> sp_max_id s' = sp_max_id s)"
  using assms by (auto simp: flecs_sparse_page_new_def flecs_sparse_get_page_def Let_def nth_append split: if_splits)

lemma get_or_create: "flecs_sparse_get_or_create_page s p = Inr (sp_touch s p)"
proof (cases "flecs_sparse_get_page s p")
  case None
  from page_new_get [OF this] obtain s' where "flecs_sparse_page_new s p = Inr s'" by (auto simp: returns_iff)
  with None show ?thesis by (simp add: sp_touch_def flecs_sparse_get_or_create_page_def)
qed (simp add: sp_touch_def flecs_sparse_get_or_create_page_def)

lemma sp_touch_get:
  "flecs_sparse_get_page (sp_touch s p) q = (if q = p \<and> flecs_sparse_get_page s p = None
      then Some \<lparr>pg_sparse = \<lambda>_. 0, pg_data = \<lambda>_. 0\<rparr> else flecs_sparse_get_page s q)"
  and sp_touch_fields [simp]: "sp_dense (sp_touch s p) = sp_dense s" "sp_count (sp_touch s p) = sp_count s"
    "sp_size (sp_touch s p) = sp_size s" "sp_max_id (sp_touch s p) = sp_max_id s"
proof -
  have "(\<forall>q. flecs_sparse_get_page (sp_touch s p) q = (if q = p \<and> flecs_sparse_get_page s p = None
      then Some \<lparr>pg_sparse = \<lambda>_. 0, pg_data = \<lambda>_. 0\<rparr> else flecs_sparse_get_page s q)) \<and>
    sp_dense (sp_touch s p) = sp_dense s \<and> sp_count (sp_touch s p) = sp_count s \<and>
    sp_size (sp_touch s p) = sp_size s \<and> sp_max_id (sp_touch s p) = sp_max_id s"
  proof (cases "flecs_sparse_get_page s p")
    case None
    from page_new_get [OF this] None show ?thesis
      by (auto simp: sp_touch_def flecs_sparse_get_or_create_page_def returns_iff)
  qed (auto simp: sp_touch_def flecs_sparse_get_or_create_page_def)
  then show "flecs_sparse_get_page (sp_touch s p) q = (if q = p \<and> flecs_sparse_get_page s p = None
      then Some \<lparr>pg_sparse = \<lambda>_. 0, pg_data = \<lambda>_. 0\<rparr> else flecs_sparse_get_page s q)"
    "sp_dense (sp_touch s p) = sp_dense s" "sp_count (sp_touch s p) = sp_count s"
    "sp_size (sp_touch s p) = sp_size s" "sp_max_id (sp_touch s p) = sp_max_id s" by blast+
qed

lemma sp_look_touch [simp]: "sp_look (sp_touch s p) = sp_look s" "sp_val (sp_touch s p) = sp_val s"
  by (auto simp: sp_look_def sp_val_def sp_touch_get fun_eq_iff split: option.splits)

lemma sp_touch_present [simp]: "flecs_sparse_get_page (sp_touch s p) p \<noteq> None"
  by (auto simp: sp_touch_get)

lemma sp_touch_keeps [simp]: "flecs_sparse_get_page s q \<noteq> None \<Longrightarrow> flecs_sparse_get_page (sp_touch s p) q \<noteq> None"
  by (auto simp: sp_touch_get)

lemma sp_look_page: "sp_look s (id_index e) \<noteq> 0 \<Longrightarrow> flecs_sparse_get_page s (SPARSE_PAGE e) \<noteq> None"
  by (auto simp: sp_look_def SPARSE_PAGE_def split: option.splits)

lemma pg_sparse_look:
  "flecs_sparse_get_page s (SPARSE_PAGE e) = Some page \<Longrightarrow> pg_sparse page (SPARSE_OFFSET e) = sp_look s (id_index e)"
  by (simp add: sp_look_def SPARSE_PAGE_def SPARSE_OFFSET_def)

lemma look_upd:
  "flecs_sparse_get_page s (SPARSE_PAGE e) \<noteq> None \<Longrightarrow>
    sp_look (sp_upd s (SPARSE_PAGE e) (\<lambda>page. page\<lparr>pg_sparse := (pg_sparse page)(SPARSE_OFFSET e := d)\<rparr>)) =
      (sp_look s)(id_index e := d)"
  "sp_look (sp_upd s p (\<lambda>page. page\<lparr>pg_data := h page\<rparr>)) = sp_look s"
  using page_cell_inj [of 6]
  by (auto simp: sp_look_def SPARSE_PAGE_def SPARSE_OFFSET_def fun_eq_iff split: option.splits)

lemma val_upd:
  "sp_val (sp_upd s p (\<lambda>page. page\<lparr>pg_sparse := g page\<rparr>)) = sp_val s"
  "flecs_sparse_get_page s (SPARSE_PAGE e) \<noteq> None \<Longrightarrow>
    sp_val (sp_upd s (SPARSE_PAGE e) (\<lambda>page. page\<lparr>pg_data := (pg_data page)(SPARSE_OFFSET e := v)\<rparr>)) =
      (sp_val s)(id_index e := v)"
  using page_cell_inj [of 6]
  by (auto simp: sp_val_def SPARSE_PAGE_def SPARSE_OFFSET_def fun_eq_iff split: option.splits)

definition sp_assign :: "'v ecs_sparse \<Rightarrow> 64 word \<Rightarrow> nat \<Rightarrow> 'v ecs_sparse" where
  "sp_assign s e dense =
    sp_upd s (SPARSE_PAGE e) (\<lambda>page. page\<lparr>pg_sparse := (pg_sparse page)(SPARSE_OFFSET e := dense)\<rparr>)
      \<lparr>sp_dense := (sp_dense s)[dense := e]\<rparr>"

lemma assign_index:
  "flecs_sparse_get_page s (SPARSE_PAGE e) \<noteq> None \<Longrightarrow> dense < length (sp_dense s) \<Longrightarrow>
    flecs_sparse_assign_index s (SPARSE_PAGE e) e dense = Inr (sp_assign s e dense)"
  by (simp add: flecs_sparse_assign_index_def sp_put_ok sp_assign_def)

lemma sp_assign_fields [simp]:
  "sp_count (sp_assign s e d) = sp_count s" "sp_size (sp_assign s e d) = sp_size s"
  "sp_max_id (sp_assign s e d) = sp_max_id s" "sp_dense (sp_assign s e d) = (sp_dense s)[d := e]"
  by (simp_all add: sp_assign_def)

lemma sp_val_assign [simp]: "sp_val (sp_assign s e d) = sp_val s"
  by (simp add: sp_assign_def val_upd)

lemma sp_look_assign:
  "flecs_sparse_get_page s (SPARSE_PAGE e) \<noteq> None \<Longrightarrow> sp_look (sp_assign s e d) = (sp_look s)(id_index e := d)"
  unfolding sp_assign_def sp_look_fields by (rule look_upd(1))

lemma sp_assign_present [simp]:
  "flecs_sparse_get_page (sp_assign s e d) p = None \<longleftrightarrow> flecs_sparse_get_page s p = None"
  by (simp add: sp_assign_def)

section \<open>Invariant\<close>

definition sp_ok :: "'v ecs_sparse \<Rightarrow> bool" where
  "sp_ok s \<longleftrightarrow> paired (sp_look s) (sp_dense s) \<and> 1 \<le> sp_count s \<and> sp_count s \<le> length (sp_dense s)"

definition sp_alive :: "'v ecs_sparse \<Rightarrow> 64 word set" where
  "sp_alive s = alive_ids (sp_dense s) (sp_count s)"

definition sp_live :: "'v ecs_sparse \<Rightarrow> 32 word \<Rightarrow> bool" where
  "sp_live s k \<longleftrightarrow> sp_look s k \<noteq> 0 \<and> sp_look s k < sp_count s"

definition sp_zero :: "'v::zero ecs_sparse \<Rightarrow> bool" where
  \<comment> \<open>the memory of the elements that are not alive is zero\<close>
  "sp_zero s \<longleftrightarrow> (\<forall>k. \<not> sp_live s k \<longrightarrow> sp_val s k = 0)"

definition sp_abs :: "'v::zero ecs_sparse \<Rightarrow> 32 word \<Rightarrow> 'v option" where
  \<comment> \<open>the map from indices to values\<close>
  "sp_abs s k = (if sp_live s k then Some (sp_val s k) else None)"

lemma sp_is_alive_live: "flecs_sparse_is_alive s e = sp_live s (id_index e)"
  by (auto simp: flecs_sparse_is_alive_def sp_live_def sp_look_def SPARSE_PAGE_def SPARSE_OFFSET_def Let_def
      split: option.splits)

lemma has_live: "flecs_sparse_has s e = sp_live s (id_index e)"
  by (auto simp: flecs_sparse_has_def sp_live_def sp_look_def SPARSE_PAGE_def SPARSE_OFFSET_def Let_def
      split: option.splits)

lemma get_live: "flecs_sparse_get s (sp_size s) e = Inr (if sp_live s (id_index e) then sp_ptr s e else None)"
  by (auto simp: flecs_sparse_get_def flecs_sparse_get_w_check_def sp_live_def sp_look_def SPARSE_PAGE_def
      SPARSE_OFFSET_def flecs_sparse_get_page_def Let_def split: option.splits)

lemma sp_live_index: "sp_ok s \<Longrightarrow> sp_live s k \<longleftrightarrow> k \<in> id_index ` sp_alive s"
proof
  assume "sp_ok s" "sp_live s k"
  then show "k \<in> id_index ` sp_alive s"
    by (intro image_eqI [of _ _ "sp_dense s ! sp_look s k"])
      (auto simp: sp_live_def sp_ok_def sp_alive_def in_alive_ids paired_back intro!: exI [of _ "sp_look s k"])
next
  assume "sp_ok s" "k \<in> id_index ` sp_alive s"
  then show "sp_live s k"
    by (auto simp: sp_live_def sp_ok_def sp_alive_def alive_iff_look)
qed

lemma swap_dense_ok:
  assumes p: "paired (sp_look s) (sp_dense s)"
    and a: "1 \<le> a" "a < length (sp_dense s)" and b: "1 \<le> b" "b < length (sp_dense s)"
    and e: "id_index e = id_index (sp_dense s ! a)"
  shows "returns (flecs_sparse_swap_dense s (SPARSE_PAGE e) a b) (\<lambda>s'.
    sp_look s' = (sp_look s)(id_index (sp_dense s ! a) := b, id_index (sp_dense s ! b) := a) \<and>
    sp_dense s' = (sp_dense s)[a := sp_dense s ! b, b := sp_dense s ! a] \<and>
    paired (sp_look s') (sp_dense s') \<and>
    sp_val s' = sp_val s \<and> sp_count s' = sp_count s \<and> sp_size s' = sp_size s \<and> sp_max_id s' = sp_max_id s)"
proof -
  let ?d = "sp_dense s" and ?ia = "sp_dense s ! a" and ?ib = "sp_dense s ! b"
  let ?t = "sp_touch s (SPARSE_PAGE ?ib)"
  have pe: "SPARSE_PAGE e = SPARSE_PAGE ?ia" using e by (simp add: SPARSE_PAGE_def)
  have pres: "flecs_sparse_get_page s (SPARSE_PAGE ?ia) \<noteq> None" "flecs_sparse_get_page s (SPARSE_PAGE ?ib) \<noteq> None"
    by (rule sp_look_page, use paired_look [OF p a] a in simp, rule sp_look_page, use paired_look [OF p b] b in simp)
  then have "flecs_sparse_swap_dense s (SPARSE_PAGE e) a b = Inr (sp_assign (sp_assign ?t ?ia b) ?ib a)"
    using a b by (simp add: flecs_sparse_swap_dense_def get_or_create pe assign_index)
  moreover have "?d[b := ?ia, a := ?ib] = ?d[a := ?ib, b := ?ia]"
    using list_update_swap [of a b ?d] by (cases "a = b") auto
  ultimately show ?thesis
    using pres paired_swap [OF p a b] by (simp add: sp_look_assign)
qed

section \<open>Ensuring and removing\<close>

lemma sp_live_fields:
  "sp_look s' = sp_look s \<Longrightarrow> sp_count s' = sp_count s \<Longrightarrow> sp_live s' = sp_live s"
  by (simp add: sp_live_def fun_eq_iff)

definition ensured :: "'v::zero ecs_sparse \<Rightarrow> 64 word \<Rightarrow> 'v ecs_sparse \<Rightarrow> bool" where
  "ensured s e s' \<longleftrightarrow> sp_ok s' \<and>
    sp_alive s' = (if sp_live s (id_index e) then sp_alive s else insert e (sp_alive s)) \<and>
    sp_val s' = sp_val s \<and> sp_size s' = sp_size s"

lemma ensure_dead:
  assumes ok: "sp_ok s" and dead: "sp_count s \<le> sp_look s (id_index e)" "sp_look s (id_index e) \<noteq> 0"
  shows "returns (flecs_sparse_swap_dense s (SPARSE_PAGE e) (sp_look s (id_index e)) (sp_count s)) (\<lambda>s'.
    sp_count s < length (sp_dense s') \<and> sp_size s' = sp_size s \<and>
    ensured s e (s'\<lparr>sp_count := sp_count s' + 1, sp_dense := (sp_dense s')[sp_count s := e]\<rparr>))"
proof -
  let ?l = "sp_look s (id_index e)" and ?n = "sp_count s" and ?d = "sp_dense s"
  have p: "paired (sp_look s) ?d" and n: "1 \<le> ?n" using ok by (simp_all add: sp_ok_def)
  have l: "1 \<le> ?l" "?l < length ?d" "id_index (?d ! ?l) = id_index e"
    using dead paired_bound [OF p] paired_back [OF p dead(2)] by simp_all
  have nl: "?n < length ?d" using l dead by simp
  show ?thesis
  proof (rule returns_mono [OF swap_dense_ok [OF p l(1,2) n nl l(3) [symmetric]]], elim conjE)
    fix s' assume s': "sp_dense s' = ?d[?l := ?d ! ?n, ?n := ?d ! ?l]" "paired (sp_look s') (sp_dense s')"
      "sp_val s' = sp_val s" "sp_count s' = ?n" "sp_size s' = sp_size s"
    have at: "sp_dense s' ! ?n = ?d ! ?l" using nl by (simp add: s'(1))
    have "paired (sp_look s') ((sp_dense s')[?n := e])" by (rule paired_regen [OF s'(2)]) (simp add: at l(3))
    moreover have "alive_ids ((sp_dense s')[?n := e]) (?n + 1) = insert e (alive_ids ?d ?n)"
      using alive_swap_add [OF dead(1) l(2) n, of e] by (simp add: s'(1))
    ultimately show "sp_count s < length (sp_dense s') \<and> sp_size s' = sp_size s \<and>
        ensured s e (s'\<lparr>sp_count := sp_count s' + 1, sp_dense := (sp_dense s')[?n := e]\<rparr>)"
      using s' nl dead n by (simp add: ensured_def sp_ok_def sp_alive_def sp_live_def)
  qed
qed

lemma ensure_new:
  assumes ok: "sp_ok s" and new: "sp_look s (id_index e) = 0" and pres: "flecs_sparse_get_page s (SPARSE_PAGE e) \<noteq> None"
    and s2_def: "s2 = s\<lparr>sp_dense := sp_dense s @ [0], sp_count := sp_count s + 1, sp_max_id := m\<rparr>"
  shows "returns (bindR (if sp_count s < length (sp_dense s) then
                 bindR (arr_get (sp_dense s2) (sp_count s)) (\<lambda>unused.
                 bindR (flecs_sparse_get_or_create_page s2 (SPARSE_PAGE unused)) (\<lambda>s.
                 flecs_sparse_assign_index s (SPARSE_PAGE unused) unused (length (sp_dense s2) - 1)))
               else Inr s2) (\<lambda>s2. flecs_sparse_assign_index s2 (SPARSE_PAGE e) e (sp_count s)))
    (\<lambda>s'. ensured s e s' \<and> sp_look s' = (if sp_count s < length (sp_dense s)
       then (sp_look s)(id_index (sp_dense s ! sp_count s) := length (sp_dense s), id_index e := sp_count s)
       else (sp_look s)(id_index e := sp_count s)))"
proof -
  let ?d = "sp_dense s" and ?n = "sp_count s" and ?k = "id_index e"
  have p: "paired (sp_look s) ?d" and n: "1 \<le> ?n" "?n \<le> length ?d" using ok by (simp_all add: sp_ok_def)
  have app: "paired ((sp_look s)(?k := length ?d)) (?d @ [e])" by (rule paired_append [OF p new])
  have live: "\<not> sp_live s ?k" using new by (simp add: sp_live_def)
  show ?thesis
  proof (cases "?n < length ?d")
    case False
    then have eq: "?n = length ?d" using n by simp
    have "alive_ids (?d @ [e]) (?n + 1) = insert e (alive_ids ?d ?n)"
      using alive_ids_extend [of ?n 1 "?d @ [e]"] alive_ids_append [of ?n ?d "[e]"] n eq by simp
    with False app eq pres live show ?thesis
      by (simp add: s2_def assign_index sp_look_assign ensured_def sp_ok_def sp_alive_def)
  next
    case True
    let ?u = "?d ! ?n"
    have lu: "sp_look s (id_index ?u) = ?n" by (rule paired_look [OF p n(1) True])
    then have neq: "id_index ?u \<noteq> ?k" using new n by auto
    have nth: "(?d @ [e]) ! ?n = ?u" "(?d @ [e]) ! length ?d = e" using True by (simp_all add: nth_append)
    have sw: "paired ((sp_look s)(?k := length ?d, id_index ?u := length ?d, ?k := ?n)) ((?d @ [e])[?n := e, length ?d := ?u])"
      using paired_swap [OF app n(1), of "length ?d"] True nth by simp
    have lst: "(?d @ [0])[length ?d := ?u, ?n := e] = (?d @ [e])[?n := e, length ?d := ?u]"
      using True by (intro nth_equalityI) (auto simp: nth_list_update nth_append)
    have lk: "(sp_look s)(?k := length ?d, id_index ?u := length ?d, ?k := ?n) = (sp_look s)(id_index ?u := length ?d, ?k := ?n)"
      by (simp add: fun_upd_twist [OF neq])
    have al: "alive_ids ((?d @ [e])[?n := e, length ?d := ?u]) (?n + 1) = insert e (alive_ids ?d ?n)"
    proof -
      have "(?d @ [e])[?n := e, length ?d := ?u] = (?d @ [e])[length ?d := (?d @ [e]) ! ?n, ?n := e]"
        using True by (intro nth_equalityI) (auto simp: nth_list_update nth_append)
      moreover have "alive_ids (?d @ [e]) ?n = alive_ids ?d ?n" by (rule alive_ids_append [OF n(2)])
      ultimately show ?thesis using alive_swap_add [of ?n "length ?d" "?d @ [e]" e] n by simp
    qed
    have t: "flecs_sparse_get_page (sp_touch s2 (SPARSE_PAGE ?u)) (SPARSE_PAGE ?u) \<noteq> None" by simp
    have t2: "flecs_sparse_get_page (sp_touch s2 (SPARSE_PAGE ?u)) (SPARSE_PAGE e) \<noteq> None"
      using pres by (intro sp_touch_keeps) (simp add: s2_def)
    have "bindR (arr_get (sp_dense s2) ?n) (\<lambda>unused.
        bindR (flecs_sparse_get_or_create_page s2 (SPARSE_PAGE unused)) (\<lambda>s.
        flecs_sparse_assign_index s (SPARSE_PAGE unused) unused (length (sp_dense s2) - 1))) =
        Inr (sp_assign (sp_touch s2 (SPARSE_PAGE ?u)) ?u (length ?d))"
      using True t by (simp add: s2_def get_or_create assign_index nth_append del: sp_touch_present)
    moreover have "flecs_sparse_assign_index (sp_assign (sp_touch s2 (SPARSE_PAGE ?u)) ?u (length ?d)) (SPARSE_PAGE e) e ?n =
        Inr (sp_assign (sp_assign (sp_touch s2 (SPARSE_PAGE ?u)) ?u (length ?d)) e ?n)" (is "_ = Inr ?s3")
      by (rule assign_index) (use t2 True in \<open>simp_all del: not_None_eq add: s2_def\<close>)
    moreover have look: "sp_look ?s3 = (sp_look s)(id_index ?u := length ?d, ?k := ?n)"
      using t t2 by (simp add: sp_look_assign del: not_None_eq) (simp add: s2_def)
    moreover have "sp_dense s2 = ?d @ [0]" by (simp add: s2_def)
    then have "sp_dense ?s3 = (?d @ [e])[?n := e, length ?d := ?u]"
      by (simp only: sp_assign_fields sp_touch_fields lst)
    moreover have "sp_count ?s3 = ?n + 1" "sp_size ?s3 = sp_size s" "sp_val ?s3 = sp_val s"
      by (simp_all add: s2_def)
    ultimately show ?thesis
      using True sw al live n by (simp add: ensured_def sp_ok_def sp_alive_def lk)
  qed
qed

lemma sp_ensure_ok:
  assumes ok: "sp_ok s"
  shows "returns (flecs_sparse_ensure s 0 e) (\<lambda>(s', p, is_new). ensured s e s' \<and>
    p = sp_ptr s e \<and> is_new = (\<not> sp_live s (id_index e)))"
proof -
  let ?t = "sp_touch s (SPARSE_PAGE e)" and ?l = "sp_look s (id_index e)"
  have okt: "sp_ok ?t" "\<And>x. ensured ?t e x = ensured s e x"
    using ok by (simp_all add: sp_ok_def ensured_def sp_alive_def sp_live_def)
  obtain page where page: "flecs_sparse_get_page ?t (SPARSE_PAGE e) = Some page"
    using sp_touch_present [of s "SPARSE_PAGE e"] by blast
  have pg: "sp_page ?t (SPARSE_PAGE e) = Inr page" "pg_sparse page (SPARSE_OFFSET e) = ?l"
    using sp_page_ok [OF page] pg_sparse_look [OF page] by simp_all
  have len: "0 < length (sp_dense s)" using ok by (auto simp: sp_ok_def)
  consider (live) "?l \<noteq> 0" "?l < sp_count s" | (dead) "?l \<noteq> 0" "sp_count s \<le> ?l" | (new) "?l = 0" by linarith
  then show ?thesis
  proof cases
    case live
    then show ?thesis using len pg okt ok
      by (simp add: flecs_sparse_ensure_def get_or_create ensured_def sp_ok_def sp_alive_def sp_live_def sp_ptr_def)
  next
    case dead
    have "returns (flecs_sparse_swap_dense ?t (SPARSE_PAGE e) ?l (sp_count s)) (\<lambda>s'.
        sp_count s < length (sp_dense s') \<and> sp_size s' = sp_size s \<and>
        ensured s e (s'\<lparr>sp_count := sp_count s' + 1, sp_dense := (sp_dense s')[sp_count s := e]\<rparr>))"
      using ensure_dead [OF okt(1), of e] dead okt(2) by simp
    then show ?thesis using len pg dead
      by (auto simp: flecs_sparse_ensure_def get_or_create Let_def sp_live_def sp_ptr_def elim: returns_mono)
  next
    case new
    let ?A = "?t\<lparr>sp_dense := sp_dense ?t @ [0], sp_count := sp_count ?t + 1\<rparr>"
    let ?m = "if ucast (id_index e) \<ge> sp_max_id s then ucast (id_index e) else sp_max_id s"
    define s2 where "s2 = (if ucast (id_index e) \<ge> sp_max_id ?A then ?A\<lparr>sp_max_id := ucast (id_index e)\<rparr> else ?A)"
    have s2: "s2 = ?t\<lparr>sp_dense := sp_dense ?t @ [0], sp_count := sp_count ?t + 1, sp_max_id := ?m\<rparr>"
      unfolding s2_def by (rule ecs_sparse.equality) simp_all
    have "flecs_sparse_get_page ?t (SPARSE_PAGE e) \<noteq> None" by (rule sp_touch_present)
    moreover have "sp_look ?t (id_index e) = 0" using new by simp
    ultimately have r: "returns (bindR (if sp_count ?t < length (sp_dense ?t) then
                 bindR (arr_get (sp_dense s2) (sp_count ?t)) (\<lambda>unused.
                 bindR (flecs_sparse_get_or_create_page s2 (SPARSE_PAGE unused)) (\<lambda>s.
                 flecs_sparse_assign_index s (SPARSE_PAGE unused) unused (length (sp_dense s2) - 1)))
               else Inr s2) (\<lambda>s2. flecs_sparse_assign_index s2 (SPARSE_PAGE e) e (sp_count ?t)))
      (\<lambda>s'. ensured ?t e s' \<and> sp_look s' = (if sp_count ?t < length (sp_dense ?t)
       then (sp_look ?t)(id_index (sp_dense ?t ! sp_count ?t) := length (sp_dense ?t), id_index e := sp_count ?t)
       else (sp_look ?t)(id_index e := sp_count ?t)))" (is "returns ?M _")
      using ensure_new [OF okt(1) _ _ s2] by blast
    have eq': "flecs_sparse_ensure s 0 e = bindR ?M (\<lambda>s'. Inr (s', sp_ptr s' e, True))"
      unfolding s2_def using len pg new
      by (simp add: flecs_sparse_ensure_def get_or_create Let_def bindR_assoc del: fun_upd_apply)
    have "returns ?M (\<lambda>s'. returns (Inr (s', sp_ptr s' e, True)) (\<lambda>(s', p, is_new). ensured s e s' \<and>
        p = sp_ptr s e \<and> is_new = (\<not> sp_live s (id_index e))))"
    proof (rule returns_mono [OF r], elim conjE)
      fix x assume "ensured ?t e x"
      then have "ensured s e x" using okt(2) by blast
      then show "returns (Inr (x, sp_ptr x e, True)) (\<lambda>(s', p, is_new). ensured s e s' \<and>
        p = sp_ptr s e \<and> is_new = (\<not> sp_live s (id_index e)))"
        using new by (simp add: sp_ptr_def ensured_def sp_live_def)
    qed
    then show ?thesis by (simp only: eq' returns_bindR)
  qed
qed

lemma sp_reset_ok:
  assumes "flecs_sparse_get_page s (SPARSE_PAGE e) \<noteq> None"
  shows "returns (sp_reset s e) (\<lambda>s'. sp_look s' = sp_look s \<and> sp_dense s' = sp_dense s \<and>
    sp_count s' = sp_count s \<and> sp_size s' = sp_size s \<and> sp_max_id s' = sp_max_id s \<and>
    sp_val s' = (if sp_size s \<noteq> 0 then (sp_val s)(id_index e := 0) else sp_val s))"
  using assms by (simp add: sp_reset_def sp_put_ok look_upd(2) val_upd(2))

definition removed :: "'v::zero ecs_sparse \<Rightarrow> 64 word \<Rightarrow> 64 word \<Rightarrow> 'v ecs_sparse \<Rightarrow> bool" where
  \<comment> \<open>the id with the index of \<open>e\<close> is no longer alive; \<open>x\<close> waits at its place to be recycled\<close>
  "removed s e x s' \<longleftrightarrow> sp_ok s' \<and> sp_alive s' = {y \<in> sp_alive s. id_index y \<noteq> id_index e} \<and>
    sp_count s' = sp_count s - 1 \<and> sp_dense s' ! (sp_count s - 1) = x \<and>
    length (sp_dense s') = length (sp_dense s) \<and> sp_size s' = sp_size s \<and> sp_max_id s' = sp_max_id s \<and>
    sp_val s' = (if sp_size s \<noteq> 0 then (sp_val s)(id_index e := 0) else sp_val s)"

lemma remove_live:
  assumes ok: "sp_ok s" and live: "sp_live s (id_index e)" and x: "id_index x = id_index e"
  defines "l \<equiv> sp_look s (id_index e)" and "n \<equiv> sp_count s"
  defines "s1 \<equiv> s\<lparr>sp_dense := (sp_dense s)[l := x]\<rparr>"
  shows "returns (bindR (if l = n - 1 then Inr (s1\<lparr>sp_count := n - 1\<rparr>)
      else bindR (flecs_sparse_swap_dense s1 (SPARSE_PAGE e) l (n - 1)) (\<lambda>s. Inr (s\<lparr>sp_count := sp_count s - 1\<rparr>)))
      (\<lambda>s. sp_reset s e)) (removed s e x)"
proof -
  let ?d = "sp_dense s"
  have p: "paired (sp_look s) ?d" and n: "1 \<le> n" "n \<le> length ?d" using ok by (simp_all add: sp_ok_def n_def)
  have l: "1 \<le> l" "l < n" "l < length ?d" "id_index (?d ! l) = id_index e"
    using live n paired_back [OF p, of "id_index e"] by (auto simp: sp_live_def l_def n_def)
  have pres: "flecs_sparse_get_page s (SPARSE_PAGE e) \<noteq> None"
    using l by (intro sp_look_page) (simp add: l_def)
  have p1: "paired (sp_look s1) (sp_dense s1)"
    using paired_regen [OF p, of x l] x l by (simp add: s1_def)
  have al: "alive_ids ((?d[l := x])[l := ?d[l := x] ! (n - 1), n - 1 := x]) (n - 1) = {y \<in> sp_alive s. id_index y \<noteq> id_index e}"
  proof -
    have "alive_ids ((?d[l := x])[l := ?d[l := x] ! (n - 1), n - 1 := x]) (n - 1) = alive_ids (?d[l := x]) n - {?d[l := x] ! l}"
      using p1 l n by (intro alive_swap_remove) (simp_all add: s1_def)
    also have "\<dots> = {y \<in> sp_alive s. id_index y \<noteq> id_index e}"
    proof (rule set_eqI)
      fix y
      have pl: "paired (sp_look s) (?d[l := x])" using p1 by (simp add: s1_def)
      note iff = alive_iff_look [OF pl, of n y] alive_iff_look [OF p n(2), of y]
      show "y \<in> alive_ids (?d[l := x]) n - {?d[l := x] ! l} \<longleftrightarrow> y \<in> {y \<in> sp_alive s. id_index y \<noteq> id_index e}"
      proof (cases "id_index y = id_index e")
        case True
        then show ?thesis using iff(1) n l by (auto simp: l_def)
      next
        case False
        then have "sp_look s (id_index y) = 0 \<or> sp_look s (id_index y) \<noteq> l" "y \<noteq> x"
          using paired_back [OF p, of "id_index y"] l x by auto
        then show ?thesis
          using iff n l False by (auto simp: sp_alive_def n_def [symmetric])
      qed
    qed
    finally show ?thesis .
  qed
  have fin: "returns (sp_reset s2 e) (removed s e x)"
    if s2: "paired (sp_look s2) (sp_dense s2)" "sp_count s2 = n - 1" "sp_size s2 = sp_size s" "sp_max_id s2 = sp_max_id s"
      "sp_val s2 = sp_val s" "sp_dense s2 = (?d[l := x])[l := ?d[l := x] ! (n - 1), n - 1 := x]"
      "flecs_sparse_get_page s2 (SPARSE_PAGE e) \<noteq> None" for s2
  proof (rule returns_mono [OF sp_reset_ok [OF s2(7)]], elim conjE)
    fix s3 assume s3: "sp_look s3 = sp_look s2" "sp_dense s3 = sp_dense s2" "sp_count s3 = sp_count s2"
      "sp_size s3 = sp_size s2" "sp_max_id s3 = sp_max_id s2"
      "sp_val s3 = (if sp_size s2 \<noteq> 0 then (sp_val s2)(id_index e := 0) else sp_val s2)"
    have len: "length (sp_dense s3) = length ?d" "sp_dense s3 ! (n - 1) = x"
      using n l by (simp_all add: s3(2) s2(6))
    have "sp_alive s3 = {y \<in> sp_alive s. id_index y \<noteq> id_index e}"
      unfolding sp_alive_def [of s3] s3(2,3) s2(2,6) by (rule al)
    moreover have "1 \<le> n - 1" "n - 1 \<le> length ?d" using n l by auto
    then have "sp_ok s3"
      unfolding sp_ok_def len(1) using s2(1,2) s3(1-3) by simp
    ultimately show "removed s e x s3"
      unfolding removed_def using s3 s2 len n_def by simp
  qed
  show ?thesis
  proof (cases "l = n - 1")
    case True
    have "returns (sp_reset (s1\<lparr>sp_count := n - 1\<rparr>) e) (removed s e x)"
      using p1 pres l True by (intro fin) (simp_all add: s1_def)
    with True show ?thesis by simp
  next
    case False
    have at: "sp_dense s1 ! l = x" using l by (simp add: s1_def)
    have "returns (flecs_sparse_swap_dense s1 (SPARSE_PAGE e) l (n - 1)) (\<lambda>s'.
        returns (sp_reset (s'\<lparr>sp_count := sp_count s' - 1\<rparr>) e) (removed s e x))"
    proof (rule returns_mono [OF swap_dense_ok [OF p1]])
      show "1 \<le> l" "l < length (sp_dense s1)" "1 \<le> n - 1" "n - 1 < length (sp_dense s1)"
        "id_index e = id_index (sp_dense s1 ! l)" using l n False x by (simp_all add: s1_def)
      fix s' assume "sp_look s' = (sp_look s1)(id_index (sp_dense s1 ! l) := n - 1, id_index (sp_dense s1 ! (n - 1)) := l) \<and>
        sp_dense s' = (sp_dense s1)[l := sp_dense s1 ! (n - 1), n - 1 := sp_dense s1 ! l] \<and>
        paired (sp_look s') (sp_dense s') \<and> sp_val s' = sp_val s1 \<and> sp_count s' = sp_count s1 \<and>
        sp_size s' = sp_size s1 \<and> sp_max_id s' = sp_max_id s1"
      then have h: "sp_look s' = (sp_look s1)(id_index (sp_dense s1 ! l) := n - 1, id_index (sp_dense s1 ! (n - 1)) := l)"
        "sp_dense s' = (sp_dense s1)[l := sp_dense s1 ! (n - 1), n - 1 := sp_dense s1 ! l]"
        "paired (sp_look s') (sp_dense s')" "sp_val s' = sp_val s1" "sp_count s' = sp_count s1"
        "sp_size s' = sp_size s1" "sp_max_id s' = sp_max_id s1" by - (elim conjE, assumption)+
      have s': "sp_look s' = (sp_look s)(id_index e := n - 1, id_index (sp_dense s1 ! (n - 1)) := l)"
        "sp_dense s' = (?d[l := x])[l := ?d[l := x] ! (n - 1), n - 1 := x]"
        "sp_val s' = sp_val s" "sp_count s' = n" "sp_size s' = sp_size s" "sp_max_id s' = sp_max_id s"
        using h(1,2,4-7) unfolding at x by (simp_all add: s1_def n_def)
      have "sp_look s' (id_index e) \<noteq> 0" using s'(1) l False by simp
      then have "flecs_sparse_get_page s' (SPARSE_PAGE e) \<noteq> None" by (rule sp_look_page)
      then show "returns (sp_reset (s'\<lparr>sp_count := sp_count s' - 1\<rparr>) e) (removed s e x)"
        using h(3) s' by (intro fin) simp_all
    qed
    with False show ?thesis by simp
  qed
qed

lemma sp_remove_ok:
  assumes ok: "sp_ok s"
  shows "returns (flecs_sparse_remove s 0 e) (\<lambda>(s', r). r = (sp_look s (id_index e) \<noteq> 0) \<and> sp_ok s' \<and>
    sp_alive s' = {y \<in> sp_alive s. id_index y \<noteq> id_index e} \<and> sp_size s' = sp_size s \<and>
    sp_val s' = (if sp_size s \<noteq> 0 \<and> r then (sp_val s)(id_index e := 0) else sp_val s))"
proof -
  let ?l = "sp_look s (id_index e)" and ?n = "sp_count s"
  have dead: "{y \<in> sp_alive s. id_index y \<noteq> id_index e} = sp_alive s" if "\<not> sp_live s (id_index e)"
  proof -
    have "id_index e \<notin> id_index ` sp_alive s" using sp_live_index [OF ok, of "id_index e"] that by simp
    then have "id_index y \<noteq> id_index e" if "y \<in> sp_alive s" for y using that by (metis imageI)
    then show ?thesis by blast
  qed
  show ?thesis
  proof (cases "?l = 0")
    case True
    then have "\<not> sp_live s (id_index e)" by (simp add: sp_live_def)
    with True ok dead show ?thesis
      by (auto simp: flecs_sparse_remove_def pg_sparse_look split: option.splits)
  next
    case False
    obtain page where page: "flecs_sparse_get_page s (SPARSE_PAGE e) = Some page"
      using sp_look_page [OF False] by blast
    note pg = pg_sparse_look [OF page]
    show ?thesis
    proof (cases "?l < ?n")
      case True
      let ?x = "sp_dense s ! ?l"
      have p: "paired (sp_look s) (sp_dense s)" "?n \<le> length (sp_dense s)" using ok by (simp_all add: sp_ok_def)
      have live: "sp_live s (id_index e)" using False True by (simp add: sp_live_def)
      have ix: "id_index ?x = id_index e" using paired_back [OF p(1) False] .
      have s1: "s\<lparr>sp_dense := (sp_dense s)[?l := ?x]\<rparr> = s" by simp
      from remove_live [OF ok live ix, unfolded s1]
      have R: "returns (bindR (if ?l = ?n - 1 then Inr (s\<lparr>sp_count := ?n - 1\<rparr>)
          else bindR (flecs_sparse_swap_dense s (SPARSE_PAGE e) ?l (?n - 1)) (\<lambda>s. Inr (s\<lparr>sp_count := sp_count s - 1\<rparr>)))
        (\<lambda>s. sp_reset s e)) (\<lambda>s'. returns (Inr (s', True)) (\<lambda>(s', r). r = (?l \<noteq> 0) \<and> sp_ok s' \<and>
          sp_alive s' = {y \<in> sp_alive s. id_index y \<noteq> id_index e} \<and> sp_size s' = sp_size s \<and>
          sp_val s' = (if sp_size s \<noteq> 0 \<and> r then (sp_val s)(id_index e := 0) else sp_val s)))"
        by (rule returns_mono) (use False in \<open>simp add: removed_def\<close>)
      have eq: "flecs_sparse_remove s 0 e = bindR (bindR (if ?l = ?n - 1 then Inr (s\<lparr>sp_count := ?n - 1\<rparr>)
          else bindR (flecs_sparse_swap_dense s (SPARSE_PAGE e) ?l (?n - 1)) (\<lambda>s. Inr (s\<lparr>sp_count := sp_count s - 1\<rparr>)))
        (\<lambda>s. sp_reset s e)) (\<lambda>s'. Inr (s', True))"
        using page pg False True by (simp add: flecs_sparse_remove_def Let_def bindR_assoc)
      show ?thesis unfolding eq by (subst returns_bindR) (rule R)
    next
      case F: False
      have "?l \<noteq> ?n - 1" using F False ok by (auto simp: sp_ok_def)
      have eq: "flecs_sparse_remove s 0 e = bindR (sp_reset s e) (\<lambda>s'. Inr (s', True))"
        using page pg False F \<open>?l \<noteq> ?n - 1\<close> by (simp add: flecs_sparse_remove_def Let_def)
      have nl: "\<not> sp_live s (id_index e)" using F by (simp add: sp_live_def)
      have pr: "flecs_sparse_get_page s (SPARSE_PAGE e) \<noteq> None" using page by simp
      show ?thesis unfolding eq
      proof (subst returns_bindR, rule returns_mono [OF sp_reset_ok [OF pr]], elim conjE)
        fix s' assume s': "sp_look s' = sp_look s" "sp_dense s' = sp_dense s" "sp_count s' = sp_count s"
          "sp_size s' = sp_size s" "sp_val s' = (if sp_size s \<noteq> 0 then (sp_val s)(id_index e := 0) else sp_val s)"
        have "sp_ok s'" using ok s' by (simp add: sp_ok_def)
        moreover have "sp_alive s' = sp_alive s" using s' by (simp add: sp_alive_def)
        ultimately show "returns (Inr (s', True)) (\<lambda>(s', r). r = (?l \<noteq> 0) \<and> sp_ok s' \<and>
          sp_alive s' = {y \<in> sp_alive s. id_index y \<noteq> id_index e} \<and> sp_size s' = sp_size s \<and>
          sp_val s' = (if sp_size s \<noteq> 0 \<and> r then (sp_val s)(id_index e := 0) else sp_val s))"
          using s' False dead [OF nl] by simp
      qed
    qed
  qed
qed

lemma remove_w_gen_ok:
  assumes ok: "sp_ok s"
  shows "if e \<in> sp_alive s
    then returns (flecs_sparse_remove_w_gen s 0 e) (\<lambda>(s', r). r \<and> removed s e (ECS_GENERATION_INC e) s')
    else if sp_live s (id_index e) then flecs_sparse_remove_w_gen s 0 e = Inl ECS_INVALID_PARAMETER
    else sp_look s (id_index e) = 0 \<longrightarrow> flecs_sparse_remove_w_gen s 0 e = Inr (s, False)"
proof -
  let ?l = "sp_look s (id_index e)" and ?n = "sp_count s" and ?x = "ECS_GENERATION_INC e"
  have p: "paired (sp_look s) (sp_dense s)" "?n \<le> length (sp_dense s)" using ok by (simp_all add: sp_ok_def)
  have iff: "e \<in> sp_alive s \<longleftrightarrow> ?l \<noteq> 0 \<and> ?l < ?n \<and> sp_dense s ! ?l = e"
    unfolding sp_alive_def by (rule alive_iff_look [OF p])
  show ?thesis
  proof (cases "?l = 0")
    case True
    then show ?thesis using iff
      by (auto simp: flecs_sparse_remove_w_gen_def pg_sparse_look sp_live_def split: option.splits)
  next
    case False
    obtain page where page: "flecs_sparse_get_page s (SPARSE_PAGE e) = Some page"
      using sp_look_page [OF False] by blast
    note pg = pg_sparse_look [OF page]
    have lt: "?l < length (sp_dense s)" by (rule paired_bound [OF p(1)])
    show ?thesis
    proof (cases "e \<in> sp_alive s")
      case True
      with iff have l: "?l < ?n" "sp_dense s ! ?l = e" by auto
      then have live: "sp_live s (id_index e)" using False by (simp add: sp_live_def)
      let ?s1 = "s\<lparr>sp_dense := (sp_dense s)[?l := ?x]\<rparr>"
      from remove_live [OF ok live id_index_GENERATION_INC]
      have "returns (bindR (if ?l = ?n - 1 then Inr (?s1\<lparr>sp_count := ?n - 1\<rparr>)
          else bindR (flecs_sparse_swap_dense ?s1 (SPARSE_PAGE e) ?l (?n - 1)) (\<lambda>s. Inr (s\<lparr>sp_count := sp_count s - 1\<rparr>)))
        (\<lambda>s. sp_reset s e)) (\<lambda>s'. returns (Inr (s', True)) (\<lambda>(s', r). r \<and> removed s e ?x s'))"
        by (rule returns_mono) simp
      then show ?thesis using page pg False l True lt
        by (cases "?l = ?n - 1") (simp_all add: flecs_sparse_remove_w_gen_def Let_def bindR_assoc)
    next
      case F: False
      then show ?thesis using page pg False lt iff
        by (auto simp: flecs_sparse_remove_w_gen_def Let_def sp_live_def)
    qed
  qed
qed

definition sp_room :: "'v ecs_sparse \<Rightarrow> bool" where
  \<comment> \<open>there is an id to recycle, or the next index was never used\<close>
  "sp_room s \<longleftrightarrow> sp_count s < length (sp_dense s) \<or> sp_look s (id_index (sp_max_id s + 1)) = 0"

lemma new_index_ok:
  assumes ok: "sp_ok s" and room: "sp_room s"
  shows "returns (flecs_sparse_new_index s) (\<lambda>(s', e). sp_ok s' \<and> id_index e \<notin> id_index ` sp_alive s \<and>
    sp_alive s' = insert e (sp_alive s) \<and> sp_val s' = sp_val s \<and> sp_size s' = sp_size s \<and>
    sp_look s' (id_index e) \<noteq> 0 \<and>
    e = (if sp_count s < length (sp_dense s) then sp_dense s ! sp_count s else sp_max_id s + 1))"
proof -
  let ?n = "sp_count s" and ?d = "sp_dense s" and ?e = "sp_max_id s + 1"
  have p: "paired (sp_look s) ?d" and n: "1 \<le> ?n" "?n \<le> length ?d" using ok by (simp_all add: sp_ok_def)
  show ?thesis
  proof (cases "?n < length ?d")
    case True
    have lk: "sp_look s (id_index (?d ! ?n)) = ?n" by (rule paired_look [OF p n(1) True])
    then have "\<not> sp_live s (id_index (?d ! ?n))" by (simp add: sp_live_def)
    then have "id_index (?d ! ?n) \<notin> id_index ` sp_alive s" using sp_live_index [OF ok] by blast
    moreover have "alive_ids ?d (?n + 1) = insert (?d ! ?n) (alive_ids ?d ?n)"
      using alive_ids_extend [of ?n 1 ?d] n True by (simp add: take_Suc hd_drop_conv_nth)
    ultimately show ?thesis
      using True n p lk by (simp add: flecs_sparse_new_index_def Let_def sp_ok_def sp_alive_def)
  next
    case False
    then have eq: "length ?d = ?n" and new: "sp_look s (id_index ?e) = 0" using n room by (auto simp: sp_room_def)
    let ?s2 = "s\<lparr>sp_count := ?n + 1, sp_max_id := ?e, sp_dense := ?d @ [0]\<rparr>"
    let ?t = "sp_touch ?s2 (SPARSE_PAGE ?e)"
    obtain page where page: "flecs_sparse_get_page ?t (SPARSE_PAGE ?e) = Some page"
      using sp_touch_present [of ?s2] by blast
    have pg: "sp_page ?t (SPARSE_PAGE ?e) = Inr page" "pg_sparse page (SPARSE_OFFSET ?e) = 0"
      using sp_page_ok [OF page] pg_sparse_look [OF page] new by simp_all
    have "flecs_sparse_new_index s = Inr (sp_assign ?t ?e ?n, ?e)"
      using eq pg sp_touch_present [of ?s2 "SPARSE_PAGE ?e"]
      by (simp add: flecs_sparse_new_index_def flecs_sparse_create_id_def Let_def get_or_create assign_index)
    moreover have "sp_look (sp_assign ?t ?e ?n) = (sp_look s)(id_index ?e := ?n)"
      using sp_touch_present [of ?s2 "SPARSE_PAGE ?e"] by (subst sp_look_assign) (rule sp_touch_present, simp)
    moreover have "id_index ?e \<notin> id_index ` sp_alive s"
      using sp_live_index [OF ok, of "id_index ?e"] new by (simp add: sp_live_def)
    moreover have "alive_ids (?d @ [?e]) (?n + 1) = insert ?e (alive_ids ?d ?n)"
      using alive_ids_extend [of ?n 1 "?d @ [?e]"] alive_ids_append [of ?n ?d "[?e]"] n eq by simp
    ultimately show ?thesis
      using paired_append [OF p new] eq n by (simp add: sp_ok_def sp_alive_def list_update_append)
  qed
qed


section \<open>Sequences of calls\<close>

datatype 'v sparse_op = Sp_Ensure "64 word" | Sp_Write "64 word" 'v | Sp_Remove "64 word"

definition sp_store :: "'v ecs_sparse \<Rightarrow> 32 word option \<Rightarrow> 'v \<Rightarrow> 'v ecs_sparse result" where
  \<comment> \<open>a store through the pointer that \<open>flecs_sparse_ensure\<close> returned\<close>
  "sp_store s ptr v = (case ptr of None \<Rightarrow> Inl Bad_Access
    | Some k \<Rightarrow> sp_put s (page_index 6 k) (\<lambda>page. page\<lparr>pg_data := (pg_data page)(page_offset 6 k := v)\<rparr>))"

fun sp_step :: "'v::zero ecs_sparse \<Rightarrow> 'v sparse_op \<Rightarrow> 'v ecs_sparse result" where
  "sp_step s (Sp_Ensure e) = bindR (flecs_sparse_ensure s 0 e) (\<lambda>(s, _, _). Inr s)"
| "sp_step s (Sp_Write e v) = bindR (flecs_sparse_ensure s 0 e) (\<lambda>(s, p, _). sp_store s p v)"
| "sp_step s (Sp_Remove e) = bindR (flecs_sparse_remove s 0 e) (\<lambda>(s, _). Inr s)"

fun sp_spec :: "(32 word \<rightharpoonup> 'v::zero) \<Rightarrow> 'v sparse_op \<Rightarrow> (32 word \<rightharpoonup> 'v)" where
  "sp_spec m (Sp_Ensure e) = (if m (id_index e) = None then m(id_index e \<mapsto> 0) else m)"
| "sp_spec m (Sp_Write e v) = m(id_index e \<mapsto> v)"
| "sp_spec m (Sp_Remove e) = m(id_index e := None)"

definition sp_inv :: "'v::zero ecs_sparse \<Rightarrow> bool" where
  "sp_inv s \<longleftrightarrow> sp_ok s \<and> sp_zero s \<and> sp_size s \<noteq> 0"

lemma ensured_live:
  assumes ok: "sp_ok s" and e: "ensured s e s'"
  shows "sp_live s' k \<longleftrightarrow> sp_live s k \<or> k = id_index e"
proof -
  have "sp_ok s'" "sp_alive s' = (if sp_live s (id_index e) then sp_alive s else insert e (sp_alive s))"
    using e by (simp_all add: ensured_def)
  then show ?thesis using sp_live_index [OF ok] by (auto simp: sp_live_index)
qed

lemma ensured_abs:
  assumes inv: "sp_inv s" and e: "ensured s e s'"
  shows "sp_inv s'" "sp_abs s' = sp_spec (sp_abs s) (Sp_Ensure e)"
proof -
  have ok: "sp_ok s" and z: "\<And>k. \<not> sp_live s k \<Longrightarrow> sp_val s k = 0" using inv by (simp_all add: sp_inv_def sp_zero_def)
  note live = ensured_live [OF ok e]
  show "sp_inv s'" using e inv live by (auto simp: sp_inv_def sp_zero_def ensured_def)
  show "sp_abs s' = sp_spec (sp_abs s) (Sp_Ensure e)"
    using e live z by (auto simp: sp_abs_def ensured_def fun_eq_iff)
qed

lemma ensured_write:
  assumes inv: "sp_inv s" and e: "ensured s e s'"
  shows "returns (sp_store s' (sp_ptr s e) v) (\<lambda>s'. sp_inv s' \<and> sp_abs s' = sp_spec (sp_abs s) (Sp_Write e v))"
proof -
  have ok: "sp_ok s" and sz: "sp_size s \<noteq> 0" using inv by (simp_all add: sp_inv_def)
  note live = ensured_live [OF ok e]
  have "sp_look s' (id_index e) \<noteq> 0" using live [of "id_index e"] by (simp add: sp_live_def)
  then have pres: "flecs_sparse_get_page s' (SPARSE_PAGE e) \<noteq> None" by (rule sp_look_page)
  let ?f = "\<lambda>page. page\<lparr>pg_data := (pg_data page)(SPARSE_OFFSET e := v)\<rparr>"
  let ?t = "sp_upd s' (SPARSE_PAGE e) ?f"
  have t: "sp_look ?t = sp_look s'" "sp_val ?t = (sp_val s')(id_index e := v)"
    using look_upd(2) val_upd(2) [OF pres] by simp_all
  have lt: "sp_live ?t = sp_live s'" by (rule sp_live_fields) (simp_all add: t)
  have "sp_store s' (sp_ptr s e) v = Inr ?t"
    using sz sp_put_ok [OF pres] by (simp add: sp_store_def sp_ptr_def SPARSE_PAGE_def SPARSE_OFFSET_def)
  moreover have "sp_inv ?t"
    using inv e live lt t by (auto simp: sp_inv_def sp_zero_def ensured_def sp_ok_def)
  moreover have "sp_abs ?t = sp_spec (sp_abs s) (Sp_Write e v)"
    using e live lt t by (auto simp: sp_abs_def fun_eq_iff ensured_def)
  ultimately show ?thesis by simp
qed

lemma remove_abs:
  assumes inv: "sp_inv s"
  shows "returns (flecs_sparse_remove s 0 e) (\<lambda>(s', r). sp_inv s' \<and> sp_abs s' = sp_spec (sp_abs s) (Sp_Remove e))"
proof -
  have ok: "sp_ok s" and z: "\<And>k. \<not> sp_live s k \<Longrightarrow> sp_val s k = 0" and sz: "0 < sp_size s"
    using inv by (simp_all add: sp_inv_def sp_zero_def)
  show ?thesis
  proof (rule returns_mono [OF sp_remove_ok [OF ok]], clarify)
    fix s' r assume s': "sp_ok s'" "sp_alive s' = {y \<in> sp_alive s. id_index y \<noteq> id_index e}" "sp_size s' = sp_size s"
      "sp_val s' = (if sp_size s \<noteq> 0 \<and> sp_look s (id_index e) \<noteq> 0 then (sp_val s)(id_index e := 0) else sp_val s)"
    have live: "sp_live s' k \<longleftrightarrow> sp_live s k \<and> k \<noteq> id_index e" for k
      unfolding sp_live_index [OF s'(1)] sp_live_index [OF ok] s'(2) by auto
    have v: "sp_val s' k = (if k = id_index e then 0 else sp_val s k)" for k
      using s'(4) sz z [of "id_index e"] by (auto simp: sp_live_def)
    have "sp_inv s'" using s'(1,3) sz live v z by (simp add: sp_inv_def sp_zero_def)
    moreover have "sp_abs s' = (sp_abs s)(id_index e := None)" using live v by (auto simp: sp_abs_def fun_eq_iff)
    ultimately show "sp_inv s' \<and> sp_abs s' = sp_spec (sp_abs s) (Sp_Remove e)" by simp
  qed
qed

interpretation sparse: simulation sp_step sp_inv sp_abs sp_spec "\<lambda>_ _. True"
proof
  fix s :: "'a::zero ecs_sparse" and x
  assume inv: "sp_inv s"
  then have ok: "sp_ok s" by (simp add: sp_inv_def)
  show "returns (sp_step s x) (\<lambda>s'. sp_inv s' \<and> sp_abs s' = sp_spec (sp_abs s) x)"
  proof (cases x)
    case (Sp_Ensure e)
    show ?thesis unfolding Sp_Ensure sp_step.simps returns_bindR
      by (rule returns_mono [OF sp_ensure_ok [OF ok]]) (use ensured_abs [OF inv] in auto)
  next
    case (Sp_Write e v)
    show ?thesis unfolding Sp_Write sp_step.simps returns_bindR
      by (rule returns_mono [OF sp_ensure_ok [OF ok]]) (use ensured_write [OF inv] in auto)
  next
    case (Sp_Remove e)
    show ?thesis unfolding Sp_Remove sp_step.simps returns_bindR
      by (rule returns_mono [OF remove_abs [OF inv]]) auto
  qed
qed

lemma sp_init_look: "sp_look (flecs_sparse_init sz) = (\<lambda>_. 0)"
  by (simp add: fun_eq_iff sp_look_def flecs_sparse_get_page_def flecs_sparse_init_def)

lemma sp_init_val: "sp_val (flecs_sparse_init sz) = (\<lambda>_. 0)"
  by (simp add: fun_eq_iff sp_val_def flecs_sparse_get_page_def flecs_sparse_init_def)

lemma sp_inv_init: "sz \<noteq> 0 \<Longrightarrow> sp_inv (flecs_sparse_init sz)"
  by (simp add: sp_inv_def sp_ok_def sp_zero_def paired_def sp_init_look sp_init_val)
    (simp add: flecs_sparse_init_def)

lemma sp_abs_init: "sp_abs (flecs_sparse_init sz) = Map.empty"
  by (simp add: fun_eq_iff sp_abs_def sp_live_def sp_init_look)

lemma sp_count_dom:
  assumes ok: "sp_ok s"
  shows "flecs_sparse_count s = card (dom (sp_abs s))"
proof -
  have p: "paired (sp_look s) (sp_dense s)" and n: "1 \<le> sp_count s" "sp_count s \<le> length (sp_dense s)"
    using ok by (simp_all add: sp_ok_def)
  have "dom (sp_abs s) = id_index ` sp_alive s"
    using sp_live_index [OF ok] by (auto simp: sp_abs_def dom_def)
  moreover have "inj_on id_index (sp_alive s)"
    using alive_unique [OF p] by (auto simp: inj_on_def sp_alive_def)
  ultimately show ?thesis using card_alive_ids [OF p n] n
    by (simp add: card_image flecs_sparse_count_def sp_alive_def)
qed


section \<open>Properties\<close>

text \<open>C33: A sparse set with elements implements a map from indices to values: any sequence of calls of
  \<open>flecs_sparse_ensure\<close> (with or without a store through the pointer it returns) and
  \<open>flecs_sparse_remove\<close> on a new set returns, without an aborting assertion or an access out of
  bounds, a set that stands for the map the sequence builds, in which a fresh element is zero;
  \<open>has\<close>, \<open>is_alive\<close>, \<open>get\<close> and \<open>count\<close> then read that map.\<close>
theorem flecs_sparse_implements_map:
  assumes "sz \<noteq> 0"
  shows "returns (run_ops sp_step (flecs_sparse_init sz) ops) (\<lambda>s. let m = foldl sp_spec Map.empty ops in
    sp_abs s = m \<and>
    (\<forall>e. flecs_sparse_has s e = (m (id_index e) \<noteq> None) \<and> flecs_sparse_is_alive s e = (m (id_index e) \<noteq> None) \<and>
      flecs_sparse_get s (sp_size s) e = Inr (if m (id_index e) = None then None else Some (id_index e))) \<and>
    flecs_sparse_count s = card (dom m))"
proof -
  let ?m = "foldl sp_spec Map.empty ops"
  have "returns (run_ops sp_step (flecs_sparse_init sz) ops) (\<lambda>s. sp_inv s \<and> sp_abs s = foldl sp_spec (sp_abs (flecs_sparse_init sz)) ops)"
    by (rule sparse.run_sim [OF sp_inv_init [OF assms]]) simp
  then show ?thesis unfolding sp_abs_init
  proof (rule returns_mono, elim conjE)
    fix s assume s: "sp_inv s" "sp_abs s = ?m"
    have "sp_live s k \<longleftrightarrow> ?m k \<noteq> None" for k unfolding s(2) [symmetric] by (simp add: sp_abs_def)
    moreover have "flecs_sparse_count s = card (dom ?m)"
      using sp_count_dom [of s] s by (simp add: sp_inv_def)
    ultimately show "let m = ?m in sp_abs s = m \<and>
      (\<forall>e. flecs_sparse_has s e = (m (id_index e) \<noteq> None) \<and> flecs_sparse_is_alive s e = (m (id_index e) \<noteq> None) \<and>
        flecs_sparse_get s (sp_size s) e = Inr (if m (id_index e) = None then None else Some (id_index e))) \<and>
      flecs_sparse_count s = card (dom m)"
      using s by (simp add: Let_def has_live sp_is_alive_live get_live sp_ptr_def sp_inv_def del: not_None_eq)
  qed
qed

theorem flecs_sparse_implements_map_witness:
  "returns (run_ops sp_step (flecs_sparse_init 4) [Sp_Write 7 5, Sp_Ensure (8 :: 64 word), Sp_Remove 7])
    (\<lambda>s. sp_abs s = [8 \<mapsto> (0 :: nat)] \<and> flecs_sparse_count s = 1)"
proof (rule returns_mono [OF flecs_sparse_implements_map])
  show "(4 :: nat) \<noteq> 0" by simp
next
  have m: "foldl sp_spec Map.empty [Sp_Write 7 5, Sp_Ensure (8 :: 64 word), Sp_Remove 7] = [8 \<mapsto> (0 :: nat)]"
    by (simp add: id_index_def fun_eq_iff)
  fix s :: "nat ecs_sparse"
  assume "let m = foldl sp_spec Map.empty [Sp_Write 7 5, Sp_Ensure (8 :: 64 word), Sp_Remove 7] in
    sp_abs s = m \<and>
    (\<forall>e. flecs_sparse_has s e = (m (id_index e) \<noteq> None) \<and> flecs_sparse_is_alive s e = (m (id_index e) \<noteq> None) \<and>
      flecs_sparse_get s (sp_size s) e = Inr (if m (id_index e) = None then None else Some (id_index e))) \<and>
    flecs_sparse_count s = card (dom m)"
  then show "sp_abs s = [8 \<mapsto> 0] \<and> flecs_sparse_count s = 1" unfolding m Let_def by simp
qed

text \<open>C34: \<open>flecs_sparse_remove_w_gen\<close> removes an id that is alive and leaves its successor in the next
  generation as the one that \<open>flecs_sparse_new_id\<close> hands out next, alive again at the same index with
  zeroed memory; an id whose index is alive in another generation is refused with
  \<open>ECS_INVALID_PARAMETER\<close>.\<close>
theorem flecs_sparse_recycles:
  assumes ok: "sp_ok s" and e: "id_index e \<in> id_index ` sp_alive s"
  shows "if e \<in> sp_alive s
    then returns (bindR (flecs_sparse_remove_w_gen s 0 e) (\<lambda>(s, r). flecs_sparse_new_id s)) (\<lambda>(s', e').
      e' = ECS_GENERATION_INC e \<and> sp_ok s' \<and> sp_alive s' = insert e' (sp_alive s - {e}) \<and>
      sp_val s' = (if sp_size s = 0 then sp_val s else (sp_val s)(id_index e := 0)))
    else flecs_sparse_remove_w_gen s 0 e = Inl ECS_INVALID_PARAMETER"
proof (cases "e \<in> sp_alive s")
  case True
  have p: "paired (sp_look s) (sp_dense s)" and n: "1 \<le> sp_count s" "sp_count s \<le> length (sp_dense s)"
    using ok by (simp_all add: sp_ok_def)
  have rest: "{y \<in> sp_alive s. id_index y \<noteq> id_index e} = sp_alive s - {e}"
    using alive_unique [OF p, of _ "sp_count s" e] True by (auto simp: sp_alive_def)
  have ge: "2 \<le> sp_count s" using True by (auto simp: sp_alive_def in_alive_ids)
  have "returns (flecs_sparse_remove_w_gen s 0 e) (\<lambda>(s', r). r \<and> removed s e (ECS_GENERATION_INC e) s')"
    using remove_w_gen_ok [OF ok, of e] True by simp
  then have "returns (bindR (flecs_sparse_remove_w_gen s 0 e) (\<lambda>(s, r). flecs_sparse_new_id s)) (\<lambda>(s', e').
      e' = ECS_GENERATION_INC e \<and> sp_ok s' \<and> sp_alive s' = insert e' (sp_alive s - {e}) \<and>
      sp_val s' = (if sp_size s = 0 then sp_val s else (sp_val s)(id_index e := 0)))"
    unfolding returns_bindR
  proof (rule returns_mono, clarify)
    fix t r assume r: "removed s e (ECS_GENERATION_INC e) t"
    then have t: "sp_ok t" "sp_alive t = sp_alive s - {e}" "sp_count t = sp_count s - 1"
      "sp_dense t ! (sp_count s - 1) = ECS_GENERATION_INC e" "length (sp_dense t) = length (sp_dense s)"
      "sp_val t = (if sp_size s = 0 then sp_val s else (sp_val s)(id_index e := 0))"
      by (simp_all add: removed_def rest)
    have lt: "sp_count t < length (sp_dense t)" using t n ge by simp
    show "returns (flecs_sparse_new_id t) (\<lambda>(s', e').
      e' = ECS_GENERATION_INC e \<and> sp_ok s' \<and> sp_alive s' = insert e' (sp_alive s - {e}) \<and>
      sp_val s' = (if sp_size s = 0 then sp_val s else (sp_val s)(id_index e := 0)))"
      unfolding flecs_sparse_new_id_def
      by (rule returns_mono [OF new_index_ok [OF t(1)]]) (use lt t in \<open>auto simp: sp_room_def\<close>)
  qed
  with True show ?thesis by simp
next
  case False
  have live: "sp_live s (id_index e)" unfolding sp_live_index [OF ok] by (rule e)
  show ?thesis using remove_w_gen_ok [OF ok, of e] unfolding if_not_P [OF False] if_P [OF live] .
qed

definition sp_example :: "nat ecs_sparse" where
  "sp_example = \<lparr>sp_dense = [0, 0x300000001], sp_pages = [Some \<lparr>pg_sparse = (\<lambda>_. 0)(1 := 1), pg_data = (\<lambda>_. 0)(1 := 9)\<rparr>],
    sp_size = 4, sp_count = 2, sp_max_id = 1\<rparr>"

lemma sp_example_ok: "sp_ok sp_example" "sp_alive sp_example = {0x300000001}"
proof -
  have k: "page_index 6 k = 0 \<and> page_offset 6 k = Suc 0 \<longleftrightarrow> k = 1" for k :: "32 word"
    using page_cell_eq [of 6 k 1] by (simp add: page_index_div page_offset_mod)
  have look: "sp_look sp_example = (\<lambda>_. 0)(1 := 1)"
  proof
    fix j show "sp_look sp_example j = ((\<lambda>_. 0)(1 := 1)) j"
      unfolding fun_upd_apply k [symmetric]
      by (auto simp: sp_look_def flecs_sparse_get_page_def sp_example_def not_le)
  qed
  show "sp_ok sp_example" unfolding sp_ok_def look
    by (auto simp: sp_example_def paired_def id_index_def nth_Cons split: nat.splits)
  show "sp_alive sp_example = {0x300000001}"
    by (simp add: sp_alive_def sp_example_def alive_ids_def numeral_2_eq_2 atLeastLessThanSuc)
qed

theorem flecs_sparse_recycles_witness:
  "returns (bindR (flecs_sparse_remove_w_gen sp_example 0 0x300000001) (\<lambda>(s, r). flecs_sparse_new_id s))
    (\<lambda>(s', e'). e' = 0x400000001 \<and> sp_alive s' = {0x400000001} \<and> sp_val s' 1 = 0)"
proof -
  have inc: "ECS_GENERATION_INC 0x300000001 = 0x400000001" by code_simp
  have "returns (bindR (flecs_sparse_remove_w_gen sp_example 0 0x300000001) (\<lambda>(s, r). flecs_sparse_new_id s)) (\<lambda>(s', e').
      e' = ECS_GENERATION_INC 0x300000001 \<and> sp_ok s' \<and> sp_alive s' = insert e' (sp_alive sp_example - {0x300000001}) \<and>
      sp_val s' = (if sp_size sp_example = 0 then sp_val sp_example else (sp_val sp_example)(id_index 0x300000001 := 0)))"
    using flecs_sparse_recycles [of sp_example "0x300000001"] by (simp add: sp_example_ok)
  then show ?thesis
    by (simp, elim returns_mono) (auto simp: inc sp_example_ok(2) id_index_def, auto simp: sp_example_def)
qed

text \<open>C35: \<open>flecs_sparse_new_id\<close> issues an id whose index is not alive: the first one that waits to be
  recycled, or else the successor of \<open>max_id\<close>. When the index of that successor is already in use the
  call aborts with \<open>ECS_INTERNAL_ERROR\<close>. \<open>max_id\<close> starts at \<open>UINT64_MAX\<close>, which \<open>flecs_sparse_ensure\<close>
  never raises, so this happens on a new set after \<open>flecs_sparse_ensure\<close> with index 0.\<close>
theorem flecs_sparse_new_id_correct:
  assumes ok: "sp_ok s"
  shows "if sp_count s < length (sp_dense s) \<or> sp_look s (id_index (sp_max_id s + 1)) = 0
    then returns (flecs_sparse_new_id s) (\<lambda>(s', e). sp_ok s' \<and> id_index e \<notin> id_index ` sp_alive s \<and>
      sp_alive s' = insert e (sp_alive s) \<and> sp_val s' = sp_val s \<and>
      e = (if sp_count s < length (sp_dense s) then sp_dense s ! sp_count s else sp_max_id s + 1))
    else flecs_sparse_new_id s = Inl ECS_INTERNAL_ERROR"
proof (cases "sp_room s")
  case True
  have "returns (flecs_sparse_new_id s) (\<lambda>(s', e). sp_ok s' \<and> id_index e \<notin> id_index ` sp_alive s \<and>
      sp_alive s' = insert e (sp_alive s) \<and> sp_val s' = sp_val s \<and>
      e = (if sp_count s < length (sp_dense s) then sp_dense s ! sp_count s else sp_max_id s + 1))"
    unfolding flecs_sparse_new_id_def by (rule returns_mono [OF new_index_ok [OF ok True]]) auto
  with True show ?thesis by (simp add: sp_room_def)
next
  case False
  then have n: "sp_count s = length (sp_dense s)" and l: "sp_look s (id_index (sp_max_id s + 1)) \<noteq> 0"
    using ok by (auto simp: sp_room_def sp_ok_def)
  let ?e = "sp_max_id s + 1"
  obtain page where page: "flecs_sparse_get_page s (SPARSE_PAGE ?e) = Some page" using sp_look_page [OF l] by blast
  have "flecs_sparse_new_id s = Inl ECS_INTERNAL_ERROR"
    using n l page pg_sparse_look [OF page] sp_page_ok [of "s\<lparr>sp_count := sp_count s + 1, sp_max_id := ?e, sp_dense := sp_dense s @ [0]\<rparr>"]
    by (simp add: flecs_sparse_new_id_def flecs_sparse_new_index_def flecs_sparse_create_id_def
        flecs_sparse_get_or_create_page_def Let_def)
  with n l show ?thesis by simp
qed

theorem flecs_sparse_new_id_correct_witness:
  "returns (flecs_sparse_ensure (flecs_sparse_init 4 :: nat ecs_sparse) 0 0) (\<lambda>(s, _, _).
    flecs_sparse_new_id s = Inl ECS_INTERNAL_ERROR) \<and>
   returns (flecs_sparse_new_id sp_example) (\<lambda>(s', e). e = 2)"
proof
  have e: "returns (flecs_sparse_ensure (flecs_sparse_init 4 :: nat ecs_sparse) 0 0) (\<lambda>(s, _, _).
      sp_count s = 2 \<and> length (sp_dense s) = 2 \<and> sp_max_id s = - 1 \<and> sp_look s 0 = 1)"
    by code_simp
  show "returns (flecs_sparse_ensure (flecs_sparse_init 4 :: nat ecs_sparse) 0 0) (\<lambda>(s, _, _).
    flecs_sparse_new_id s = Inl ECS_INTERNAL_ERROR)"
  proof (rule returns_mono [OF returns_conj [OF e sp_ensure_ok]])
    show "sp_ok (flecs_sparse_init 4 :: nat ecs_sparse)" 
    proof -
      have "sp_inv (flecs_sparse_init 4 :: nat ecs_sparse)" by (rule sp_inv_init) simp
      then show ?thesis by (simp add: sp_inv_def)
    qed
  next
    fix x :: "nat ecs_sparse \<times> 32 word option \<times> bool"
    assume "(case x of (s, _, _) \<Rightarrow> sp_count s = 2 \<and> length (sp_dense s) = 2 \<and> sp_max_id s = - 1 \<and> sp_look s 0 = 1) \<and>
      (case x of (s', p, is_new) \<Rightarrow> ensured (flecs_sparse_init 4) 0 s' \<and> p = sp_ptr (flecs_sparse_init 4 :: nat ecs_sparse) 0 \<and>
        is_new = (\<not> sp_live (flecs_sparse_init 4 :: nat ecs_sparse) (id_index 0)))"
    then show "case x of (s, _, _) \<Rightarrow> flecs_sparse_new_id s = Inl ECS_INTERNAL_ERROR"
      using flecs_sparse_new_id_correct [of "fst x"] by (auto simp: ensured_def id_index_def)
  qed
  have "sp_look sp_example (id_index 2) = 0" by code_simp
  then have "returns (flecs_sparse_new_id sp_example) (\<lambda>(s', e). sp_ok s' \<and> id_index e \<notin> id_index ` sp_alive sp_example \<and>
      sp_alive s' = insert e (sp_alive sp_example) \<and> sp_val s' = sp_val sp_example \<and>
      e = (if sp_count sp_example < length (sp_dense sp_example) then sp_dense sp_example ! sp_count sp_example
        else sp_max_id sp_example + 1))"
    using flecs_sparse_new_id_correct [OF sp_example_ok(1)] by (simp add: sp_example_def)
  then show "returns (flecs_sparse_new_id sp_example) (\<lambda>(s', e). e = 2)"
    by (rule returns_mono) (auto simp: sp_example_def)
qed

end
