(* ===== verification/Entity_Index.thy ===== *)
theory Entity_Index
  imports Flecs_Dense
begin

text \<open>
  \<open>storage/entity_index.c\<close>: which entity ids are alive, and the record (table, row) of each.
  \<open>ei_dense\<close> holds the ids; those at positions 1 to \<open>ei_alive_count - 1\<close> are alive, those from
  \<open>ei_alive_count\<close> on wait to be recycled, with the generation they will be issued with. Records
  live in pages of 1024 that are found by the 32-bit index of the id; a record's \<open>er_dense\<close> is the
  position of its id in the dense array, or 0. A pointer to a record is the 32-bit index.

  The range fields are those of \<open>addons/entity_ranges.c\<close> (theory \<open>Entity_Ranges\<close>): ranges are
  objects with an address (an index into \<open>ei_range_store\<close>).
\<close>

section \<open>State\<close>

record ecs_record =
  er_table :: "nat option"
  er_row :: "32 word"
  er_dense :: nat

definition zero_record :: ecs_record where
  "zero_record = \<lparr>er_table = None, er_row = 0, er_dense = 0\<rparr>"

type_synonym entity_page = "nat \<Rightarrow> ecs_record"

record ecs_entity_range =
  rg_min :: "32 word"
  rg_max :: "32 word"
  rg_cur :: "32 word"
  rg_recycled :: "ecs_entity list"

record entity_index =
  ei_dense :: "ecs_entity list"
  ei_pages :: "entity_page option list"
  ei_range_store :: "ecs_entity_range list"
  ei_ranges :: "nat list"
  ei_active_range :: "nat option"
  ei_alive_count :: nat
  ei_max_id :: "32 word"

definition ei_rec :: "entity_index \<Rightarrow> 32 word \<Rightarrow> ecs_record option" where
  "ei_rec idx k =
    (if page_index 10 k < length (ei_pages idx)
     then map_option (\<lambda>page. page (page_offset 10 k)) (ei_pages idx ! page_index 10 k)
     else None)"

definition ei_set :: "entity_index \<Rightarrow> 32 word \<Rightarrow> (ecs_record \<Rightarrow> ecs_record) \<Rightarrow> entity_index" where
  "ei_set idx k f =
    idx\<lparr>ei_pages := (ei_pages idx)[page_index 10 k :=
      map_option (\<lambda>page. page(page_offset 10 k := f (page (page_offset 10 k))))
        (ei_pages idx ! page_index 10 k)]\<rparr>"

definition ei_read :: "entity_index \<Rightarrow> 32 word \<Rightarrow> ecs_record result" where
  \<comment> \<open>a read through a record pointer\<close>
  "ei_read idx k = (case ei_rec idx k of None \<Rightarrow> Inl Bad_Access | Some r \<Rightarrow> Inr r)"

definition ei_write :: "entity_index \<Rightarrow> 32 word \<Rightarrow> (ecs_record \<Rightarrow> ecs_record) \<Rightarrow> entity_index result" where
  \<comment> \<open>a write through a record pointer\<close>
  "ei_write idx k f = (if ei_rec idx k = None then Inl Bad_Access else Inr (ei_set idx k f))"

definition set_dense :: "nat \<Rightarrow> ecs_record \<Rightarrow> ecs_record" where
  "set_dense d r = r\<lparr>er_dense := d\<rparr>"

definition vec_at :: "'a list \<Rightarrow> nat \<Rightarrow> 'a result" where
  \<comment> \<open>\<open>ecs_vec_get\<close>, which asserts that the index is in range\<close>
  "vec_at xs i = ecs_assert (i < length xs) ECS_OUT_OF_RANGE (Inr (xs ! i))"

definition vec_put :: "'a list \<Rightarrow> nat \<Rightarrow> 'a \<Rightarrow> 'a list result" where
  \<comment> \<open>a write through the pointer \<open>ecs_vec_get\<close> returns\<close>
  "vec_put xs i x = ecs_assert (i < length xs) ECS_OUT_OF_RANGE (Inr (xs[i := x]))"

section \<open>Operations\<close>

definition flecs_entity_index_init :: entity_index where
  \<comment> \<open>the allocation is zeroed memory; slot 0 of the dense array is not initialised\<close>
  "flecs_entity_index_init =
    \<lparr>ei_dense = list_resize 1 [], ei_pages = [], ei_range_store = [], ei_ranges = [],
     ei_active_range = None, ei_alive_count = 1, ei_max_id = 0\<rparr>"

definition flecs_entity_index_ensure_page :: "entity_index \<Rightarrow> 32 word \<Rightarrow> entity_index" where
  "flecs_entity_index_ensure_page idx k =
    (let page_index = page_index 10 k;
         pages = (if page_index \<ge> length (ei_pages idx)
                  then ei_pages idx @ replicate (page_index + 1 - length (ei_pages idx)) None
                  else ei_pages idx)
     in case pages ! page_index of
          None \<Rightarrow> idx\<lparr>ei_pages := pages[page_index := Some (\<lambda>_. zero_record)]\<rparr>
        | Some _ \<Rightarrow> idx\<lparr>ei_pages := pages\<rparr>)"

definition flecs_entity_index_get_any :: "entity_index \<Rightarrow> ecs_entity \<Rightarrow> 32 word result" where
  "flecs_entity_index_get_any idx e =
    (let k = id_index e in
     ecs_assert (page_index 10 k < length (ei_pages idx)) ECS_OUT_OF_RANGE
       (bindR (ei_read idx k) (\<lambda>r. ecs_assert (er_dense r \<noteq> 0) ECS_INVALID_PARAMETER (Inr k))))"

definition flecs_entity_index_get :: "entity_index \<Rightarrow> ecs_entity \<Rightarrow> 32 word result" where
  "flecs_entity_index_get idx e =
    bindR (flecs_entity_index_get_any idx e) (\<lambda>k.
    bindR (ei_read idx k) (\<lambda>r.
    ecs_assert (er_dense r < ei_alive_count idx) ECS_INVALID_PARAMETER
      (bindR (vec_at (ei_dense idx) (er_dense r)) (\<lambda>x.
       ecs_assert (x = e) ECS_INVALID_PARAMETER (Inr k)))))"

definition flecs_entity_index_try_get_any :: "entity_index \<Rightarrow> ecs_entity \<Rightarrow> 32 word option" where
  "flecs_entity_index_try_get_any idx e =
    (let k = id_index e in
     if page_index 10 k \<ge> length (ei_pages idx) then None
     else case ei_pages idx ! page_index 10 k of
       None \<Rightarrow> None
     | Some page \<Rightarrow> if er_dense (page (page_offset 10 k)) = 0 then None else Some k)"

definition flecs_entity_index_try_get :: "entity_index \<Rightarrow> ecs_entity \<Rightarrow> 32 word option result" where
  "flecs_entity_index_try_get idx e =
    (case flecs_entity_index_try_get_any idx e of
      None \<Rightarrow> Inr None
    | Some k \<Rightarrow>
        bindR (ei_read idx k) (\<lambda>r.
        if er_dense r \<ge> ei_alive_count idx then Inr None
        else bindR (vec_at (ei_dense idx) (er_dense r)) (\<lambda>x.
          if x \<noteq> e then Inr None else Inr (Some k))))"

definition flecs_entity_index_is_alive :: "entity_index \<Rightarrow> ecs_entity \<Rightarrow> bool result" where
  "flecs_entity_index_is_alive idx e =
    bindR (flecs_entity_index_try_get idx e) (\<lambda>r. Inr (r \<noteq> None))"

definition ensure_swap :: "entity_index \<Rightarrow> 32 word \<Rightarrow> ecs_entity \<Rightarrow> nat \<Rightarrow> (entity_index \<times> 32 word) result" where
  \<comment> \<open>the end of \<open>flecs_entity_index_ensure\<close>: swap the id with the first one that is not alive\<close>
  "ensure_swap idx k e dense =
    bindR (arr_get (ei_dense idx) (ei_alive_count idx)) (\<lambda>e_swap.
    bindR (flecs_entity_index_get_any idx e_swap) (\<lambda>k_swap.
    bindR (ei_read idx k_swap) (\<lambda>r_swap.
    ecs_assert (er_dense r_swap = ei_alive_count idx) ECS_INTERNAL_ERROR
      (bindR (ei_write idx k_swap (set_dense dense)) (\<lambda>idx.
       bindR (ei_write idx k (set_dense (ei_alive_count idx))) (\<lambda>idx.
       bindR (arr_set (ei_dense idx) dense e_swap) (\<lambda>ids.
       bindR (arr_set ids (ei_alive_count idx) e) (\<lambda>ids.
       let idx = idx\<lparr>ei_dense := ids, ei_alive_count := ei_alive_count idx + 1\<rparr> in
       bindR (flecs_entity_index_is_alive idx e) (\<lambda>a.
       ecs_assert a ECS_INTERNAL_ERROR (Inr (idx, k)))))))))))"

definition flecs_entity_index_ensure :: "entity_index \<Rightarrow> ecs_entity \<Rightarrow> (entity_index \<times> 32 word) result" where
  "flecs_entity_index_ensure idx e =
    (let k = id_index e;
         idx = flecs_entity_index_ensure_page idx k in
     bindR (ei_read idx k) (\<lambda>r.
     let dense = er_dense r in
     if dense \<noteq> 0 \<and> dense < ei_alive_count idx then
       bindR (vec_at (ei_dense idx) dense) (\<lambda>x.
       ecs_assert (x = e) ECS_INTERNAL_ERROR (Inr (idx, k)))
     else
       bindR (if dense \<noteq> 0 then Inr (idx, dense)
              else
                let idx = idx\<lparr>ei_dense := ei_dense idx @ [e]\<rparr>;
                    dense = length (ei_dense idx) - 1 in
                bindR (ei_write idx k (set_dense dense)) (\<lambda>idx.
                Inr (idx\<lparr>ei_max_id := (if k > ei_max_id idx then k else ei_max_id idx)\<rparr>, dense)))
         (\<lambda>(idx, dense).
       ecs_assert (dense \<noteq> 0) ECS_INTERNAL_ERROR (ensure_swap idx k e dense))))"

definition flecs_entity_index_remove_intern ::
    "entity_index \<Rightarrow> ecs_entity \<Rightarrow> (entity_index \<times> 32 word option) result" where
  "flecs_entity_index_remove_intern idx e =
    bindR (flecs_entity_index_try_get idx e) (\<lambda>p.
    case p of
      None \<Rightarrow> Inr (idx, None)
    | Some k \<Rightarrow>
        bindR (ei_read idx k) (\<lambda>r.
        let dense = er_dense r;
            i_swap = ei_alive_count idx - 1;
            idx = idx\<lparr>ei_alive_count := i_swap\<rparr> in
        bindR (vec_at (ei_dense idx) i_swap) (\<lambda>e_swap.
        bindR (flecs_entity_index_get_any idx e_swap) (\<lambda>k_swap.
        bindR (ei_read idx k_swap) (\<lambda>r_swap.
        ecs_assert (er_dense r_swap = i_swap) ECS_INTERNAL_ERROR
          (bindR (ei_write idx k_swap (set_dense dense)) (\<lambda>idx.
           bindR (ei_write idx k (\<lambda>_. \<lparr>er_table = None, er_row = 0, er_dense = i_swap\<rparr>)) (\<lambda>idx.
           bindR (vec_put (ei_dense idx) dense e_swap) (\<lambda>ids.
           bindR (arr_set ids i_swap (ECS_GENERATION_INC e)) (\<lambda>ids.
           let idx = idx\<lparr>ei_dense := ids\<rparr> in
           bindR (flecs_entity_index_is_alive idx e) (\<lambda>a.
           ecs_assert (\<not> a) ECS_INTERNAL_ERROR (Inr (idx, Some k)))))))))))))"

definition flecs_entity_index_make_alive :: "entity_index \<Rightarrow> ecs_entity \<Rightarrow> entity_index result" where
  "flecs_entity_index_make_alive idx e =
    (case flecs_entity_index_try_get_any idx e of
      None \<Rightarrow> Inr idx
    | Some k \<Rightarrow>
        bindR (ei_read idx k) (\<lambda>r.
        bindR (vec_put (ei_dense idx) (er_dense r) e) (\<lambda>ids. Inr (idx\<lparr>ei_dense := ids\<rparr>))))"

definition flecs_entity_index_get_alive :: "entity_index \<Rightarrow> ecs_entity \<Rightarrow> ecs_entity result" where
  "flecs_entity_index_get_alive idx e =
    (case flecs_entity_index_try_get_any idx e of
      None \<Rightarrow> Inr 0
    | Some k \<Rightarrow>
        bindR (ei_read idx k) (\<lambda>r.
        if er_dense r < ei_alive_count idx then vec_at (ei_dense idx) (er_dense r) else Inr 0))"

definition flecs_entity_index_exists :: "entity_index \<Rightarrow> ecs_entity \<Rightarrow> bool" where
  "flecs_entity_index_exists idx e = (flecs_entity_index_try_get_any idx e \<noteq> None)"

definition flecs_entity_index_is_valid :: "entity_index \<Rightarrow> ecs_entity \<Rightarrow> bool result" where
  "flecs_entity_index_is_valid idx e =
    (case flecs_entity_index_try_get_any idx (ucast (id_index e)) of
      None \<Rightarrow> Inr True
    | Some k \<Rightarrow>
        bindR (ei_read idx k) (\<lambda>r.
        if er_dense r = 0 then Inr True else Inr (er_dense r < ei_alive_count idx)))"

definition flecs_entity_index_new_id :: "entity_index \<Rightarrow> (entity_index \<times> ecs_entity) result" where
  \<comment> \<open>\<open>max_id\<close> is 32 bits wide: the increment wraps, and the assertion that it does not exceed
     \<open>UINT32_MAX\<close> cannot fail\<close>
  "flecs_entity_index_new_id idx =
    (if ei_alive_count idx \<noteq> length (ei_dense idx) then
       bindR (vec_at (ei_dense idx) (ei_alive_count idx)) (\<lambda>e.
       Inr (idx\<lparr>ei_alive_count := ei_alive_count idx + 1\<rparr>, e))
     else
       let idx = idx\<lparr>ei_max_id := ei_max_id idx + 1\<rparr>;
           k = ei_max_id idx in
       ecs_assert (uint (ei_max_id idx) \<le> 0xFFFFFFFF) ECS_INVALID_OPERATION
         (ecs_assert (\<not> flecs_entity_index_exists idx (ucast k)) ECS_INVALID_OPERATION
           (let idx = idx\<lparr>ei_dense := ei_dense idx @ [ucast k]\<rparr>;
                idx = flecs_entity_index_ensure_page idx k in
            bindR (ei_write idx k (set_dense (ei_alive_count idx))) (\<lambda>idx.
            let idx = idx\<lparr>ei_alive_count := ei_alive_count idx + 1\<rparr> in
            ecs_assert (ei_alive_count idx = length (ei_dense idx)) ECS_INTERNAL_ERROR
              (Inr (idx, ucast k))))))"

fun new_ids_loop :: "entity_index \<Rightarrow> nat \<Rightarrow> nat \<Rightarrow> entity_index result" where
  \<comment> \<open>\<open>dense\<close> is \<open>dense_count + i\<close>, the last argument the number of iterations left\<close>
  "new_ids_loop idx dense 0 = Inr idx"
| "new_ids_loop idx dense (Suc n) =
    (let idx = idx\<lparr>ei_max_id := ei_max_id idx + 1\<rparr>;
         k = ei_max_id idx in
     ecs_assert (uint (ei_max_id idx) \<le> 0xFFFFFFFF) ECS_INVALID_OPERATION
       (ecs_assert (\<not> flecs_entity_index_exists idx (ucast k)) ECS_INVALID_OPERATION
         (bindR (vec_put (ei_dense idx) dense (ucast k)) (\<lambda>ids.
          let idx = flecs_entity_index_ensure_page (idx\<lparr>ei_dense := ids\<rparr>) k in
          bindR (ei_write idx k (set_dense dense)) (\<lambda>idx. new_ids_loop idx (Suc dense) n)))))"

definition flecs_entity_index_new_ids ::
    "entity_index \<Rightarrow> nat \<Rightarrow> (entity_index \<times> ecs_entity list) result" where
  \<comment> \<open>the pointer returned points at the \<open>cnt\<close> new ids, which are the second component; \<open>new_count\<close> is an
    \<open>int32_t\<close>, and so is the size in bytes of the dense array, a power of two of ids of 8 bytes\<close>
  "flecs_entity_index_new_ids idx cnt =
    (let alive_count = ei_alive_count idx;
         new_count = alive_count + cnt;
         dense_count = length (ei_dense idx) in
     ecs_assert (int32 (int alive_count + int cnt)) Int_Overflow
      (if new_count < dense_count then
         bindR (vec_at (ei_dense idx) alive_count) (\<lambda>_.
         Inr (idx\<lparr>ei_alive_count := new_count\<rparr>, take cnt (drop alive_count (ei_dense idx))))
       else
         ecs_assert (int32 (8 * flecs_next_pow_of_2 (int new_count))) Int_Overflow
          (bindR (new_ids_loop (idx\<lparr>ei_dense := list_resize new_count (ei_dense idx)\<rparr>) dense_count
                    (new_count - dense_count)) (\<lambda>idx.
           let idx = idx\<lparr>ei_alive_count := new_count\<rparr> in
           bindR (vec_at (ei_dense idx) alive_count) (\<lambda>_.
           Inr (idx, take cnt (drop alive_count (ei_dense idx))))))))"

definition flecs_entity_index_count :: "entity_index \<Rightarrow> nat" where
  "flecs_entity_index_count idx = ei_alive_count idx - 1"

definition flecs_entity_index_size :: "entity_index \<Rightarrow> nat" where
  "flecs_entity_index_size idx = length (ei_dense idx) - 1"

definition flecs_entity_index_not_alive_count :: "entity_index \<Rightarrow> nat" where
  "flecs_entity_index_not_alive_count idx = length (ei_dense idx) - ei_alive_count idx"

definition flecs_entity_index_clear :: "entity_index \<Rightarrow> entity_index" where
  "flecs_entity_index_clear idx =
    idx\<lparr>ei_pages := map (map_option (\<lambda>_ _. zero_record)) (ei_pages idx),
       ei_dense := list_resize 1 (ei_dense idx), ei_alive_count := 1, ei_max_id := 0\<rparr>"

definition flecs_entity_index_ids :: "entity_index \<Rightarrow> ecs_entity list" where
  \<comment> \<open>the pointer points at the \<open>flecs_entity_index_count\<close> live ids\<close>
  "flecs_entity_index_ids idx = take (flecs_entity_index_count idx) (drop 1 (ei_dense idx))"

section \<open>Record accesses\<close>

definition ei_look :: "entity_index \<Rightarrow> 32 word \<Rightarrow> nat" where
  "ei_look idx k = (case ei_rec idx k of None \<Rightarrow> 0 | Some r \<Rightarrow> er_dense r)"

lemma ei_rec_fields [simp]:
  "ei_rec (idx\<lparr>ei_dense := d\<rparr>) = ei_rec idx" "ei_rec (idx\<lparr>ei_alive_count := n\<rparr>) = ei_rec idx"
  "ei_rec (idx\<lparr>ei_max_id := m\<rparr>) = ei_rec idx" "ei_rec (idx\<lparr>ei_active_range := a\<rparr>) = ei_rec idx"
  "ei_rec (idx\<lparr>ei_ranges := rs\<rparr>) = ei_rec idx" "ei_rec (idx\<lparr>ei_range_store := st\<rparr>) = ei_rec idx"
  by (auto simp: ei_rec_def fun_eq_iff)

lemma ei_set_fields [simp]:
  "ei_dense (ei_set idx k f) = ei_dense idx" "ei_alive_count (ei_set idx k f) = ei_alive_count idx"
  "ei_max_id (ei_set idx k f) = ei_max_id idx" "ei_active_range (ei_set idx k f) = ei_active_range idx"
  "ei_ranges (ei_set idx k f) = ei_ranges idx" "ei_range_store (ei_set idx k f) = ei_range_store idx"
  by (simp_all add: ei_set_def)

lemma ei_rec_set [simp]:
  "ei_rec (ei_set idx k f) l = (if l = k then map_option f (ei_rec idx k) else ei_rec idx l)"
proof (cases "page_index 10 l = page_index 10 k")
  case True
  then have "l = k \<longleftrightarrow> page_offset 10 l = page_offset 10 k" using page_cell_eq by metis
  with True show ?thesis
    by (cases "ei_pages idx ! page_index 10 k") (auto simp: ei_rec_def ei_set_def)
next
  case False
  then have "l \<noteq> k" by auto
  with False show ?thesis by (auto simp: ei_rec_def ei_set_def)
qed

lemma ei_look_fields [simp]:
  "ei_look (idx\<lparr>ei_dense := d\<rparr>) = ei_look idx" "ei_look (idx\<lparr>ei_alive_count := n\<rparr>) = ei_look idx"
  "ei_look (idx\<lparr>ei_max_id := m\<rparr>) = ei_look idx" "ei_look (idx\<lparr>ei_active_range := a\<rparr>) = ei_look idx"
  "ei_look (idx\<lparr>ei_ranges := rs\<rparr>) = ei_look idx" "ei_look (idx\<lparr>ei_range_store := st\<rparr>) = ei_look idx"
  by (auto simp: ei_look_def fun_eq_iff)

lemma ei_look_set:
  "ei_rec idx k \<noteq> None \<Longrightarrow> ei_look (ei_set idx k f) = (ei_look idx)(k := er_dense (f (the (ei_rec idx k))))"
  by (auto simp: ei_look_def fun_eq_iff)

lemma ei_look_rec: "ei_look idx k \<noteq> 0 \<Longrightarrow> ei_rec idx k \<noteq> None"
  by (auto simp: ei_look_def split: option.splits)

lemma ei_rec_look: "ei_rec idx k = Some r \<Longrightarrow> er_dense r = ei_look idx k"
  by (simp add: ei_look_def)

lemma set_dense_fields [simp]:
  "er_dense (set_dense d r) = d" "er_table (set_dense d r) = er_table r" "er_row (set_dense d r) = er_row r"
  by (simp_all add: set_dense_def)

lemma ei_read_ok: "ei_rec idx k = Some r \<Longrightarrow> ei_read idx k = Inr r"
  by (simp add: ei_read_def)

lemma ei_write_ok: "ei_rec idx k \<noteq> None \<Longrightarrow> ei_write idx k f = Inr (ei_set idx k f)"
  by (simp add: ei_write_def)

lemma ei_rec_page: "ei_rec idx k \<noteq> None \<Longrightarrow> page_index 10 k < length (ei_pages idx)"
  by (auto simp: ei_rec_def split: if_splits)

lemma vec_at_ok [simp]: "i < length xs \<Longrightarrow> vec_at xs i = Inr (xs ! i)"
  by (simp add: vec_at_def)

lemma vec_put_ok [simp]: "i < length xs \<Longrightarrow> vec_put xs i x = Inr (xs[i := x])"
  by (simp add: vec_put_def)

lemma get_any_ok: "ei_look idx (id_index e) \<noteq> 0 \<Longrightarrow> flecs_entity_index_get_any idx e = Inr (id_index e)"
  using ei_look_rec [of idx "id_index e"] ei_rec_page [of idx "id_index e"]
  by (auto simp: flecs_entity_index_get_any_def ei_read_def ei_look_def)

lemma try_get_any_look:
  "flecs_entity_index_try_get_any idx e = (if ei_look idx (id_index e) = 0 then None else Some (id_index e))"
  by (auto simp: flecs_entity_index_try_get_any_def ei_look_def ei_rec_def split: option.splits)

lemma ei_rec_ensure_page:
  "ei_rec (flecs_entity_index_ensure_page idx k) l =
    (case ei_rec idx l of Some r \<Rightarrow> Some r
     | None \<Rightarrow> if page_index 10 l = page_index 10 k then Some zero_record else None)"
  by (auto simp: flecs_entity_index_ensure_page_def ei_rec_def Let_def nth_append nth_list_update
      split: option.splits)

lemma ensure_page_fields [simp]:
  "ei_dense (flecs_entity_index_ensure_page idx k) = ei_dense idx"
  "ei_alive_count (flecs_entity_index_ensure_page idx k) = ei_alive_count idx"
  "ei_max_id (flecs_entity_index_ensure_page idx k) = ei_max_id idx"
  "ei_active_range (flecs_entity_index_ensure_page idx k) = ei_active_range idx"
  "ei_ranges (flecs_entity_index_ensure_page idx k) = ei_ranges idx"
  "ei_range_store (flecs_entity_index_ensure_page idx k) = ei_range_store idx"
  by (simp_all add: flecs_entity_index_ensure_page_def Let_def split: option.splits)

lemma ei_look_ensure_page [simp]: "ei_look (flecs_entity_index_ensure_page idx k) = ei_look idx"
  by (auto simp: ei_look_def ei_rec_ensure_page zero_record_def fun_eq_iff split: option.splits)

lemma ei_rec_ensure_page_self: "ei_rec (flecs_entity_index_ensure_page idx k) k \<noteq> None"
  by (auto simp: ei_rec_ensure_page split: option.splits)

section \<open>Invariant\<close>

definition ei_ok :: "entity_index \<Rightarrow> bool" where
  \<comment> \<open>ids and records are paired, and only live entities have a table\<close>
  "ei_ok idx \<longleftrightarrow> paired (ei_look idx) (ei_dense idx) \<and>
    1 \<le> ei_alive_count idx \<and> ei_alive_count idx \<le> length (ei_dense idx) \<and>
    (\<forall>k r. ei_rec idx k = Some r \<longrightarrow> er_table r \<noteq> None \<longrightarrow>
      1 \<le> er_dense r \<and> er_dense r < ei_alive_count idx)"

definition ei_alive :: "entity_index \<Rightarrow> ecs_entity set" where
  "ei_alive idx = alive_ids (ei_dense idx) (ei_alive_count idx)"

lemma ei_okD:
  assumes "ei_ok idx"
  shows "paired (ei_look idx) (ei_dense idx)" and "1 \<le> ei_alive_count idx"
    and "ei_alive_count idx \<le> length (ei_dense idx)"
    and "\<And>k r. ei_rec idx k = Some r \<Longrightarrow> er_table r \<noteq> None \<Longrightarrow>
      1 \<le> ei_look idx k \<and> ei_look idx k < ei_alive_count idx"
  using assms by (auto simp: ei_ok_def ei_rec_look)

lemma alive_iff:
  "ei_ok idx \<Longrightarrow> e \<in> ei_alive idx \<longleftrightarrow> ei_look idx (id_index e) \<noteq> 0 \<and>
    ei_look idx (id_index e) < ei_alive_count idx \<and> ei_dense idx ! ei_look idx (id_index e) = e"
  unfolding ei_alive_def by (rule alive_iff_look [OF ei_okD(1) ei_okD(3)])

lemma try_get_ok:
  assumes "ei_ok idx"
  shows "flecs_entity_index_try_get idx e = Inr (if e \<in> ei_alive idx then Some (id_index e) else None)"
proof (cases "ei_look idx (id_index e) = 0")
  case True
  then show ?thesis
    by (simp add: flecs_entity_index_try_get_def try_get_any_look alive_iff [OF assms])
next
  case False
  then obtain r where r: "ei_rec idx (id_index e) = Some r" using ei_look_rec by blast
  note [simp] = ei_read_ok [OF r] ei_rec_look [OF r]
  show ?thesis
    using False paired_bound [OF ei_okD(1) [OF assms], of "id_index e"]
    by (auto simp: flecs_entity_index_try_get_def try_get_any_look alive_iff [OF assms])
qed

lemma is_alive_ok: "ei_ok idx \<Longrightarrow> flecs_entity_index_is_alive idx e = Inr (e \<in> ei_alive idx)"
  by (simp add: flecs_entity_index_is_alive_def try_get_ok)

lemma init_ok: "ei_ok flecs_entity_index_init \<and> ei_alive flecs_entity_index_init = {}"
proof -
  have rec0: "ei_rec flecs_entity_index_init k = None" for k
    by (simp add: ei_rec_def flecs_entity_index_init_def)
  then have "ei_look flecs_entity_index_init k = 0" for k by (simp add: ei_look_def)
  with rec0 show ?thesis
    by (auto simp: ei_ok_def paired_def ei_alive_def alive_ids_def flecs_entity_index_init_def
        simp flip: length_greater_0_conv)
qed

section \<open>Removing\<close>

lemma remove_intern_dead:
  "ei_ok idx \<Longrightarrow> e \<notin> ei_alive idx \<Longrightarrow> flecs_entity_index_remove_intern idx e = Inr (idx, None)"
  by (simp add: flecs_entity_index_remove_intern_def try_get_ok)

lemma remove_intern_ok:
  assumes ok: "ei_ok idx" and e: "e \<in> ei_alive idx"
  defines "n \<equiv> ei_alive_count idx" and "k \<equiv> id_index e"
  shows "returns (flecs_entity_index_remove_intern idx e) (\<lambda>(idx', p). p = Some k \<and> ei_ok idx' \<and>
    ei_alive idx' = ei_alive idx - {e} \<and> ei_alive_count idx' = n - 1 \<and>
    length (ei_dense idx') = length (ei_dense idx) \<and>
    ei_dense idx' ! (n - 1) = ECS_GENERATION_INC e \<and>
    ei_rec idx' k = Some \<lparr>er_table = None, er_row = 0, er_dense = n - 1\<rparr> \<and>
    (\<forall>i \<ge> n. ei_dense idx' ! i = ei_dense idx ! i) \<and>
    (\<forall>l. l \<noteq> k \<longrightarrow> map_option er_table (ei_rec idx' l) = map_option er_table (ei_rec idx l)) \<and>
    ei_max_id idx' = ei_max_id idx \<and> ei_active_range idx' = ei_active_range idx \<and>
    ei_ranges idx' = ei_ranges idx \<and> ei_range_store idx' = ei_range_store idx)"
proof -
  define d where "d = ei_dense idx"
  define i where "i = ei_look idx k"
  define j where "j = n - 1"
  note p = ei_okD(1) [OF ok, folded d_def] and bounds = ei_okD(2,3) [OF ok, folded n_def d_def]
  have i: "1 \<le> i" "i < n" "d ! i = e"
    using e by (auto simp: alive_iff [OF ok] i_def n_def d_def k_def)
  have j: "1 \<le> j" "j < length d" "j < n" "i < length d" "i \<le> j" using i bounds by (auto simp: j_def)
  define ks where "ks = id_index (d ! j)"
  have lks: "ei_look idx ks = j" using paired_look [OF p j(1,2)] by (simp add: ks_def)
  have k: "id_index (d ! i) = k" by (simp add: i k_def)
  have same: "k = ks \<longleftrightarrow> i = j" using paired_inj [OF p i(1) j(4) j(1,2)] by (simp add: k ks_def)
  obtain rs where rs: "ei_rec idx ks = Some rs" using ei_look_rec [of idx ks] lks j by auto
  obtain r where r: "ei_rec idx k = Some r" using ei_look_rec [of idx k] i by (auto simp: i_def)
  define idx' where "idx' = ei_set (ei_set (idx\<lparr>ei_alive_count := j\<rparr>) ks (set_dense i)) k
      (\<lambda>_. \<lparr>er_table = None, er_row = 0, er_dense = j\<rparr>)\<lparr>ei_dense := d[i := d ! j, j := ECS_GENERATION_INC e]\<rparr>"
  have fields: "ei_dense idx' = d[i := d ! j, j := ECS_GENERATION_INC e]" "ei_alive_count idx' = j"
    "ei_max_id idx' = ei_max_id idx" "ei_active_range idx' = ei_active_range idx"
    "ei_ranges idx' = ei_ranges idx" "ei_range_store idx' = ei_range_store idx"
    by (simp_all add: idx'_def)
  have rec: "ei_rec idx' l = (if l = k then Some \<lparr>er_table = None, er_row = 0, er_dense = j\<rparr>
      else if l = ks then Some (set_dense i rs) else ei_rec idx l)" for l
    using r rs by (auto simp: idx'_def)
  have "ei_look idx' = (ei_look idx)(ks := i, k := j)"
    by (auto simp: fun_eq_iff ei_look_def [of idx'] rec) (auto simp: ei_look_def)
  also have "\<dots> = (ei_look idx)(k := j, ks := i)"
    using same by (auto simp: fun_eq_iff)
  finally have look': "ei_look idx' = (ei_look idx)(k := j, ks := i)" .
  have "paired (ei_look idx') (d[i := d ! j, j := d ! i])"
    using paired_swap [OF p i(1) j(4) j(1,2)] by (simp add: look' k ks_def)
  from paired_regen [OF this, of "ECS_GENERATION_INC e" j]
  have p': "paired (ei_look idx') (ei_dense idx')"
    using j by (simp add: fields i)
  have tables: "1 \<le> er_dense x \<and> er_dense x < j"
    if x: "ei_rec idx' l = Some x" "er_table x \<noteq> None" for l x
  proof -
    have l: "l \<noteq> k" using x by (auto simp: rec)
    then obtain y where y: "ei_rec idx l = Some y" "er_table y \<noteq> None"
      using x rs by (cases "l = ks") (auto simp: rec)
    from ei_okD(4) [OF ok y] have b: "1 \<le> ei_look idx l" "ei_look idx l < n" by (auto simp: n_def)
    show ?thesis
    proof (cases "l = ks")
      case True
      then have "er_dense x = i" using x l by (auto simp: rec)
      with True l same i j show ?thesis by auto
    next
      case False
      then have "er_dense x = ei_look idx l" using x l by (auto simp: rec ei_look_def)
      moreover have "ei_look idx l \<noteq> j" using False paired_back [OF p, of l] b by (auto simp: ks_def)
      ultimately show ?thesis using b by (auto simp: j_def)
    qed
  qed
  have ok': "ei_ok idx'"
    using p' tables j by (auto simp: ei_ok_def fields)
  have al: "ei_alive idx' = ei_alive idx - {e}"
    unfolding ei_alive_def fields n_def [symmetric] d_def [symmetric] j_def i(3) [symmetric]
    by (rule alive_swap_remove [OF p i(1,2) bounds(2)])
  have "ei_read idx k = Inr r" "ei_read (idx\<lparr>ei_alive_count := j\<rparr>) ks = Inr rs"
    "er_dense r = i" "er_dense rs = j"
    using r rs lks by (auto simp: ei_read_def ei_rec_look i_def)
  moreover have "flecs_entity_index_get_any (idx\<lparr>ei_alive_count := j\<rparr>) (d ! j) = Inr ks"
    using lks j by (simp add: get_any_ok ks_def)
  moreover have "flecs_entity_index_is_alive idx' e = Inr False"
    using is_alive_ok [OF ok'] al by simp
  moreover have nj: "n - Suc 0 = j" by (simp add: j_def)
  ultimately have "flecs_entity_index_remove_intern idx e = Inr (idx', Some k)"
    using e j r rs
    by (simp add: flecs_entity_index_remove_intern_def try_get_ok [OF ok] k_def [symmetric] Let_def
        n_def [symmetric] d_def [symmetric] ei_write_ok idx'_def)
  moreover have "map_option er_table (ei_rec idx' l) = map_option er_table (ei_rec idx l)" if "l \<noteq> k" for l
    using that rs by (auto simp: rec)
  moreover have "\<forall>i \<ge> n. ei_dense idx' ! i = ei_dense idx ! i" using i j by (auto simp: fields d_def)
  ultimately show ?thesis
    using ok' al j nj by (simp add: fields rec d_def)
qed

section \<open>Ensuring that an id exists\<close>

definition same_tables :: "entity_index \<Rightarrow> entity_index \<Rightarrow> bool" where
  \<comment> \<open>every record keeps its table and row\<close>
  "same_tables idx idx' \<longleftrightarrow> (\<forall>l r. ei_rec idx l = Some r \<longrightarrow>
    (\<exists>r'. ei_rec idx' l = Some r' \<and> er_table r' = er_table r \<and> er_row r' = er_row r))"

lemma same_tables_refl: "same_tables idx idx"
  by (simp add: same_tables_def)

lemma same_tables_trans: "same_tables a b \<Longrightarrow> same_tables b c \<Longrightarrow> same_tables a c"
  by (force simp: same_tables_def)

lemma same_tables_set: "same_tables idx (ei_set idx k (set_dense i))"
  by (auto simp: same_tables_def)

lemma same_tables_page: "same_tables idx (flecs_entity_index_ensure_page idx k)"
  by (auto simp: same_tables_def ei_rec_ensure_page)

lemma same_tables_fields [simp]:
  "same_tables a (b\<lparr>ei_dense := d\<rparr>) = same_tables a b" "same_tables (a\<lparr>ei_dense := d\<rparr>) b = same_tables a b"
  "same_tables a (b\<lparr>ei_alive_count := n\<rparr>) = same_tables a b"
  "same_tables (a\<lparr>ei_alive_count := n\<rparr>) b = same_tables a b"
  "same_tables a (b\<lparr>ei_max_id := m\<rparr>) = same_tables a b" "same_tables (a\<lparr>ei_max_id := m\<rparr>) b = same_tables a b"
  by (simp_all add: same_tables_def)

lemma ensure_swap_ok:
  assumes ok: "ei_ok idx" and i: "ei_look idx k = i" "ei_alive_count idx \<le> i" and k: "k = id_index e"
  shows "returns (ensure_swap idx k e i) (\<lambda>(idx', p). p = k \<and> ei_ok idx' \<and>
    ei_alive idx' = insert e (ei_alive idx) \<and> ei_alive_count idx' = ei_alive_count idx + 1 \<and>
    length (ei_dense idx') = length (ei_dense idx) \<and> same_tables idx idx' \<and>
    ei_max_id idx' = ei_max_id idx \<and> ei_active_range idx' = ei_active_range idx \<and>
    ei_ranges idx' = ei_ranges idx \<and> ei_range_store idx' = ei_range_store idx)"
proof -
  define d where "d = ei_dense idx"
  define n where "n = ei_alive_count idx"
  note p = ei_okD(1) [OF ok, folded d_def] and bounds = ei_okD(2,3) [OF ok, folded n_def d_def]
  have il: "i < length d" "1 \<le> i" "id_index (d ! i) = k" "n \<le> i"
    using paired_bound [OF p, of k] paired_back [OF p, of k] i bounds by (auto simp: n_def)
  have nl: "n < length d" using il by simp
  define ks where "ks = id_index (d ! n)"
  have lks: "ei_look idx ks = n" using paired_look [OF p bounds(1) nl] by (simp add: ks_def)
  have same: "k = ks \<longleftrightarrow> i = n" using paired_inj [OF p il(2,1) bounds(1) nl] by (simp add: il ks_def)
  obtain rs where rs: "ei_rec idx ks = Some rs" using ei_look_rec [of idx ks] lks bounds by auto
  obtain r where r: "ei_rec idx k = Some r" using ei_look_rec [of idx k] i il by auto
  define idx' where "idx' = ei_set (ei_set idx ks (set_dense i)) k (set_dense n)
      \<lparr>ei_dense := d[i := d ! n, n := e], ei_alive_count := n + 1\<rparr>"
  have fields: "ei_dense idx' = d[i := d ! n, n := e]" "ei_alive_count idx' = n + 1"
    "ei_max_id idx' = ei_max_id idx" "ei_active_range idx' = ei_active_range idx"
    "ei_ranges idx' = ei_ranges idx" "ei_range_store idx' = ei_range_store idx"
    by (simp_all add: idx'_def)
  have rec: "ei_rec idx' l = (if l = k then Some (set_dense n r)
      else if l = ks then Some (set_dense i rs) else ei_rec idx l)" for l
    using r rs by (auto simp: idx'_def set_dense_def)
  have look': "ei_look idx' = (ei_look idx)(k := n, ks := i)"
    using same by (auto simp: fun_eq_iff ei_look_def [of idx'] rec) (auto simp: ei_look_def)
  have "paired (ei_look idx') (d[i := d ! n, n := d ! i])"
    using paired_swap [OF p il(2,1) bounds(1) nl] by (simp add: look' il ks_def)
  from paired_regen [OF this, of e n]
  have p': "paired (ei_look idx') (ei_dense idx')"
    using nl il by (simp add: fields k)
  have tables: "1 \<le> er_dense x \<and> er_dense x < n + 1"
    if x: "ei_rec idx' l = Some x" "er_table x \<noteq> None" for l x
  proof -
    obtain y where y: "ei_rec idx l = Some y" "er_table y \<noteq> None"
      using x r rs by (cases "l = k"; cases "l = ks") (auto simp: rec)
    from ei_okD(4) [OF ok y] have b: "1 \<le> ei_look idx l" "ei_look idx l < n" by (auto simp: n_def)
    then have "l \<noteq> k" "l \<noteq> ks" using i lks il by auto
    then show ?thesis using b x by (auto simp: rec ei_look_def)
  qed
  have ok': "ei_ok idx'"
    using p' tables nl by (auto simp: ei_ok_def fields)
  have al: "ei_alive idx' = insert e (ei_alive idx)"
    unfolding ei_alive_def fields n_def [symmetric] d_def [symmetric]
    by (rule alive_swap_add [OF il(4,1) bounds(1)])
  have "flecs_entity_index_get_any idx (d ! n) = Inr ks"
    using lks bounds by (simp add: get_any_ok ks_def)
  moreover have "ei_read idx ks = Inr rs" "er_dense rs = n"
    using rs lks by (auto simp: ei_read_def ei_rec_look)
  moreover have "flecs_entity_index_is_alive idx' e = Inr True"
    using is_alive_ok [OF ok'] al by simp
  ultimately have "ensure_swap idx k e i = Inr (idx', k)"
    using nl il r rs
    by (simp add: ensure_swap_def Let_def n_def [symmetric] d_def [symmetric] ei_write_ok idx'_def)
  moreover have "same_tables idx idx'"
    using same_tables_trans [OF same_tables_set same_tables_set] by (simp add: idx'_def)
  ultimately show ?thesis
    using ok' al by (simp add: fields d_def n_def)
qed

lemma ei_ok_max_id [simp]:
  "ei_ok (idx\<lparr>ei_max_id := m\<rparr>) = ei_ok idx" "ei_alive (idx\<lparr>ei_max_id := m\<rparr>) = ei_alive idx"
  by (simp_all add: ei_ok_def ei_alive_def)

lemma ei_ok_page: "ei_ok idx \<Longrightarrow> ei_ok (flecs_entity_index_ensure_page idx k)"
  by (auto simp: ei_ok_def ei_rec_ensure_page zero_record_def split: option.splits if_splits)

lemma ei_alive_page [simp]: "ei_alive (flecs_entity_index_ensure_page idx k) = ei_alive idx"
  by (simp add: ei_alive_def)

lemma ei_ok_grow:
  \<comment> \<open>a new index at the end of the dense array, not alive yet\<close>
  assumes ok: "ei_ok idx" and r: "ei_rec idx (id_index e) \<noteq> None" and new: "ei_look idx (id_index e) = 0"
  defines "idx' \<equiv> ei_set (idx\<lparr>ei_dense := ei_dense idx @ [e]\<rparr>) (id_index e) (set_dense (length (ei_dense idx)))"
  shows "ei_ok idx'" and "ei_alive idx' = ei_alive idx"
    and "ei_look idx' (id_index e) = length (ei_dense idx)"
proof -
  have look: "ei_look idx' = (ei_look idx)(id_index e := length (ei_dense idx))"
    using r by (auto simp: idx'_def ei_look_set)
  have "paired (ei_look idx') (ei_dense idx')"
    using paired_append [OF ei_okD(1) [OF ok] new] unfolding look by (simp add: idx'_def)
  moreover have "1 \<le> er_dense x \<and> er_dense x < ei_alive_count idx"
    if x: "ei_rec idx' l = Some x" "er_table x \<noteq> None" for l x
  proof -
    obtain y where y: "ei_rec idx l = Some y" "er_table y \<noteq> None"
      using x r by (cases "l = id_index e") (auto simp: idx'_def)
    from ei_okD(4) [OF ok y] have b: "1 \<le> ei_look idx l" "ei_look idx l < ei_alive_count idx" by auto
    then have "l \<noteq> id_index e" using new by auto
    then show ?thesis using b x by (auto simp: idx'_def ei_look_def)
  qed
  ultimately show "ei_ok idx'"
    using ei_okD(2,3) [OF ok] by (auto simp: ei_ok_def idx'_def)
  show "ei_alive idx' = ei_alive idx"
    using ei_okD(3) [OF ok] by (simp add: ei_alive_def idx'_def alive_ids_append)
  show "ei_look idx' (id_index e) = length (ei_dense idx)" by (simp add: look)
qed

lemma ensure_ok:
  assumes ok: "ei_ok idx" and conf: "\<And>x. x \<in> ei_alive idx \<Longrightarrow> id_index x = id_index e \<Longrightarrow> x = e"
  shows "returns (flecs_entity_index_ensure idx e) (\<lambda>(idx', p). p = id_index e \<and> ei_ok idx' \<and>
    ei_alive idx' = insert e (ei_alive idx) \<and> same_tables idx idx' \<and>
    ei_max_id idx \<le> ei_max_id idx' \<and> ei_active_range idx' = ei_active_range idx \<and>
    ei_ranges idx' = ei_ranges idx \<and> ei_range_store idx' = ei_range_store idx)"
proof -
  define k where "k = id_index e"
  define idx1 where "idx1 = flecs_entity_index_ensure_page idx k"
  have ok1: "ei_ok idx1" and al1: "ei_alive idx1 = ei_alive idx" and st1: "same_tables idx idx1"
    using ok by (simp_all add: idx1_def ei_ok_page same_tables_page)
  obtain r where r: "ei_rec idx1 k = Some r" using ei_rec_ensure_page_self [of idx k] by (auto simp: idx1_def)
  have dr: "er_dense r = ei_look idx k" using ei_rec_look [OF r] by (simp add: idx1_def)
  have lk: "ei_look idx1 k = ei_look idx k" by (simp add: idx1_def)
  consider (alive) "ei_look idx k \<noteq> 0" "ei_look idx k < ei_alive_count idx"
    | (dead) "ei_look idx k \<noteq> 0" "ei_alive_count idx \<le> ei_look idx k" | (new) "ei_look idx k = 0"
    by linarith
  then show ?thesis
  proof cases
    case alive
    have len: "ei_look idx k < length (ei_dense idx)" by (rule paired_bound [OF ei_okD(1) [OF ok]])
    have "ei_dense idx ! ei_look idx k \<in> ei_alive idx"
      unfolding ei_alive_def in_alive_ids using alive len by (intro exI [of _ "ei_look idx k"]) auto
    moreover have "id_index (ei_dense idx ! ei_look idx k) = id_index e"
      using paired_back [OF ei_okD(1) [OF ok] alive(1)] by (simp add: k_def)
    ultimately have e: "ei_dense idx ! ei_look idx k = e" "e \<in> ei_alive idx" using conf by metis+
    have "flecs_entity_index_ensure idx e = Inr (idx1, k)"
      using alive len e
      by (simp add: flecs_entity_index_ensure_def k_def [symmetric] idx1_def [symmetric] ei_read_ok [OF r] dr)
        (simp add: idx1_def)
    with ok1 al1 st1 e(2) show ?thesis by (auto simp: k_def idx1_def)
  next
    case dead
    have "flecs_entity_index_ensure idx e = ensure_swap idx1 k e (ei_look idx k)"
      using dead
      by (simp add: flecs_entity_index_ensure_def k_def [symmetric] idx1_def [symmetric] ei_read_ok [OF r] dr)
    moreover have "ei_alive_count idx1 \<le> ei_look idx k" using dead by (simp add: idx1_def)
    ultimately show ?thesis
      using returns_mono [OF ensure_swap_ok [OF ok1 lk _ k_def]] al1 same_tables_trans [OF st1]
      by (auto simp: k_def idx1_def)
  next
    case new
    define idx2 where "idx2 = ei_set (idx1\<lparr>ei_dense := ei_dense idx1 @ [e]\<rparr>) k (set_dense (length (ei_dense idx)))
      \<lparr>ei_max_id := (if k > ei_max_id idx then k else ei_max_id idx)\<rparr>"
    have d1: "ei_dense idx1 = ei_dense idx" "ei_max_id idx1 = ei_max_id idx" by (simp_all add: idx1_def)
    have "ei_rec idx1 k \<noteq> None" "ei_look idx1 k = 0" using r new lk by auto
    note g = ei_ok_grow [OF ok1, of e, folded k_def, OF this]
    have ok2: "ei_ok idx2" and al2: "ei_alive idx2 = ei_alive idx"
      and lk2: "ei_look idx2 k = length (ei_dense idx)"
      using g al1 unfolding idx2_def by (simp_all add: d1)
    have "flecs_entity_index_ensure idx e = ensure_swap idx2 k e (length (ei_dense idx))"
      using new r ei_okD(1) [OF ok]
      by (simp add: paired_def flecs_entity_index_ensure_def k_def [symmetric] idx1_def [symmetric] ei_read_ok [OF r] dr
          Let_def ei_write_ok d1 idx2_def)
    moreover have "ei_alive_count idx2 \<le> length (ei_dense idx)"
      using ei_okD(3) [OF ok] by (simp add: idx2_def idx1_def)
    moreover have "same_tables (idx1\<lparr>ei_dense := ei_dense idx1 @ [e]\<rparr>) idx2"
      unfolding idx2_def same_tables_fields(5) by (rule same_tables_set)
    then have "same_tables idx1 idx2" by simp
    then have "same_tables idx idx2" by (rule same_tables_trans [OF st1])
    ultimately show ?thesis
      using returns_mono [OF ensure_swap_ok [OF ok2 lk2 _ k_def]] al2 same_tables_trans [of idx idx2]
      by (auto simp: k_def idx2_def idx1_def)
  qed
qed

section \<open>Creating ids\<close>

lemma id_index_ucast [simp]: "id_index (ucast (k :: 32 word)) = k"
  by (rule bit_word_eqI) (simp add: id_index_def bit_ucast_iff)

lemma uint32_bound: "uint (k :: 32 word) \<le> 0xFFFFFFFF"
  using uint_lt2p [of k] by simp

lemma exists_look: "flecs_entity_index_exists idx e \<longleftrightarrow> ei_look idx (id_index e) \<noteq> 0"
  by (simp add: flecs_entity_index_exists_def try_get_any_look)

lemma ensure_page_dense:
  "flecs_entity_index_ensure_page (idx\<lparr>ei_dense := d\<rparr>) k = (flecs_entity_index_ensure_page idx k)\<lparr>ei_dense := d\<rparr>"
  by (simp add: flecs_entity_index_ensure_page_def Let_def split: option.splits)

lemma ei_ok_revive:
  assumes ok: "ei_ok idx" and n: "ei_alive_count idx + c \<le> length (ei_dense idx)"
  shows "ei_ok (idx\<lparr>ei_alive_count := ei_alive_count idx + c\<rparr>)"
    and "ei_alive (idx\<lparr>ei_alive_count := ei_alive_count idx + c\<rparr>) =
      ei_alive idx \<union> set (take c (drop (ei_alive_count idx) (ei_dense idx)))"
  using ok n alive_ids_extend [OF ei_okD(2) [OF ok] n]
  by (fastforce simp: ei_ok_def, simp add: ei_alive_def)

definition ei_room :: "entity_index \<Rightarrow> bool" where
  \<comment> \<open>there is an id to recycle, or the next index was never issued\<close>
  "ei_room idx \<longleftrightarrow> ei_alive_count idx < length (ei_dense idx) \<or> ei_look idx (ei_max_id idx + 1) = 0"

lemma grow_id:
  \<comment> \<open>what adding an unused index at the end of the dense array does\<close>
  assumes ok: "ei_ok idx" and new: "ei_look idx (id_index e) = 0"
  defines "idx' \<equiv> ei_set ((flecs_entity_index_ensure_page idx (id_index e))\<lparr>ei_dense := ei_dense idx @ [e]\<rparr>)
    (id_index e) (set_dense (length (ei_dense idx)))"
  shows "ei_ok idx'" and "ei_alive idx' = ei_alive idx" and "same_tables idx idx'"
    and "ei_look idx' = (ei_look idx)(id_index e := length (ei_dense idx))"
proof -
  let ?p = "flecs_entity_index_ensure_page idx (id_index e)"
  have ok1: "ei_ok ?p" and r: "ei_rec ?p (id_index e) \<noteq> None"
    and look: "ei_look ?p (id_index e) = 0"
    using ok new ei_rec_ensure_page_self [of idx "id_index e"] by (simp_all add: ei_ok_page)
  from ei_ok_grow [OF ok1 r look] show "ei_ok idx'" "ei_alive idx' = ei_alive idx"
    by (simp_all add: idx'_def)
  have "same_tables (?p\<lparr>ei_dense := ei_dense idx @ [e]\<rparr>) idx'"
    unfolding idx'_def by (rule same_tables_set)
  then show "same_tables idx idx'" using same_tables_trans [OF same_tables_page] by simp
  show "ei_look idx' = (ei_look idx)(id_index e := length (ei_dense idx))"
    using r by (simp add: idx'_def ei_look_set)
qed

lemmas grow_new = grow_id [where e = "ucast (k :: 32 word)" for k, simplified]

lemma new_id_ok:
  assumes ok: "ei_ok idx" and room: "ei_room idx"
  shows "returns (flecs_entity_index_new_id idx) (\<lambda>(idx', e). ei_ok idx' \<and>
    id_index e \<notin> id_index ` ei_alive idx \<and> ei_alive idx' = insert e (ei_alive idx) \<and>
    ei_look idx' (id_index e) = ei_alive_count idx \<and> same_tables idx idx' \<and>
    (if ei_alive_count idx < length (ei_dense idx)
     then e = ei_dense idx ! ei_alive_count idx \<and> ei_max_id idx' = ei_max_id idx
     else e = ucast (ei_max_id idx + 1) \<and> ei_max_id idx' = ei_max_id idx + 1) \<and>
    ei_active_range idx' = ei_active_range idx \<and> ei_ranges idx' = ei_ranges idx \<and>
    ei_range_store idx' = ei_range_store idx)"
proof (cases "ei_alive_count idx < length (ei_dense idx)")
  case True
  let ?n = "ei_alive_count idx" and ?d = "ei_dense idx"
  have n: "?n + 1 \<le> length ?d" "1 \<le> ?n" using True ei_okD(2) [OF ok] by auto
  have tk: "take 1 (drop ?n ?d) = [?d ! ?n]" using True by (simp add: take_Suc hd_drop_conv_nth)
  have "id_index (?d ! ?n) \<notin> id_index ` ei_alive idx"
    using new_ids_distinct(2) [OF ei_okD(1) [OF ok] n(2,1)] unfolding tk by (auto simp: ei_alive_def)
  with True ei_ok_revive [OF ok n(1)] paired_look [OF ei_okD(1) [OF ok] n(2) True] show ?thesis
    unfolding tk by (simp add: flecs_entity_index_new_id_def same_tables_refl)
next
  case False
  let ?d = "ei_dense idx" and ?k = "ei_max_id idx + 1"
  have len: "ei_alive_count idx = length ?d" using False ei_okD(3) [OF ok] by simp
  have new: "ei_look (idx\<lparr>ei_max_id := ?k\<rparr>) ?k = 0" using room False by (simp add: ei_room_def)
  define idx1 where "idx1 = ei_set ((flecs_entity_index_ensure_page (idx\<lparr>ei_max_id := ?k\<rparr>) ?k)
      \<lparr>ei_dense := ?d @ [ucast ?k]\<rparr>) ?k (set_dense (length ?d))"
  have "ei_ok (idx\<lparr>ei_max_id := ?k\<rparr>)" using ok by simp
  note g = grow_new [OF this new, simplified, folded idx1_def]
  have f: "ei_alive_count idx1 = length ?d" "ei_dense idx1 = ?d @ [ucast ?k]" "ei_max_id idx1 = ?k"
    "ei_active_range idx1 = ei_active_range idx" "ei_ranges idx1 = ei_ranges idx"
    "ei_range_store idx1 = ei_range_store idx"
    by (simp_all add: idx1_def len)
  have tk: "take 1 (drop (length ?d) (ei_dense idx1)) = [ucast ?k]" by (simp add: f)
  have "id_index (ucast ?k) \<notin> id_index ` ei_alive idx"
  proof
    assume "id_index (ucast ?k) \<in> id_index ` ei_alive idx"
    then obtain x where "x \<in> ei_alive idx" "id_index x = ?k" by auto
    with new show False by (simp add: alive_iff [OF ok])
  qed
  moreover have "flecs_entity_index_new_id idx = Inr (idx1\<lparr>ei_alive_count := length ?d + 1\<rparr>, ucast ?k)"
    using len new ei_rec_ensure_page_self [of "idx\<lparr>ei_max_id := ?k\<rparr>" ?k]
    by (simp add: flecs_entity_index_new_id_def Let_def uint32_bound exists_look ensure_page_dense
        ei_write_ok idx1_def)
  moreover have "ei_alive_count idx1 + 1 \<le> length (ei_dense idx1)" by (simp add: f)
  note ei_ok_revive [OF g(1) this, unfolded f(1) tk]
  ultimately show ?thesis using False g f len by simp
qed

lemma take_put: "m < length d \<Longrightarrow> take (Suc m) (d[m := x]) = take m d @ [x]"
  by (simp add: take_Suc_conv_app_nth)

lemma of_nat_32_eq_0:
  assumes "(of_nat j :: 32 word) = 0" and "j < 2 ^ 32"
  shows "j = 0"
proof -
  have "unat (of_nat j :: 32 word) = j mod 2 ^ 32" by (simp add: unat_of_nat)
  with assms show ?thesis by simp
qed

lemma new_ids_loop_ok:
  assumes "ei_ok (idx\<lparr>ei_dense := take m (ei_dense idx)\<rparr>)" and "m + n = length (ei_dense idx)"
    and "n < 2 ^ 32" and "\<And>j. 1 \<le> j \<Longrightarrow> j \<le> n \<Longrightarrow> ei_look idx (ei_max_id idx + of_nat j) = 0"
  shows "returns (new_ids_loop idx m n) (\<lambda>idx'. ei_ok idx' \<and> same_tables idx idx' \<and>
    take m (ei_dense idx') = take m (ei_dense idx) \<and> length (ei_dense idx') = length (ei_dense idx) \<and>
    ei_alive_count idx' = ei_alive_count idx \<and> ei_max_id idx' = ei_max_id idx + of_nat n \<and>
    drop m (ei_dense idx') = map (\<lambda>j. ucast (ei_max_id idx + of_nat (Suc j))) [0..<n])"
  using assms
proof (induction n arbitrary: idx m)
  case 0
  then show ?case by (simp add: same_tables_refl)
next
  case (Suc n)
  let ?k = "ei_max_id idx + 1" and ?d = "ei_dense idx"
  let ?t = "(idx\<lparr>ei_max_id := ?k\<rparr>)\<lparr>ei_dense := take m ?d\<rparr>"
  have m: "m < length ?d" using Suc.prems(2) by simp
  have new: "ei_look ?t ?k = 0" using Suc.prems(4) [of 1] by simp
  have okt: "ei_ok ?t" using Suc.prems(1) by (simp add: ei_ok_def)
  define idx1 where "idx1 = ei_set ((flecs_entity_index_ensure_page (idx\<lparr>ei_max_id := ?k\<rparr>) ?k)
      \<lparr>ei_dense := ?d[m := ucast ?k]\<rparr>) ?k (set_dense m)"
  have trunc: "idx1\<lparr>ei_dense := take (Suc m) (ei_dense idx1)\<rparr> =
    ei_set ((flecs_entity_index_ensure_page ?t ?k)\<lparr>ei_dense := ei_dense ?t @ [ucast ?k]\<rparr>) ?k
      (set_dense (length (ei_dense ?t)))"
    using m by (simp add: idx1_def take_put ensure_page_dense ei_set_def)
  note g = grow_new [OF okt new, folded trunc]
  have f: "ei_dense idx1 = ?d[m := ucast ?k]" "ei_max_id idx1 = ?k" "ei_alive_count idx1 = ei_alive_count idx"
    by (simp_all add: idx1_def)
  have look1: "ei_look idx1 = (ei_look idx)(?k := m)" using g(4) m by simp
  have st: "same_tables idx idx1" using g(3) by simp
  have "returns (new_ids_loop idx1 (Suc m) n) (\<lambda>idx'. ei_ok idx' \<and> same_tables idx1 idx' \<and>
    take (Suc m) (ei_dense idx') = take (Suc m) (ei_dense idx1) \<and>
    length (ei_dense idx') = length (ei_dense idx1) \<and>
    ei_alive_count idx' = ei_alive_count idx1 \<and> ei_max_id idx' = ei_max_id idx1 + of_nat n \<and>
    drop (Suc m) (ei_dense idx') = map (\<lambda>j. ucast (ei_max_id idx1 + of_nat (Suc j))) [0..<n])"
  proof (rule Suc.IH)
    show "ei_ok (idx1\<lparr>ei_dense := take (Suc m) (ei_dense idx1)\<rparr>)" by (rule g(1))
    show "Suc m + n = length (ei_dense idx1)" using Suc.prems(2) by (simp add: f)
    show "n < 2 ^ 32" using Suc.prems(3) by simp
    fix j assume j: "1 \<le> j" "j \<le> n"
    have "(of_nat j :: 32 word) \<noteq> 0" using of_nat_32_eq_0 [of j] j Suc.prems(3) by auto
    moreover have "ei_max_id idx1 + of_nat j = ei_max_id idx + of_nat (Suc j)" by (simp add: f)
    ultimately show "ei_look idx1 (ei_max_id idx1 + of_nat j) = 0"
      using Suc.prems(4) [of "Suc j"] j by (simp add: look1 add.assoc)
  qed
  moreover have "new_ids_loop idx m (Suc n) = new_ids_loop idx1 (Suc m) n"
    using m new ei_rec_ensure_page_self [of "idx\<lparr>ei_max_id := ?k\<rparr>" ?k]
    by (simp add: Let_def uint32_bound exists_look ensure_page_dense ei_write_ok idx1_def)
  ultimately show ?case
  proof (simp only:, elim returns_mono, elim conjE, intro conjI)
    fix idx'
    assume a: "take (Suc m) (ei_dense idx') = take (Suc m) (ei_dense idx1)"
      "length (ei_dense idx') = length (ei_dense idx1)"
      "drop (Suc m) (ei_dense idx') = map (\<lambda>j. ucast (ei_max_id idx1 + of_nat (Suc j))) [0..<n]"
      "same_tables idx1 idx'"
    show "same_tables idx idx'" using st a(4) by (rule same_tables_trans)
    have tk: "take (Suc m) (ei_dense idx') = take m ?d @ [ucast ?k]" using a(1) m by (simp add: f take_put)
    have len: "m < length (ei_dense idx')" using a(2) m by (simp add: f)
    from tk len show "take m (ei_dense idx') = take m ?d"
      using m by (simp add: take_Suc_conv_app_nth)
    have "ei_dense idx' ! m = ucast ?k" using tk len m by (simp add: take_Suc_conv_app_nth)
    then have "drop m (ei_dense idx') = ucast ?k # drop (Suc m) (ei_dense idx')"
      using len by (simp flip: Cons_nth_drop_Suc)
    then show "drop m (ei_dense idx') = map (\<lambda>j. ucast (ei_max_id idx + of_nat (Suc j))) [0..<Suc n]"
      unfolding a(3) f by (simp add: upt_conv_Cons map_Suc_upt [symmetric] add.assoc del: upt_Suc)
  qed (simp_all add: f add.assoc)
qed

lemma dense_fits:
  assumes "1 \<le> n" "n < 2 ^ 31"
  shows "int32 (8 * flecs_next_pow_of_2 n) \<longleftrightarrow> n \<le> 2 ^ 27"
proof (cases "n \<le> 2 ^ 30")
  case True
  then obtain k where k: "k \<le> 30" "flecs_next_pow_of_2 n = 2 ^ k" "n \<le> 2 ^ k" "2 ^ k < 2 * n"
    using next_pow_of_2_bounds [OF assms(1)] by blast
  have "int32 (8 * 2 ^ k) \<longleftrightarrow> k \<le> 27"
  proof
    assume a: "int32 (8 * 2 ^ k)"
    show "k \<le> 27"
    proof (rule ccontr)
      assume "\<not> k \<le> 27"
      then have "(2 :: int) ^ 28 \<le> 2 ^ k" by (intro power_increasing) auto
      with a show False by (simp add: int32_def)
    qed
  next
    assume "k \<le> 27"
    then have "(2 :: int) ^ k \<le> 2 ^ 27" by (intro power_increasing) auto
    moreover have "(0 :: int) \<le> 2 ^ k" by simp
    ultimately show "int32 (8 * 2 ^ k)" by (auto simp: int32_def intro: order_trans [of _ 0])
  qed
  moreover have "k \<le> 27 \<longleftrightarrow> n \<le> 2 ^ 27"
  proof
    assume "k \<le> 27"
    then have "(2 :: int) ^ k \<le> 2 ^ 27" by (intro power_increasing) auto
    with k(3) show "n \<le> 2 ^ 27" by simp
  next
    assume n: "n \<le> 2 ^ 27"
    show "k \<le> 27"
    proof (rule ccontr)
      assume "\<not> k \<le> 27"
      then have "(2 :: int) ^ 28 \<le> 2 ^ k" by (intro power_increasing) auto
      with k(4) n show False by simp
    qed
  qed
  ultimately show ?thesis by (simp add: k(2))
next
  case False
  then show ?thesis using next_pow_of_2_overflow [of n] assms(2) by (simp add: int32_def)
qed

lemma new_ids_overflow:
  assumes "2 ^ 27 < ei_alive_count idx + c" "length (ei_dense idx) \<le> ei_alive_count idx + c"
  shows "flecs_entity_index_new_ids idx c = Inl Int_Overflow"
proof (cases "int32 (int (ei_alive_count idx) + int c)")
  case True
  then have "\<not> int32 (8 * flecs_next_pow_of_2 (int (ei_alive_count idx + c)))"
    using dense_fits [of "int (ei_alive_count idx + c)"] assms(1) by (simp add: int32_def)
  with True assms(2) show ?thesis by (simp add: flecs_entity_index_new_ids_def Let_def ecs_assert_def)
qed (simp add: flecs_entity_index_new_ids_def ecs_assert_def)

lemma new_ids_loop_success:
  assumes "new_ids_loop idx m n = Inr idx'" "m \<noteq> 0"
  shows "(\<forall>j. 1 \<le> j \<and> j \<le> n \<longrightarrow> ei_look idx (ei_max_id idx + of_nat j) = 0) \<and> ei_ranges idx' = ei_ranges idx \<and>
    ei_range_store idx' = ei_range_store idx \<and> ei_active_range idx' = ei_active_range idx"
  using assms
proof (induction n arbitrary: idx m)
  case (Suc n)
  let ?k = "ei_max_id idx + 1" and ?p = "flecs_entity_index_ensure_page (idx\<lparr>ei_max_id := ei_max_id idx + 1\<rparr>) (ei_max_id idx + 1)"
  have k: "ei_look idx ?k = 0"
    using Suc.prems(1) by (simp add: Let_def ecs_assert_def exists_look split: if_splits)
  define idx1 where "idx1 = ei_set (?p\<lparr>ei_dense := (ei_dense idx)[m := ucast ?k]\<rparr>) ?k (set_dense m)"
  have run: "new_ids_loop idx1 (Suc m) n = Inr idx'"
    using Suc.prems(1) k ei_rec_ensure_page_self [of "idx\<lparr>ei_max_id := ?k\<rparr>" ?k]
    by (simp add: Let_def uint32_bound exists_look ensure_page_dense ei_write_ok idx1_def vec_put_def ecs_assert_def split: if_splits)
  have look: "ei_look idx1 = (ei_look idx)(?k := m)" and f: "ei_max_id idx1 = ?k"
    "ei_ranges idx1 = ei_ranges idx" "ei_range_store idx1 = ei_range_store idx" "ei_active_range idx1 = ei_active_range idx"
    using ei_rec_ensure_page_self [of "idx\<lparr>ei_max_id := ?k\<rparr>" ?k] by (simp_all add: idx1_def ei_look_set)
  note IH = Suc.IH [OF run, simplified f]
  have "ei_look idx (ei_max_id idx + of_nat j) = 0" if j: "1 \<le> j" "j \<le> Suc n" for j
  proof (cases "j = 1")
    case True
    with k show ?thesis by simp
  next
    case False
    define i where "i = j - 1"
    have i: "j = Suc i" "1 \<le> i" "i \<le> n" using j False by (simp_all add: i_def)
    with IH have "ei_look idx1 (?k + of_nat i) = 0" by simp
    then have "ei_look idx (?k + of_nat i) = 0" using k look by (auto split: if_splits)
    then show ?thesis by (simp add: i(1) add.assoc)
  qed
  with IH show ?case by blast
qed simp

lemma new_ids_loop_prefix: "new_ids_loop idx m n = Inr idx' \<Longrightarrow> take m (ei_dense idx') = take m (ei_dense idx)"
proof (induction n arbitrary: idx m)
  case (Suc n)
  let ?k = "ei_max_id idx + 1" and ?p = "flecs_entity_index_ensure_page (idx\<lparr>ei_max_id := ei_max_id idx + 1\<rparr>) (ei_max_id idx + 1)"
  define idx1 where "idx1 = ei_set (?p\<lparr>ei_dense := (ei_dense idx)[m := ucast ?k]\<rparr>) ?k (set_dense m)"
  have run: "new_ids_loop idx1 (Suc m) n = Inr idx'"
    using Suc.prems(1) ei_rec_ensure_page_self [of "idx\<lparr>ei_max_id := ?k\<rparr>" ?k]
    by (simp add: Let_def uint32_bound ensure_page_dense ei_write_ok idx1_def vec_put_def ecs_assert_def split: if_splits)
  have "take m (ei_dense idx') = take m (take (Suc m) (ei_dense idx'))" by (simp add: take_take)
  also have "\<dots> = take m (ei_dense idx)" unfolding Suc.IH [OF run] by (simp add: take_take idx1_def)
  finally show ?case .
qed simp

lemma new_ids_ok:
  assumes ok: "ei_ok idx" and c: "1 \<le> c" "ei_alive_count idx + c \<le> 2 ^ 27"
    and room: "\<And>j. 1 \<le> j \<Longrightarrow> length (ei_dense idx) + j \<le> ei_alive_count idx + c \<Longrightarrow>
      ei_look idx (ei_max_id idx + of_nat j) = 0"
  shows "returns (flecs_entity_index_new_ids idx c) (\<lambda>(idx', es). ei_ok idx' \<and> length es = c \<and>
    distinct (map id_index es) \<and> id_index ` set es \<inter> id_index ` ei_alive idx = {} \<and>
    ei_alive idx' = ei_alive idx \<union> set es \<and> same_tables idx idx')"
proof -
  let ?n = "ei_alive_count idx" and ?d = "ei_dense idx"
  note b = ei_okD(2,3) [OF ok]
  have fits: "int32 (int ?n + int c)" "int32 (8 * flecs_next_pow_of_2 (int (?n + c)))"
    using dense_fits [of "int (?n + c)"] c by (simp_all add: int32_def)
  have c32: "c < 2 ^ 32" using c(2) by simp
  have fin: "length (take c (drop ?n (ei_dense idx'))) = c \<and>
      distinct (map id_index (take c (drop ?n (ei_dense idx')))) \<and>
      id_index ` set (take c (drop ?n (ei_dense idx'))) \<inter> id_index ` ei_alive idx' = {} \<and>
      ei_ok (idx'\<lparr>ei_alive_count := ?n + c\<rparr>) \<and>
      ei_alive (idx'\<lparr>ei_alive_count := ?n + c\<rparr>) = ei_alive idx' \<union> set (take c (drop ?n (ei_dense idx')))"
    if "ei_ok idx'" "ei_alive_count idx' = ?n" "?n + c \<le> length (ei_dense idx')" for idx'
    using new_ids_distinct [OF ei_okD(1) [OF that(1)] b(1) that(3)] ei_ok_revive [OF that(1), of c] that
    by (simp add: ei_alive_def)
  show ?thesis
  proof (cases "?n + c < length ?d")
    case True
    with fin [OF ok refl] c show ?thesis
      by (simp add: flecs_entity_index_new_ids_def Let_def same_tables_refl fits ecs_assert_def)
  next
    case False
    let ?m = "length ?d" and ?k = "?n + c - length ?d"
    let ?i = "idx\<lparr>ei_dense := list_resize (?n + c) ?d\<rparr>"
    have tk: "take ?m (list_resize (?n + c) ?d) = ?d" using False by (simp add: list_resize_def)
    have "returns (new_ids_loop ?i ?m ?k) (\<lambda>idx'. ei_ok idx' \<and> same_tables ?i idx' \<and>
      take ?m (ei_dense idx') = take ?m (ei_dense ?i) \<and> length (ei_dense idx') = length (ei_dense ?i) \<and>
      ei_alive_count idx' = ei_alive_count ?i \<and> ei_max_id idx' = ei_max_id ?i + of_nat ?k \<and>
      drop ?m (ei_dense idx') = map (\<lambda>j. ucast (ei_max_id ?i + of_nat (Suc j))) [0..<?k])"
    proof (rule new_ids_loop_ok)
      have "?i\<lparr>ei_dense := take ?m (ei_dense ?i)\<rparr> = idx" by (simp add: tk)
      then show "ei_ok (?i\<lparr>ei_dense := take ?m (ei_dense ?i)\<rparr>)" using ok by simp
    qed (use False room c c32 b in auto)
    then have "returns (new_ids_loop ?i ?m ?k) (\<lambda>idx'. ?n < length (ei_dense idx') \<and>
        ei_ok (idx'\<lparr>ei_alive_count := ?n + c\<rparr>) \<and>
        length (take c (drop ?n (ei_dense idx'))) = c \<and>
        distinct (map id_index (take c (drop ?n (ei_dense idx')))) \<and>
        id_index ` set (take c (drop ?n (ei_dense idx'))) \<inter> id_index ` ei_alive idx = {} \<and>
        ei_alive (idx'\<lparr>ei_alive_count := ?n + c\<rparr>) = ei_alive idx \<union> set (take c (drop ?n (ei_dense idx'))) \<and>
        same_tables idx (idx'\<lparr>ei_alive_count := ?n + c\<rparr>))"
    proof (rule returns_mono, elim conjE)
      fix idx'
      assume a: "ei_ok idx'" "same_tables ?i idx'" "take ?m (ei_dense idx') = take ?m (ei_dense ?i)"
        "length (ei_dense idx') = length (ei_dense ?i)" "ei_alive_count idx' = ei_alive_count ?i"
      have len: "length (ei_dense idx') = ?n + c" "ei_alive_count idx' = ?n" using a by simp_all
      have "ei_dense idx' ! i = ?d ! i" if "i < ?n" for i
      proof -
        have pre: "take ?m (ei_dense idx') = ?d" using a(3) tk by simp
        have "i < ?m" using that b by simp
        then show ?thesis using nth_take [of i ?m "ei_dense idx'"] unfolding pre by simp
      qed
      then have al: "ei_alive idx' = ei_alive idx"
        unfolding ei_alive_def len(2) using b len(1) by (intro alive_ids_cong) auto
      from fin [OF a(1) len(2)] len(1) c a(2)
      show "?n < length (ei_dense idx') \<and>
        ei_ok (idx'\<lparr>ei_alive_count := ?n + c\<rparr>) \<and>
        length (take c (drop ?n (ei_dense idx'))) = c \<and>
        distinct (map id_index (take c (drop ?n (ei_dense idx')))) \<and>
        id_index ` set (take c (drop ?n (ei_dense idx'))) \<inter> id_index ` ei_alive idx = {} \<and>
        ei_alive (idx'\<lparr>ei_alive_count := ?n + c\<rparr>) = ei_alive idx \<union> set (take c (drop ?n (ei_dense idx'))) \<and>
        same_tables idx (idx'\<lparr>ei_alive_count := ?n + c\<rparr>)" by (simp add: al)
    qed
    then show ?thesis
      using False fits by (auto simp: flecs_entity_index_new_ids_def Let_def elim!: returns_mono)
  qed
qed

section \<open>Lookups, overriding the generation, clearing\<close>

lemma get_ok:
  assumes ok: "ei_ok idx"
  shows "e \<in> ei_alive idx \<Longrightarrow> flecs_entity_index_get idx e = Inr (id_index e)"
    and "e \<notin> ei_alive idx \<Longrightarrow> \<exists>err. flecs_entity_index_get idx e = Inl err"
proof -
  note p = ei_okD(1) [OF ok]
  {
    assume "e \<in> ei_alive idx"
    then have l: "ei_look idx (id_index e) \<noteq> 0" "ei_look idx (id_index e) < ei_alive_count idx"
      "ei_dense idx ! ei_look idx (id_index e) = e" by (simp_all add: alive_iff [OF ok])
    then obtain r where r: "ei_rec idx (id_index e) = Some r" using ei_look_rec by blast
    from l paired_bound [OF p] show "flecs_entity_index_get idx e = Inr (id_index e)"
      by (simp add: flecs_entity_index_get_def get_any_ok ei_read_ok [OF r] ei_rec_look [OF r])
  next
    assume dead: "e \<notin> ei_alive idx"
    show "\<exists>err. flecs_entity_index_get idx e = Inl err"
    proof (cases "flecs_entity_index_get_any idx e")
      case (Inr k)
      then obtain r where r: "ei_rec idx (id_index e) = Some r" "er_dense r \<noteq> 0" "k = id_index e"
        by (auto simp: flecs_entity_index_get_any_def Let_def bindR_eq_Inr ei_read_def split: option.splits)
      with dead paired_bound [OF p] show ?thesis
        by (auto simp: flecs_entity_index_get_def Inr ei_read_ok [OF r(1)] alive_iff [OF ok]
            ei_rec_look [OF r(1)] ecs_assert_def)
    qed (simp add: flecs_entity_index_get_def)
  }
qed

lemma get_alive_ok:
  assumes ok: "ei_ok idx"
  shows "x \<in> ei_alive idx \<Longrightarrow> id_index x = id_index e \<Longrightarrow> flecs_entity_index_get_alive idx e = Inr x"
    and "id_index e \<notin> id_index ` ei_alive idx \<Longrightarrow> flecs_entity_index_get_alive idx e = Inr 0"
proof -
  let ?l = "ei_look idx (id_index e)"
  note p = ei_okD(1) [OF ok]
  have eq: "flecs_entity_index_get_alive idx e =
      Inr (if ?l \<noteq> 0 \<and> ?l < ei_alive_count idx then ei_dense idx ! ?l else 0)"
  proof (cases "?l = 0")
    case False
    then obtain r where r: "ei_rec idx (id_index e) = Some r" using ei_look_rec by blast
    with False paired_bound [OF p] show ?thesis
      by (simp add: flecs_entity_index_get_alive_def try_get_any_look ei_read_ok [OF r] ei_rec_look [OF r])
  qed (simp add: flecs_entity_index_get_alive_def try_get_any_look)
  show "x \<in> ei_alive idx \<Longrightarrow> id_index x = id_index e \<Longrightarrow> flecs_entity_index_get_alive idx e = Inr x"
    by (simp add: eq alive_iff [OF ok])
  assume none: "id_index e \<notin> id_index ` ei_alive idx"
  have "\<not> (?l \<noteq> 0 \<and> ?l < ei_alive_count idx)"
  proof
    assume l: "?l \<noteq> 0 \<and> ?l < ei_alive_count idx"
    then have "ei_dense idx ! ?l \<in> ei_alive idx"
      using paired_bound [OF p] by (auto simp: ei_alive_def in_alive_ids intro: exI [of _ ?l])
    moreover have "id_index (ei_dense idx ! ?l) = id_index e" using paired_back [OF p] l by simp
    ultimately show False using none by (metis imageI)
  qed
  then show "flecs_entity_index_get_alive idx e = Inr 0" unfolding eq by (simp only: if_False)
qed

lemma make_alive_ok:
  assumes ok: "ei_ok idx"
  shows "returns (flecs_entity_index_make_alive idx e) (\<lambda>idx'. ei_ok idx' \<and>
    ei_alive idx' = (if id_index e \<in> id_index ` ei_alive idx
      then insert e {x \<in> ei_alive idx. id_index x \<noteq> id_index e} else ei_alive idx))"
proof (cases "ei_look idx (id_index e) = 0")
  case True
  then have "id_index e \<notin> id_index ` ei_alive idx" by (auto simp: alive_iff [OF ok])
  with True ok show ?thesis by (simp add: flecs_entity_index_make_alive_def try_get_any_look)
next
  case False
  let ?l = "ei_look idx (id_index e)" and ?d = "ei_dense idx" and ?n = "ei_alive_count idx"
  note p = ei_okD(1) [OF ok]
  obtain r where r: "ei_rec idx (id_index e) = Some r" using ei_look_rec [OF False] by blast
  have l: "?l < length ?d" "1 \<le> ?l" "id_index (?d ! ?l) = id_index e"
    using paired_bound [OF p] paired_back [OF p False] False by auto
  define idx' where "idx' = idx\<lparr>ei_dense := ?d[?l := e]\<rparr>"
  have "paired (ei_look idx') (ei_dense idx')"
    using paired_regen [OF p, of e ?l] l by (simp add: idx'_def)
  then have ok': "ei_ok idx'" using ok by (auto simp: ei_ok_def idx'_def)
  have look': "ei_look idx' = ei_look idx" by (simp add: idx'_def)
  have mem: "x \<in> ei_alive idx' \<longleftrightarrow> (if id_index x = id_index e then x = e \<and> ?l < ?n else x \<in> ei_alive idx)" for x
  proof (cases "id_index x = id_index e")
    case True
    then show ?thesis using l False by (auto simp: alive_iff [OF ok'] look') (auto simp: idx'_def)
  next
    case ne: False
    then have "ei_look idx (id_index x) = 0 \<or> ei_look idx (id_index x) \<noteq> ?l"
      using paired_back [OF p] False by metis
    with ne show ?thesis by (auto simp: alive_iff [OF ok'] alive_iff [OF ok] look') (auto simp: idx'_def)
  qed
  have "id_index e \<in> id_index ` ei_alive idx \<longleftrightarrow> ?l < ?n"
  proof
    assume "?l < ?n"
    then have "?d ! ?l \<in> ei_alive idx" using l by (auto simp: ei_alive_def in_alive_ids intro: exI [of _ ?l])
    with l show "id_index e \<in> id_index ` ei_alive idx" by (metis imageI)
  qed (auto simp: alive_iff [OF ok])
  note cond = this
  have "ei_alive idx' = (if id_index e \<in> id_index ` ei_alive idx
      then insert e {x \<in> ei_alive idx. id_index x \<noteq> id_index e} else ei_alive idx)"
  proof (rule set_eqI)
    fix x
    have "id_index x = id_index e \<Longrightarrow> \<not> ?l < ?n \<Longrightarrow> x \<notin> ei_alive idx"
      using alive_iff [OF ok, of x] by simp
    then show "x \<in> ei_alive idx' \<longleftrightarrow> x \<in> (if id_index e \<in> id_index ` ei_alive idx
      then insert e {x \<in> ei_alive idx. id_index x \<noteq> id_index e} else ei_alive idx)"
      unfolding mem cond by auto
  qed
  moreover have "flecs_entity_index_make_alive idx e = Inr idx'"
    using False l by (simp add: flecs_entity_index_make_alive_def try_get_any_look ei_read_ok [OF r]
        ei_rec_look [OF r] idx'_def)
  ultimately show ?thesis using ok' by simp
qed

lemma clear_ok: "ei_ok (flecs_entity_index_clear idx) \<and> ei_alive (flecs_entity_index_clear idx) = {}"
proof -
  have rec: "ei_rec (flecs_entity_index_clear idx) k = None \<or>
      ei_rec (flecs_entity_index_clear idx) k = Some zero_record" for k
    by (auto simp: ei_rec_def flecs_entity_index_clear_def option.map_comp comp_def
        split: option.splits)
  have "ei_look (flecs_entity_index_clear idx) k = 0" for k
    using rec [of k] by (elim disjE) (simp_all add: ei_look_def zero_record_def)
  moreover have "er_table r = None" if "ei_rec (flecs_entity_index_clear idx) k = Some r" for k r
    using rec [of k] that by (auto simp: zero_record_def)
  ultimately show ?thesis
    by (auto simp: ei_ok_def paired_def ei_alive_def alive_ids_def flecs_entity_index_clear_def
        simp flip: length_greater_0_conv)
qed

section \<open>Shrinking\<close>

definition page_entity :: "nat \<Rightarrow> nat \<Rightarrow> ecs_entity" where
  \<comment> \<open>\<open>(i * FLECS_ENTITY_PAGE_SIZE) + e\<close> as an id: its generation is zero. The sum is an \<open>int32_t\<close>,
    which \<open>shrink_scan\<close> checks\<close>
  "page_entity i e = of_nat (i * 1024 + e)"

fun shrink_scan :: "entity_index \<Rightarrow> entity_page \<Rightarrow> nat \<Rightarrow> nat \<Rightarrow> nat \<Rightarrow> bool result" where
  \<comment> \<open>the loop over the records of page \<open>i\<close> from record \<open>e\<close> on, for \<open>n\<close> records\<close>
  "shrink_scan idx page i e 0 = Inr False"
| "shrink_scan idx page i e (Suc n) =
    ecs_assert (int32 (int (i * 1024 + e))) Int_Overflow
     (if er_dense (page e) \<noteq> 0 then
       bindR (flecs_entity_index_get_any idx (page_entity i e)) (\<lambda>k.
       ecs_assert (page_index 10 k = i \<and> page_offset 10 k = e) ECS_INTERNAL_ERROR
         (bindR (flecs_entity_index_is_alive idx (page_entity i e)) (\<lambda>a.
          if a then Inr True else shrink_scan idx page i (Suc e) n)))
     else shrink_scan idx page i (Suc e) n)"

fun shrink_pages :: "entity_index \<Rightarrow> nat \<Rightarrow> nat \<Rightarrow> nat \<Rightarrow> (entity_index \<times> nat) result" where
  \<comment> \<open>the loop over the pages from page \<open>i\<close> on, for \<open>n\<close> pages\<close>
  "shrink_pages idx i 0 max_page_index = Inr (idx, max_page_index)"
| "shrink_pages idx i (Suc n) max_page_index =
    (case ei_pages idx ! i of
      None \<Rightarrow> shrink_pages idx (Suc i) n max_page_index
    | Some page \<Rightarrow>
        bindR (shrink_scan idx page i 0 1024) (\<lambda>has_alive.
        if \<not> has_alive
        then shrink_pages (idx\<lparr>ei_pages := (ei_pages idx)[i := None]\<rparr>) (Suc i) n max_page_index
        else shrink_pages idx (Suc i) n i))"

definition flecs_entity_index_shrink :: "entity_index \<Rightarrow> entity_index result" where
  "flecs_entity_index_shrink idx =
    (let idx = idx\<lparr>ei_dense := list_resize (ei_alive_count idx) (ei_dense idx)\<rparr> in
     bindR (shrink_pages idx 0 (length (ei_pages idx)) 0) (\<lambda>(idx, max_page_index).
     Inr (idx\<lparr>ei_pages := list_resize (max_page_index + 1) (ei_pages idx)\<rparr>)))"

definition ei_live :: "entity_index \<Rightarrow> ecs_entity \<Rightarrow> bool" where
  \<comment> \<open>what \<open>flecs_entity_index_is_alive\<close> tests, also where the invariant does not hold\<close>
  "ei_live idx e \<longleftrightarrow> ei_look idx (id_index e) \<noteq> 0 \<and> ei_look idx (id_index e) < ei_alive_count idx \<and>
    ei_dense idx ! ei_look idx (id_index e) = e"

lemma is_alive_live:
  assumes "ei_alive_count idx \<le> length (ei_dense idx)"
  shows "flecs_entity_index_is_alive idx e = Inr (ei_live idx e)"
proof (cases "ei_look idx (id_index e) = 0")
  case True
  then show ?thesis
    by (simp add: flecs_entity_index_is_alive_def flecs_entity_index_try_get_def try_get_any_look ei_live_def)
next
  case False
  then obtain r where r: "ei_rec idx (id_index e) = Some r" using ei_look_rec by blast
  with False assms show ?thesis
    by (auto simp: flecs_entity_index_is_alive_def flecs_entity_index_try_get_def try_get_any_look
        ei_live_def ei_read_ok [OF r] ei_rec_look [OF r])
qed

lemma page_entity_index:
  assumes "i < 2 ^ 22" "e < 1024"
  shows "page_index 10 (id_index (page_entity i e)) = i" and "page_offset 10 (id_index (page_entity i e)) = e"
    and "ucast (id_index (page_entity i e)) = page_entity i e"
proof -
  let ?m = "i * 1024 + e"
  have lt: "?m < 2 ^ 32" using assms by simp
  have u64: "unat (page_entity i e) = ?m" using lt unfolding page_entity_def unat_of_nat by simp
  then have u: "unat (id_index (page_entity i e)) = ?m"
    using lt by (simp add: id_index_def unsigned_ucast_eq take_bit_nat_eq_self)
  show "page_index 10 (id_index (page_entity i e)) = i" "page_offset 10 (id_index (page_entity i e)) = e"
    using assms by (simp_all add: page_index_div page_offset_mod u)
  have "unat (ucast (id_index (page_entity i e)) :: 64 word) = ?m"
    using u lt by (simp add: unsigned_ucast_eq take_bit_nat_eq_self)
  with u64 show "ucast (id_index (page_entity i e)) = page_entity i e" by (simp add: word_unat_eq_iff)
qed

lemma ei_look_page:
  assumes "ei_pages idx ! i = Some page" "i < length (ei_pages idx)" "i < 2 ^ 22" "e < 1024"
  shows "ei_look idx (id_index (page_entity i e)) = er_dense (page e)"
  using assms by (simp add: ei_look_def ei_rec_def page_entity_index)

definition page_live :: "entity_index \<Rightarrow> nat \<Rightarrow> bool" where
  \<comment> \<open>some id of generation zero in page \<open>i\<close> is alive\<close>
  "page_live idx i \<longleftrightarrow> (\<exists>e < 1024. ei_live idx (page_entity i e))"

lemma shrink_scan_ok:
  assumes "ei_pages idx ! i = Some page" "i < length (ei_pages idx)" "i < 2 ^ 22"
    and "ei_alive_count idx \<le> length (ei_dense idx)" and "e + n \<le> 1024" and "i < 2 ^ 21"
  shows "shrink_scan idx page i e n = Inr (\<exists>j. e \<le> j \<and> j < e + n \<and> ei_live idx (page_entity i j))"
  using assms(5)
proof (induction n arbitrary: e)
  case 0
  then show ?case by simp
next
  case (Suc n)
  have e: "e < 1024" using Suc.prems by simp
  have IH: "shrink_scan idx page i (Suc e) n =
      Inr (\<exists>j. Suc e \<le> j \<and> j < Suc e + n \<and> ei_live idx (page_entity i j))"
    using Suc.prems by (intro Suc.IH) simp
  have split: "(\<exists>j. e \<le> j \<and> j < e + Suc n \<and> ei_live idx (page_entity i j)) \<longleftrightarrow>
      ei_live idx (page_entity i e) \<or> (\<exists>j. Suc e \<le> j \<and> j < Suc e + n \<and> ei_live idx (page_entity i j))"
  proof -
    have "(e \<le> j \<and> j < e + Suc n \<and> ei_live idx (page_entity i j)) =
        (j = e \<and> ei_live idx (page_entity i j) \<or>
         Suc e \<le> j \<and> j < Suc e + n \<and> ei_live idx (page_entity i j))" for j by auto
    then show ?thesis by (simp only: ex_disj_distrib simp_thms)
  qed
  note look = ei_look_page [OF assms(1-3) e]
  have fits: "int32 (int (i * 1024 + e))" "int32 (int i * 1024 + int e)" using e assms(6) by (simp_all add: int32_def)
  show ?case
  proof (cases "er_dense (page e) = 0")
    case True
    then have "\<not> ei_live idx (page_entity i e)" by (simp add: ei_live_def look)
    with True IH split fits show ?thesis by simp
  next
    case False
    then have "flecs_entity_index_get_any idx (page_entity i e) = Inr (id_index (page_entity i e))"
      by (intro get_any_ok) (simp add: look)
    with False IH split fits show ?thesis
      by (simp add: page_entity_index [OF assms(3) e] is_alive_live [OF assms(4)])
  qed
qed

lemma ei_live_cong:
  assumes "i < 2 ^ 22" "e < 1024" "ei_pages idx' ! i = ei_pages idx ! i"
    "length (ei_pages idx') = length (ei_pages idx)"
    "ei_dense idx' = ei_dense idx" "ei_alive_count idx' = ei_alive_count idx"
  shows "ei_live idx' (page_entity i e) = ei_live idx (page_entity i e)"
  using assms by (simp add: ei_live_def ei_look_def ei_rec_def page_entity_index)

definition shrunk :: "entity_index \<Rightarrow> nat \<Rightarrow> nat \<Rightarrow> entity_index \<times> nat \<Rightarrow> bool" where
  \<comment> \<open>what the page loop does from page \<open>i\<close> on\<close>
  "shrunk idx i m r \<longleftrightarrow> (case r of (idx', m') \<Rightarrow> ei_dense idx' = ei_dense idx \<and>
    ei_alive_count idx' = ei_alive_count idx \<and> length (ei_pages idx') = length (ei_pages idx) \<and>
    (\<forall>j < i. ei_pages idx' ! j = ei_pages idx ! j) \<and>
    (\<forall>j < length (ei_pages idx). i \<le> j \<longrightarrow> ei_pages idx' ! j =
      (if page_live idx j then ei_pages idx ! j else None)) \<and>
    (\<forall>j < length (ei_pages idx). i \<le> j \<longrightarrow> ei_pages idx' ! j \<noteq> None \<longrightarrow> j \<le> m') \<and>
    (m' = m \<or> i \<le> m' \<and> m' < length (ei_pages idx)))"

lemma page_live_cong:
  assumes "ei_pages idx' ! j = ei_pages idx ! j" "length (ei_pages idx') = length (ei_pages idx)"
    "ei_dense idx' = ei_dense idx" "ei_alive_count idx' = ei_alive_count idx" "j < 2 ^ 22"
  shows "page_live idx' j = page_live idx j"
  using ei_live_cong [OF assms(5) _ assms(1-4)] by (auto simp: page_live_def)

lemma page_live_None:
  "ei_pages idx ! i = None \<Longrightarrow> i < 2 ^ 22 \<Longrightarrow> \<not> page_live idx i"
  by (auto simp: page_live_def ei_live_def ei_look_def ei_rec_def page_entity_index)

lemma shrunk_step:
  assumes i: "i < length (ei_pages idx)" and small: "length (ei_pages idx) \<le> 2 ^ 22"
    and idx1: "ei_dense idx1 = ei_dense idx" "ei_alive_count idx1 = ei_alive_count idx"
      "ei_pages idx1 = (ei_pages idx)[i := if page_live idx i then ei_pages idx ! i else None]"
      "m1 = (if page_live idx i then i else m)"
    and r: "shrunk idx1 (Suc i) m1 (idx', m')"
  shows "shrunk idx i m (idx', m')"
proof -
  have len: "length (ei_pages idx1) = length (ei_pages idx)" by (simp add: idx1)
  have a: "ei_dense idx' = ei_dense idx1" "ei_alive_count idx' = ei_alive_count idx1"
    "length (ei_pages idx') = length (ei_pages idx1)"
    "\<forall>j < Suc i. ei_pages idx' ! j = ei_pages idx1 ! j"
    "\<forall>j < length (ei_pages idx1). Suc i \<le> j \<longrightarrow> ei_pages idx' ! j =
      (if page_live idx1 j then ei_pages idx1 ! j else None)"
    "\<forall>j < length (ei_pages idx1). Suc i \<le> j \<longrightarrow> ei_pages idx' ! j \<noteq> None \<longrightarrow> j \<le> m'"
    "m' = m1 \<or> Suc i \<le> m' \<and> m' < length (ei_pages idx1)"
    using r unfolding shrunk_def prod.case by blast+
  have same: "ei_pages idx1 ! j = ei_pages idx ! j" if "j \<noteq> i" for j using that by (simp add: idx1)
  have at: "ei_pages idx1 ! i = (if page_live idx i then ei_pages idx ! i else None)"
    using i by (simp add: idx1)
  have later: "ei_pages idx' ! j = (if page_live idx j then ei_pages idx ! j else None)"
    if j: "j < length (ei_pages idx)" "i \<le> j" for j
  proof (cases "j = i")
    case True
    then show ?thesis using a(4) at by simp
  next
    case False
    have "j < 2 ^ 22" using j small by simp
    then have "page_live idx1 j = page_live idx j"
      using False by (intro page_live_cong same len idx1(1,2))
    with False j a(5) same [of j] len show ?thesis by simp
  qed
  have le: "j \<le> m'" if j: "j < length (ei_pages idx)" "i \<le> j" "ei_pages idx' ! j \<noteq> None" for j
  proof (cases "j = i")
    case True
    then have "page_live idx i" using j later [of i] by (auto split: if_splits)
    with True a(7) idx1(4) show ?thesis by auto
  next
    case False
    with j a(6) len show ?thesis by simp
  qed
  have "m' = m \<or> i \<le> m' \<and> m' < length (ei_pages idx)"
    using a(7) idx1(4) i len by (cases "page_live idx i") auto
  moreover have "\<forall>j < i. ei_pages idx' ! j = ei_pages idx ! j"
  proof (intro allI impI)
    fix j assume "j < i"
    then show "ei_pages idx' ! j = ei_pages idx ! j" using a(4) same [of j] by simp
  qed
  moreover have "ei_dense idx' = ei_dense idx" "ei_alive_count idx' = ei_alive_count idx"
    "length (ei_pages idx') = length (ei_pages idx)" using a(1-3) idx1(1,2) len by simp_all
  ultimately show ?thesis unfolding shrunk_def prod.case using later le by blast
qed

lemma shrink_pages_overflow:
  assumes "ei_alive_count idx \<le> length (ei_dense idx)" "i + n = length (ei_pages idx)" "length (ei_pages idx) \<le> 2 ^ 22"
    "\<exists>j \<ge> i. 2 ^ 21 \<le> j \<and> j < length (ei_pages idx) \<and> ei_pages idx ! j \<noteq> None"
  shows "shrink_pages idx i n m = Inl Int_Overflow"
  using assms
proof (induction n arbitrary: idx i m)
  case (Suc n)
  obtain j where j: "i \<le> j" "2 ^ 21 \<le> j" "j < length (ei_pages idx)" "ei_pages idx ! j \<noteq> None" using Suc.prems(4) by blast
  have i: "i < length (ei_pages idx)" "i < 2 ^ 22" using Suc.prems(2,3) by auto
  have later: "shrink_pages idx1 (Suc i) n m1 = Inl Int_Overflow"
    if "j \<noteq> i" "ei_dense idx1 = ei_dense idx" "ei_alive_count idx1 = ei_alive_count idx"
      "length (ei_pages idx1) = length (ei_pages idx)" "ei_pages idx1 ! j = ei_pages idx ! j" for idx1 m1
  proof (rule Suc.IH)
    show "\<exists>j \<ge> Suc i. 2 ^ 21 \<le> j \<and> j < length (ei_pages idx1) \<and> ei_pages idx1 ! j \<noteq> None"
      using j that by (intro exI [of _ j]) simp
  qed (use Suc.prems that in simp_all)
  show ?case
  proof (cases "ei_pages idx ! i")
    case None
    with j have "j \<noteq> i" by auto
    with None later [of idx m] show ?thesis by simp
  next
    case (Some page)
    show ?thesis
    proof (cases "i < 2 ^ 21")
      case True
      with j have ne: "j \<noteq> i" by auto
      have sc: "shrink_scan idx page i 0 1024 = Inr (\<exists>j. 0 \<le> j \<and> j < 0 + 1024 \<and> ei_live idx (page_entity i j))"
        by (rule shrink_scan_ok [OF Some i Suc.prems(1) _ True]) simp
      show ?thesis
        using later [OF ne, of idx i] later [OF ne, of "idx\<lparr>ei_pages := (ei_pages idx)[i := None]\<rparr>" m] ne
        by (simp add: Some sc)
    next
      case False
      then have "\<not> int32 (int (i * 1024 + 0))" by (simp add: int32_def)
      then have "shrink_scan idx page i 0 (Suc 1023) = Inl Int_Overflow" by (simp only: shrink_scan.simps) (simp add: ecs_assert_def)
      moreover have "Suc 1023 = 1024" by simp
      ultimately show ?thesis by (simp only: Some shrink_pages.simps option.case bindR_Inl)
    qed
  qed
qed auto

lemma shrink_pages_ok:
  assumes "ei_alive_count idx \<le> length (ei_dense idx)" "i + n = length (ei_pages idx)"
    "length (ei_pages idx) \<le> 2 ^ 22" "\<forall>j < length (ei_pages idx). 2 ^ 21 \<le> j \<longrightarrow> ei_pages idx ! j = None"
  shows "returns (shrink_pages idx i n m) (shrunk idx i m)"
  using assms
proof (induction n arbitrary: idx i m)
  case 0
  then show ?case by (auto simp: shrunk_def)
next
  case (Suc n)
  have i: "i < length (ei_pages idx)" "i < 2 ^ 22" using Suc.prems by auto
  have step: "returns (shrink_pages idx1 (Suc i) n m1) (shrunk idx i m)"
    if idx1: "ei_dense idx1 = ei_dense idx" "ei_alive_count idx1 = ei_alive_count idx"
      "ei_pages idx1 = (ei_pages idx)[i := if page_live idx i then ei_pages idx ! i else None]"
      "m1 = (if page_live idx i then i else m)" for idx1 m1
  proof (rule returns_mono)
    show "returns (shrink_pages idx1 (Suc i) n m1) (shrunk idx1 (Suc i) m1)"
      using Suc.prems by (intro Suc.IH) (auto simp: idx1 nth_list_update)
    show "shrunk idx1 (Suc i) m1 r \<Longrightarrow> shrunk idx i m r" for r
      using shrunk_step [OF i(1) Suc.prems(3) idx1] by (cases r) simp
  qed
  show ?case
  proof (cases "ei_pages idx ! i")
    case None
    then have "(ei_pages idx)[i := None] = ei_pages idx" by (metis list_update_id)
    with None page_live_None [OF None i(2)] step [of idx m] show ?thesis by simp
  next
    case (Some page)
    then have "\<not> 2 ^ 21 \<le> i" using Suc.prems(4) i(1) by auto
    then have sc: "shrink_scan idx page i 0 1024 = Inr (page_live idx i)"
      using shrink_scan_ok [OF Some i Suc.prems(1), of 0 1024] by (simp add: page_live_def)
    show ?thesis
    proof (cases "page_live idx i")
      case True
      then have "returns (shrink_pages idx (Suc i) n i) (shrunk idx i m)"
        by (intro step) (simp_all add: list_update_id)
      then show ?thesis using True by (simp add: Some sc)
    next
      case False
      then have "returns (shrink_pages (idx\<lparr>ei_pages := (ei_pages idx)[i := None]\<rparr>) (Suc i) n m) (shrunk idx i m)"
        by (intro step) simp_all
      then show ?thesis using False by (simp add: Some sc)
    qed
  qed
qed

lemma shrink_alive:
  assumes ok: "ei_ok idx" and small: "length (ei_pages idx) \<le> 2 ^ 22"
      "\<forall>j < length (ei_pages idx). 2 ^ 21 \<le> j \<longrightarrow> ei_pages idx ! j = None" and x: "x \<in> ei_alive idx"
  shows "returns (flecs_entity_index_shrink idx) (\<lambda>idx'. flecs_entity_index_is_alive idx' x =
    Inr (\<exists>y \<in> ei_alive idx. page_index 10 (id_index y) = page_index 10 (id_index x) \<and>
      ucast (id_index y) = y))"
proof -
  let ?n = "ei_alive_count idx" and ?j = "page_index 10 (id_index x)"
  let ?i = "idx\<lparr>ei_dense := list_resize ?n (ei_dense idx)\<rparr>"
  note b = ei_okD(2,3) [OF ok]
  have live: "ei_live ?i y \<longleftrightarrow> y \<in> ei_alive idx" for y
    using b by (auto simp: ei_live_def alive_iff [OF ok] list_resize_take)
  obtain rx where rx: "ei_rec idx (id_index x) = Some rx"
    using x ei_look_rec by (auto simp: alive_iff [OF ok])
  then have j: "?j < length (ei_pages idx)" by (intro ei_rec_page) simp
  then have j22: "?j < 2 ^ 22" using small by simp
  have cond: "page_live ?i ?j \<longleftrightarrow> (\<exists>y \<in> ei_alive idx. page_index 10 (id_index y) = ?j \<and> ucast (id_index y) = y)"
  proof
    assume "page_live ?i ?j"
    then obtain e where "e < 1024" "page_entity ?j e \<in> ei_alive idx" by (auto simp: page_live_def live)
    with page_entity_index [OF j22] show "\<exists>y \<in> ei_alive idx. page_index 10 (id_index y) = ?j \<and> ucast (id_index y) = y"
      by blast
  next
    assume "\<exists>y \<in> ei_alive idx. page_index 10 (id_index y) = ?j \<and> ucast (id_index y) = y"
    then obtain y where y: "y \<in> ei_alive idx" "page_index 10 (id_index y) = ?j" "ucast (id_index y) = y" by blast
    define o' where "o' = page_offset 10 (id_index y)"
    have o': "o' < 1024" by (simp add: o'_def page_offset_mod)
    have "id_index (page_entity ?j o') = id_index y"
      using page_entity_index [OF j22 o'] y(2) by (intro page_cell_inj [of 10]) (simp_all add: o'_def)
    then have "page_entity ?j o' = y" using page_entity_index(3) [OF j22 o'] y(3) by metis
    with y(1) o' show "page_live ?i ?j" by (auto simp: page_live_def live)
  qed
  have "returns (shrink_pages ?i 0 (length (ei_pages idx)) 0) (shrunk ?i 0 0)"
    using b small by (intro shrink_pages_ok) simp_all
  then have "returns (shrink_pages ?i 0 (length (ei_pages idx)) 0) (\<lambda>(idx', m).
      flecs_entity_index_is_alive (idx'\<lparr>ei_pages := list_resize (m + 1) (ei_pages idx')\<rparr>) x = Inr (page_live ?i ?j))"
  proof (elim returns_mono, unfold split_paired_all prod.case)
    fix idx' m assume "shrunk ?i 0 0 (idx', m)"
    then have a: "ei_dense idx' = list_resize ?n (ei_dense idx)" "ei_alive_count idx' = ?n"
      "length (ei_pages idx') = length (ei_pages idx)"
      "ei_pages idx' ! ?j = (if page_live ?i ?j then ei_pages idx ! ?j else None)"
      "ei_pages idx' ! ?j \<noteq> None \<Longrightarrow> ?j \<le> m"
      "m = 0 \<or> m < length (ei_pages idx)"
      using j by (auto simp: shrunk_def)
    let ?f = "idx'\<lparr>ei_pages := list_resize (m + 1) (ei_pages idx')\<rparr>"
    have m: "m + 1 \<le> length (ei_pages idx')" using a(3,6) j by auto
    have pages: "?j < m + 1 \<Longrightarrow> ei_pages ?f ! ?j = ei_pages idx' ! ?j" using m by (simp add: list_resize_take)
    have "ei_rec ?f (id_index x) = (if page_live ?i ?j then ei_rec idx (id_index x) else None)"
    proof (cases "page_live ?i ?j")
      case True
      with rx a(4) have "ei_pages idx' ! ?j \<noteq> None" by (auto simp: ei_rec_def split: if_splits)
      with True a(4,5) pages j show ?thesis by (simp add: ei_rec_def)
    next
      case False
      with a(4) pages show ?thesis by (auto simp: ei_rec_def)
    qed
    then have "ei_look ?f (id_index x) = (if page_live ?i ?j then ei_look idx (id_index x) else 0)"
      by (simp add: ei_look_def)
    moreover have "ei_live ?i x" using x by (simp add: live)
    ultimately have "ei_live ?f x \<longleftrightarrow> page_live ?i ?j"
      using a(1,2) by (auto simp: ei_live_def)
    moreover have "ei_alive_count ?f \<le> length (ei_dense ?f)" using a(1,2) by simp
    ultimately show "flecs_entity_index_is_alive ?f x = Inr (page_live ?i ?j)"
      by (simp add: is_alive_live)
  qed
  then show ?thesis
    by (auto simp: flecs_entity_index_shrink_def Let_def cond elim!: returns_mono)
qed

end
