(* ===== verification/Table_Storage.thy ===== *)
theory Table_Storage
  imports Flecs_Vec Flecs_Bitset Entity_Index Table_Type
begin

text \<open>
  \<open>storage/table.c\<close>: the storage of a table, with one row for each entity and one column for each
  component: appending, deleting, moving and swapping rows. A table is the part of \<open>ecs_table_t\<close> that
  these operations use; a pointer to a table is its id. The records of the entities are in the entity
  index (theory \<open>Entity_Index\<close>).

  A column is an array of cells (theory \<open>Type_Hooks\<close>), memory that is freshly allocated is raw. What
  the callbacks of a component do is up to the application: invoking one is an event, as is freeing the
  array of a column. The component values of a base entity that \<open>flecs_table_update_overrides\<close> resolves
  for a table with \<open>IsA\<close> pairs are a field of the table.
\<close>

section \<open>State\<close>

record 'v ecs_column =
  col_data :: "'v cell list"
  col_ti :: "'v type_info"

record 'v ecs_table =
  t_id :: nat
  t_flags :: "32 word"
  t_type :: ecs_type
  t_column_map :: "int list"
  t_columns :: "'v ecs_column list"
  t_entities :: "ecs_entity list"
  t_count :: nat
  t_size :: nat
  t_bs :: "ecs_bitset list"
  t_bs_offset :: nat
  t_lock :: nat
  t_dirty :: "nat list option"
  t_version :: "16 word"
  t_bases :: "'v cell option list option"

datatype 'v table_event =
    On_Add nat "ecs_entity list" nat nat \<comment> \<open>column, entities, row and count\<close>
  | On_Remove nat "ecs_entity list" nat nat
  | On_Set nat "ecs_entity list" nat nat
  | Freed nat "'v cell list"

definition EcsTableHasIsA :: "32 word" where [simp]: "EcsTableHasIsA = 0x4"
definition EcsTableHasCtors :: "32 word" where [simp]: "EcsTableHasCtors = 0x800"
definition EcsTableHasDtors :: "32 word" where [simp]: "EcsTableHasDtors = 0x1000"
definition EcsTableHasCopy :: "32 word" where [simp]: "EcsTableHasCopy = 0x2000"
definition EcsTableHasMove :: "32 word" where [simp]: "EcsTableHasMove = 0x4000"
definition EcsTableHasToggle :: "32 word" where [simp]: "EcsTableHasToggle = 0x8000"
definition EcsTableHasSparse :: "32 word" where [simp]: "EcsTableHasSparse = 0x200000"
definition EcsTableEmpty :: "32 word" where [simp]: "EcsTableEmpty = 0x4000000"
definition EcsTableNotEmpty :: "32 word" where [simp]: "EcsTableNotEmpty = 0x40000000"

definition EcsTableHasLifecycle :: "32 word" where
  [simp]: "EcsTableHasLifecycle = EcsTableHasCtors OR EcsTableHasDtors"

definition EcsTableIsComplex :: "32 word" where
  [simp]: "EcsTableIsComplex = EcsTableHasLifecycle OR EcsTableHasToggle OR EcsTableHasSparse"

definition ECS_ROW_MASK :: "32 word" where
  "ECS_ROW_MASK = 0x0FFFFFFF"

definition ECS_ROW_FLAGS_MASK :: "32 word" where
  "ECS_ROW_FLAGS_MASK = NOT ECS_ROW_MASK"

definition ECS_RECORD_TO_ROW :: "32 word \<Rightarrow> nat" where
  "ECS_RECORD_TO_ROW v = unat (v AND ECS_ROW_MASK)"

definition ECS_RECORD_TO_ROW_FLAGS :: "32 word \<Rightarrow> 32 word" where
  "ECS_RECORD_TO_ROW_FLAGS v = v AND ECS_ROW_FLAGS_MASK"

definition ECS_ROW_TO_RECORD :: "nat \<Rightarrow> 32 word \<Rightarrow> 32 word" where
  "ECS_ROW_TO_RECORD row flags = word_of_nat row OR flags"

definition flecs_type_info_flags :: "'v type_info \<Rightarrow> 32 word" where
  "flecs_type_info_flags ti =
    flag_if (h_ctor (ti_hooks ti) \<noteq> None) EcsTableHasCtors OR flag_if (h_on_add (ti_hooks ti)) EcsTableHasCtors OR
    flag_if (h_dtor (ti_hooks ti) \<noteq> None) EcsTableHasDtors OR flag_if (h_on_remove (ti_hooks ti)) EcsTableHasDtors OR
    flag_if (h_copy (ti_hooks ti) \<noteq> None) EcsTableHasCopy OR flag_if (h_move (ti_hooks ti) \<noteq> None) EcsTableHasMove"

section \<open>Columns\<close>

definition ecs_vec_from_column_ext :: "'v ecs_column \<Rightarrow> nat \<Rightarrow> nat \<Rightarrow> 'v cell ecs_vec" where
  "ecs_vec_from_column_ext c cnt sz = \<lparr>vec_array = col_data c, vec_count = int cnt, vec_size = int sz\<rparr>"

definition ecs_vec_from_column :: "'v ecs_column \<Rightarrow> 'v ecs_table \<Rightarrow> 'v cell ecs_vec" where
  "ecs_vec_from_column c t = ecs_vec_from_column_ext c (t_count t) (t_size t)"

definition ecs_vec_from_entities :: "'v ecs_table \<Rightarrow> ecs_entity ecs_vec" where
  "ecs_vec_from_entities t = \<lparr>vec_array = t_entities t, vec_count = int (t_count t), vec_size = int (t_size t)\<rparr>"

definition raw_fresh :: "'v cell ecs_vec \<Rightarrow> 'v cell ecs_vec \<Rightarrow> 'v cell ecs_vec" where
  \<comment> \<open>the slots that a vector operation has added hold no value\<close>
  "raw_fresh v w = w\<lparr>vec_array := take (length (vec_array v)) (vec_array w) @
    replicate (length (vec_array w) - length (vec_array v)) Raw\<rparr>"

definition flecs_column_id :: "'v ecs_table \<Rightarrow> nat \<Rightarrow> 64 word result" where
  "flecs_column_id t ci =
    bindR (arr_get (t_column_map t) (length (t_type t) + ci)) (\<lambda>i.
    if i < 0 then Inl Bad_Access else arr_get (t_type t) (nat i))"

definition flecs_table_invoke_hook ::
    "'v ecs_table \<Rightarrow> (nat \<Rightarrow> ecs_entity list \<Rightarrow> nat \<Rightarrow> nat \<Rightarrow> 'v table_event) \<Rightarrow> nat \<Rightarrow> ecs_entity list \<Rightarrow> nat \<Rightarrow> nat \<Rightarrow>
      'v table_event list result" where
  \<comment> \<open>the callback gets the component record and column of the table record of the type index\<close>
  "flecs_table_invoke_hook t ev ci entities row cnt =
    ecs_assert (ci < length (t_columns t)) ECS_INTERNAL_ERROR
     (bindR (arr_get (t_column_map t) (length (t_type t) + ci)) (\<lambda>type_index.
      ecs_assert (type_index \<ge> 0) ECS_INTERNAL_ERROR
       (ecs_assert (type_index < int (length (t_type t))) ECS_INTERNAL_ERROR
         (Inr [ev ci entities row cnt]))))"

definition copy_ctor_elem :: "'v::zero type_info \<Rightarrow> 'v cell \<Rightarrow> nat \<Rightarrow> 'v cell list \<Rightarrow> 'v cell list result" where
  \<comment> \<open>\<open>flecs_type_info_copy_ctor(ptr, base_ptr, 1, ti)\<close> for the element at \<open>i\<close>\<close>
  "copy_ctor_elem ti base i a =
    (if i < length a
     then bindR (flecs_type_info_copy_ctor ti [a ! i] [base]) (\<lambda>b. Inr (take i a @ b @ drop (Suc i) a))
     else Inl Bad_Access)"

definition base_of :: "'v ecs_table \<Rightarrow> nat \<Rightarrow> 'v cell option" where
  \<comment> \<open>the component of the base entity for a column, if \<open>overrides->refs[column_index].entity\<close> is set\<close>
  "base_of t ci = (case t_bases t of None \<Rightarrow> None | Some bs \<Rightarrow> if ci < length bs then bs ! ci else None)"

definition flecs_table_invoke_ctor_for_array ::
    "'v::zero ecs_table option \<Rightarrow> nat \<Rightarrow> 'v cell list \<Rightarrow> nat \<Rightarrow> nat \<Rightarrow> 'v type_info \<Rightarrow> ('v cell list \<times> 'v table_event list) result" where
  "flecs_table_invoke_ctor_for_array table ci array row cnt ti =
    (case (case table of None \<Rightarrow> None | Some t \<Rightarrow> map_option (Pair t) (base_of t ci)) of
      Some (t, base) \<Rightarrow>
        bindR (for_loop (copy_ctor_elem ti base) row cnt array) (\<lambda>array.
        Inr (array, if h_on_set (ti_hooks ti) then [On_Set ci (take cnt (drop row (t_entities t))) row cnt] else []))
    | None \<Rightarrow> bindR (cells_xtor (flecs_type_info_ctor ti) array row cnt) (\<lambda>array. Inr (array, [])))"

definition flecs_table_grow_column ::
    "'v::zero ecs_table option \<Rightarrow> nat \<Rightarrow> 'v cell ecs_vec \<Rightarrow> 'v type_info \<Rightarrow> nat \<Rightarrow> nat \<Rightarrow> bool \<Rightarrow>
      ('v cell ecs_vec \<times> 'v table_event list) result" where
  "flecs_table_grow_column table ci column ti to_add dst_size construct =
    (let cnt = nat (vec_count column); sz = vec_size column; dst_count = cnt + to_add;
         can_realloc = (int dst_size \<noteq> sz) in
     ecs_assert (dst_size \<ge> dst_count) ECS_INTERNAL_ERROR
      (bindR
        (if cnt \<noteq> 0 \<and> can_realloc \<and> h_ctor_move_dtor (ti_hooks ti) \<noteq> None then
           ecs_assert (h_ctor (ti_hooks ti) \<noteq> None) ECS_INTERNAL_ERROR
            (bindR (cells_move (flecs_type_info_ctor_move_dtor ti) (replicate dst_size Raw) 0 (vec_array column) 0 cnt)
              (\<lambda>(dst_buffer, src_buffer).
             bindR (if construct then flecs_table_invoke_ctor_for_array table ci dst_buffer cnt to_add ti
                    else Inr (dst_buffer, [])) (\<lambda>(dst_buffer, ev).
             Inr (\<lparr>vec_array = dst_buffer, vec_count = int dst_count, vec_size = int dst_size\<rparr>, ev @ [Freed ci src_buffer]))))
         else
           let column = (if can_realloc then raw_fresh column (ecs_vec_set_size column (int dst_size)) else column) in
           bindR (ecs_vec_grow column (int to_add)) (\<lambda>(w, _).
           let column = raw_fresh column w in
           bindR (if construct then flecs_table_invoke_ctor_for_array table ci (vec_array column) cnt to_add ti
                  else Inr (vec_array column, [])) (\<lambda>(a, ev).
           Inr (column\<lparr>vec_array := a\<rparr>, ev))))
        (\<lambda>(column, ev). ecs_assert (vec_size column = int dst_size) ECS_INTERNAL_ERROR (Inr (column, ev)))))"

definition set_data :: "'v ecs_table \<Rightarrow> nat \<Rightarrow> 'v cell list \<Rightarrow> 'v ecs_table" where
  "set_data t ci a = t\<lparr>t_columns := (t_columns t)[ci := (t_columns t ! ci)\<lparr>col_data := a\<rparr>]\<rparr>"

definition flecs_table_mark_table_dirty :: "'v ecs_table \<Rightarrow> nat \<Rightarrow> 'v ecs_table result" where
  \<comment> \<open>without the version array of the world\<close>
  "flecs_table_mark_table_dirty t i =
    bindR (case t_dirty t of
        None \<Rightarrow> Inr t
      | Some d \<Rightarrow> bindR (arr_get d i) (\<lambda>n. bindR (arr_set d i (n + 1)) (\<lambda>d. Inr (t\<lparr>t_dirty := Some d\<rparr>)))) (\<lambda>t.
    Inr (if i = 0 then t\<lparr>t_version := t_version t + 1\<rparr> else t))"

definition flecs_table_get_dirty_state :: "'v ecs_table \<Rightarrow> 'v ecs_table \<times> nat list" where
  "flecs_table_get_dirty_state t = (case t_dirty t of
      Some d \<Rightarrow> (t, d)
    | None \<Rightarrow> let d = replicate (length (t_columns t) + 1) 1 in (t\<lparr>t_dirty := Some d\<rparr>, d))"


section \<open>Appending\<close>

definition set_not_empty :: "'v ecs_table \<Rightarrow> 'v ecs_table" where
  "set_not_empty t = t\<lparr>t_flags := (t_flags t AND NOT EcsTableEmpty) OR EcsTableNotEmpty\<rparr>"

definition set_empty :: "'v ecs_table \<Rightarrow> 'v ecs_table" where
  "set_empty t = t\<lparr>t_flags := (t_flags t OR EcsTableEmpty) AND NOT EcsTableNotEmpty\<rparr>"

definition fast_append_column :: "nat \<Rightarrow> 'v ecs_table \<Rightarrow> 'v ecs_table result" where
  "fast_append_column ci t =
    (let v = ecs_vec_from_column (t_columns t ! ci) t in
     Inr (set_data t ci (vec_array (raw_fresh v (fst (ecs_vec_append v))))))"

definition flecs_table_fast_append :: "'v ecs_table \<Rightarrow> 'v ecs_table result" where
  "flecs_table_fast_append t = for_loop fast_append_column 0 (length (t_columns t)) t"

definition append_column ::
    "ecs_entity list \<Rightarrow> nat \<Rightarrow> nat \<Rightarrow> nat \<Rightarrow> bool \<Rightarrow> bool \<Rightarrow> nat \<Rightarrow>
      'v::zero ecs_table \<times> 'v table_event list \<Rightarrow> ('v ecs_table \<times> 'v table_event list) result" where
  \<comment> \<open>one round of the loop of \<open>flecs_table_append\<close> over the columns\<close>
  "append_column entities prev_count prev_size sz construct on_add ci = (\<lambda>(t, log).
    let column = t_columns t ! ci; ti = col_ti column;
        v_column = ecs_vec_from_column_ext column prev_count prev_size in
    bindR (flecs_table_grow_column (Some t) ci v_column ti 1 sz construct) (\<lambda>(v_column, ev).
    let t = set_data t ci (vec_array v_column) in
    bindR (if on_add \<and> h_on_add (ti_hooks ti) then flecs_table_invoke_hook t On_Add ci entities prev_count 1 else Inr [])
      (\<lambda>ev'.
    ecs_assert (vec_size v_column = int (t_size t)) ECS_INTERNAL_ERROR
     (ecs_assert (vec_count v_column = int (t_count t)) ECS_INTERNAL_ERROR
       (Inr (t, log @ ev @ ev'))))))"

definition append_bitset :: "nat \<Rightarrow> nat \<Rightarrow> 'v ecs_table \<Rightarrow> 'v ecs_table result" where
  "append_bitset n i t =
    bindR (arr_get (t_bs t) i) (\<lambda>bs. bindR (flecs_bitset_addn bs (int n)) (\<lambda>bs.
    Inr (t\<lparr>t_bs := (t_bs t)[i := bs]\<rparr>)))"

definition flecs_table_append ::
    "'v::zero ecs_table \<Rightarrow> ecs_entity \<Rightarrow> bool \<Rightarrow> bool \<Rightarrow> ('v ecs_table \<times> 'v table_event list) result" where
  "flecs_table_append t entity construct on_add =
    ecs_assert (t_lock t = 0) ECS_LOCKED_STORAGE
    (let cnt = t_count t; (v_entities, e) = ecs_vec_append (ecs_vec_from_entities t) in
     bindR (vec_store v_entities e entity) (\<lambda>v_entities.
     let t = t\<lparr>t_entities := vec_array v_entities\<rparr> in
     bindR (flecs_table_mark_table_dirty t 0) (\<lambda>t.
     let t = (if cnt = 0 then set_not_empty t else t) in
     if \<not> has_flag (t_flags t) (EcsTableIsComplex OR EcsTableHasIsA) then
       bindR (flecs_table_fast_append t) (\<lambda>t.
       Inr (t\<lparr>t_count := nat (vec_count v_entities), t_size := nat (vec_size v_entities)\<rparr>, []))
     else
       let prev_count = t_count t; prev_size = t_size t in
       ecs_assert (int (t_count t) = vec_count v_entities - 1) ECS_INTERNAL_ERROR
        (let t = t\<lparr>t_count := nat (vec_count v_entities), t_size := nat (vec_size v_entities)\<rparr>;
             sz = nat (vec_size v_entities) in
         bindR (for_loop (append_column [entity] prev_count prev_size sz construct on_add) 0 (length (t_columns t)) (t, []))
          (\<lambda>(t, log).
         bindR (for_loop (append_bitset 1) 0 (length (t_bs t)) t) (\<lambda>t. Inr (t, log)))))))"

section \<open>Deleting\<close>

definition flecs_table_invoke_dtor :: "'v ecs_column \<Rightarrow> nat \<Rightarrow> nat \<Rightarrow> 'v cell list result" where
  "flecs_table_invoke_dtor column row cnt =
    ecs_assert (col_data column \<noteq> []) ECS_INTERNAL_ERROR
      (cells_xtor (flecs_type_info_dtor (col_ti column)) (col_data column) row cnt)"

definition flecs_table_invoke_ctor ::
    "'v::zero ecs_table \<Rightarrow> nat \<Rightarrow> nat \<Rightarrow> nat \<Rightarrow> ('v ecs_table \<times> 'v table_event list) result" where
  "flecs_table_invoke_ctor t ci row cnt =
    bindR (arr_get (t_columns t) ci) (\<lambda>column.
    ecs_assert (col_data column \<noteq> []) ECS_INTERNAL_ERROR
     (bindR (flecs_table_invoke_ctor_for_array (Some t) ci (col_data column) row cnt (col_ti column)) (\<lambda>(a, ev).
      Inr (set_data t ci a, ev))))"

definition flecs_table_invoke_add_hooks ::
    "'v::zero ecs_table \<Rightarrow> nat \<Rightarrow> ecs_entity list \<Rightarrow> nat \<Rightarrow> nat \<Rightarrow> bool \<Rightarrow> ('v ecs_table \<times> 'v table_event list) result" where
  "flecs_table_invoke_add_hooks t ci entities row cnt construct =
    bindR (arr_get (t_columns t) ci) (\<lambda>column.
    ecs_assert (col_data column \<noteq> []) ECS_INTERNAL_ERROR
     (bindR (if construct then flecs_table_invoke_ctor t ci row cnt else Inr (t, [])) (\<lambda>(t, ev).
      bindR (if h_on_add (ti_hooks (col_ti column)) then flecs_table_invoke_hook t On_Add ci entities row cnt else Inr [])
       (\<lambda>ev'. Inr (t, ev @ ev')))))"

definition flecs_table_invoke_remove_hooks ::
    "'v ecs_table \<Rightarrow> nat \<Rightarrow> ecs_entity list \<Rightarrow> nat \<Rightarrow> nat \<Rightarrow> bool \<Rightarrow> ('v ecs_table \<times> 'v table_event list) result" where
  "flecs_table_invoke_remove_hooks t ci entities row cnt dtor =
    bindR (arr_get (t_columns t) ci) (\<lambda>column.
    ecs_assert (col_data column \<noteq> []) ECS_INTERNAL_ERROR
     (bindR (if h_on_remove (ti_hooks (col_ti column)) then flecs_table_invoke_hook t On_Remove ci entities row cnt else Inr [])
       (\<lambda>ev.
      bindR (if dtor then bindR (flecs_table_invoke_dtor column row cnt) (\<lambda>a. Inr (set_data t ci a)) else Inr t) (\<lambda>t.
      Inr (t, ev)))))"

definition move_within :: "'v move_fn \<Rightarrow> nat \<Rightarrow> nat \<Rightarrow> 'v cell list \<Rightarrow> 'v cell list result" where
  \<comment> \<open>move one element of an array to another place in it\<close>
  "move_within f i j a =
    (if i < length a \<and> j < length a
     then bindR (f [a ! i] [a ! j]) (\<lambda>(b, c).
       Inr (let a = take j a @ c @ drop (Suc j) a in take i a @ b @ drop (Suc i) a))
     else Inl Bad_Access)"

definition memcpy_at :: "8 word list \<Rightarrow> nat \<Rightarrow> 8 word list \<Rightarrow> nat \<Rightarrow> 8 word list result" where
  \<comment> \<open>\<open>ecs_os_memcpy(&dst[i], &src[i], n)\<close>\<close>
  "memcpy_at dst i src n =
    (if i + n \<le> length dst \<and> i + n \<le> length src
     then Inr (take i dst @ take n (drop i src) @ drop (i + n) dst) else Inl Bad_Access)"

definition flecs_table_copy_elem :: "8 word list \<Rightarrow> 8 word list \<Rightarrow> nat \<Rightarrow> 8 word list result" where
  "flecs_table_copy_elem dst src sz =
    (if sz = 16 then memcpy_at dst 0 src 16
     else if sz = 8 then memcpy_at dst 0 src 8
     else if sz = 4 then memcpy_at dst 0 src 4
     else if sz > 32 then memcpy_at dst 0 src sz
     else if sz > 16 then bindR (memcpy_at dst 0 src 16) (\<lambda>dst. memcpy_at dst (sz - 16) src 16)
     else if sz > 8 then bindR (memcpy_at dst 0 src 8) (\<lambda>dst. memcpy_at dst (sz - 8) src 8)
     else if sz > 4 then bindR (memcpy_at dst 0 src 4) (\<lambda>dst. memcpy_at dst (sz - 4) src 4)
     else if sz > 2 then bindR (memcpy_at dst 0 src 2) (\<lambda>dst. memcpy_at dst (sz - 2) src 2)
     else if sz = 2 then memcpy_at dst 0 src 2
     else bindR (arr_get src 0) (arr_set dst 0))"

definition copy_cell :: "'v move_fn" where
  \<comment> \<open>what \<open>flecs_table_copy_elem\<close> does to elements, whose source is given up: see \<open>flecs_table_copy_elem_copies\<close>\<close>
  "copy_cell dst src = relocate dst src"

definition flecs_table_fast_delete :: "nat \<Rightarrow> 'v ecs_table \<Rightarrow> 'v ecs_table result" where
  "flecs_table_fast_delete row t =
    (let lst = t_count t - 1 in
     for_loop (\<lambda>ci t. bindR (move_within copy_cell row lst (col_data (t_columns t ! ci))) (\<lambda>a. Inr (set_data t ci a)))
       0 (length (t_columns t)) t)"

definition delete_last_column ::
    "ecs_entity \<Rightarrow> nat \<Rightarrow> nat \<Rightarrow> 'v ecs_table \<times> 'v table_event list \<Rightarrow> ('v ecs_table \<times> 'v table_event list) result" where
  "delete_last_column entity row ci = (\<lambda>(t, log).
    bindR (flecs_table_invoke_remove_hooks t ci [entity] row 1 True) (\<lambda>(t, ev). Inr (t, log @ ev)))"

definition delete_column ::
    "ecs_entity \<Rightarrow> nat \<Rightarrow> nat \<Rightarrow> bool \<Rightarrow> nat \<Rightarrow> 'v::zero ecs_table \<times> 'v table_event list \<Rightarrow>
      ('v ecs_table \<times> 'v table_event list) result" where
  "delete_column entity row cnt destruct ci = (\<lambda>(t, log).
    let column = t_columns t ! ci; ti = col_ti column in
    bindR (if destruct \<and> h_on_remove (ti_hooks ti) then flecs_table_invoke_hook t On_Remove ci [entity] row 1 else Inr [])
      (\<lambda>ev.
    bindR (if h_move_ctor (ti_hooks ti) = None \<and> h_ctor_move_dtor (ti_hooks ti) \<noteq> None
           then move_within (flecs_type_info_ctor_move_dtor ti) row cnt (col_data column)
           else move_within (flecs_type_info_move_dtor ti) row cnt (col_data column)) (\<lambda>a.
    Inr (set_data t ci a, log @ ev))))"

definition delete_bitset :: "nat \<Rightarrow> nat \<Rightarrow> 'v ecs_table \<Rightarrow> 'v ecs_table result" where
  "delete_bitset row i t =
    bindR (arr_get (t_bs t) i) (\<lambda>bs. bindR (flecs_bitset_remove bs (int row)) (\<lambda>bs.
    Inr (t\<lparr>t_bs := (t_bs t)[i := bs]\<rparr>)))"

definition update_moved_record :: "entity_index \<Rightarrow> nat \<Rightarrow> ecs_entity \<Rightarrow> nat \<Rightarrow> entity_index result" where
  \<comment> \<open>the record of an entity whose row in the table has changed\<close>
  "update_moved_record idx tid e row =
    bindR (flecs_entity_index_get idx e) (\<lambda>k.
    bindR (ei_read idx k) (\<lambda>r.
    bindR (ei_write idx k (\<lambda>r. r\<lparr>er_row := ECS_ROW_TO_RECORD row (er_row r AND ECS_ROW_FLAGS_MASK)\<rparr>)) (\<lambda>idx.
    ecs_assert (er_table r \<noteq> None) ECS_INTERNAL_ERROR
     (ecs_assert (er_table r = Some tid) ECS_INTERNAL_ERROR (Inr idx)))))"

definition flecs_table_delete ::
    "entity_index \<Rightarrow> 'v::zero ecs_table \<Rightarrow> nat \<Rightarrow> bool \<Rightarrow> (entity_index \<times> 'v ecs_table \<times> 'v table_event list) result" where
  "flecs_table_delete idx t row destruct =
    ecs_assert (t_lock t = 0) ECS_LOCKED_STORAGE
    (ecs_assert (t_count t > 0) ECS_INTERNAL_ERROR
     (let cnt = t_count t - 1 in
      ecs_assert (row \<le> cnt) ECS_INTERNAL_ERROR
       (bindR (arr_get (t_entities t) cnt) (\<lambda>entity_to_move.
        bindR (arr_get (t_entities t) row) (\<lambda>entity_to_delete.
        bindR (arr_set (t_entities t) row entity_to_move) (\<lambda>es.
        let t = t\<lparr>t_entities := es\<rparr> in
        bindR (if row \<noteq> cnt then update_moved_record idx (t_id t) entity_to_move row else Inr idx) (\<lambda>idx.
        bindR (flecs_table_mark_table_dirty t 0) (\<lambda>t.
        let finish = (\<lambda>t. let t = t\<lparr>t_count := t_count t - 1\<rparr> in if cnt = 0 then set_empty t else t) in
        if \<not> has_flag (t_flags t) EcsTableIsComplex then
          bindR (if row \<noteq> cnt then flecs_table_fast_delete row t else Inr t) (\<lambda>t. Inr (idx, finish t, []))
        else
          bindR (if row = cnt then
                   if destruct \<and> has_flag (t_flags t) EcsTableHasDtors
                   then for_loop (delete_last_column entity_to_delete row) 0 (length (t_columns t)) (t, [])
                   else Inr (t, [])
                 else if has_flag (t_flags t) (EcsTableHasDtors OR EcsTableHasMove)
                   then for_loop (delete_column entity_to_delete row cnt destruct) 0 (length (t_columns t)) (t, [])
                   else bindR (flecs_table_fast_delete row t) (\<lambda>t. Inr (t, []))) (\<lambda>(t, log).
          bindR (for_loop (delete_bitset row) 0 (length (t_bs t)) t) (\<lambda>t.
          Inr (idx, finish t, log)))))))))))"


section \<open>Moving\<close>

fun merge_columns ::
    "(nat \<Rightarrow> nat \<Rightarrow> 's \<Rightarrow> 's result) \<Rightarrow> (nat \<Rightarrow> 's \<Rightarrow> 's result) \<Rightarrow> (nat \<Rightarrow> 's \<Rightarrow> 's result) \<Rightarrow>
      (nat \<Rightarrow> 's \<Rightarrow> 's result) \<Rightarrow> (nat \<Rightarrow> 's \<Rightarrow> 's result) \<Rightarrow>
      64 word list \<Rightarrow> 64 word list \<Rightarrow> nat \<Rightarrow> nat \<Rightarrow> 's \<Rightarrow> 's result" where
  \<comment> \<open>walk over the ids of two tables: \<open>both\<close> where the ids are equal, \<open>new\<close> for an id of the destination only,
    \<open>old\<close> for one of the source only; \<open>new_rest\<close> and \<open>old_rest\<close> are the loops over what is left at the end\<close>
  "merge_columns both new old new_rest old_rest (d # ds) (s # ss) i_new i_old st =
    (if d = s then bindR (both i_new i_old st)
       (\<lambda>st. merge_columns both new old new_rest old_rest ds ss (Suc i_new) (Suc i_old) st)
     else if d < s then bindR (new i_new st)
       (\<lambda>st. merge_columns both new old new_rest old_rest ds (s # ss) (Suc i_new) i_old st)
     else bindR (old i_old st)
       (\<lambda>st. merge_columns both new old new_rest old_rest (d # ds) ss i_new (Suc i_old) st))"
| "merge_columns both new old new_rest old_rest (d # ds) [] i_new i_old st =
    bindR (new_rest i_new st) (\<lambda>st. merge_columns both new old new_rest old_rest ds [] (Suc i_new) i_old st)"
| "merge_columns both new old new_rest old_rest [] (s # ss) i_new i_old st =
    bindR (old_rest i_old st) (\<lambda>st. merge_columns both new old new_rest old_rest [] ss i_new (Suc i_old) st)"
| "merge_columns both new old new_rest old_rest [] [] i_new i_old st = Inr st"

fun mapR :: "('a \<Rightarrow> 'b result) \<Rightarrow> 'a list \<Rightarrow> 'b list result" where
  "mapR f [] = Inr []"
| "mapR f (x # xs) = bindR (f x) (\<lambda>y. bindR (mapR f xs) (\<lambda>ys. Inr (y # ys)))"

definition column_ids :: "'v ecs_table \<Rightarrow> 64 word list result" where
  \<comment> \<open>the ids of the columns, which the loops read one by one\<close>
  "column_ids t = mapR (flecs_column_id t) [0..<length (t_columns t)]"

definition bs_ids :: "'v ecs_table \<Rightarrow> 64 word list" where
  \<comment> \<open>the ids of the bitset columns: the one at \<open>bs_offset\<close> and the following ones with the toggle flag\<close>
  "bs_ids t = take (length (t_bs t)) (case drop (t_bs_offset t) (t_type t) of [] \<Rightarrow> []
    | x # xs \<Rightarrow> x # filter (\<lambda>i. ECS_HAS_ID_FLAG i ECS_TOGGLE) xs)"

type_synonym 'v move_state = "'v ecs_table \<times> 'v ecs_table \<times> 'v table_event list"

definition copy_bit :: "ecs_bitset \<Rightarrow> nat \<Rightarrow> nat \<Rightarrow> nat \<Rightarrow> ecs_bitset \<Rightarrow> ecs_bitset result" where
  "copy_bit src_bs src_index dst_index i dst_bs =
    bindR (flecs_bitset_get src_bs (int (src_index + i))) (\<lambda>value.
    flecs_bitset_set dst_bs (int (dst_index + i)) value)"

definition fini_bitset :: "nat \<Rightarrow> 'v ecs_table \<Rightarrow> 'v ecs_table result" where
  "fini_bitset i t = bindR (arr_get (t_bs t) i) (\<lambda>bs. Inr (t\<lparr>t_bs := (t_bs t)[i := flecs_bitset_fini bs]\<rparr>))"

definition assert_bs_count :: "nat \<Rightarrow> nat \<Rightarrow> 'v ecs_table \<Rightarrow> 'v ecs_table result" where
  "assert_bs_count cnt i t = bindR (arr_get (t_bs t) i) (\<lambda>bs.
    ecs_assert (int cnt = flecs_bitset_count bs) ECS_INTERNAL_ERROR (Inr t))"

definition flecs_table_move_bitset_columns ::
    "'v ecs_table \<Rightarrow> nat \<Rightarrow> 'v ecs_table \<Rightarrow> nat \<Rightarrow> nat \<Rightarrow> bool \<Rightarrow> ('v ecs_table \<times> 'v ecs_table) result" where
  "flecs_table_move_bitset_columns dst dst_index src src_index cnt clear =
    merge_columns
      (\<lambda>i_new i_old (dst, src).
        bindR (arr_get (t_bs src) i_old) (\<lambda>src_bs.
        bindR (arr_get (t_bs dst) i_new) (\<lambda>dst_bs.
        bindR (flecs_bitset_ensure dst_bs (int (dst_index + cnt))) (\<lambda>dst_bs.
        bindR (for_loop (copy_bit src_bs src_index dst_index) 0 cnt dst_bs) (\<lambda>dst_bs.
        let dst = dst\<lparr>t_bs := (t_bs dst)[i_new := dst_bs]\<rparr> in
        bindR (if clear then bindR (assert_bs_count cnt i_old src) (fini_bitset i_old) else Inr src) (\<lambda>src.
        Inr (dst, src)))))))
      (\<lambda>_. Inr)
      (\<lambda>i_old (dst, src). bindR (if clear then fini_bitset i_old src else Inr src) (\<lambda>src. Inr (dst, src)))
      (\<lambda>_. Inr)
      (\<lambda>i_old (dst, src). bindR (if clear then bindR (assert_bs_count cnt i_old src) (fini_bitset i_old) else Inr src)
        (\<lambda>src. Inr (dst, src)))
      (bs_ids dst) (bs_ids src) 0 0 (dst, src)"

definition move_column :: "'v move_fn \<Rightarrow> nat \<Rightarrow> nat \<Rightarrow> nat \<Rightarrow> nat \<Rightarrow> 'v move_state \<Rightarrow> 'v move_state result" where
  "move_column f dst_index src_index i_new i_old = (\<lambda>(dst, src, log).
    bindR (cells_move f (col_data (t_columns dst ! i_new)) dst_index (col_data (t_columns src ! i_old)) src_index 1)
      (\<lambda>(a, b). Inr (set_data dst i_new a, set_data src i_old b, log)))"

definition flecs_table_fast_move ::
    "'v ecs_table \<Rightarrow> nat \<Rightarrow> 'v ecs_table \<Rightarrow> nat \<Rightarrow> 'v move_state result" where
  "flecs_table_fast_move dst dst_index src src_index =
    bindR (column_ids dst) (\<lambda>ds. bindR (column_ids src) (\<lambda>ss.
    merge_columns (move_column copy_cell dst_index src_index) (\<lambda>_. Inr) (\<lambda>_. Inr) (\<lambda>_. Inr) (\<lambda>_. Inr)
      ds ss 0 0 (dst, src, [])))"

definition move_both :: "bool \<Rightarrow> nat \<Rightarrow> nat \<Rightarrow> nat \<Rightarrow> nat \<Rightarrow> 'v::zero move_state \<Rightarrow> 'v move_state result" where
  "move_both use_move_dtor dst_index src_index i_new i_old = (\<lambda>(dst, src, log).
    let ti = col_ti (t_columns dst ! i_new);
        use_ctor_move_dtor = (use_move_dtor \<or> h_move_ctor (ti_hooks ti) = None) in
    ecs_assert (ti_size ti \<noteq> 0) ECS_INTERNAL_ERROR
      (if use_ctor_move_dtor
       then move_column (flecs_type_info_ctor_move_dtor ti) dst_index src_index i_new i_old (dst, src, log)
       else move_column (flecs_type_info_move_ctor ti) dst_index src_index i_new i_old (dst, src, log)))"

definition move_new :: "ecs_entity \<Rightarrow> nat \<Rightarrow> 64 word \<Rightarrow> nat \<Rightarrow> 'v::zero move_state \<Rightarrow> 'v move_state result" where
  "move_new dst_entity dst_index emplace_id i_new = (\<lambda>(dst, src, log).
    bindR (flecs_column_id dst i_new) (\<lambda>dst_id.
    bindR (flecs_table_invoke_add_hooks dst i_new [dst_entity] dst_index 1 (dst_id \<noteq> emplace_id)) (\<lambda>(dst, ev).
    Inr (dst, src, log @ ev))))"

definition move_old :: "ecs_entity \<Rightarrow> nat \<Rightarrow> bool \<Rightarrow> nat \<Rightarrow> 'v move_state \<Rightarrow> 'v move_state result" where
  "move_old src_entity src_index use_move_dtor i_old = (\<lambda>(dst, src, log).
    bindR (flecs_table_invoke_remove_hooks src i_old [src_entity] src_index 1 use_move_dtor) (\<lambda>(src, ev).
    Inr (dst, src, log @ ev)))"

definition flecs_table_move ::
    "ecs_entity \<Rightarrow> ecs_entity \<Rightarrow> 'v::zero ecs_table \<Rightarrow> nat \<Rightarrow> 'v ecs_table \<Rightarrow> nat \<Rightarrow> 64 word \<Rightarrow> 'v move_state result" where
  "flecs_table_move dst_entity src_entity dst dst_index src src_index emplace_id =
    ecs_assert (t_lock dst = 0) ECS_LOCKED_STORAGE
    (ecs_assert (t_lock src = 0) ECS_LOCKED_STORAGE
     (if \<not> has_flag (t_flags dst OR t_flags src) (EcsTableIsComplex OR EcsTableHasIsA)
      then flecs_table_fast_move dst dst_index src src_index
      else
        bindR (flecs_table_move_bitset_columns dst dst_index src src_index 1 False) (\<lambda>(dst, src).
        let use_move_dtor = (t_count src = src_index + 1) in
        bindR (column_ids dst) (\<lambda>ds. bindR (column_ids src) (\<lambda>ss.
        merge_columns (move_both use_move_dtor dst_index src_index)
          (move_new dst_entity dst_index emplace_id) (move_old src_entity src_index use_move_dtor)
          (move_new dst_entity dst_index emplace_id) (move_old src_entity src_index use_move_dtor)
          ds ss 0 0 (dst, src, []))))))"

section \<open>Swapping\<close>

definition flecs_table_swap_bitset_columns :: "'v ecs_table \<Rightarrow> nat \<Rightarrow> nat \<Rightarrow> 'v ecs_table result" where
  "flecs_table_swap_bitset_columns t row_1 row_2 =
    for_loop (\<lambda>i t. bindR (flecs_bitset_swap (t_bs t ! i) (int row_1) (int row_2)) (\<lambda>bs. Inr (t\<lparr>t_bs := (t_bs t)[i := bs]\<rparr>)))
      0 (length (t_bs t)) t"

definition swap_cells :: "'v::zero type_info \<Rightarrow> nat \<Rightarrow> nat \<Rightarrow> 'v cell list \<Rightarrow> 'v cell list result" where
  \<comment> \<open>swap two elements of a column through a temporary element\<close>
  "swap_cells ti i j a =
    bindR (arr_get a i) (\<lambda>el_1.
    bindR (arr_get a j) (\<lambda>el_2.
    if h_move (ti_hooks ti) = None then Inr (a[i := el_2, j := el_1])
    else ecs_assert (h_move_ctor (ti_hooks ti) \<noteq> None) ECS_INTERNAL_ERROR
      (ecs_assert (h_move_dtor (ti_hooks ti) \<noteq> None) ECS_INTERNAL_ERROR
       (bindR (flecs_type_info_move_ctor ti [Raw] [el_1]) (\<lambda>(tmp, c_1).
        bindR (flecs_type_info_move ti c_1 [el_2]) (\<lambda>(c_1, c_2).
        bindR (flecs_type_info_move_dtor ti c_2 tmp) (\<lambda>(c_2, tmp).
        Inr (take j (take i a @ c_1 @ drop (Suc i) a) @ c_2 @ drop (Suc j) (take i a @ c_1 @ drop (Suc i) a)))))))))"

definition flecs_table_swap :: "entity_index \<Rightarrow> 'v::zero ecs_table \<Rightarrow> nat \<Rightarrow> nat \<Rightarrow> (entity_index \<times> 'v ecs_table) result" where
  "flecs_table_swap idx t row_1 row_2 =
    ecs_assert (t_lock t = 0) ECS_LOCKED_STORAGE
     (if row_1 = row_2 then Inr (idx, t)
      else
        bindR (flecs_table_mark_table_dirty t 0) (\<lambda>t.
        bindR (arr_get (t_entities t) row_1) (\<lambda>e1.
        bindR (arr_get (t_entities t) row_2) (\<lambda>e2.
        bindR (flecs_entity_index_get idx e1) (\<lambda>k1.
        bindR (flecs_entity_index_get idx e2) (\<lambda>k2.
        bindR (ei_read idx k1) (\<lambda>r1. bindR (ei_read idx k2) (\<lambda>r2.
        let flags_1 = ECS_RECORD_TO_ROW_FLAGS (er_row r1); flags_2 = ECS_RECORD_TO_ROW_FLAGS (er_row r2);
            t = t\<lparr>t_entities := (t_entities t)[row_1 := e2, row_2 := e1]\<rparr> in
        bindR (ei_write idx k1 (\<lambda>r. r\<lparr>er_row := ECS_ROW_TO_RECORD row_2 flags_1\<rparr>)) (\<lambda>idx.
        bindR (ei_write idx k2 (\<lambda>r. r\<lparr>er_row := ECS_ROW_TO_RECORD row_1 flags_2\<rparr>)) (\<lambda>idx.
        bindR (flecs_table_swap_bitset_columns t row_1 row_2) (\<lambda>t.
        bindR (for_loop (\<lambda>ci t. bindR (swap_cells (col_ti (t_columns t ! ci)) row_1 row_2 (col_data (t_columns t ! ci)))
            (\<lambda>a. Inr (set_data t ci a))) 0 (length (t_columns t)) t) (\<lambda>t.
        Inr (idx, t)))))))))))))"


section \<open>Growing and shrinking\<close>

definition grow_data_column ::
    "ecs_entity list \<Rightarrow> nat \<Rightarrow> nat \<Rightarrow> nat \<Rightarrow> nat \<Rightarrow> nat \<Rightarrow>
      'v::zero ecs_table \<times> 'v table_event list \<Rightarrow> ('v ecs_table \<times> 'v table_event list) result" where
  \<comment> \<open>one round of the loop of \<open>flecs_table_grow_data\<close> over the columns\<close>
  "grow_data_column e prev_count prev_size to_add sz ci = (\<lambda>(t, log).
    let column = t_columns t ! ci; ti = col_ti column;
        v_column = ecs_vec_from_column_ext column prev_count prev_size in
    bindR (flecs_table_grow_column (Some t) ci v_column ti to_add sz True) (\<lambda>(v_column, ev).
    ecs_assert (vec_size v_column = int sz) ECS_INTERNAL_ERROR
     (ecs_assert (vec_size v_column = int (t_size t)) ECS_INTERNAL_ERROR
      (ecs_assert (vec_count v_column = int (t_count t)) ECS_INTERNAL_ERROR
       (let t = set_data t ci (vec_array v_column) in
        bindR (if to_add \<noteq> 0 then flecs_table_invoke_add_hooks t ci e prev_count to_add False else Inr (t, []))
         (\<lambda>(t, ev'). Inr (t, log @ ev @ ev')))))))"

definition flecs_table_grow_data ::
    "'v::zero ecs_table \<Rightarrow> nat \<Rightarrow> nat \<Rightarrow> ecs_entity list option \<Rightarrow> ('v ecs_table \<times> 'v table_event list \<times> nat) result" where
  "flecs_table_grow_data t to_add sz ids =
    ecs_assert (t_count t + to_add = sz) ECS_INTERNAL_ERROR
    (let cnt = t_count t;
         t = (if cnt = 0 \<and> to_add \<noteq> 0 then set_not_empty t else t);
         v_entities = ecs_vec_set_size (ecs_vec_from_entities t) (int sz);
         e = (case ids of Some xs \<Rightarrow> take to_add xs | None \<Rightarrow> replicate to_add 0);
         new_size = (if vec_size v_entities > int sz then nat (vec_size v_entities) else sz) in
     ecs_assert (sz = 0 \<or> cnt + to_add \<le> length (vec_array v_entities) \<and> length e = to_add) Bad_Access
      (let prev_count = t_count t; prev_size = t_size t;
           t = t\<lparr>t_entities := (if sz = 0 then vec_array v_entities
                 else take cnt (vec_array v_entities) @ e @ drop (cnt + to_add) (vec_array v_entities)),
               t_count := nat (vec_count v_entities) + to_add, t_size := nat (vec_size v_entities)\<rparr> in
       bindR (for_loop (grow_data_column e prev_count prev_size to_add new_size) 0 (length (t_columns t)) (t, []))
        (\<lambda>(t, log).
       bindR (for_loop (append_bitset to_add) 0 (length (t_bs t)) t) (\<lambda>t.
       bindR (flecs_table_mark_table_dirty t 0) (\<lambda>t. Inr (t, log, cnt))))))"

definition appendn_record :: "nat \<Rightarrow> nat \<Rightarrow> ecs_entity list \<Rightarrow> nat \<Rightarrow> entity_index \<Rightarrow> entity_index result" where
  "appendn_record tid cnt ids i idx =
    bindR (arr_get ids i) (\<lambda>e.
    bindR (flecs_entity_index_get idx e) (\<lambda>k.
    ei_write idx k (\<lambda>r. r\<lparr>er_table := Some tid, er_row := ECS_ROW_TO_RECORD (cnt + i) 0\<rparr>)))"

definition flecs_table_appendn ::
    "entity_index \<Rightarrow> 'v::zero ecs_table \<Rightarrow> nat \<Rightarrow> ecs_entity list \<Rightarrow>
      (entity_index \<times> 'v ecs_table \<times> 'v table_event list \<times> nat) result" where
  "flecs_table_appendn idx t to_add ids =
    ecs_assert (t_lock t = 0) ECS_LOCKED_STORAGE
     (bindR (for_loop (appendn_record (t_id t) (t_count t) ids) 0 to_add idx) (\<lambda>idx.
      bindR (flecs_table_grow_data t to_add (t_count t + to_add) (Some ids)) (\<lambda>(t, log, result).
      Inr (idx, t, log, result))))"

definition shrink_column :: "nat \<Rightarrow> nat \<Rightarrow> 'v::zero ecs_table \<times> 'v table_event list \<Rightarrow> ('v ecs_table \<times> 'v table_event list) result" where
  "shrink_column cnt ci = (\<lambda>(t, log).
    let column = t_columns t ! ci in
    if cnt \<noteq> 0 then
      bindR (cells_move (flecs_type_info_ctor_move_dtor (col_ti column)) (replicate cnt Raw) 0 (col_data column) 0 cnt)
       (\<lambda>(a, old). Inr (set_data t ci a, log @ [Freed ci old]))
    else Inr (set_data t ci [], log @ [Freed ci (col_data column)]))"

definition flecs_table_shrink :: "'v::zero ecs_table \<Rightarrow> ('v ecs_table \<times> 'v table_event list \<times> bool) result" where
  "flecs_table_shrink t =
    ecs_assert (t_lock t = 0) ECS_LOCKED_STORAGE
    (let has_payload = (t_entities t \<noteq> []); cnt = t_count t in
     if cnt = t_size t then Inr (t, [], has_payload)
     else
       ecs_assert (cnt = 0 \<or> t_entities t \<noteq> []) ECS_INTERNAL_ERROR
        (let t = t\<lparr>t_entities := take cnt (t_entities t)\<rparr> in
         bindR (for_loop (shrink_column cnt) 0 (length (t_columns t)) (t, [])) (\<lambda>(t, log).
         bindR (flecs_table_mark_table_dirty (t\<lparr>t_size := cnt\<rparr>) 0) (\<lambda>t. Inr (t, log, has_payload)))))"


section \<open>Lifecycle of the cells of a column\<close>

definition cell_ok :: "'v type_info \<Rightarrow> bool \<Rightarrow> 'v cell \<Rightarrow> bool" where
  \<comment> \<open>\<open>b\<close> is whether the cell has to hold a value; otherwise it must not hold one that needs destructing\<close>
  "cell_ok ti b c \<longleftrightarrow> (if b then typed ti \<longrightarrow> c \<noteq> Raw else needs_dtor ti \<longrightarrow> c = Raw)"

definition cells_live :: "'v type_info \<Rightarrow> (nat \<Rightarrow> bool) \<Rightarrow> 'v cell list \<Rightarrow> bool" where
  "cells_live ti P a \<longleftrightarrow> (\<forall>r < length a. cell_ok ti (P r) (a ! r))"

definition freed_ok :: "(nat \<Rightarrow> 'v type_info) \<Rightarrow> 'v table_event list \<Rightarrow> bool" where
  \<comment> \<open>an array that is freed holds no value that needs destructing\<close>
  "freed_ok ti log \<longleftrightarrow> (\<forall>ci a. Freed ci a \<in> set log \<longrightarrow> needs_dtor (ti ci) \<longrightarrow> raws a)"

definition pow2_size :: "nat \<Rightarrow> bool" where
  "pow2_size n \<longleftrightarrow> 2 \<le> n \<and> flecs_next_pow_of_2 (int n) = int n"

lemma lives_nth: "lives xs \<longleftrightarrow> (\<forall>r < length xs. xs ! r \<noteq> Raw)"
  by (auto simp: lives_def in_set_conv_nth)

lemma raws_nth: "raws xs \<longleftrightarrow> (\<forall>r < length xs. xs ! r = Raw)"
  by (auto simp: raws_def in_set_conv_nth subset_iff)

lemma next_pow_of_2_fix: "1 \<le> n \<Longrightarrow> n \<le> 2 ^ 30 \<Longrightarrow> flecs_next_pow_of_2 (flecs_next_pow_of_2 n) = flecs_next_pow_of_2 n"
proof -
  assume n: "1 \<le> n" "n \<le> 2 ^ 30"
  from next_pow_of_2_bounds [OF n] obtain k where k: "k \<le> 30" "flecs_next_pow_of_2 n = 2 ^ k" by blast
  have "(1::int) \<le> 2 ^ k" by simp
  moreover have "(2::int) ^ k \<le> 2 ^ 30" using k by (intro power_increasing) simp_all
  ultimately have *: "(1::int) \<le> 2 ^ k" "(2::int) ^ k \<le> 2 ^ 30" by blast+
  from next_pow_of_2_bounds [OF *] obtain j where j: "flecs_next_pow_of_2 (2 ^ k) = 2 ^ j" "(2::int) ^ k \<le> 2 ^ j" "(2::int) ^ j < 2 * 2 ^ k"
    by blast
  then have "(2::int) ^ j < 2 ^ Suc k" by simp
  then have "j < Suc k" "k \<le> j" using j(2) power_less_imp_less_exp [of "2::int" j "Suc k"] power_le_imp_le_exp [of "2::int" k j] by simp_all
  then show ?thesis using k j by simp
qed

lemma set_size_exact:
  "pow2_size n \<Longrightarrow> vec_count v \<le> int n \<Longrightarrow> vec_size v \<noteq> int n \<Longrightarrow>
    ecs_vec_set_size v (int n) = v\<lparr>vec_array := list_resize n (vec_array v), vec_size := int n\<rparr>"
  by (simp add: ecs_vec_set_size_def pow2_size_def Let_def)

lemma set_size_pow2:
  assumes ok: "vec_ok v" and n: "0 \<le> n" "n \<le> 2 ^ 30"
  shows "vec_size (ecs_vec_set_size v n) = vec_size v \<or> pow2_size (nat (vec_size (ecs_vec_set_size v n)))"
proof -
  define m where "m = (if n < vec_count v then vec_count v else n)"
  define p where "p = (if flecs_next_pow_of_2 m < 2 then 2 else flecs_next_pow_of_2 m)"
  have m: "0 \<le> m" "m \<le> 2 ^ 30" using ok n by (auto simp: m_def vec_ok_def)
  have two: "flecs_next_pow_of_2 2 = 2" by code_simp
  have "pow2_size (nat p)"
  proof (cases "flecs_next_pow_of_2 m < 2")
    case False
    then have "1 \<le> m" using next_pow_of_2_0 m by (cases "m = 0") auto
    with False next_pow_of_2_fix [OF this m(2)] show ?thesis by (simp add: pow2_size_def p_def)
  qed (simp add: pow2_size_def p_def two)
  then show ?thesis by (auto simp: ecs_vec_set_size_def Let_def m_def p_def)
qed

lemma append_pow2:
  assumes ok: "vec_ok v" and n: "vec_count v < 2 ^ 30"
  shows "vec_size (fst (ecs_vec_append v)) = vec_size v \<or> pow2_size (nat (vec_size (fst (ecs_vec_append v))))"
proof -
  have "0 \<le> vec_count v + 1" "vec_count v + 1 \<le> 2 ^ 30" using ok n by (auto simp: vec_ok_def)
  from set_size_pow2 [OF ok this] show ?thesis
    by (cases "vec_size v = vec_count v") (simp_all add: ecs_vec_append_def Let_def)
qed

lemma raw_fresh_resize:
  "vec_array (raw_fresh v (v\<lparr>vec_array := list_resize n (vec_array v), vec_size := m\<rparr>)) =
    take n (vec_array v) @ replicate (n - length (vec_array v)) Raw"
  by (cases "n \<le> length (vec_array v)") (simp_all add: raw_fresh_def list_resize_def)

lemma raw_fresh_same: "length (vec_array w) = length (vec_array v) \<Longrightarrow> raw_fresh v w = w"
  by (simp add: raw_fresh_def)

lemma cells_live_resize:
  assumes "cells_live ti P a" "c \<le> n" "\<And>r. P r \<longleftrightarrow> r < c" "c \<le> length a"
  shows "cells_live ti P (take n a @ replicate (n - length a) Raw)"
  using assms by (auto simp: cells_live_def nth_append cell_ok_def)

lemma cells_live_slice:
  assumes "cells_live ti (\<lambda>r. r < c) a" "length a = k" "c \<le> k"
  shows "typed ti \<Longrightarrow> lives (take c a)" "needs_dtor ti \<Longrightarrow> raws (drop c a)"
  using assms by (auto simp: cells_live_def cell_ok_def lives_nth raws_nth)

lemma cells_live_slices:
  assumes "length a = k" "n \<le> k" "typed ti \<Longrightarrow> lives (take n a)" "needs_dtor ti \<Longrightarrow> raws (drop n a)"
  shows "cells_live ti (\<lambda>r. r < n) a"
  unfolding cells_live_def
proof (intro allI impI)
  fix r assume "r < length a"
  then show "cell_ok ti (r < n) (a ! r)"
    using assms lives_nth [of "take n a"] raws_nth [of "drop n a"]
    by (cases "r < n") (auto simp: cell_ok_def dest: spec [of _ "r - n"])
qed

lemma copy_ctor_elem_ok:
  assumes ok: "ti_ok ti" and b: "typed ti \<Longrightarrow> base \<noteq> Raw" and i: "i < length a" and raw: "needs_dtor ti \<Longrightarrow> a ! i = Raw"
  shows "copy_ctor_elem ti base i a = Inr (a[i := base])"
proof -
  have legal: "\<not> has_flag (h_flags (ti_hooks ti)) ECS_TYPE_HOOK_COPY_CTOR_ILLEGAL"
    using ti_ok_legal [OF ok] unfolding hooks_legal_def by blast
  have "flecs_type_info_copy_ctor ti [a ! i] [base] = Inr [base]"
  proof (cases "h_copy_ctor (ti_hooks ti) = None")
    case True
    then show ?thesis using legal by (simp add: flecs_type_info_copy_ctor_def del: ECS_TYPE_HOOK_COPY_CTOR_ILLEGAL_def)
  next
    case False
    have t: "typed ti"
    proof (rule ccontr)
      assume "\<not> typed ti"
      from ti_ok_plain(1) [OF ok this] False show False by (simp add: no_lifecycle_def)
    qed
    then have "copy_ctor_ok (needs_dtor ti) (flecs_type_info_copy_ctor ti)"
      using ok False by (auto simp: ti_ok_def typed_def needs_dtor_def no_lifecycle_def Let_def)
    then show ?thesis using b t raw by (auto simp: copy_ctor_ok_def returns_iff)
  qed
  then show ?thesis using i by (simp add: copy_ctor_elem_def upd_conv_take_nth_drop)
qed

lemma copy_ctor_loop_ok:
  assumes ok: "ti_ok ti" and b: "typed ti \<Longrightarrow> base \<noteq> Raw" and n: "c + n \<le> length a"
    and raw: "needs_dtor ti \<Longrightarrow> \<forall>r \<in> {c..<c + n}. a ! r = Raw"
  shows "returns (for_loop (copy_ctor_elem ti base) c n a) (\<lambda>r. length r = length a \<and>
    (\<forall>i < length a. r ! i = (if c \<le> i \<and> i < c + n then base else a ! i)))"
proof (rule for_loop_ok [where P = "\<lambda>j r. length r = length a \<and> (\<forall>i < length a. r ! i = (if c \<le> i \<and> i < j then base else a ! i))"])
  fix j r assume j: "c \<le> j" "j < c + n" and r: "length r = length a \<and> (\<forall>i < length a. r ! i = (if c \<le> i \<and> i < j then base else a ! i))"
  have "copy_ctor_elem ti base j r = Inr (r[j := base])"
    by (rule copy_ctor_elem_ok [OF ok b]) (use j r n raw in auto)
  then show "returns (copy_ctor_elem ti base j r) (\<lambda>r. length r = length a \<and>
      (\<forall>i < length a. r ! i = (if c \<le> i \<and> i < Suc j then base else a ! i)))"
    using r j by (auto simp: nth_list_update less_Suc_eq)
qed auto

definition bases_ok :: "'v ecs_table \<Rightarrow> bool" where
  "bases_ok t \<longleftrightarrow> (\<forall>ci < length (t_columns t). \<forall>b. base_of t ci = Some b \<longrightarrow> typed (col_ti (t_columns t ! ci)) \<longrightarrow> b \<noteq> Raw)"

lemma invoke_ctor_ok:
  assumes ok: "ti_ok ti" and b: "\<And>b. base_of t ci = Some b \<Longrightarrow> typed ti \<Longrightarrow> b \<noteq> Raw" and n: "c + n \<le> length a"
    and raw: "needs_dtor ti \<Longrightarrow> raws (take n (drop c a))"
  shows "returns (flecs_table_invoke_ctor_for_array (Some t) ci a c n ti) (\<lambda>(r, ev). length r = length a \<and>
    take c r = take c a \<and> drop (c + n) r = drop (c + n) a \<and> (typed ti \<longrightarrow> lives (take n (drop c r))) \<and>
    (\<forall>b. base_of t ci = Some b \<longrightarrow> (\<forall>i < n. r ! (c + i) = b)) \<and> (\<forall>cj x. Freed cj x \<notin> set ev))"
proof (cases "base_of t ci")
  case None
  have "returns (cells_xtor (flecs_type_info_ctor ti) a c n) (\<lambda>r. length r = length a \<and> take c r = take c a \<and>
      drop (c + n) r = drop (c + n) a \<and> (typed ti \<longrightarrow> lives (take n (drop c r))))"
  proof (cases "typed ti")
    case True
    show ?thesis by (rule returns_mono, rule cells_ctor [OF ok True n], erule raw) auto
  next
    case False
    then have "flecs_type_info_ctor ti x = Inr (x, False)" for x
      using ti_ok_legal [OF ok] by (simp add: flecs_type_info_ctor_def hooks_legal_def typed_def)
    with False n show ?thesis by (simp add: cells_xtor_def)
  qed
  with None show ?thesis by (simp add: flecs_table_invoke_ctor_for_array_def)
next
  case (Some base)
  have r: "needs_dtor ti \<Longrightarrow> \<forall>r \<in> {c..<c + n}. a ! r = Raw"
  proof
    fix r assume "needs_dtor ti" "r \<in> {c..<c + n}"
    then show "a ! r = Raw" using raw n raws_nth [of "take n (drop c a)"] by (auto dest!: spec [of _ "r - c"])
  qed
  have "returns (for_loop (copy_ctor_elem ti base) c n a) (\<lambda>r. length r = length a \<and> take c r = take c a \<and>
      drop (c + n) r = drop (c + n) a \<and> (typed ti \<longrightarrow> lives (take n (drop c r))) \<and> (\<forall>i < n. r ! (c + i) = base))"
    by (rule returns_mono [OF copy_ctor_loop_ok [OF ok b [OF Some] n r]])
      (use n b [OF Some] in \<open>auto simp: list_eq_iff_nth_eq lives_nth\<close>)
  with Some show ?thesis by (auto simp: flecs_table_invoke_ctor_for_array_def elim!: returns_mono)
qed


lemma grow_column_ok:
  assumes ok: "ti_ok ti" and a: "length a = sz" "c \<le> sz" "cells_live ti (\<lambda>r. r < c) a"
    and dst: "c + n \<le> dst" "dst = sz \<or> pow2_size dst"
    and b: "\<And>b. base_of t ci = Some b \<Longrightarrow> typed ti \<Longrightarrow> b \<noteq> Raw"
  shows "returns (flecs_table_grow_column (Some t) ci \<lparr>vec_array = a, vec_count = int c, vec_size = int sz\<rparr> ti n dst construct)
    (\<lambda>(v, ev). vec_count v = int (c + n) \<and> vec_size v = int dst \<and> length (vec_array v) = dst \<and> take c (vec_array v) = take c a \<and>
      cells_live ti (\<lambda>r. r < (if construct then c + n else c)) (vec_array v) \<and>
      (\<forall>b. construct \<longrightarrow> base_of t ci = Some b \<longrightarrow> (\<forall>i < n. vec_array v ! (c + i) = b)) \<and>
      (\<forall>cj x. Freed cj x \<in> set ev \<longrightarrow> cj = ci \<and> (needs_dtor ti \<longrightarrow> raws x)))"
proof -
  note live = cells_live_slice [OF a(3,1,2)]
  have cons: "returns (if construct then flecs_table_invoke_ctor_for_array (Some t) ci a' c n ti else Inr (a', []))
      (\<lambda>(r, ev). length r = dst \<and> take c r = take c a \<and> cells_live ti (\<lambda>r. r < (if construct then c + n else c)) r \<and>
        (\<forall>b. construct \<longrightarrow> base_of t ci = Some b \<longrightarrow> (\<forall>i < n. r ! (c + i) = b)) \<and> (\<forall>cj x. Freed cj x \<notin> set ev))"
    if a': "length a' = dst" "take c a' = take c a" "needs_dtor ti \<Longrightarrow> raws (drop c a')" for a'
  proof (cases construct)
    case False
    have "cells_live ti (\<lambda>r. r < c) a'" by (rule cells_live_slices [OF a'(1)]) (use dst a' live in simp_all)
    with False a' show ?thesis by simp
  next
    case True
    have "c + n \<le> length a'" using dst a' by simp
    moreover have "needs_dtor ti \<Longrightarrow> raws (take n (drop c a'))" using a' by (simp add: raws_sub)
    ultimately have inv: "returns (flecs_table_invoke_ctor_for_array (Some t) ci a' c n ti) (\<lambda>(r, ev). length r = length a' \<and>
        take c r = take c a' \<and> drop (c + n) r = drop (c + n) a' \<and> (typed ti \<longrightarrow> lives (take n (drop c r))) \<and>
        (\<forall>b. base_of t ci = Some b \<longrightarrow> (\<forall>i < n. r ! (c + i) = b)) \<and> (\<forall>cj x. Freed cj x \<notin> set ev))"
      by (intro invoke_ctor_ok [OF ok b])
    have fin: "cells_live ti (\<lambda>r. r < c + n) r"
      if r: "length r = length a'" "take c r = take c a'" "drop (c + n) r = drop (c + n) a'" "typed ti \<longrightarrow> lives (take n (drop c r))" for r
    proof (rule cells_live_slices [of r dst])
      show "typed ti \<Longrightarrow> lives (take (c + n) r)" using r a' live by (simp add: take_add)
      show "needs_dtor ti \<Longrightarrow> raws (drop (c + n) r)"
        using r(3) a'(3) raws_sub(2) [of "drop c a'" n] by (simp add: add.commute)
    qed (use r a' dst in simp_all)
    show ?thesis using True a' by simp (rule returns_mono [OF inv], use fin in auto)
  qed
  show ?thesis
  proof (cases "c \<noteq> 0 \<and> int dst \<noteq> int sz \<and> h_ctor_move_dtor (ti_hooks ti) \<noteq> None")
    case True
    have t: "typed ti" using True ok by (auto simp: ti_ok_def no_lifecycle_def typed_def Let_def)
    have mv: "returns (cells_move (flecs_type_info_ctor_move_dtor ti) (replicate dst Raw) 0 a 0 c) (\<lambda>(r, s).
        r = take 0 (replicate dst Raw) @ take c (drop 0 a) @ drop (0 + c) (replicate dst Raw) \<and> length s = length a \<and>
        take 0 s = take 0 a \<and> (needs_dtor ti \<longrightarrow> raws (take c (drop 0 s))) \<and> drop (0 + c) s = drop (0 + c) a)"
    proof (rule cells_move_ok)
      have "returns (flecs_type_info_ctor_move_dtor ti (take c (replicate dst Raw)) (take c a)) (\<lambda>(r, s). r = take c a \<and>
          length s = length (take c a) \<and> (needs_dtor ti \<longrightarrow> raws s))"
        by (rule ctor_move_dtor_cells [OF ok]) (use dst a live in \<open>simp_all add: raws_sub\<close>)
      then show "returns (flecs_type_info_ctor_move_dtor ti (take c (drop 0 (replicate dst Raw))) (take c (drop 0 a))) (\<lambda>(r, s).
          r = take c (drop 0 a) \<and> length s = c \<and> (needs_dtor ti \<longrightarrow> raws s))"
        using a by simp
    qed (use a dst in simp_all)
    have c1: "returns (if construct then flecs_table_invoke_ctor_for_array (Some t) ci (take c a @ replicate (dst - c) Raw) c n ti
          else Inr (take c a @ replicate (dst - c) Raw, []))
      (\<lambda>(r, ev). length r = dst \<and> take c r = take c a \<and> cells_live ti (\<lambda>r. r < (if construct then c + n else c)) r \<and>
        (\<forall>b. construct \<longrightarrow> base_of t ci = Some b \<longrightarrow> (\<forall>i < n. r ! (c + i) = b)) \<and> (\<forall>cj x. Freed cj x \<notin> set ev))"
      by (rule cons) (use a dst in simp_all)
    have freed: "needs_dtor ti \<longrightarrow> raws s" if "needs_dtor ti \<longrightarrow> raws (take c s)" "drop c s = drop c a" for s
      using that live(2) append_take_drop_id [of c s] raws_simps(3) by metis
    let ?C = "\<lambda>d. if construct then flecs_table_invoke_ctor_for_array (Some t) ci d c n ti else Inr (d, [])"
    have eq: "flecs_table_grow_column (Some t) ci \<lparr>vec_array = a, vec_count = int c, vec_size = int sz\<rparr> ti n dst construct =
      bindR (cells_move (flecs_type_info_ctor_move_dtor ti) (replicate dst Raw) 0 a 0 c) (\<lambda>(d, s). bindR (?C d)
        (\<lambda>(d, ev). Inr (\<lparr>vec_array = d, vec_count = int (c + n), vec_size = int dst\<rparr>, ev @ [Freed ci s])))"
      using True dst t by (simp add: flecs_table_grow_column_def typed_def bindR_assoc split_def del: not_None_eq)
    show ?thesis unfolding eq returns_bindR
    proof (rule returns_mono [OF mv], clarify)
      fix s assume "needs_dtor ti \<longrightarrow> raws (take c (drop 0 s))" "drop (0 + c) s = drop (0 + c) a"
      then have s: "needs_dtor ti \<longrightarrow> raws s" using freed by simp
      have d: "take 0 (replicate dst Raw) @ take c (drop 0 a) @ drop (0 + c) (replicate dst Raw) = take c a @ replicate (dst - c) Raw"
        by simp
      show "returns (bindR (?C (take 0 (replicate dst Raw) @ take c (drop 0 a) @ drop (0 + c) (replicate dst Raw)))
          (\<lambda>(d, ev). Inr (\<lparr>vec_array = d, vec_count = int (c + n), vec_size = int dst\<rparr>, ev @ [Freed ci s])))
        (\<lambda>(v, ev). vec_count v = int (c + n) \<and> vec_size v = int dst \<and> length (vec_array v) = dst \<and> take c (vec_array v) = take c a \<and>
          cells_live ti (\<lambda>r. r < (if construct then c + n else c)) (vec_array v) \<and>
          (\<forall>b. construct \<longrightarrow> base_of t ci = Some b \<longrightarrow> (\<forall>i < n. vec_array v ! (c + i) = b)) \<and>
          (\<forall>cj x. Freed cj x \<in> set ev \<longrightarrow> cj = ci \<and> (needs_dtor ti \<longrightarrow> raws x)))"
        unfolding returns_bindR d by (rule returns_mono [OF c1]) (use s in auto)
    qed
  next
    case False
    let ?v = "\<lparr>vec_array = a, vec_count = int c, vec_size = int sz\<rparr>"
    let ?a = "if int dst \<noteq> int sz then take dst a @ replicate (dst - sz) Raw else a"
    define w where "w = (if int dst \<noteq> int sz then raw_fresh ?v (ecs_vec_set_size ?v (int dst)) else ?v)"
    have w: "vec_array w = ?a" "vec_count w = int c" "vec_size w = int dst"
      using dst a set_size_exact [of dst ?v] raw_fresh_resize [of ?v "int dst" dst]
      by (auto simp: w_def raw_fresh_def)
    have len: "length ?a = dst" using a dst by auto
    have g: "ecs_vec_grow w (int n) = Inr (w\<lparr>vec_count := int (c + n)\<rparr>, int c)"
      using w dst by (cases w) (auto simp: ecs_vec_grow_def ecs_vec_set_count_def Let_def)
    have "raw_fresh w (w\<lparr>vec_count := int (c + n)\<rparr>) = w\<lparr>vec_count := int (c + n)\<rparr>" by (rule raw_fresh_same) simp
    note grow = g this
    have raws: "needs_dtor ti \<Longrightarrow> raws (drop c ?a)"
      using live(2) a dst raws_sub(1) [of "drop c a"] by (auto simp: drop_take)
    have tk: "take c ?a = take c a" using a dst by (auto simp: min_def)
    note c2 = cons [OF len tk raws]
    let ?C = "if construct then flecs_table_invoke_ctor_for_array (Some t) ci ?a c n ti else Inr (?a, [])"
    have eq: "flecs_table_grow_column (Some t) ci ?v ti n dst construct =
      bindR ?C (\<lambda>(d, ev). Inr (w\<lparr>vec_count := int (c + n), vec_array := d\<rparr>, ev))"
    proof -
      have f: "nat (vec_count ?v) = c" "vec_size ?v = int sz" by simp_all
      have w': "(if int dst \<noteq> int sz then raw_fresh ?v (ecs_vec_set_size ?v (int dst)) else ?v) = w" by (simp add: w_def)
      show ?thesis
        unfolding flecs_table_grow_column_def Let_def f if_not_P [OF False] w' grow bindR_Inr prod.case w(1) [symmetric]
        using dst by (simp add: bindR_assoc split_def w)
    qed
    show ?thesis unfolding eq returns_bindR
      by (rule returns_mono [OF c2]) (auto simp: w)
  qed
qed


section \<open>Invariant of a table\<close>

definition column_wf :: "'v::zero ecs_table \<Rightarrow> nat \<Rightarrow> nat \<Rightarrow> 'v ecs_column \<Rightarrow> bool" where
  \<comment> \<open>a column of \<open>sz\<close> cells that belongs to an id of the type, and whose hooks the flags of the table know\<close>
  "column_wf t sz ci c \<longleftrightarrow> ti_ok (col_ti c) \<and> ti_size (col_ti c) \<noteq> 0 \<and> length (col_data c) = sz \<and>
    length (t_type t) + ci < length (t_column_map t) \<and>
    0 \<le> t_column_map t ! (length (t_type t) + ci) \<and> t_column_map t ! (length (t_type t) + ci) < int (length (t_type t)) \<and>
    (needs_dtor (col_ti c) \<or> h_on_remove (ti_hooks (col_ti c)) \<longrightarrow> has_flag (t_flags t) EcsTableHasDtors) \<and>
    (typed (col_ti c) \<or> h_on_add (ti_hooks (col_ti c)) \<longrightarrow> has_flag (t_flags t) EcsTableHasCtors)"

definition table_wf :: "'v::zero ecs_table \<Rightarrow> bool" where
  "table_wf t \<longleftrightarrow> t_count t \<le> t_size t \<and> t_size t \<le> 2 ^ 30 \<and> length (t_entities t) = t_size t \<and>
    (\<forall>ci < length (t_columns t). column_wf t (t_size t) ci (t_columns t ! ci)) \<and>
    (\<forall>b \<in> set (t_bs t). bs_ok b \<and> bs_count b = int (t_count t)) \<and> (t_bs t \<noteq> [] \<longrightarrow> has_flag (t_flags t) EcsTableHasToggle) \<and>
    (\<forall>d. t_dirty t = Some d \<longrightarrow> length d = Suc (length (t_columns t))) \<and> bases_ok t \<and>
    (t_bases t \<noteq> None \<longrightarrow> has_flag (t_flags t) EcsTableHasIsA)"

definition table_live :: "'v ecs_table \<Rightarrow> (nat \<Rightarrow> nat \<Rightarrow> bool) \<Rightarrow> bool" where
  \<comment> \<open>\<open>P ci r\<close> is whether the element of column \<open>ci\<close> in row \<open>r\<close> holds a value\<close>
  "table_live t P \<longleftrightarrow> (\<forall>ci < length (t_columns t). cells_live (col_ti (t_columns t ! ci)) (P ci) (col_data (t_columns t ! ci)))"

definition table_ok :: "'v::zero ecs_table \<Rightarrow> bool" where
  \<comment> \<open>in between operations exactly the elements of the rows in use hold values\<close>
  "table_ok t \<longleftrightarrow> table_wf t \<and> table_live t (\<lambda>_ r. r < t_count t)"

definition t_ents :: "'v ecs_table \<Rightarrow> ecs_entity list" where
  "t_ents t = take (t_count t) (t_entities t)"

definition t_cells :: "'v ecs_table \<Rightarrow> nat \<Rightarrow> 'v cell list" where
  "t_cells t ci = take (t_count t) (col_data (t_columns t ! ci))"

definition t_bits :: "'v ecs_table \<Rightarrow> nat \<Rightarrow> bool list" where
  "t_bits t i = bs_list (t_bs t ! i)"

definition same_shape :: "'v ecs_table \<Rightarrow> 'v ecs_table \<Rightarrow> bool" where
  \<comment> \<open>what no operation on rows changes\<close>
  "same_shape t t' \<longleftrightarrow> t_id t' = t_id t \<and> t_type t' = t_type t \<and> t_column_map t' = t_column_map t \<and> t_lock t' = t_lock t \<and>
    length (t_columns t') = length (t_columns t) \<and> (\<forall>ci < length (t_columns t). col_ti (t_columns t' ! ci) = col_ti (t_columns t ! ci)) \<and>
    length (t_bs t') = length (t_bs t) \<and> t_bs_offset t' = t_bs_offset t \<and> t_bases t' = t_bases t"

lemma set_data_columns [simp]:
  "set_data (t\<lparr>t_columns := cs\<rparr>) i a = t\<lparr>t_columns := cs[i := (cs ! i)\<lparr>col_data := a\<rparr>]\<rparr>"
  by (simp add: set_data_def)

lemma column_loop:
  fixes mk :: "'v ecs_column list \<Rightarrow> 'x \<Rightarrow> 's"
  assumes step: "\<And>i cs x. i < n \<Longrightarrow> length cs = n \<Longrightarrow> cs ! i = cs0 ! i \<Longrightarrow> L x \<Longrightarrow>
      returns (f i (mk cs x)) (\<lambda>s. \<exists>a y. s = mk (cs[i := (cs ! i)\<lparr>col_data := a\<rparr>]) y \<and> G i a \<and> L y)"
    and n: "length cs0 = n" and x: "L x"
  shows "returns (for_loop f 0 n (mk cs0 x)) (\<lambda>s. \<exists>cs y. s = mk cs y \<and> length cs = n \<and>
    (\<forall>i < n. col_ti (cs ! i) = col_ti (cs0 ! i) \<and> G i (col_data (cs ! i))) \<and> L y)"
proof -
  let ?P = "\<lambda>j s. \<exists>cs y. s = mk cs y \<and> length cs = n \<and> (\<forall>i < n. col_ti (cs ! i) = col_ti (cs0 ! i)) \<and>
    (\<forall>i < j. i < n \<longrightarrow> G i (col_data (cs ! i))) \<and> (\<forall>i. j \<le> i \<longrightarrow> i < n \<longrightarrow> cs ! i = cs0 ! i) \<and> L y"
  have "returns (for_loop f 0 n (mk cs0 x)) (?P (0 + n))"
  proof (rule for_loop_ok)
    fix j s assume j: "0 \<le> j" "j < 0 + n" and "?P j s"
    then obtain cs y where s: "s = mk cs y" "length cs = n" "\<forall>i < n. col_ti (cs ! i) = col_ti (cs0 ! i)"
      "\<forall>i < j. i < n \<longrightarrow> G i (col_data (cs ! i))" "\<forall>i. j \<le> i \<longrightarrow> i < n \<longrightarrow> cs ! i = cs0 ! i" "L y" by blast
    have "returns (f j (mk cs y)) (\<lambda>s. \<exists>a y. s = mk (cs[j := (cs ! j)\<lparr>col_data := a\<rparr>]) y \<and> G j a \<and> L y)"
      by (rule step) (use j s in auto)
    then show "returns (f j s) (?P (Suc j))" unfolding s(1)
    proof (rule returns_mono, elim exE conjE)
      fix s' a y' assume "s' = mk (cs[j := (cs ! j)\<lparr>col_data := a\<rparr>]) y'" "G j a" "L y'"
      then show "?P (Suc j) s'"
        by (intro exI [of _ "cs[j := (cs ! j)\<lparr>col_data := a\<rparr>]"] exI [of _ y'])
          (use s j in \<open>auto simp: nth_list_update less_Suc_eq\<close>)
    qed
  qed (use n x in blast)
  then show ?thesis by (rule returns_mono) auto
qed

lemma bs_loop:
  assumes "\<And>b. b \<in> set (t_bs t) \<Longrightarrow> f b = Inr (g b)"
  shows "for_loop (\<lambda>i t. bindR (arr_get (t_bs t) i) (\<lambda>b. bindR (f b) (\<lambda>b. Inr (t\<lparr>t_bs := (t_bs t)[i := b]\<rparr>)))) 0 (length (t_bs t)) t =
    Inr (t\<lparr>t_bs := map g (t_bs t)\<rparr>)"
proof -
  let ?n = "length (t_bs t)"
  have "returns (for_loop (\<lambda>i t. bindR (arr_get (t_bs t) i) (\<lambda>b. bindR (f b) (\<lambda>b. Inr (t\<lparr>t_bs := (t_bs t)[i := b]\<rparr>)))) 0 ?n t)
    ((\<lambda>j t'. t' = t\<lparr>t_bs := map g (take j (t_bs t)) @ drop j (t_bs t)\<rparr>) (0 + ?n))"
  proof (rule for_loop_ok)
    fix j s assume j: "0 \<le> j" "j < 0 + ?n" and s: "s = t\<lparr>t_bs := map g (take j (t_bs t)) @ drop j (t_bs t)\<rparr>"
    have "drop j (t_bs t) = t_bs t ! j # drop (Suc j) (t_bs t)" using j by (simp add: Cons_nth_drop_Suc)
    then show "returns (bindR (arr_get (t_bs s) j) (\<lambda>b. bindR (f b) (\<lambda>b. Inr (s\<lparr>t_bs := (t_bs s)[j := b]\<rparr>))))
        (\<lambda>t'. t' = t\<lparr>t_bs := map g (take (Suc j) (t_bs t)) @ drop (Suc j) (t_bs t)\<rparr>)"
      using j assms [of "t_bs t ! j"] by (simp add: s nth_append list_update_append take_Suc_conv_app_nth)
  qed simp
  then show ?thesis by (auto simp: returns_iff)
qed


lemma flags_empty [simp]:
  "m AND (EcsTableEmpty OR EcsTableNotEmpty) = 0 \<Longrightarrow> has_flag (t_flags (set_not_empty t)) m = has_flag (t_flags t) m"
  "m AND (EcsTableEmpty OR EcsTableNotEmpty) = 0 \<Longrightarrow> has_flag (t_flags (set_empty t)) m = has_flag (t_flags t) m"
proof -
  assume m: "m AND (EcsTableEmpty OR EcsTableNotEmpty) = 0"
  have "bit m j \<Longrightarrow> \<not> bit EcsTableEmpty j \<and> \<not> bit EcsTableNotEmpty j" for j
    using m by (metis bit_and_iff bit_or_iff bit_0_eq bot_apply bot_bool_def)
  then have *: "((w AND NOT EcsTableEmpty) OR EcsTableNotEmpty) AND m = w AND m"
    "((w OR EcsTableEmpty) AND NOT EcsTableNotEmpty) AND m = w AND m" for w
    by (auto intro!: bit_word_eqI simp: bit_and_iff bit_or_iff bit_not_iff simp del: EcsTableEmpty_def EcsTableNotEmpty_def)
  show "has_flag (t_flags (set_not_empty t)) m = has_flag (t_flags t) m"
    "has_flag (t_flags (set_empty t)) m = has_flag (t_flags t) m"
    by (simp_all add: has_flag_def set_not_empty_def set_empty_def * del: EcsTableEmpty_def EcsTableNotEmpty_def)
qed

definition same_flags :: "32 word \<Rightarrow> 32 word \<Rightarrow> bool" where
  "same_flags f g \<longleftrightarrow> (\<forall>m. m AND (EcsTableEmpty OR EcsTableNotEmpty) = 0 \<longrightarrow> has_flag f m = has_flag g m)"

lemma same_flags_simps [simp]:
  "same_flags f f" "same_flags (t_flags (set_not_empty t)) (t_flags t)" "same_flags (t_flags (set_empty t)) (t_flags t)"
  by (simp_all add: same_flags_def)

lemma same_flagsD: "same_flags f g \<Longrightarrow> m AND (EcsTableEmpty OR EcsTableNotEmpty) = 0 \<Longrightarrow> has_flag f m = has_flag g m"
  by (simp add: same_flags_def)

lemma has_flag_or_right: "has_flag f (a OR b) \<longleftrightarrow> has_flag f a \<or> has_flag f b"
  by (simp add: has_flag_def bit.conj_disj_distrib or_eq_0_iff)

lemma not_complex:
  assumes "\<not> has_flag f EcsTableIsComplex"
  shows "\<not> has_flag f EcsTableHasCtors" "\<not> has_flag f EcsTableHasDtors" "\<not> has_flag f EcsTableHasToggle"
  using assms unfolding EcsTableIsComplex_def EcsTableHasLifecycle_def has_flag_or_right by blast+

lemma plain_table:
  assumes "table_wf t" "\<not> has_flag (t_flags t) EcsTableIsComplex"
  shows "i < length (t_columns t) \<Longrightarrow> \<not> typed (col_ti (t_columns t ! i)) \<and> \<not> needs_dtor (col_ti (t_columns t ! i))"
    and "t_bs t = []"
  using assms(1) not_complex [OF assms(2)] unfolding table_wf_def column_wf_def by blast+

lemma mark_dirty_ok:
  assumes "table_wf t" "i \<le> length (t_columns t)"
  obtains d v where "\<And>es. flecs_table_mark_table_dirty (t\<lparr>t_entities := es\<rparr>) i = Inr (t\<lparr>t_entities := es, t_dirty := d, t_version := v\<rparr>)"
    "flecs_table_mark_table_dirty t i = Inr (t\<lparr>t_dirty := d, t_version := v\<rparr>)"
    "\<forall>x. d = Some x \<longrightarrow> length x = Suc (length (t_columns t))"
proof (cases "t_dirty t")
  case None
  show thesis by (rule that [of "if i = 0 then t_version t + 1 else t_version t" "t_dirty t"])
    (use None in \<open>simp_all add: flecs_table_mark_table_dirty_def\<close>)
next
  case (Some d)
  with assms have "length d = Suc (length (t_columns t))" by (simp add: table_wf_def)
  with Some assms show thesis
    by (intro that [of "if i = 0 then t_version t + 1 else t_version t" "Some (d[i := Suc (d ! i)])"])
      (simp_all add: flecs_table_mark_table_dirty_def)
qed

lemma table_update:
  assumes wf: "table_wf t" and t': "t' = t\<lparr>t_entities := es, t_dirty := d, t_version := v, t_flags := fl, t_count := n, t_size := sz,
      t_columns := cs, t_bs := bs\<rparr>"
    and n: "length es = sz" "n \<le> sz" "sz \<le> 2 ^ 30" and d: "\<forall>x. d = Some x \<longrightarrow> length x = Suc (length (t_columns t))"
    and cs: "length cs = length (t_columns t)"
      "\<And>i. i < length cs \<Longrightarrow> col_ti (cs ! i) = col_ti (t_columns t ! i) \<and> length (col_data (cs ! i)) = sz"
    and bs: "length bs = length (t_bs t)" "\<And>b. b \<in> set bs \<Longrightarrow> bs_ok b \<and> bs_count b = int n" and fl: "same_flags fl (t_flags t)"
  shows "table_wf t'" and "same_shape t t'"
proof -
  note EcsTableHasDtors_def [simp del] EcsTableHasCtors_def [simp del] EcsTableHasToggle_def [simp del] EcsTableHasIsA_def [simp del]
  have "has_flag fl m = has_flag (t_flags t) m" if "m AND (EcsTableEmpty OR EcsTableNotEmpty) = 0" for m
    using fl that by (simp add: same_flags_def)
  then have f: "has_flag fl EcsTableHasDtors = has_flag (t_flags t) EcsTableHasDtors"
    "has_flag fl EcsTableHasCtors = has_flag (t_flags t) EcsTableHasCtors"
    "has_flag fl EcsTableHasToggle = has_flag (t_flags t) EcsTableHasToggle"
    "has_flag fl EcsTableHasIsA = has_flag (t_flags t) EcsTableHasIsA"
    by (simp_all add: EcsTableHasDtors_def EcsTableHasCtors_def EcsTableHasToggle_def EcsTableHasIsA_def)
  have c: "column_wf t' sz i (cs ! i)" if i: "i < length cs" for i
    using wf cs(2) [OF i] i cs(1) by (simp add: t' table_wf_def column_wf_def f)
  have "base_of t' i = base_of t i" for i by (simp add: t' base_of_def)
  then have "bases_ok t'" using wf cs unfolding table_wf_def bases_ok_def by (simp add: t')
  moreover have "bs \<noteq> [] \<longleftrightarrow> t_bs t \<noteq> []" using bs(1) by auto
  ultimately show "table_wf t'" using wf n c d bs(2) cs(1) unfolding table_wf_def t' by (simp add: f)
  show "same_shape t t'" using cs bs by (simp add: t' same_shape_def)
qed


section \<open>Appending a row\<close>

lemma append_size_cong:
  assumes "vec_count v = vec_count w" "vec_size v = vec_size w"
  shows "vec_size (fst (ecs_vec_append v)) = vec_size (fst (ecs_vec_append w))"
  using assms by (simp add: ecs_vec_append_def ecs_vec_set_size_def Let_def)

lemma entities_append:
  assumes wf: "table_wf t" and n: "t_count t < 2 ^ 30"
  obtains w es sz where "ecs_vec_append (ecs_vec_from_entities t) = (w, int (t_count t))"
    "vec_store w (int (t_count t)) e = Inr \<lparr>vec_array = es, vec_count = int (Suc (t_count t)), vec_size = int sz\<rparr>"
    "length es = sz" "Suc (t_count t) \<le> sz" "sz \<le> 2 ^ 30" "take (Suc (t_count t)) es = t_ents t @ [e]"
    "sz = t_size t \<or> pow2_size sz" "vec_size (fst (ecs_vec_append (ecs_vec_from_entities t))) = int sz"
proof -
  let ?v = "ecs_vec_from_entities t"
  have ok: "vec_ok ?v" and c: "vec_count ?v < 2 ^ 30"
    using wf n by (simp_all add: table_wf_def vec_ok_def ecs_vec_from_entities_def)
  obtain w p where a: "ecs_vec_append ?v = (w, p)" by fastforce
  from vec_append_ok [OF ok c] have w: "vec_ok w" "p = int (t_count t)" "vec_count w = int (Suc (t_count t))"
    "take (t_count t) (vec_array w) = t_ents t"
    unfolding a by (auto simp: ecs_vec_from_entities_def vec_list_def t_ents_def)
  let ?sz = "length (vec_array w)" and ?es = "(vec_array w)[t_count t := e]"
  have s: "vec_size w = int ?sz" "Suc (t_count t) \<le> ?sz" "?sz \<le> 2 ^ 30" using w by (auto simp: vec_ok_def)
  have p: "?sz = t_size t \<or> pow2_size ?sz" using append_pow2 [OF ok c] s unfolding a by (simp add: ecs_vec_from_entities_def)
  have "vec_store w (int (t_count t)) e = Inr \<lparr>vec_array = ?es, vec_count = int (Suc (t_count t)), vec_size = int ?sz\<rparr>"
    using s w(3) by (cases w) (simp add: vec_store_def)
  moreover have "take (Suc (t_count t)) ?es = t_ents t @ [e]"
    using s w(4) by (simp add: take_Suc_conv_app_nth)
  ultimately show thesis using s p a w(2) that [of w ?es ?sz] by simp
qed

lemma fast_append_ok:
  assumes cs: "\<And>ci. ci < length (t_columns t) \<Longrightarrow> length (col_data (t_columns t ! ci)) = t_size t" and n: "t_count t \<le> t_size t" "t_count t < 2 ^ 30" "t_size t \<le> 2 ^ 30"
    and sz: "vec_size (fst (ecs_vec_append (ecs_vec_from_entities t))) = int sz"
  shows "returns (flecs_table_fast_append t) (\<lambda>t'. \<exists>cs. t' = t\<lparr>t_columns := cs\<rparr> \<and> length cs = length (t_columns t) \<and>
    (\<forall>i < length cs. col_ti (cs ! i) = col_ti (t_columns t ! i) \<and> length (col_data (cs ! i)) = sz \<and>
      take (t_count t) (col_data (cs ! i)) = t_cells t i))"
proof -
  let ?n = "length (t_columns t)"
  have one: "length a = sz \<and> take (t_count t) a = t_cells t i"
    if i: "i < ?n" and a: "a = vec_array (raw_fresh (ecs_vec_from_column (t_columns t ! i) t) (fst (ecs_vec_append (ecs_vec_from_column (t_columns t ! i) t))))" for i a
  proof -
    let ?v = "ecs_vec_from_column (t_columns t ! i) t"
    have ok: "vec_ok ?v" and c: "vec_count ?v < 2 ^ 30"
      using cs [OF i] n by (simp_all add: vec_ok_def ecs_vec_from_column_def ecs_vec_from_column_ext_def)
    let ?w = "fst (ecs_vec_append ?v)"
    have "vec_size ?w = vec_size (fst (ecs_vec_append \<lparr>vec_array = col_data (t_columns t ! i), vec_count = int (t_count t), vec_size = int (t_size t)\<rparr>))"
      by (simp add: ecs_vec_from_column_def ecs_vec_from_column_ext_def)
    also have "... = int sz" using sz unfolding ecs_vec_append_def ecs_vec_set_size_def by (simp add: ecs_vec_from_entities_def Let_def split: if_splits)
    finally have s: "vec_size ?w = int sz" .
    from vec_append_ok [OF ok c] have w: "vec_ok ?w" "take (t_count t) (vec_array ?w) = t_cells t i"
      "vec_count ?w = int (t_count t) + 1"
      by (auto simp: split_def vec_list_def t_cells_def ecs_vec_from_column_def ecs_vec_from_column_ext_def ecs_vec_append_def Let_def)
    have len: "length (vec_array ?w) = sz" using w s by (simp add: vec_ok_def)
    have "t_count t \<le> sz" using w(1,3) s by (simp add: vec_ok_def)
    then show ?thesis using w(2) n cs [OF i] len
      by (simp add: a raw_fresh_def ecs_vec_from_column_def ecs_vec_from_column_ext_def min_def)
  qed
  have "returns (for_loop fast_append_column 0 ?n ((\<lambda>cs (x::unit). t\<lparr>t_columns := cs\<rparr>) (t_columns t) ()))
    (\<lambda>s. \<exists>cs y. s = (\<lambda>cs (x::unit). t\<lparr>t_columns := cs\<rparr>) cs y \<and> length cs = ?n \<and>
      (\<forall>i < ?n. col_ti (cs ! i) = col_ti (t_columns t ! i) \<and> (length (col_data (cs ! i)) = sz \<and> take (t_count t) (col_data (cs ! i)) = t_cells t i)) \<and> True)"
    by (rule column_loop) (use one in \<open>auto simp: fast_append_column_def ecs_vec_from_column_def Let_def intro!: exI\<close>)
  then show ?thesis by (auto simp: flecs_table_fast_append_def elim!: returns_mono)
qed


definition grown :: "'v::zero ecs_table \<Rightarrow> nat \<Rightarrow> nat \<Rightarrow> nat \<Rightarrow> bool \<Rightarrow> nat \<Rightarrow> 'v cell list \<Rightarrow> bool" where
  \<comment> \<open>what has become of a column of the table after adding \<open>n\<close> rows to \<open>c\<close>\<close>
  "grown t c n sz construct i a \<longleftrightarrow> length a = sz \<and> take c a = take c (col_data (t_columns t ! i)) \<and>
    cells_live (col_ti (t_columns t ! i)) (\<lambda>r. r < (if construct then c + n else c)) a \<and>
    (\<forall>b. construct \<longrightarrow> base_of t i = Some b \<longrightarrow> (\<forall>j < n. a ! (c + j) = b))"

lemma invoke_hook_ok:
  assumes "ci < length (t_columns t)" "column_wf t sz ci c"
  shows "flecs_table_invoke_hook t ev ci es row n = Inr [ev ci es row n]"
  using assms by (simp add: flecs_table_invoke_hook_def column_wf_def)

lemma append_columns_ok:
  assumes wf: "\<And>i. i < length (t_columns t) \<Longrightarrow> column_wf t prev i (t_columns t ! i)"
    and live: "table_live t (\<lambda>_ r. r < c)" and b: "bases_ok t"
    and t: "t_count t = Suc c" "t_size t = sz" and c: "c \<le> prev" "Suc c \<le> sz" "sz = prev \<or> pow2_size sz"
  shows "returns (for_loop (append_column es c prev sz construct on_add) 0 (length (t_columns t)) (t, []))
    (\<lambda>(t', log). \<exists>cs. t' = t\<lparr>t_columns := cs\<rparr> \<and> length cs = length (t_columns t) \<and>
      (\<forall>i < length cs. col_ti (cs ! i) = col_ti (t_columns t ! i) \<and> grown t c 1 sz construct i (col_data (cs ! i))) \<and>
      freed_ok (\<lambda>ci. col_ti (t_columns t ! ci)) log)"
proof -
  let ?n = "length (t_columns t)" and ?mk = "\<lambda>cs log. (t\<lparr>t_columns := cs\<rparr>, log)"
  let ?L = "freed_ok (\<lambda>ci. col_ti (t_columns t ! ci))"
  have "returns (for_loop (append_column es c prev sz construct on_add) 0 ?n (?mk (t_columns t) [])) (\<lambda>s. \<exists>cs log. s = ?mk cs log \<and>
    length cs = ?n \<and> (\<forall>i < ?n. col_ti (cs ! i) = col_ti (t_columns t ! i) \<and> grown t c 1 sz construct i (col_data (cs ! i))) \<and> ?L log)"
  proof (rule column_loop)
    fix i cs log assume i: "i < ?n" and cs: "length cs = ?n" "cs ! i = t_columns t ! i" and log: "?L log"
    let ?ti = "col_ti (t_columns t ! i)" and ?a = "col_data (t_columns t ! i)"
    have base: "base_of (t\<lparr>t_columns := cs\<rparr>) = base_of t" by (simp add: base_of_def fun_eq_iff)
    have w: "ti_ok ?ti" "length ?a = prev" using wf [OF i] by (simp_all add: column_wf_def)
    have l: "cells_live ?ti (\<lambda>r. r < c) ?a" using live i by (simp add: table_live_def)
    have g: "returns (flecs_table_grow_column (Some (t\<lparr>t_columns := cs\<rparr>)) i \<lparr>vec_array = ?a, vec_count = int c, vec_size = int prev\<rparr> ?ti 1 sz construct)
      (\<lambda>(v, ev). vec_count v = int (c + 1) \<and> vec_size v = int sz \<and> length (vec_array v) = sz \<and> take c (vec_array v) = take c ?a \<and>
      cells_live ?ti (\<lambda>r. r < (if construct then c + 1 else c)) (vec_array v) \<and>
      (\<forall>b. construct \<longrightarrow> base_of (t\<lparr>t_columns := cs\<rparr>) i = Some b \<longrightarrow> (\<forall>i < 1. vec_array v ! (c + i) = b)) \<and>
      (\<forall>cj x. Freed cj x \<in> set ev \<longrightarrow> cj = i \<and> (needs_dtor ?ti \<longrightarrow> raws x)))"
      by (rule grow_column_ok [OF w(1,2) c(1) l]) (use c b i in \<open>auto simp: base bases_ok_def\<close>)
    let ?G = "flecs_table_grow_column (Some (t\<lparr>t_columns := cs\<rparr>)) i \<lparr>vec_array = ?a, vec_count = int c, vec_size = int prev\<rparr> ?ti 1 sz construct"
    have hook: "flecs_table_invoke_hook (t\<lparr>t_columns := cs'\<rparr>) On_Add i es c 1 = Inr [On_Add i es c 1]" if "length cs' = ?n" for cs'
    proof (rule invoke_hook_ok)
      show "column_wf (t\<lparr>t_columns := cs'\<rparr>) prev i (t_columns t ! i)" using wf [OF i] by (simp add: column_wf_def)
    qed (use i that in simp)
    have eq: "append_column es c prev sz construct on_add i (t\<lparr>t_columns := cs\<rparr>, log) = bindR ?G (\<lambda>(v, ev).
        ecs_assert (vec_size v = int sz) ECS_INTERNAL_ERROR (ecs_assert (vec_count v = int (Suc c)) ECS_INTERNAL_ERROR
         (Inr (t\<lparr>t_columns := cs[i := (cs ! i)\<lparr>col_data := vec_array v\<rparr>]\<rparr>, log @ ev @
            (if on_add \<and> h_on_add (ti_hooks ?ti) then [On_Add i es c 1] else [])))))"
      using i cs hook by (cases on_add; cases "h_on_add (ti_hooks ?ti)") (simp_all add: append_column_def ecs_vec_from_column_ext_def split_def Let_def t)
    show "returns (append_column es c prev sz construct on_add i (t\<lparr>t_columns := cs\<rparr>, log))
        (\<lambda>s. \<exists>a log. s = (t\<lparr>t_columns := cs[i := (cs ! i)\<lparr>col_data := a\<rparr>]\<rparr>, log) \<and> grown t c 1 sz construct i a \<and> ?L log)"
      unfolding eq returns_bindR
      by (rule returns_mono [OF g]) (use log in \<open>auto simp: base grown_def freed_ok_def\<close>)
  qed (simp_all add: freed_ok_def)
  moreover have "t\<lparr>t_columns := t_columns t\<rparr> = t" by simp
  ultimately show ?thesis by (auto elim!: returns_mono)
qed


definition addn_bs :: "nat \<Rightarrow> ecs_bitset \<Rightarrow> ecs_bitset" where
  "addn_bs n b = projr (flecs_bitset_addn b (int n))"

lemma addn_bits:
  assumes wf: "table_wf t" and b: "b \<in> set (t_bs t)" and n: "t_count t + n \<le> 2 ^ 30"
  shows "flecs_bitset_addn b (int n) = Inr (addn_bs n b)" "bs_ok (addn_bs n b)" "bs_list (addn_bs n b) = bs_list b @ replicate n False"
    "bs_count (addn_bs n b) = int (t_count t + n)"
proof -
  have ok: "bs_ok b" and c: "bs_count b = int (t_count t)" using wf b by (auto simp: table_wf_def)
  have "bs_count b + int n \<le> bs_max" using n c by (simp add: bs_max_def)
  then have "returns (flecs_bitset_addn b (int n)) (\<lambda>b'. bs_ok b' \<and> bs_count b' = int (t_count t + n) \<and>
      bs_list b' = bs_list b @ replicate n False)"
    using bitset_addn_ok [OF ok, of "int n"] c by simp
  then show "flecs_bitset_addn b (int n) = Inr (addn_bs n b)" "bs_ok (addn_bs n b)" "bs_list (addn_bs n b) = bs_list b @ replicate n False"
    "bs_count (addn_bs n b) = int (t_count t + n)"
    by (auto simp: returns_iff addn_bs_def)
qed

lemma append_bits_ok:
  assumes "\<And>b. b \<in> set (t_bs t) \<Longrightarrow> flecs_bitset_addn b (int n) = Inr (addn_bs n b)"
  shows "for_loop (append_bitset n) 0 (length (t_bs t)) t = Inr (t\<lparr>t_bs := map (addn_bs n) (t_bs t)\<rparr>)"
  using bs_loop [of t "\<lambda>b. flecs_bitset_addn b (int n)" "addn_bs n"] assms
  by (simp add: append_bitset_def [abs_def])

definition appended :: "'v::zero ecs_table \<Rightarrow> ecs_entity \<Rightarrow> bool \<Rightarrow> 'v ecs_table \<Rightarrow> bool" where
  \<comment> \<open>the table after adding a row, whose components are constructed if \<open>construct\<close>\<close>
  "appended t e construct t' \<longleftrightarrow> table_wf t' \<and> same_shape t t' \<and> t_count t' = Suc (t_count t) \<and> t_ents t' = t_ents t @ [e] \<and>
    (\<forall>i < length (t_columns t). grown t (t_count t) 1 (t_size t') construct i (col_data (t_columns t' ! i))) \<and>
    (\<forall>i < length (t_bs t). t_bits t' i = t_bits t i @ [False])"

lemma append_fast:
  assumes ok: "table_ok t" and n: "t_count t < 2 ^ 30" and lock: "t_lock t = 0"
    and fast: "\<not> has_flag (t_flags t) (EcsTableIsComplex OR EcsTableHasIsA)"
  shows "returns (flecs_table_append t e construct on_add) (\<lambda>(t', log). appended t e construct t' \<and> log = [])"
proof -
  have wf: "table_wf t" using ok by (simp add: table_ok_def)
  obtain w es sz where a: "ecs_vec_append (ecs_vec_from_entities t) = (w, int (t_count t))"
    "vec_store w (int (t_count t)) e = Inr \<lparr>vec_array = es, vec_count = int (Suc (t_count t)), vec_size = int sz\<rparr>"
    and es: "length es = sz" "Suc (t_count t) \<le> sz" "sz \<le> 2 ^ 30" "take (Suc (t_count t)) es = t_ents t @ [e]"
    and sz: "vec_size (fst (ecs_vec_append (ecs_vec_from_entities t))) = int sz"
    using entities_append [OF wf n] by metis
  obtain d v where md: "\<And>es. flecs_table_mark_table_dirty (t\<lparr>t_entities := es\<rparr>) 0 = Inr (t\<lparr>t_entities := es, t_dirty := d, t_version := v\<rparr>)"
    and d: "\<forall>x. d = Some x \<longrightarrow> length x = Suc (length (t_columns t))"
    using mark_dirty_ok [OF wf, of 0] by (metis le0)
  define fl where "fl = (if t_count t = 0 then t_flags (set_not_empty t) else t_flags t)"
  define t1 where "t1 = t\<lparr>t_entities := es, t_dirty := d, t_version := v, t_flags := fl\<rparr>"
  have sf: "same_flags fl (t_flags t)" by (simp add: fl_def)
  have fast1: "\<not> has_flag (t_flags t1) (EcsTableIsComplex OR EcsTableHasIsA)"
  proof -
    have "has_flag fl (EcsTableIsComplex OR EcsTableHasIsA) = has_flag (t_flags t) (EcsTableIsComplex OR EcsTableHasIsA)"
      by (rule same_flagsD [OF sf]) simp
    with fast show ?thesis by (simp add: t1_def)
  qed
  have t1: "(if t_count t = 0 then set_not_empty (t\<lparr>t_entities := es, t_dirty := d, t_version := v\<rparr>)
      else t\<lparr>t_entities := es, t_dirty := d, t_version := v\<rparr>) = t1"
    by (simp add: t1_def fl_def set_not_empty_def)
  have eq: "flecs_table_append t e construct on_add =
      bindR (flecs_table_fast_append t1) (\<lambda>t. Inr (t\<lparr>t_count := Suc (t_count (t1)), t_size := sz\<rparr>, []))"
    unfolding flecs_table_append_def ecs_assert_def Let_def a prod.case bindR_Inr if_P [OF lock] ecs_vec.simps md t1 
    using fast1 by (simp add: t1_def nat_add_distrib)
  have plain: "\<not> has_flag (t_flags t) EcsTableIsComplex" using fast unfolding has_flag_or_right by blast
  have none: "\<not> typed (col_ti (t_columns t ! i))" "\<not> needs_dtor (col_ti (t_columns t ! i))" if "i < length (t_columns t)" for i
    using plain_table(1) [OF wf plain that] by blast+
  have nobs: "t_bs t = []" by (rule plain_table(2) [OF wf plain])
  have nobase: "t_bases t = None" using wf fast unfolding table_wf_def has_flag_or_right by blast
  have fa: "returns (flecs_table_fast_append t1) (\<lambda>t'. \<exists>cs. t' = t1\<lparr>t_columns := cs\<rparr> \<and> length cs = length (t_columns t1) \<and>
    (\<forall>i < length cs. col_ti (cs ! i) = col_ti (t_columns t1 ! i) \<and> length (col_data (cs ! i)) = sz \<and>
      take (t_count t1) (col_data (cs ! i)) = t_cells t1 i))"
  proof (rule fast_append_ok)
    show "vec_size (fst (ecs_vec_append (ecs_vec_from_entities t1))) = int sz"
      unfolding sz [symmetric] by (rule append_size_cong) (simp_all add: ecs_vec_from_entities_def t1_def)
  qed (use wf n in \<open>auto simp: table_wf_def column_wf_def t1_def\<close>)
  show ?thesis unfolding eq returns_bindR returns_Inr
  proof (rule returns_mono [OF fa], elim exE conjE)
    fix t' cs assume t': "t' = t1\<lparr>t_columns := cs\<rparr>" and len: "length cs = length (t_columns t1)"
      and cs: "\<forall>i < length cs. col_ti (cs ! i) = col_ti (t_columns t1 ! i) \<and> length (col_data (cs ! i)) = sz \<and>
        take (t_count t1) (col_data (cs ! i)) = t_cells t1 i"
    let ?t = "t'\<lparr>t_count := Suc (t_count t1), t_size := sz\<rparr>"
    have tr: "?t = t\<lparr>t_entities := es, t_dirty := d, t_version := v, t_flags := fl, t_count := Suc (t_count t), t_size := sz,
      t_columns := cs, t_bs := t_bs t\<rparr>" by (simp add: t' t1_def)
    have "table_wf ?t" "same_shape t ?t"
      by (rule table_update [OF wf tr es(1,2,3) d _ _ _ _ sf]; use len cs nobs in \<open>simp add: t1_def\<close>)+
    moreover have "grown t (t_count t) 1 sz construct i (col_data (cs ! i))" if "i < length (t_columns t)" for i
      using cs len none that by (simp add: grown_def t1_def t_cells_def cells_live_def cell_ok_def base_of_def nobase)
    moreover have "t_ents ?t = t_ents t @ [e]" using es by (simp add: t_ents_def t1_def t')
    ultimately show "case (?t, []) of (t', log) \<Rightarrow> appended t e construct t' \<and> log = []"
      using nobs by (simp add: appended_def) (simp add: t' t1_def)
  qed
qed


lemma append_complex:
  fixes t :: "'v::zero ecs_table"
  assumes ok: "table_ok t" and n: "t_count t < 2 ^ 30" and lock: "t_lock t = 0"
    and slow: "has_flag (t_flags t) (EcsTableIsComplex OR EcsTableHasIsA)"
  shows "returns (flecs_table_append t e construct on_add)
    (\<lambda>(t', log). appended t e construct t' \<and> freed_ok (\<lambda>ci. col_ti (t_columns t ! ci)) log)"
proof -
  have wf: "table_wf t" and live: "table_live t (\<lambda>_ r. r < t_count t)" using ok by (simp_all add: table_ok_def)
  obtain w es sz where a: "ecs_vec_append (ecs_vec_from_entities t) = (w, int (t_count t))"
    "vec_store w (int (t_count t)) e = Inr \<lparr>vec_array = es, vec_count = int (Suc (t_count t)), vec_size = int sz\<rparr>"
    and es: "length es = sz" "Suc (t_count t) \<le> sz" "sz \<le> 2 ^ 30" "take (Suc (t_count t)) es = t_ents t @ [e]"
    and sz: "sz = t_size t \<or> pow2_size sz"
    using entities_append [OF wf n] by metis
  obtain d v where md: "\<And>es. flecs_table_mark_table_dirty (t\<lparr>t_entities := es\<rparr>) 0 = Inr (t\<lparr>t_entities := es, t_dirty := d, t_version := v\<rparr>)"
    and d: "\<forall>x. d = Some x \<longrightarrow> length x = Suc (length (t_columns t))"
    using mark_dirty_ok [OF wf, of 0] by (metis le0)
  define fl where "fl = (if t_count t = 0 then t_flags (set_not_empty t) else t_flags t)"
  define t1 where "t1 = t\<lparr>t_entities := es, t_dirty := d, t_version := v, t_flags := fl\<rparr>"
  define t2 where "t2 = t1\<lparr>t_count := Suc (t_count t), t_size := sz\<rparr>"
  have sf: "same_flags fl (t_flags t)" by (simp add: fl_def)
  have slow1: "has_flag fl (EcsTableIsComplex OR EcsTableHasIsA)"
    using slow same_flagsD [OF sf, of "EcsTableIsComplex OR EcsTableHasIsA"] by simp
  have t1: "(if t_count t = 0 then set_not_empty (t\<lparr>t_entities := es, t_dirty := d, t_version := v\<rparr>)
      else t\<lparr>t_entities := es, t_dirty := d, t_version := v\<rparr>) = t1"
    by (simp add: t1_def fl_def set_not_empty_def)
  have t2: "t1\<lparr>t_count := Suc (t_count t), t_size := sz\<rparr> = t2" "t_columns t2 = t_columns t" "t_count t1 = t_count t" "t_size t1 = t_size t"
    "t_flags t1 = fl" by (simp_all add: t2_def t1_def)
  have eq: "flecs_table_append t e construct on_add =
      bindR (for_loop (append_column [e] (t_count t) (t_size t) sz construct on_add) 0 (length (t_columns t)) (t2, []))
        (\<lambda>(t, log). bindR (for_loop (append_bitset 1) 0 (length (t_bs t)) t) (\<lambda>t. Inr (t, log)))"
    unfolding flecs_table_append_def ecs_assert_def Let_def a prod.case bindR_Inr if_P [OF lock] ecs_vec.simps md t1 t2 if_not_P
    using slow1 by (simp add: t2 nat_add_distrib)
  have f: "has_flag fl EcsTableHasDtors = has_flag (t_flags t) EcsTableHasDtors"
    "has_flag fl EcsTableHasCtors = has_flag (t_flags t) EcsTableHasCtors"
    using same_flagsD [OF sf, of EcsTableHasDtors] same_flagsD [OF sf, of EcsTableHasCtors] by simp_all
  have cols: "returns (for_loop (append_column [e] (t_count t) (t_size t) sz construct on_add) 0 (length (t_columns t2)) (t2, []))
    (\<lambda>(t', log). \<exists>cs. t' = t2\<lparr>t_columns := cs\<rparr> \<and> length cs = length (t_columns t2) \<and>
      (\<forall>i < length cs. col_ti (cs ! i) = col_ti (t_columns t2 ! i) \<and> grown t2 (t_count t) 1 sz construct i (col_data (cs ! i))) \<and>
      freed_ok (\<lambda>ci. col_ti (t_columns t2 ! ci)) log)"
  proof (rule append_columns_ok)
    show "column_wf t2 (t_size t) i (t_columns t2 ! i)" if "i < length (t_columns t2)" for i
      using wf that f by (simp add: table_wf_def column_wf_def t2_def t1_def)
    show "bases_ok t2" using wf by (simp add: table_wf_def bases_ok_def base_of_def t2_def t1_def)
  qed (use live es sz wf in \<open>auto simp: table_live_def t2_def t1_def table_wf_def\<close>)
  show ?thesis unfolding eq returns_bindR
  proof (rule returns_mono [OF cols [unfolded t2(2)]])
    fix x :: "'v ecs_table \<times> 'v table_event list"
    assume "case x of (t', log) \<Rightarrow> \<exists>cs. t' = t2\<lparr>t_columns := cs\<rparr> \<and> length cs = length (t_columns t) \<and>
      (\<forall>i < length cs. col_ti (cs ! i) = col_ti (t_columns t ! i) \<and> grown t2 (t_count t) 1 sz construct i (col_data (cs ! i))) \<and>
      freed_ok (\<lambda>ci. col_ti (t_columns t ! ci)) log"
    then obtain log cs where x: "x = (t2\<lparr>t_columns := cs\<rparr>, log)" and len: "length cs = length (t_columns t)"
      and log: "freed_ok (\<lambda>ci. col_ti (t_columns t ! ci)) log" and cs: "\<forall>i < length cs. col_ti (cs ! i) = col_ti (t_columns t ! i) \<and> grown t2 (t_count t) 1 sz construct i (col_data (cs ! i))"
      by (cases x) auto
    let ?bs = "map (addn_bs 1) (t_bs t)"
    let ?t = "t2\<lparr>t_columns := cs, t_bs := ?bs\<rparr>"
    have tr: "?t = t\<lparr>t_entities := es, t_dirty := d, t_version := v, t_flags := fl, t_count := Suc (t_count t), t_size := sz,
      t_columns := cs, t_bs := ?bs\<rparr>" by (simp add: t2_def t1_def)
    have bits: "flecs_bitset_addn b (int 1) = Inr (addn_bs 1 b)" "bs_ok (addn_bs 1 b)" "bs_list (addn_bs 1 b) = bs_list b @ [False]"
      "bs_count (addn_bs 1 b) = 1 + int (t_count t)" if "b \<in> set (t_bs t)" for b
      using addn_bits [OF wf that, of 1] n by simp_all
    have c: "col_ti (cs ! i) = col_ti (t_columns t ! i) \<and> length (col_data (cs ! i)) = sz" if "i < length cs" for i
      using cs that by (simp add: grown_def t2)
    have "table_wf ?t" "same_shape t ?t"
      by (rule table_update [OF wf tr es(1,2,3) d _ c _ _ sf]; use len t2 bits in \<open>auto\<close>)+
    moreover have "grown t (t_count t) 1 sz construct i (col_data (cs ! i))" if "i < length (t_columns t)" for i
      using cs len that by (simp add: t2_def t1_def grown_def base_of_def)
    moreover have "t_ents ?t = t_ents t @ [e]" using es by (simp add: t_ents_def t1_def t2_def)
    ultimately have "appended t e construct ?t"
      using bits by (simp add: appended_def t_bits_def) (simp add: t2_def t1_def)
    moreover have "for_loop (append_bitset 1) 0 (length (t_bs (t2\<lparr>t_columns := cs\<rparr>))) (t2\<lparr>t_columns := cs\<rparr>) = Inr ?t"
      by (subst append_bits_ok) (use bits(1) in \<open>simp_all add: t2_def t1_def\<close>)
    ultimately show "returns (case x of (t', log) \<Rightarrow> bindR (for_loop (append_bitset 1) 0 (length (t_bs t')) t') (\<lambda>t. Inr (t, log)))
        (\<lambda>(t', log). appended t e construct t' \<and> freed_ok (\<lambda>ci. col_ti (t_columns t ! ci)) log)"
      using log by (simp add: x)
  qed
qed

lemma append_ok:
  assumes "table_ok t" "t_lock t = 0" "t_count t < 2 ^ 30"
  shows "returns (flecs_table_append t e construct on_add)
    (\<lambda>(t', log). appended t e construct t' \<and> freed_ok (\<lambda>ci. col_ti (t_columns t ! ci)) log)"
proof (cases "has_flag (t_flags t) (EcsTableIsComplex OR EcsTableHasIsA)")
  case True
  show ?thesis by (rule append_complex [OF assms(1,3,2) True])
next
  case False
  show ?thesis by (rule returns_mono [OF append_fast [OF assms(1,3,2) False]]) (auto simp: freed_ok_def)
qed


lemma grown_cells:
  assumes g: "grown t (t_count t) n sz True i a" and sz: "t_count t + n \<le> sz" and len: "t_count t \<le> length (col_data (t_columns t ! i))"
  shows "\<exists>cs. take (t_count t + n) a = t_cells t i @ cs \<and> length cs = n \<and> (typed (col_ti (t_columns t ! i)) \<longrightarrow> lives cs) \<and>
    (\<forall>b. base_of t i = Some b \<longrightarrow> cs = replicate n b)"
proof (intro exI conjI)
  let ?c = "t_count t"
  have a: "length a = sz" "take ?c a = t_cells t i" "cells_live (col_ti (t_columns t ! i)) (\<lambda>r. r < ?c + n) a"
    using g by (simp_all add: grown_def t_cells_def)
  show "take (?c + n) a = t_cells t i @ take n (drop ?c a)" using a(2) by (simp add: take_add)
  show l: "length (take n (drop ?c a)) = n" using a sz by simp
  show "typed (col_ti (t_columns t ! i)) \<longrightarrow> lives (take n (drop ?c a))"
    using a(1,3) sz by (auto simp: lives_nth cells_live_def cell_ok_def)
  show "\<forall>b. base_of t i = Some b \<longrightarrow> take n (drop ?c a) = replicate n b"
    using g l sz a(1) by (auto simp: grown_def list_eq_iff_nth_eq)
qed

lemma appended_row:
  assumes ok: "table_ok t" and a: "appended t e True t'"
  shows "table_ok t'" "\<And>i. i < length (t_columns t) \<Longrightarrow> \<exists>c. t_cells t' i = t_cells t i @ [c] \<and>
    (typed (col_ti (t_columns t ! i)) \<longrightarrow> c \<noteq> Raw) \<and> (\<forall>b. base_of t i = Some b \<longrightarrow> c = b)"
proof -
  have c: "t_count t' = t_count t + 1" and wf: "table_wf t'" and s: "same_shape t t'"
    and g: "\<And>i. i < length (t_columns t) \<Longrightarrow> grown t (t_count t) 1 (t_size t') True i (col_data (t_columns t' ! i))"
    using a by (simp_all add: appended_def)
  have "cells_live (col_ti (t_columns t' ! i)) (\<lambda>r. r < t_count t') (col_data (t_columns t' ! i))" if "i < length (t_columns t')" for i
    using g s that c by (simp add: grown_def same_shape_def)
  with wf show "table_ok t'" by (simp add: table_ok_def table_live_def)
  fix i assume i: "i < length (t_columns t)"
  have "t_count t + 1 \<le> t_size t'" using wf c by (simp add: table_wf_def)
  moreover have "t_count t \<le> length (col_data (t_columns t ! i))"
    using ok i by (simp add: table_ok_def table_wf_def column_wf_def)
  ultimately obtain cs where cs: "take (t_count t + 1) (col_data (t_columns t' ! i)) = t_cells t i @ cs" "length cs = 1"
    "typed (col_ti (t_columns t ! i)) \<longrightarrow> lives cs" "\<forall>b. base_of t i = Some b \<longrightarrow> cs = replicate 1 b"
    using grown_cells [OF g [OF i]] by blast
  then obtain x where "cs = [x]" by (cases cs) auto
  with cs c show "\<exists>c. t_cells t' i = t_cells t i @ [c] \<and> (typed (col_ti (t_columns t ! i)) \<longrightarrow> c \<noteq> Raw) \<and>
      (\<forall>b. base_of t i = Some b \<longrightarrow> c = b)"
    by (intro exI [of _ x]) (simp add: t_cells_def)
qed

text \<open>C4: Appending an entity to a table that is not locked succeeds, keeps the rows that are there and
  adds one for the entity: each of its components is constructed exactly once (or copied from the base
  entity of an override), its toggle bits are off, and no array that is freed on the way still holds a
  value that needs its destructor.\<close>

theorem flecs_table_append_correct:
  assumes "table_ok t" "t_lock t = 0" "t_count t < 2 ^ 30"
  shows "returns (flecs_table_append t e True on_add) (\<lambda>(t', log). table_ok t' \<and> same_shape t t' \<and> t_ents t' = t_ents t @ [e] \<and>
    (\<forall>i < length (t_columns t). \<exists>c. t_cells t' i = t_cells t i @ [c] \<and>
      (typed (col_ti (t_columns t ! i)) \<longrightarrow> c \<noteq> Raw) \<and> (\<forall>b. base_of t i = Some b \<longrightarrow> c = b)) \<and>
    (\<forall>i < length (t_bs t). t_bits t' i = t_bits t i @ [False]) \<and> freed_ok (\<lambda>i. col_ti (t_columns t ! i)) log)"
  by (rule returns_mono [OF append_ok [OF assms]])
    (use appended_row [OF assms(1)] in \<open>auto simp: appended_def\<close>)


definition two_rows :: "nat ecs_table" where
  \<comment> \<open>a table of two entities with one component and one toggle bit\<close>
  "two_rows = \<lparr>t_id = 3, t_flags = EcsTableIsComplex OR EcsTableHasMove, t_type = [20], t_column_map = [0, 0],
    t_columns = [\<lparr>col_data = [Live 5, Live 6], col_ti = counter_type\<rparr>], t_entities = [400, 401], t_count = 2, t_size = 2,
    t_bs = [\<lparr>bs_data = [1], bs_count = 2, bs_size = 64\<rparr>], t_bs_offset = 0, t_lock = 0, t_dirty = None, t_version = 0, t_bases = None\<rparr>"

lemma two_rows_ok: "table_ok two_rows"
proof -
  have "bs_ok \<lparr>bs_data = [1], bs_count = 2, bs_size = 64\<rparr>" by (simp add: bs_ok_def bs_bit_def bit_1_iff int32_def)
  moreover have "ti_size counter_type = 4" by (simp add: counter_type_def)
  ultimately show ?thesis
    using counter_type_ok by (auto simp: table_ok_def table_wf_def column_wf_def table_live_def cells_live_def cell_ok_def two_rows_def
        bases_ok_def base_of_def less_Suc_eq less_2_cases_iff)
qed

lemma flecs_table_append_correct_witness:
  "returns (flecs_table_append two_rows 402 True True) (\<lambda>(t', log). t_ents t' = [400, 401, 402] \<and>
    (\<exists>v. t_cells t' 0 = [Live 5, Live 6, Live v]) \<and> t_bits t' 0 = [True, False, False])"
proof -
  have b: "t_bits two_rows 0 = [True, False]" "t_cells two_rows 0 = [Live 5, Live 6]" "t_ents two_rows = [400, 401]"
    by (simp_all add: t_bits_def two_rows_def bs_list_def bs_bit_def t_cells_def t_ents_def upt_rec)
  have l: "length (t_columns two_rows) = 1" "length (t_bs two_rows) = 1" "t_lock two_rows = 0" "t_count two_rows < 2 ^ 30"
    "typed (col_ti (t_columns two_rows ! 0))"
    using counter_type_ok(1,2) ti_ok_plain(3) by (auto simp: two_rows_def)
  show ?thesis
    by (rule returns_mono [OF flecs_table_append_correct [OF two_rows_ok l(3,4), of 402 True]])
      (use l b in \<open>auto, metis cell.exhaust\<close>)
qed


section \<open>Copying the bytes of an element\<close>

lemma memcpy_at_ok:
  "i + n \<le> length src \<Longrightarrow> length dst = length src \<Longrightarrow> memcpy_at dst i src n = Inr (take i dst @ take n (drop i src) @ drop (i + n) dst)"
  by (simp add: memcpy_at_def)

lemma copy_overlap:
  assumes n: "n \<le> length src" "length src \<le> 2 * n" and len: "length dst = length src"
  shows "bindR (memcpy_at dst 0 src n) (\<lambda>d. memcpy_at d (length src - n) src n) = Inr src"
proof -
  have "length src - n \<le> n" using n by arith
  then have "take (length src - n) (take n src @ drop n dst) = take (length src - n) src" using n by (simp add: min_def)
  then show ?thesis using n len by (simp add: memcpy_at_ok flip: append_assoc)
qed

text \<open>C39: Copying an element in one or two chunks, which overlap for sizes that are not a power of two, writes
  each byte of it: for every size above zero the destination is then equal to the source, and no byte beside
  the element is read or written.\<close>

theorem flecs_table_copy_elem_copies:
  assumes "length src = sz" "length dst = sz" "0 < sz"
  shows "flecs_table_copy_elem dst src sz = Inr src"
proof -
  note two = copy_overlap [where src = src and dst = dst, unfolded assms(1)]
  have "memcpy_at dst 0 src n = Inr src" if "n = sz" for n using that assms by (simp add: memcpy_at_ok)
  moreover have "sz \<le> 2 \<Longrightarrow> sz \<noteq> 2 \<Longrightarrow> bindR (arr_get src 0) (arr_set dst 0) = Inr src"
    using assms by (cases src; cases dst) (auto simp: le_Suc_eq)
  ultimately show ?thesis
    using two [of 16] two [of 8] two [of 4] two [of 2] assms unfolding flecs_table_copy_elem_def
    by (auto split: if_split)
qed

lemma flecs_table_copy_elem_copies_witness:
  "flecs_table_copy_elem [0, 0, 0, 0, 0, 0, 0] [1, 2, 3, 4, 5, 6, 7] 7 = Inr [1, 2, 3, 4, 5, 6, 7]"
  by (rule flecs_table_copy_elem_copies) simp_all



section \<open>Deleting a row\<close>

lemma move_within_ok:
  fixes a :: "'v cell list"
  assumes ij: "i < length a" "j < length a" "i \<noteq> j"
    and f: "returns (f [a ! i] [a ! j]) (\<lambda>(r, s). r = [a ! j] \<and> length s = length [a ! j] \<and> P s)"
  shows "returns (move_within f i j a) (\<lambda>r. \<exists>c. r = a[j := c, i := a ! j] \<and> P [c])"
proof -
  have *: "take i b @ x # drop (Suc i) b = b[i := x]" if "i < length b" for i x and b :: "'v cell list"
    using that by (simp add: upd_conv_take_nth_drop)
  have eq: "move_within f i j a = bindR (f [a ! i] [a ! j]) (\<lambda>(b, c).
      Inr (take i (take j a @ c @ drop (Suc j) a) @ b @ drop (Suc i) (take j a @ c @ drop (Suc j) a)))"
    using ij by (simp add: move_within_def Let_def)
  show ?thesis unfolding eq returns_bindR
  proof (rule returns_mono [OF f])
    fix x :: "'v cell list \<times> 'v cell list" assume "case x of (r, s) \<Rightarrow> r = [a ! j] \<and> length s = length [a ! j] \<and> P s"
    then obtain c where x: "x = ([a ! j], [c])" and P: "P [c]" by (cases x; cases "snd x") auto
    have "take j a @ [c] @ drop (Suc j) a = a[j := c]" using * [OF ij(2)] by simp
    moreover have "take i (a[j := c]) @ [a ! j] @ drop (Suc i) (a[j := c]) = a[j := c, i := a ! j]"
      using * [of i "a[j := c]" "a ! j"] ij by simp
    ultimately show "returns (case x of (b, c) \<Rightarrow> Inr (take i (take j a @ c @ drop (Suc j) a) @ b @ drop (Suc i) (take j a @ c @ drop (Suc j) a)))
        (\<lambda>r. \<exists>c. r = a[j := c, i := a ! j] \<and> P [c])"
      unfolding x prod.case returns_Inr using P by metis
  qed
qed

definition uses_ctor_move_dtor :: "'v type_info \<Rightarrow> bool" where
  \<comment> \<open>the types for which \<open>flecs_table_delete\<close> fills the hole with \<open>ctor_move_dtor\<close>, not \<open>move_dtor\<close>\<close>
  "uses_ctor_move_dtor ti \<longleftrightarrow> h_move_ctor (ti_hooks ti) = None \<and> h_ctor_move_dtor (ti_hooks ti) \<noteq> None"

definition row_ready :: "'v type_info \<Rightarrow> bool \<Rightarrow> bool \<Rightarrow> bool \<Rightarrow> bool" where
  \<comment> \<open>whether \<open>flecs_table_delete\<close> can cope with a row that holds a value (\<open>q\<close>) or not\<close>
  "row_ready ti is_last destruct q \<longleftrightarrow>
    (if is_last then (typed ti \<and> destruct \<longrightarrow> q) \<and> (needs_dtor ti \<and> \<not> destruct \<longrightarrow> \<not> q)
     else (h_move_dtor (ti_hooks ti) \<noteq> None \<and> \<not> uses_ctor_move_dtor ti \<longrightarrow> q) \<and> (needs_dtor ti \<and> uses_ctor_move_dtor ti \<longrightarrow> \<not> q))"

definition deleted :: "'v type_info \<Rightarrow> nat \<Rightarrow> nat \<Rightarrow> 'v cell list \<Rightarrow> 'v cell list \<Rightarrow> bool" where
  \<comment> \<open>a column after the row has been deleted: \<open>m\<close> rows are left\<close>
  "deleted ti row m old a \<longleftrightarrow> length a = length old \<and> take m a = take m (old[row := old ! m]) \<and> cells_live ti (\<lambda>r. r < m) a"

lemma deleted_moved:
  assumes live: "cells_live ti (\<lambda>r. r < Suc m \<and> (r = row \<longrightarrow> q)) a" and row: "row < m" "m < length a" and c: "needs_dtor ti \<Longrightarrow> c = Raw"
  shows "deleted ti row m a (a[m := c, row := a ! m])"
  using assms by (auto simp: deleted_def cells_live_def cell_ok_def nth_list_update list_update_swap [of m row])

lemma delete_column_data:
  assumes ok: "ti_ok ti" and live: "cells_live ti (\<lambda>r. r < Suc m \<and> (r = row \<longrightarrow> q)) a" and row: "row < m" "m < length a"
    and ready: "row_ready ti False destruct q"
  shows "returns (if h_move_ctor (ti_hooks ti) = None \<and> h_ctor_move_dtor (ti_hooks ti) \<noteq> None
      then move_within (flecs_type_info_ctor_move_dtor ti) row m a else move_within (flecs_type_info_move_dtor ti) row m a)
    (deleted ti row m a)"
proof -
  have m: "typed ti \<Longrightarrow> a ! m \<noteq> Raw" and r: "cell_ok ti q (a ! row)"
    using live row by (auto simp: cells_live_def cell_ok_def)
  have fin: "\<exists>c. r = a[m := c, row := a ! m] \<and> (needs_dtor ti \<longrightarrow> raws [c]) \<Longrightarrow> deleted ti row m a r" for r
    using deleted_moved [OF live row] by auto
  show ?thesis
  proof (cases "uses_ctor_move_dtor ti")
    case True
    then have raw: "needs_dtor ti \<Longrightarrow> a ! row = Raw" using ready r by (simp add: row_ready_def cell_ok_def split: if_splits)
    have "returns (flecs_type_info_ctor_move_dtor ti [a ! row] [a ! m])
        (\<lambda>(r, s). r = [a ! m] \<and> length s = length [a ! m] \<and> (needs_dtor ti \<longrightarrow> raws s))"
      by (rule ctor_move_dtor_cells [OF ok]) (use raw m in simp_all)
    then have "returns (move_within (flecs_type_info_ctor_move_dtor ti) row m a)
        (\<lambda>r. \<exists>c. r = a[m := c, row := a ! m] \<and> (needs_dtor ti \<longrightarrow> raws [c]))"
      by (intro move_within_ok) (use row in simp_all)
    then show ?thesis using True unfolding if_P [OF True [unfolded uses_ctor_move_dtor_def]] by (elim returns_mono) (rule fin)
  next
    case False
    have "returns (flecs_type_info_move_dtor ti [a ! row] [a ! m])
        (\<lambda>(r, s). r = [a ! m] \<and> length s = length [a ! m] \<and> (needs_dtor ti \<longrightarrow> raws s))"
    proof (cases "h_move_dtor (ti_hooks ti) = None")
      case True
      then show ?thesis using ti_ok_legal [OF ok]
        by (simp add: flecs_type_info_move_dtor_def hooks_legal_def relocate_def)
    next
      case no: False
      then have "typed ti \<Longrightarrow> a ! row \<noteq> Raw" using ready r False by (auto simp: row_ready_def cell_ok_def)
      then show ?thesis by (intro move_dtor_cells [OF ok]) (use m in simp_all)
    qed
    then have "returns (move_within (flecs_type_info_move_dtor ti) row m a)
        (\<lambda>r. \<exists>c. r = a[m := c, row := a ! m] \<and> (needs_dtor ti \<longrightarrow> raws [c]))"
      by (intro move_within_ok) (use row in simp_all)
    then show ?thesis using False unfolding if_not_P [OF False [unfolded uses_ctor_move_dtor_def]] by (elim returns_mono) (rule fin)
  qed
qed

lemma fast_delete_data:
  assumes live: "cells_live ti (\<lambda>r. r < Suc m \<and> (r = row \<longrightarrow> q)) a" and row: "row < m" "m < length a"
  shows "returns (move_within copy_cell row m a) (deleted ti row m a)"
proof -
  have "returns (move_within copy_cell row m a) (\<lambda>r. \<exists>c. r = a[m := c, row := a ! m] \<and> raws [c])"
    by (rule move_within_ok) (use row in \<open>simp_all add: copy_cell_def relocate_def\<close>)
  then show ?thesis by (rule returns_mono) (use deleted_moved [OF live row] in auto)
qed

lemma delete_last_data:
  assumes ok: "ti_ok ti" and live: "cells_live ti (\<lambda>r. r < Suc m \<and> (r = m \<longrightarrow> q)) a" and m: "m < length a"
  shows "q \<or> \<not> typed ti \<Longrightarrow> returns (cells_xtor (flecs_type_info_dtor ti) a m 1) (deleted ti m m a)"
    and "(needs_dtor ti \<Longrightarrow> \<not> q) \<Longrightarrow> deleted ti m m a a"
proof -
  assume q: "q \<or> \<not> typed ti"
  have n: "m + 1 \<le> length a" using m by simp
  have one: "take 1 (drop m a) = [a ! m]" using m by (metis Cons_nth_drop_Suc One_nat_def take_0 take_Suc_Cons)
  have "typed ti \<Longrightarrow> lives (take 1 (drop m a))" unfolding one using live m q by (auto simp: cells_live_def cell_ok_def)
  from cells_dtor [OF ok n this]
  show "returns (cells_xtor (flecs_type_info_dtor ti) a m 1) (deleted ti m m a)"
  proof (rule returns_mono)
    fix r assume r: "length r = length a \<and> take m r = take m a \<and> (needs_dtor ti \<longrightarrow> raws (take 1 (drop m r))) \<and> drop (m + 1) r = drop (m + 1) a"
    have "cell_ok ti (i < m) (r ! i)" if "i < length r" for i
    proof -
      consider "i < m" | "i = m" | "m < i" by linarith
      then show ?thesis
      proof cases
        case 1
        then have "r ! i = a ! i" using r by (metis nth_take)
        moreover have "i < length a" using 1 m by simp
        then have "cell_ok ti (i < Suc m \<and> (i = m \<longrightarrow> q)) (a ! i)" using live unfolding cells_live_def by blast
        ultimately show ?thesis using 1 by simp
      next
        case 2
        have "take 1 (drop m r) = [r ! m]" using m r by (metis Cons_nth_drop_Suc One_nat_def take_0 take_Suc_Cons)
        with 2 r show ?thesis by (simp add: cell_ok_def)
      next
        case 3
        have "drop (m + 1) r ! (i - (m + 1)) = drop (m + 1) a ! (i - (m + 1))" using r by simp
        then have "r ! i = a ! i" using 3 that r m by simp
        moreover have "cell_ok ti (i < Suc m \<and> (i = m \<longrightarrow> q)) (a ! i)" using live that r unfolding cells_live_def by simp
        ultimately show ?thesis using 3 by simp
      qed
    qed
    then show "deleted ti m m a r" using r m by (simp add: deleted_def cells_live_def)
  qed
next
  assume "needs_dtor ti \<Longrightarrow> \<not> q"
  with live m show "deleted ti m m a a" by (auto simp: deleted_def cells_live_def cell_ok_def less_Suc_eq)
qed


definition cols_deleted :: "'v::zero ecs_table \<Rightarrow> nat \<Rightarrow> nat \<Rightarrow> 'v ecs_table \<Rightarrow> bool" where
  "cols_deleted t row m t' \<longleftrightarrow> (\<exists>cs. t' = t\<lparr>t_columns := cs\<rparr> \<and> length cs = length (t_columns t) \<and>
    (\<forall>i < length cs. col_ti (cs ! i) = col_ti (t_columns t ! i) \<and>
      deleted (col_ti (t_columns t ! i)) row m (col_data (t_columns t ! i)) (col_data (cs ! i))))"

definition delete_row :: "'v::zero ecs_table \<Rightarrow> nat \<Rightarrow> nat \<Rightarrow> nat \<Rightarrow> (nat \<Rightarrow> bool) \<Rightarrow> bool" where
  \<comment> \<open>the columns of a table of which a row is deleted; \<open>q\<close> says which columns hold a value in that row\<close>
  "delete_row t row m sz q \<longleftrightarrow> row \<le> m \<and> m < sz \<and> (\<forall>i < length (t_columns t). column_wf t sz i (t_columns t ! i) \<and>
    cells_live (col_ti (t_columns t ! i)) (\<lambda>r. r < Suc m \<and> (r = row \<longrightarrow> q i)) (col_data (t_columns t ! i)))"

lemma delete_column:
  assumes "delete_row t row m sz q" "i < length (t_columns t)"
  shows "column_wf t sz i (t_columns t ! i)"
    "cells_live (col_ti (t_columns t ! i)) (\<lambda>r. r < Suc m \<and> (r = row \<longrightarrow> q i)) (col_data (t_columns t ! i))"
    and "ti_ok (col_ti (t_columns t ! i))" "length (col_data (t_columns t ! i)) = sz" "col_data (t_columns t ! i) \<noteq> []"
    "m < length (col_data (t_columns t ! i))"
  using assms by (auto simp: delete_row_def column_wf_def)

lemma delete_loop:
  assumes f: "\<And>i cs x. i < length (t_columns t) \<Longrightarrow> length cs = length (t_columns t) \<Longrightarrow> cs ! i = t_columns t ! i \<Longrightarrow>
    returns (f i (mk (t\<lparr>t_columns := cs\<rparr>) x)) (\<lambda>s. \<exists>a y. s = mk (t\<lparr>t_columns := cs[i := (cs ! i)\<lparr>col_data := a\<rparr>]\<rparr>) y \<and>
      deleted (col_ti (t_columns t ! i)) row m (col_data (t_columns t ! i)) a)"
  shows "returns (for_loop f 0 (length (t_columns t)) (mk t x)) (\<lambda>s. \<exists>t' y. s = mk t' y \<and> cols_deleted t row m t')"
proof -
  have "returns (for_loop f 0 (length (t_columns t)) ((\<lambda>cs. mk (t\<lparr>t_columns := cs\<rparr>)) (t_columns t) x)) (\<lambda>s. \<exists>cs y. s = (\<lambda>cs. mk (t\<lparr>t_columns := cs\<rparr>)) cs y \<and>
      length cs = length (t_columns t) \<and> (\<forall>i < length (t_columns t). col_ti (cs ! i) = col_ti (t_columns t ! i) \<and>
      deleted (col_ti (t_columns t ! i)) row m (col_data (t_columns t ! i)) (col_data (cs ! i))) \<and> True)"
    by (rule column_loop) (use f in auto)
  moreover have "t\<lparr>t_columns := t_columns t\<rparr> = t" by simp
  ultimately have "returns (for_loop f 0 (length (t_columns t)) (mk t x)) (\<lambda>s. \<exists>cs y. s = mk (t\<lparr>t_columns := cs\<rparr>) y \<and>
      length cs = length (t_columns t) \<and> (\<forall>i < length (t_columns t). col_ti (cs ! i) = col_ti (t_columns t ! i) \<and>
      deleted (col_ti (t_columns t ! i)) row m (col_data (t_columns t ! i)) (col_data (cs ! i))))" by simp
  then show ?thesis
  proof (rule returns_mono, elim exE conjE)
    fix s cs y assume *: "s = mk (t\<lparr>t_columns := cs\<rparr>) y" "length cs = length (t_columns t)"
      "\<forall>i < length (t_columns t). col_ti (cs ! i) = col_ti (t_columns t ! i) \<and>
        deleted (col_ti (t_columns t ! i)) row m (col_data (t_columns t ! i)) (col_data (cs ! i))"
    show "\<exists>t' y. s = mk t' y \<and> cols_deleted t row m t'"
      by (rule exI [of _ "t\<lparr>t_columns := cs\<rparr>"], rule exI [of _ y]) (use * in \<open>auto simp: cols_deleted_def\<close>)
  qed
qed

lemma delete_hook:
  assumes D: "delete_row t row m sz q" and "i < length (t_columns t)" "length cs = length (t_columns t)"
  shows "flecs_table_invoke_hook (t\<lparr>t_columns := cs\<rparr>) ev i es r n = Inr [ev i es r n]"
  by (rule invoke_hook_ok [where c = "t_columns t ! i" and sz = sz]) (use delete_column(1) [OF D assms(2)] assms in \<open>simp_all add: column_wf_def\<close>)

lemma delete_columns_ok:
  fixes t :: "'v::zero ecs_table"
  assumes D: "delete_row t row m sz q" and row: "row < m" and ready: "\<And>i. i < length (t_columns t) \<Longrightarrow> row_ready (col_ti (t_columns t ! i)) False destruct (q i)"
  shows "returns (for_loop (delete_column e row m destruct) 0 (length (t_columns t)) (t, log)) (\<lambda>(t', _). cols_deleted t row m t')"
proof -
  have "returns (for_loop (delete_column e row m destruct) 0 (length (t_columns t)) (t, log)) (\<lambda>s. \<exists>t' y. s = (t', y) \<and> cols_deleted t row m t')"
  proof (rule delete_loop)
    fix i cs and log :: "'v table_event list"
    assume i: "i < length (t_columns t)" and cs: "length cs = length (t_columns t)" "cs ! i = t_columns t ! i"
    let ?ti = "col_ti (t_columns t ! i)" and ?a = "col_data (t_columns t ! i)"
    let ?M = "if h_move_ctor (ti_hooks ?ti) = None \<and> h_ctor_move_dtor (ti_hooks ?ti) \<noteq> None
      then move_within (flecs_type_info_ctor_move_dtor ?ti) row m ?a else move_within (flecs_type_info_move_dtor ?ti) row m ?a"
    have eq: "delete_column e row m destruct i (t\<lparr>t_columns := cs\<rparr>, log) = bindR ?M (\<lambda>a.
        Inr (t\<lparr>t_columns := cs[i := (cs ! i)\<lparr>col_data := a\<rparr>]\<rparr>, log @ (if destruct \<and> h_on_remove (ti_hooks ?ti) then [On_Remove i [e] row 1] else [])))"
      unfolding delete_column_def prod.case Let_def ecs_table.simps cs(2) delete_hook [OF D i cs(1)]
      by (cases destruct; cases "h_on_remove (ti_hooks ?ti)") (simp_all add: cs(2))
    show "returns (delete_column e row m destruct i (t\<lparr>t_columns := cs\<rparr>, log)) (\<lambda>s. \<exists>a y. s = (t\<lparr>t_columns := cs[i := (cs ! i)\<lparr>col_data := a\<rparr>]\<rparr>, y) \<and>
        deleted ?ti row m ?a a)"
      unfolding eq returns_bindR
      by (rule returns_mono [OF delete_column_data [OF delete_column(3) [OF D i] delete_column(2) [OF D i] row delete_column(6) [OF D i] ready [OF i]]]) auto
  qed
  then show ?thesis by (rule returns_mono) auto
qed

lemma fast_delete_columns:
  assumes D: "delete_row t row m sz q" and row: "row < m" and c: "t_count t = Suc m"
  shows "returns (flecs_table_fast_delete row t) (cols_deleted t row m)"
proof -
  have "returns (for_loop (\<lambda>ci t. bindR (move_within copy_cell row m (col_data (t_columns t ! ci))) (\<lambda>a. Inr (set_data t ci a))) 0 (length (t_columns t))
      ((\<lambda>t (x::unit). t) t ())) (\<lambda>s. \<exists>t' y. s = (\<lambda>t (x::unit). t) t' y \<and> cols_deleted t row m t')"
  proof (rule delete_loop)
    fix i cs and x :: unit assume i: "i < length (t_columns t)" and cs: "length cs = length (t_columns t)" "cs ! i = t_columns t ! i"
    show "returns (bindR (move_within copy_cell row m (col_data (t_columns (t\<lparr>t_columns := cs\<rparr>) ! i))) (\<lambda>a. Inr (set_data (t\<lparr>t_columns := cs\<rparr>) i a)))
        (\<lambda>s. \<exists>a y. s = t\<lparr>t_columns := cs[i := (cs ! i)\<lparr>col_data := a\<rparr>]\<rparr> \<and> deleted (col_ti (t_columns t ! i)) row m (col_data (t_columns t ! i)) a)"
      using fast_delete_data [OF delete_column(2) [OF D i] row delete_column(6) [OF D i]] by (auto simp: cs elim!: returns_mono)
  qed
  then show ?thesis using c by (auto simp: flecs_table_fast_delete_def elim!: returns_mono)
qed

lemma delete_last_columns:
  fixes t :: "'v::zero ecs_table"
  assumes D: "delete_row t m m sz q" and q: "\<And>i. i < length (t_columns t) \<Longrightarrow> typed (col_ti (t_columns t ! i)) \<Longrightarrow> q i"
  shows "returns (for_loop (delete_last_column e m) 0 (length (t_columns t)) (t, log)) (\<lambda>(t', _). cols_deleted t m m t')"
proof -
  have "returns (for_loop (delete_last_column e m) 0 (length (t_columns t)) (t, log)) (\<lambda>s. \<exists>t' y. s = (t', y) \<and> cols_deleted t m m t')"
  proof (rule delete_loop)
    fix i cs and log :: "'v table_event list"
    assume i: "i < length (t_columns t)" and cs: "length cs = length (t_columns t)" "cs ! i = t_columns t ! i"
    let ?ti = "col_ti (t_columns t ! i)" and ?a = "col_data (t_columns t ! i)"
    have eq: "delete_last_column e m i (t\<lparr>t_columns := cs\<rparr>, log) = bindR (cells_xtor (flecs_type_info_dtor ?ti) ?a m 1) (\<lambda>a.
        Inr (t\<lparr>t_columns := cs[i := (cs ! i)\<lparr>col_data := a\<rparr>]\<rparr>, log @ (if h_on_remove (ti_hooks ?ti) then [On_Remove i [e] m 1] else [])))"
      using i cs delete_column(5) [OF D i] delete_hook [OF D i cs(1)]
      by (simp add: delete_last_column_def flecs_table_invoke_remove_hooks_def flecs_table_invoke_dtor_def bindR_assoc)
    show "returns (delete_last_column e m i (t\<lparr>t_columns := cs\<rparr>, log)) (\<lambda>s. \<exists>a y. s = (t\<lparr>t_columns := cs[i := (cs ! i)\<lparr>col_data := a\<rparr>]\<rparr>, y) \<and>
        deleted ?ti m m ?a a)"
      unfolding eq returns_bindR
      by (rule returns_mono [OF delete_last_data(1) [OF delete_column(3) [OF D i] delete_column(2) [OF D i] delete_column(6) [OF D i]]]) (use q i in auto)
  qed
  then show ?thesis by (rule returns_mono) auto
qed

lemma nothing_deleted:
  assumes D: "delete_row t m m sz q" and q: "\<And>i. i < length (t_columns t) \<Longrightarrow> needs_dtor (col_ti (t_columns t ! i)) \<Longrightarrow> \<not> q i"
  shows "cols_deleted t m m t"
  unfolding cols_deleted_def
  by (rule exI [of _ "t_columns t"])
    (use delete_last_data(2) [OF delete_column(3) [OF D] delete_column(2) [OF D] delete_column(6) [OF D]] q in auto)


lemma take_swap_remove:
  assumes "m < length xs" "row \<le> m"
  shows "take m (xs[row := xs ! m]) = swap_remove row (take (Suc m) xs)"
proof -
  have "last (take (Suc m) xs) = xs ! m" by (rule last_take_Suc [OF assms(1)])
  moreover have "(take (Suc m) xs)[row := xs ! m] = take (Suc m) (xs[row := xs ! m])" by (simp add: take_update_swap)
  moreover have "butlast (take (Suc m) (xs[row := xs ! m])) = take m (xs[row := xs ! m])" using assms by (simp add: butlast_take)
  ultimately show ?thesis by (simp add: swap_remove_def)
qed

lemma ei_ok_set_row:
  assumes f: "\<And>r. er_dense (f r) = er_dense r \<and> er_table (f r) = er_table r"
  shows "ei_ok (ei_set idx k f) = ei_ok idx" "ei_alive (ei_set idx k f) = ei_alive idx" "ei_look (ei_set idx k f) = ei_look idx"
proof -
  show look: "ei_look (ei_set idx k f) = ei_look idx" using f by (auto simp: ei_look_def fun_eq_iff split: option.splits)
  show "ei_ok (ei_set idx k f) = ei_ok idx" using f unfolding ei_ok_def look
    by (auto simp: split: if_splits) (metis option.map_disc_iff option.map(2) option.sel option.collapse)+
  show "ei_alive (ei_set idx k f) = ei_alive idx" by (simp add: ei_alive_def)
qed

definition move_record :: "entity_index \<Rightarrow> ecs_entity \<Rightarrow> nat \<Rightarrow> entity_index" where
  \<comment> \<open>the index after the entity has moved to another row of its table: the flags of its record are kept\<close>
  "move_record idx e row = ei_set idx (id_index e) (\<lambda>r. r\<lparr>er_row := ECS_ROW_TO_RECORD row (er_row r AND ECS_ROW_FLAGS_MASK)\<rparr>)"

definition in_table :: "entity_index \<Rightarrow> nat \<Rightarrow> ecs_entity \<Rightarrow> bool" where
  "in_table idx tid e \<longleftrightarrow> e \<in> ei_alive idx \<and> (\<exists>r. ei_rec idx (id_index e) = Some r \<and> er_table r = Some tid)"

lemma update_moved_record_ok:
  assumes "ei_ok idx" "in_table idx tid e"
  shows "update_moved_record idx tid e row = Inr (move_record idx e row)" "ei_ok (move_record idx e row)"
    "ei_alive (move_record idx e row) = ei_alive idx" "in_table (move_record idx e row) n x = in_table idx n x"
proof -
  obtain r where r: "ei_rec idx (id_index e) = Some r" "er_table r = Some tid" using assms(2) by (auto simp: in_table_def)
  have "flecs_entity_index_get idx e = Inr (id_index e)" using get_ok(1) assms by (simp add: in_table_def)
  then show "update_moved_record idx tid e row = Inr (move_record idx e row)"
    by (simp add: update_moved_record_def ei_read_ok [OF r(1)] ei_write_ok r move_record_def)
  show ok: "ei_ok (move_record idx e row)" and al: "ei_alive (move_record idx e row) = ei_alive idx"
    using assms(1) ei_ok_set_row by (simp_all add: move_record_def)
  show "in_table (move_record idx e row) n x = in_table idx n x"
    unfolding in_table_def al by (auto simp: move_record_def r)
qed

lemma delete_bits_ok:
  assumes wf: "\<And>b. b \<in> set (t_bs t) \<Longrightarrow> bs_ok b \<and> bs_count b = int n" and row: "row < n"
  shows "\<exists>bs. for_loop (delete_bitset row) 0 (length (t_bs t)) t = Inr (t\<lparr>t_bs := bs\<rparr>) \<and> length bs = length (t_bs t) \<and>
    (\<forall>i < length bs. bs_ok (bs ! i) \<and> bs_count (bs ! i) = int (n - 1) \<and> bs_list (bs ! i) = swap_remove row (bs_list (t_bs t ! i)))"
proof -
  define g where "g b = projr (flecs_bitset_remove b (int row))" for b
  have g: "flecs_bitset_remove b (int row) = Inr (g b)" "bs_ok (g b)" "bs_list (g b) = swap_remove row (bs_list b)"
    "bs_count (g b) = int (n - 1)" if b: "b \<in> set (t_bs t)" for b
  proof -
    have "returns (flecs_bitset_remove b (int row)) (\<lambda>b'. bs_ok b' \<and> bs_list b' = swap_remove row (bs_list b))"
      using bitset_remove_ok [of b "int row"] wf [OF b] row by simp
    then show r: "flecs_bitset_remove b (int row) = Inr (g b)" "bs_ok (g b)" "bs_list (g b) = swap_remove row (bs_list b)"
      by (auto simp: returns_iff g_def)
    have "nat (bs_count (g b)) = n - 1" using arg_cong [OF r(3), of length] wf [OF b] by simp
    moreover have "0 \<le> bs_count (g b)" using r(2) by (simp add: bs_ok_def)
    ultimately show "bs_count (g b) = int (n - 1)" by simp
  qed
  have "for_loop (delete_bitset row) 0 (length (t_bs t)) t = Inr (t\<lparr>t_bs := map g (t_bs t)\<rparr>)"
    using bs_loop [of t "\<lambda>b. flecs_bitset_remove b (int row)" g] g(1) by (simp add: delete_bitset_def [abs_def])
  then show ?thesis using g by (intro exI [of _ "map g (t_bs t)"]) simp
qed


definition row_deleted :: "'v::zero ecs_table \<Rightarrow> nat \<Rightarrow> 'v ecs_table \<Rightarrow> bool" where
  \<comment> \<open>the table after the row has been deleted: the last row has taken its place\<close>
  "row_deleted t row t' \<longleftrightarrow> table_ok t' \<and> same_shape t t' \<and> t_ents t' = swap_remove row (t_ents t) \<and>
    (\<forall>i < length (t_columns t). t_cells t' i = swap_remove row (t_cells t i)) \<and>
    (\<forall>i < length (t_bs t). t_bits t' i = swap_remove row (t_bits t i))"

definition finish_delete :: "nat \<Rightarrow> 'v ecs_table \<Rightarrow> 'v ecs_table" where
  "finish_delete m t = (if m = 0 then set_empty (t\<lparr>t_count := t_count t - 1\<rparr>) else t\<lparr>t_count := t_count t - 1\<rparr>)"

lemma delete_finish:
  assumes wf: "table_wf t" and row: "row \<le> m" "t_count t = Suc m"
    and d: "\<forall>x. d = Some x \<longrightarrow> length x = Suc (length (t_columns t))"
    and t1: "t1 = t\<lparr>t_entities := (t_entities t)[row := t_entities t ! m], t_dirty := d, t_version := v\<rparr>"
    and c: "cols_deleted t1 row m t2"
    and bs: "length bs = length (t_bs t)" "\<And>i. i < length bs \<Longrightarrow> bs_ok (bs ! i) \<and> bs_count (bs ! i) = int m \<and>
      bs_list (bs ! i) = swap_remove row (bs_list (t_bs t ! i))"
  shows "row_deleted t row (finish_delete m (t2\<lparr>t_bs := bs\<rparr>))"
proof -
  let ?t = "finish_delete m (t2\<lparr>t_bs := bs\<rparr>)" and ?es = "(t_entities t)[row := t_entities t ! m]"
  obtain cs where t2: "t2 = t1\<lparr>t_columns := cs\<rparr>" and len: "length cs = length (t_columns t)"
    and cs: "\<And>i. i < length cs \<Longrightarrow> col_ti (cs ! i) = col_ti (t_columns t ! i) \<and>
      deleted (col_ti (t_columns t ! i)) row m (col_data (t_columns t ! i)) (col_data (cs ! i))"
    using c by (auto simp: cols_deleted_def t1)
  have m: "m < t_size t" "t_size t \<le> 2 ^ 30" "length (t_entities t) = t_size t" using wf row by (auto simp: table_wf_def)
  have old: "length (col_data (t_columns t ! i)) = t_size t" if "i < length cs" for i
    using wf that len by (simp add: table_wf_def column_wf_def)
  define fl where "fl = t_flags ?t"
  have fl: "same_flags fl (t_flags t)" by (simp add: fl_def finish_delete_def) (simp add: t2 t1 same_flags_def)
  have tr: "?t = t\<lparr>t_entities := ?es, t_dirty := d, t_version := v, t_flags := fl, t_count := m, t_size := t_size t, t_columns := cs, t_bs := bs\<rparr>"
    using row(2) by (cases t) (simp add: finish_delete_def t2 t1 fl_def set_empty_def)
  have c': "col_ti (cs ! i) = col_ti (t_columns t ! i) \<and> length (col_data (cs ! i)) = t_size t" if "i < length cs" for i
    using cs [OF that] old [OF that] by (simp add: deleted_def)
  have b': "bs_ok b \<and> bs_count b = int m" if "b \<in> set bs" for b using bs(2) that by (auto simp: in_set_conv_nth)
  have "length ?es = t_size t" "m \<le> t_size t" using m by simp_all
  note up = table_update [OF wf tr this m(2) d len c' bs(1) b' fl]
  have "cells_live (col_ti (t_columns ?t ! i)) (\<lambda>r. r < t_count ?t) (col_data (t_columns ?t ! i))" if "i < length (t_columns ?t)" for i
    using cs that by (simp add: tr deleted_def)
  then have "table_ok ?t" using up(1) by (simp add: table_ok_def table_live_def)
  moreover have "t_ents ?t = swap_remove row (t_ents t)"
    using take_swap_remove [of m "t_entities t" row] m row by (simp add: t_ents_def tr)
  moreover have "t_cells ?t i = swap_remove row (t_cells t i)" if "i < length (t_columns t)" for i
    using cs [of i] that len old [of i] take_swap_remove [of m "col_data (t_columns t ! i)" row] m row
    by (simp add: t_cells_def tr deleted_def)
  moreover have "t_bits ?t i = swap_remove row (t_bits t i)" if "i < length (t_bs t)" for i
    using bs that by (simp add: t_bits_def tr)
  ultimately show ?thesis using up(2) by (simp add: row_deleted_def)
qed

definition delete_core :: "'v::zero ecs_table \<Rightarrow> ecs_entity \<Rightarrow> nat \<Rightarrow> nat \<Rightarrow> bool \<Rightarrow> ('v ecs_table \<times> 'v table_event list) result" where
  \<comment> \<open>what \<open>flecs_table_delete\<close> does to the columns\<close>
  "delete_core t e row m destruct =
    (if \<not> has_flag (t_flags t) EcsTableIsComplex then
       bindR (if row \<noteq> m then flecs_table_fast_delete row t else Inr t) (\<lambda>t. Inr (t, []))
     else if row = m then
       if destruct \<and> has_flag (t_flags t) EcsTableHasDtors
       then for_loop (delete_last_column e row) 0 (length (t_columns t)) (t, []) else Inr (t, [])
     else if has_flag (t_flags t) (EcsTableHasDtors OR EcsTableHasMove)
       then for_loop (delete_column e row m destruct) 0 (length (t_columns t)) (t, [])
       else bindR (flecs_table_fast_delete row t) (\<lambda>t. Inr (t, [])))"

lemma delete_core_ok:
  assumes D: "delete_row t row m sz q" and c: "t_count t = Suc m"
    and ready: "\<And>i. i < length (t_columns t) \<Longrightarrow> row_ready (col_ti (t_columns t ! i)) (row = m) destruct (q i)"
    and plain: "\<not> has_flag (t_flags t) EcsTableIsComplex \<Longrightarrow> \<forall>i < length (t_columns t). \<not> needs_dtor (col_ti (t_columns t ! i))"
  shows "returns (delete_core t e row m destruct) (\<lambda>(t', _). cols_deleted t row m t')"
proof (cases "row = m")
  case last: True
  note D' = D [unfolded last]
  have none: "cols_deleted t m m t" if "\<And>i. i < length (t_columns t) \<Longrightarrow> needs_dtor (col_ti (t_columns t ! i)) \<Longrightarrow> \<not> q i"
    by (rule nothing_deleted [OF D' that])
  consider (fast) "\<not> has_flag (t_flags t) EcsTableIsComplex" | (dtor) "has_flag (t_flags t) EcsTableIsComplex" "destruct" "has_flag (t_flags t) EcsTableHasDtors"
    | (skip) "has_flag (t_flags t) EcsTableIsComplex" "\<not> (destruct \<and> has_flag (t_flags t) EcsTableHasDtors)" by blast
  then show ?thesis
  proof cases
    case fast
    with none plain show ?thesis by (auto simp: delete_core_def last)
  next
    case dtor
    have "returns (for_loop (delete_last_column e m) 0 (length (t_columns t)) (t, [])) (\<lambda>(t', _). cols_deleted t m m t')"
      by (rule delete_last_columns [OF D']) (use ready last dtor in \<open>auto simp: row_ready_def\<close>)
    with dtor show ?thesis by (simp add: delete_core_def last)
  next
    case skip
    have "\<not> q i" if i: "i < length (t_columns t)" and n: "needs_dtor (col_ti (t_columns t ! i))" for i
    proof -
      have "has_flag (t_flags t) EcsTableHasDtors" using delete_column(1) [OF D i] n by (simp add: column_wf_def)
      with skip ready [OF i] n last show ?thesis by (simp add: row_ready_def)
    qed
    with none skip show ?thesis by (auto simp: delete_core_def last)
  qed
next
  case False
  with D have row: "row < m" by (simp add: delete_row_def)
  have "returns (flecs_table_fast_delete row t) (\<lambda>t'. cols_deleted t row m t')" by (rule fast_delete_columns [OF D row c])
  then have "returns (bindR (flecs_table_fast_delete row t) (\<lambda>t. Inr (t, []))) (\<lambda>(t', _). cols_deleted t row m t')" by simp
  moreover have "returns (for_loop (delete_column e row m destruct) 0 (length (t_columns t)) (t, [])) (\<lambda>(t', _). cols_deleted t row m t')"
    by (rule delete_columns_ok [OF D row]) (use ready False in simp)
  ultimately show ?thesis using False by (simp add: delete_core_def)
qed


definition moved_index :: "entity_index \<Rightarrow> 'v ecs_table \<Rightarrow> nat \<Rightarrow> entity_index" where
  \<comment> \<open>the entity index after the row of the table has been deleted\<close>
  "moved_index idx t row = (if row = t_count t - 1 then idx else move_record idx (t_entities t ! (t_count t - 1)) row)"

definition last_in_table :: "entity_index \<Rightarrow> 'v ecs_table \<Rightarrow> nat \<Rightarrow> bool" where
  \<comment> \<open>if the last row has to move, its entity is alive and in this table\<close>
  "last_in_table idx t row \<longleftrightarrow> (row \<noteq> t_count t - 1 \<longrightarrow> ei_ok idx \<and> in_table idx (t_id t) (t_entities t ! (t_count t - 1)))"

lemma delete_eq:
  assumes wf: "table_wf t" and lock: "t_lock t = 0" and c: "t_count t = Suc m" and row: "row \<le> m" and l: "last_in_table idx t row"
  obtains d v where "\<forall>x. d = Some x \<longrightarrow> length x = Suc (length (t_columns t))"
    "flecs_table_delete idx t row destruct = bindR (delete_core (t\<lparr>t_entities := (t_entities t)[row := t_entities t ! m], t_dirty := d, t_version := v\<rparr>)
        (t_entities t ! row) row m destruct) (\<lambda>(t', log).
      bindR (if has_flag (t_flags t) EcsTableIsComplex then for_loop (delete_bitset row) 0 (length (t_bs t')) t' else Inr t') (\<lambda>t'.
      Inr (moved_index idx t row, finish_delete m t', log)))"
proof -
  obtain d v where md: "\<And>es. flecs_table_mark_table_dirty (t\<lparr>t_entities := es\<rparr>) 0 = Inr (t\<lparr>t_entities := es, t_dirty := d, t_version := v\<rparr>)"
    and d: "\<forall>x. d = Some x \<longrightarrow> length x = Suc (length (t_columns t))"
    using mark_dirty_ok [OF wf, of 0] by (metis le0)
  have es: "m < length (t_entities t)" "row < length (t_entities t)" using wf c row by (auto simp: table_wf_def)
  have idx: "row \<noteq> m \<Longrightarrow> update_moved_record idx (t_id t) (t_entities t ! m) row = Inr (moved_index idx t row)"
    "row = m \<Longrightarrow> moved_index idx t row = idx"
    using l update_moved_record_ok(1) by (simp_all add: moved_index_def last_in_table_def c)
  have "0 < t_count t" "t_count t - 1 = m" using c by simp_all
  then have "flecs_table_delete idx t row destruct = bindR (delete_core (t\<lparr>t_entities := (t_entities t)[row := t_entities t ! m], t_dirty := d, t_version := v\<rparr>)
        (t_entities t ! row) row m destruct) (\<lambda>(t', log).
      bindR (if has_flag (t_flags t) EcsTableIsComplex then for_loop (delete_bitset row) 0 (length (t_bs t')) t' else Inr t') (\<lambda>t'.
      Inr (moved_index idx t row, finish_delete m t', log)))"
    using es lock row idx unfolding flecs_table_delete_def Let_def
    by (cases "row = m"; cases "has_flag (t_flags t) EcsTableIsComplex") (simp_all add: md delete_core_def bindR_assoc finish_delete_def [abs_def] split_def del: EcsTableIsComplex_def)
  with d show thesis by (rule that)
qed

lemma delete_ok:
  fixes t :: "'v::zero ecs_table"
  assumes wf: "table_wf t" and lock: "t_lock t = 0" and row: "row < t_count t" and l: "last_in_table idx t row"
    and live: "\<And>i. i < length (t_columns t) \<Longrightarrow>
      cells_live (col_ti (t_columns t ! i)) (\<lambda>r. r < t_count t \<and> (r = row \<longrightarrow> q i)) (col_data (t_columns t ! i))"
    and ready: "\<And>i. i < length (t_columns t) \<Longrightarrow> row_ready (col_ti (t_columns t ! i)) (row = t_count t - 1) destruct (q i)"
  shows "returns (flecs_table_delete idx t row destruct) (\<lambda>(idx', t', log). row_deleted t row t' \<and> idx' = moved_index idx t row)"
proof -
  obtain m where c: "t_count t = Suc m" using row by (cases "t_count t") auto
  then have row: "row \<le> m" using row by simp
  obtain d v where d: "\<forall>x. d = Some x \<longrightarrow> length x = Suc (length (t_columns t))"
    and eq: "flecs_table_delete idx t row destruct = bindR (delete_core (t\<lparr>t_entities := (t_entities t)[row := t_entities t ! m], t_dirty := d, t_version := v\<rparr>)
        (t_entities t ! row) row m destruct) (\<lambda>(t', log).
      bindR (if has_flag (t_flags t) EcsTableIsComplex then for_loop (delete_bitset row) 0 (length (t_bs t')) t' else Inr t') (\<lambda>t'.
      Inr (moved_index idx t row, finish_delete m t', log)))"
    using delete_eq [OF wf lock c row l, of destruct] by blast
  let ?t1 = "t\<lparr>t_entities := (t_entities t)[row := t_entities t ! m], t_dirty := d, t_version := v\<rparr>"
  have "column_wf ?t1 (t_size t) i (t_columns t ! i)" if "i < length (t_columns t)" for i
    using wf that by (simp add: table_wf_def column_wf_def)
  moreover have "m < t_size t" using wf c by (simp add: table_wf_def)
  ultimately have D: "delete_row ?t1 row m (t_size t) q" using row live by (simp add: delete_row_def c)
  have core: "returns (delete_core ?t1 (t_entities t ! row) row m destruct) (\<lambda>(t', _). cols_deleted ?t1 row m t')"
    by (rule delete_core_ok [OF D]) (use c ready plain_table(1) [OF wf] in \<open>simp_all del: EcsTableIsComplex_def\<close>)
  show ?thesis unfolding eq returns_bindR
  proof (rule returns_mono [OF core])
    fix x :: "'v ecs_table \<times> 'v table_event list" assume "case x of (t', _) \<Rightarrow> cols_deleted ?t1 row m t'"
    then obtain t2 log where x: "x = (t2, log)" and t2: "cols_deleted ?t1 row m t2" by (cases x) auto
    then have b2: "t_bs t2 = t_bs t" by (auto simp: cols_deleted_def)
    have "\<exists>bs. (if has_flag (t_flags t) EcsTableIsComplex then for_loop (delete_bitset row) 0 (length (t_bs t2)) t2 else Inr t2) = Inr (t2\<lparr>t_bs := bs\<rparr>) \<and>
      length bs = length (t_bs t) \<and> (\<forall>i < length bs. bs_ok (bs ! i) \<and> bs_count (bs ! i) = int m \<and> bs_list (bs ! i) = swap_remove row (bs_list (t_bs t ! i)))"
    proof (cases "has_flag (t_flags t) EcsTableIsComplex")
      case True
      have "bs_ok b \<and> bs_count b = int (Suc m)" if "b \<in> set (t_bs t2)" for b using wf that by (simp add: b2 table_wf_def c)
      from delete_bits_ok [of t2, OF this, of row] row True show ?thesis by (simp add: b2)
    next
      case False
      have "t2\<lparr>t_bs := t_bs t\<rparr> = t2" by (simp flip: b2)
      with False plain_table(2) [OF wf False] show ?thesis by (intro exI [of _ "t_bs t"]) simp
    qed
    then obtain bs where bs: "(if has_flag (t_flags t) EcsTableIsComplex then for_loop (delete_bitset row) 0 (length (t_bs t2)) t2 else Inr t2) = Inr (t2\<lparr>t_bs := bs\<rparr>)"
      "length bs = length (t_bs t)" "\<And>i. i < length bs \<Longrightarrow> bs_ok (bs ! i) \<and> bs_count (bs ! i) = int m \<and> bs_list (bs ! i) = swap_remove row (bs_list (t_bs t ! i))"
      by blast
    have "row_deleted t row (finish_delete m (t2\<lparr>t_bs := bs\<rparr>))"
      by (rule delete_finish [OF wf row c d refl t2 bs(2,3)])
    then show "returns (case x of (t', log) \<Rightarrow>
      bindR (if has_flag (t_flags t) EcsTableIsComplex then for_loop (delete_bitset row) 0 (length (t_bs t')) t' else Inr t') (\<lambda>t'.
      Inr (moved_index idx t row, finish_delete m t', log))) (\<lambda>(idx', t', log). row_deleted t row t' \<and> idx' = moved_index idx t row)"
      unfolding x prod.case bs(1) by simp
  qed
qed


lemma row_record:
  assumes "row < 2 ^ 28" "f AND ECS_ROW_MASK = 0"
  shows "ECS_RECORD_TO_ROW (ECS_ROW_TO_RECORD row f) = row" "ECS_RECORD_TO_ROW_FLAGS (ECS_ROW_TO_RECORD row f) = f"
proof -
  have M: "ECS_ROW_MASK = mask 28" by (simp add: ECS_ROW_MASK_def mask_eq_exp_minus_1)
  have r: "(word_of_nat row :: 32 word) AND mask 28 = word_of_nat row"
    using assms(1) by (simp add: take_bit_of_nat take_bit_nat_eq_self flip: take_bit_eq_mask)
  have "(word_of_nat row OR f) AND mask 28 = word_of_nat row" using r assms(2) by (simp add: M bit.conj_disj_distrib2)
  then show "ECS_RECORD_TO_ROW (ECS_ROW_TO_RECORD row f) = row"
    using assms(1) by (simp add: ECS_RECORD_TO_ROW_def ECS_ROW_TO_RECORD_def M unat_of_nat)
  have "bit (word_of_nat row :: 32 word) j \<longrightarrow> j < 28" for j
    using r by (metis bit_and_iff bit_mask_iff)
  moreover have "bit f j \<longrightarrow> \<not> j < 28" for j
  proof
    assume b: "bit f j"
    have "j < 32" using b bit_imp_le_length by fastforce
    moreover have "\<not> bit (f AND mask 28) j" using assms(2) M by simp
    ultimately show "\<not> j < 28" using b by (simp add: bit_and_iff bit_mask_iff)
  qed
  ultimately show "ECS_RECORD_TO_ROW_FLAGS (ECS_ROW_TO_RECORD row f) = f"
    by (auto intro!: bit_word_eqI simp: ECS_RECORD_TO_ROW_FLAGS_def ECS_ROW_FLAGS_MASK_def ECS_ROW_TO_RECORD_def M bit_and_iff bit_or_iff bit_not_iff bit_mask_iff)
qed

definition records_ok :: "entity_index \<Rightarrow> 'v ecs_table \<Rightarrow> bool" where
  \<comment> \<open>the record of each entity of the table points at its row\<close>
  "records_ok idx t \<longleftrightarrow> ei_ok idx \<and> distinct (map id_index (t_ents t)) \<and> (\<forall>r < length (t_ents t). in_table idx (t_id t) (t_ents t ! r) \<and>
    (\<forall>rec. ei_rec idx (id_index (t_ents t ! r)) = Some rec \<longrightarrow> ECS_RECORD_TO_ROW (er_row rec) = r))"

lemma records_ok_last: "records_ok idx t \<Longrightarrow> row < t_count t \<Longrightarrow> t_count t \<le> length (t_entities t) \<Longrightarrow> last_in_table idx t row"
  unfolding last_in_table_def records_ok_def t_ents_def by (auto dest!: spec [of _ "t_count t - 1"])

definition records_but :: "entity_index \<Rightarrow> 'v ecs_table \<Rightarrow> nat \<Rightarrow> bool" where
  \<comment> \<open>the same, but for the entity in one row\<close>
  "records_but idx t row \<longleftrightarrow> ei_ok idx \<and> distinct (map id_index (t_ents t)) \<and> (\<forall>r < length (t_ents t). r \<noteq> row \<longrightarrow> in_table idx (t_id t) (t_ents t ! r) \<and>
    (\<forall>rec. ei_rec idx (id_index (t_ents t ! r)) = Some rec \<longrightarrow> ECS_RECORD_TO_ROW (er_row rec) = r))"

lemma records_ok_but: "records_ok idx t \<Longrightarrow> records_but idx t row"
  by (simp add: records_ok_def records_but_def)

lemma records_but_last: "records_but idx t row \<Longrightarrow> row < t_count t \<Longrightarrow> t_count t \<le> length (t_entities t) \<Longrightarrow> last_in_table idx t row"
  unfolding last_in_table_def records_but_def t_ents_def by (auto dest!: spec [of _ "t_count t - 1"])

lemma records_ok_delete:
  assumes r: "records_but idx t row" and row: "row < length (t_ents t)" "length (t_ents t) \<le> 2 ^ 28"
    and c: "length (t_ents t) = t_count t" and t': "t_ents t' = swap_remove row (t_ents t)" "t_id t' = t_id t"
  shows "records_ok (moved_index idx t row) t'"
proof -
  let ?es = "t_ents t" and ?m = "t_count t - Suc 0" and ?idx = "moved_index idx t row"
  have d: "distinct (map id_index ?es)" and ok: "ei_ok idx" using r by (simp_all add: records_but_def)
  have it: "in_table idx (t_id t) (?es ! i)" "\<And>rec. ei_rec idx (id_index (?es ! i)) = Some rec \<Longrightarrow> ECS_RECORD_TO_ROW (er_row rec) = i"
    if "i < length ?es" "i \<noteq> row" for i using r that by (auto simp: records_but_def)
  have ne: "?es \<noteq> []" using row by auto
  have last: "t_entities t ! ?m = ?es ! ?m" "last ?es = ?es ! ?m" "?m < length ?es"
    using row c last_conv_nth [OF ne] by (simp_all add: c) (simp add: t_ents_def)
  have u: "ei_ok ?idx \<and> (\<forall>n x. in_table ?idx n x = in_table idx n x)"
    using update_moved_record_ok [OF ok it(1) [OF last(3)]] ok by (cases "row = ?m") (simp_all add: moved_index_def last)
  have dist: "distinct (map id_index (t_ents t'))"
  proof -
    have "map id_index (swap_remove row ?es) = swap_remove row (map id_index ?es)"
      using ne by (simp add: swap_remove_def map_butlast map_update last_map)
    then show ?thesis using distinct_swap_remove [OF d, of row] row by (simp add: t')
  qed
  have "ECS_RECORD_TO_ROW (er_row rec) = i" if i: "i < length ?es - 1" and rec: "ei_rec ?idx (id_index (swap_remove row ?es ! i)) = Some rec" for i rec
  proof (cases "row = ?m")
    case True
    with i c row have "swap_remove row ?es ! i = ?es ! i" by (simp add: swap_remove_nth)
    with rec it(2) [of i] i True c show ?thesis by (simp add: moved_index_def)
  next
    case False
    have idx: "?idx = move_record idx (?es ! ?m) row" using False by (simp add: moved_index_def last)
    show ?thesis
    proof (cases "i = row")
      case True
      then have "swap_remove row ?es ! i = ?es ! ?m" using i row last by (simp add: swap_remove_nth)
      with rec obtain r where "rec = r\<lparr>er_row := ECS_ROW_TO_RECORD row (er_row r AND ECS_ROW_FLAGS_MASK)\<rparr>" by (auto simp: idx move_record_def)
      moreover have "(er_row r AND ECS_ROW_FLAGS_MASK) AND ECS_ROW_MASK = 0" by (simp add: ECS_ROW_FLAGS_MASK_def and.assoc)
      ultimately show ?thesis using row_record(1) [of row "er_row r AND ECS_ROW_FLAGS_MASK"] row True by simp
    next
      case f: False
      then have e: "swap_remove row ?es ! i = ?es ! i" using i row by (simp add: swap_remove_nth)
      have "id_index (?es ! i) \<noteq> id_index (?es ! ?m)"
        using nth_eq_iff_index_eq [OF d, of i ?m] i c last(3) by simp
      with rec it(2) [of i] i f show ?thesis by (simp add: idx e move_record_def)
    qed
  qed
  moreover have "in_table ?idx (t_id t) (swap_remove row ?es ! i)" if "i < length ?es - 1" for i
    using u it(1) [of i] it(1) [of ?m] that row last c by (auto simp: swap_remove_nth)
  ultimately show ?thesis using u dist by (simp add: records_ok_def t')
qed


text \<open>C5: Deleting a row of a table (whose entity leaves the world) succeeds and is \<open>swap_remove\<close> on the
  entities, on every column and on every bitset: the last row is moved over the deleted one, which holds
  a value as \<open>move_dtor\<close> requires, or the value is destructed if it is in the last row itself; and the
  record of the entity that was in the last row points to its new row while its flags are kept. The one
  condition on the components is that a type with a destructor and a \<open>ctor_move_dtor\<close> hook also has
  \<open>move_ctor\<close>: without it the deleted value would be overwritten by a hook that expects raw memory.\<close>

theorem flecs_table_delete_correct:
  assumes ok: "table_ok t" and lock: "t_lock t = 0" and row: "row < t_count t" and idx: "records_ok idx t" and n: "t_count t \<le> 2 ^ 28"
    and hooks: "\<And>i. i < length (t_columns t) \<Longrightarrow> needs_dtor (col_ti (t_columns t ! i)) \<Longrightarrow> \<not> uses_ctor_move_dtor (col_ti (t_columns t ! i))"
  shows "returns (flecs_table_delete idx t row True) (\<lambda>(idx', t', log). table_ok t' \<and> same_shape t t' \<and> t_ents t' = swap_remove row (t_ents t) \<and>
    (\<forall>i < length (t_columns t). t_cells t' i = swap_remove row (t_cells t i)) \<and>
    (\<forall>i < length (t_bs t). t_bits t' i = swap_remove row (t_bits t i)) \<and> records_ok idx' t' \<and>
    (\<forall>k rec. ei_rec idx k = Some rec \<longrightarrow> (\<exists>rec'. ei_rec idx' k = Some rec' \<and> er_table rec' = er_table rec \<and>
      ECS_RECORD_TO_ROW_FLAGS (er_row rec') = ECS_RECORD_TO_ROW_FLAGS (er_row rec))))"
proof -
  have wf: "table_wf t" and live: "table_live t (\<lambda>_ r. r < t_count t)" using ok by (simp_all add: table_ok_def)
  have len: "t_count t \<le> length (t_entities t)" "length (t_ents t) = t_count t" using wf by (simp_all add: table_wf_def t_ents_def)
  have fl: "ECS_RECORD_TO_ROW_FLAGS (ECS_ROW_TO_RECORD row (f AND ECS_ROW_FLAGS_MASK)) = ECS_RECORD_TO_ROW_FLAGS f" for f
    using row_record(2) [of row "f AND ECS_ROW_FLAGS_MASK"] row n
    by (simp add: ECS_ROW_FLAGS_MASK_def ECS_RECORD_TO_ROW_FLAGS_def and.assoc)
  have "returns (flecs_table_delete idx t row True) (\<lambda>(idx', t', log). row_deleted t row t' \<and> idx' = moved_index idx t row)"
    by (rule delete_ok [OF wf lock row records_ok_last [OF idx row len(1)], where q = "\<lambda>_. True"])
      (use live hooks in \<open>auto simp: table_live_def row_ready_def\<close>)
  moreover have "\<exists>rec'. ei_rec (moved_index idx t row) k = Some rec' \<and> er_table rec' = er_table rec \<and>
      ECS_RECORD_TO_ROW_FLAGS (er_row rec') = ECS_RECORD_TO_ROW_FLAGS (er_row rec)" if "ei_rec idx k = Some rec" for k rec
    using that by (cases "row = t_count t - 1") (auto simp: moved_index_def move_record_def fl)
  ultimately show ?thesis
    using records_ok_delete [OF records_ok_but [OF idx], of row] len row n by (auto simp: row_deleted_def same_shape_def elim!: returns_mono)
qed


definition two_index :: entity_index where
  \<comment> \<open>the entities of \<open>two_rows\<close>; the record of the second one has a flag set\<close>
  "two_index = \<lparr>ei_dense = [0, 400, 401],
    ei_pages = [Some (\<lambda>i. if i = 400 then \<lparr>er_table = Some 3, er_row = 0, er_dense = 1\<rparr>
      else if i = 401 then \<lparr>er_table = Some 3, er_row = 0x80000001, er_dense = 2\<rparr> else \<lparr>er_table = None, er_row = 0, er_dense = 0\<rparr>)],
    ei_range_store = [], ei_ranges = [], ei_active_range = None, ei_alive_count = 3, ei_max_id = 401\<rparr>"

lemma two_index_rec: "ei_rec two_index k = (if unat k < 1024 then
    Some (if k = 400 then \<lparr>er_table = Some 3, er_row = 0, er_dense = 1\<rparr>
      else if k = 401 then \<lparr>er_table = Some 3, er_row = 0x80000001, er_dense = 2\<rparr> else \<lparr>er_table = None, er_row = 0, er_dense = 0\<rparr>)
    else None)"
proof -
  have "unat k div 1024 = 0 \<longleftrightarrow> unat k < 1024" by auto
  moreover have "k = 400 \<longleftrightarrow> unat k = 400" "k = 401 \<longleftrightarrow> unat k = 401" by (simp_all add: word_unat_eq_iff)
  ultimately show ?thesis by (auto simp: ei_rec_def two_index_def page_index_div page_offset_mod)
qed

lemma two_index_ok: "records_ok two_index two_rows"
proof -
  have look: "ei_look two_index k = (if k = 400 then 1 else if k = 401 then 2 else 0)" for k
    by (auto simp: ei_look_def two_index_rec)
  have i: "id_index 400 = 400" "id_index 401 = 401" by (simp_all add: id_index_def)
  have "paired (ei_look two_index) (ei_dense two_index)"
    unfolding paired_def look by (auto simp: two_index_def i less_Suc_eq numeral_2_eq_2 numeral_3_eq_3)
  then have ok: "ei_ok two_index" by (auto simp: ei_ok_def two_index_rec) (auto simp: two_index_def)
  have "{Suc 0..<Suc (Suc (Suc 0))} = {1, 2}" by auto
  then have al: "ei_alive two_index = {400, 401}" by (simp add: ei_alive_def alive_ids_def two_index_def)
  have e: "t_ents two_rows = [400, 401]" "t_id two_rows = 3" by (simp_all add: t_ents_def two_rows_def)
  show ?thesis
    by (simp add: records_ok_def ok e i in_table_def al two_index_rec less_Suc_eq all_conj_distrib)
      (simp add: ECS_RECORD_TO_ROW_def ECS_ROW_MASK_def)
qed

lemma flecs_table_delete_correct_witness:
  "returns (flecs_table_delete two_index two_rows 0 True) (\<lambda>(idx', t', log). t_ents t' = [401] \<and> t_cells t' 0 = [Live 6] \<and>
    t_bits t' 0 = [False] \<and> (\<exists>rec. ei_rec idx' 401 = Some rec \<and> ECS_RECORD_TO_ROW (er_row rec) = 0 \<and>
      ECS_RECORD_TO_ROW_FLAGS (er_row rec) = 0x80000000))"
proof -
  have b: "t_bits two_rows 0 = [True, False]" "t_cells two_rows 0 = [Live 5, Live 6]" "t_ents two_rows = [400, 401]"
    by (simp_all add: t_bits_def two_rows_def bs_list_def bs_bit_def t_cells_def t_ents_def upt_rec)
  have l: "length (t_columns two_rows) = 1" "length (t_bs two_rows) = 1" "t_lock two_rows = 0" "t_count two_rows = 2" "t_id two_rows = 3"
    by (simp_all add: two_rows_def)
  have m: "\<not> uses_ctor_move_dtor counter_type"
    using merge_fields(6) [OF user_fns(1) [OF counter_hooks_ok], of no_hooks]
    by (simp add: uses_ctor_move_dtor_def counter_type_def counter_hooks_def)
  have "returns (flecs_table_delete two_index two_rows 0 True) (\<lambda>(idx', t', log). table_ok t' \<and> same_shape two_rows t' \<and>
      t_ents t' = swap_remove 0 (t_ents two_rows) \<and>
    (\<forall>i < length (t_columns two_rows). t_cells t' i = swap_remove 0 (t_cells two_rows i)) \<and>
    (\<forall>i < length (t_bs two_rows). t_bits t' i = swap_remove 0 (t_bits two_rows i)) \<and> records_ok idx' t' \<and>
    (\<forall>k rec. ei_rec two_index k = Some rec \<longrightarrow> (\<exists>rec'. ei_rec idx' k = Some rec' \<and> er_table rec' = er_table rec \<and>
      ECS_RECORD_TO_ROW_FLAGS (er_row rec') = ECS_RECORD_TO_ROW_FLAGS (er_row rec))))"
    by (rule flecs_table_delete_correct [OF two_rows_ok l(3) _ two_index_ok]) (use l m in \<open>simp_all add: two_rows_def\<close>)
  then show ?thesis
  proof (rule returns_mono, clarify)
    fix idx' and t' :: "nat ecs_table" and log
    assume e: "t_ents t' = swap_remove 0 (t_ents two_rows)" and c: "\<forall>i < length (t_columns two_rows). t_cells t' i = swap_remove 0 (t_cells two_rows i)"
      and bi: "\<forall>i < length (t_bs two_rows). t_bits t' i = swap_remove 0 (t_bits two_rows i)" and r: "records_ok idx' t'"
      and k: "\<forall>k rec. ei_rec two_index k = Some rec \<longrightarrow> (\<exists>rec'. ei_rec idx' k = Some rec' \<and> er_table rec' = er_table rec \<and>
        ECS_RECORD_TO_ROW_FLAGS (er_row rec') = ECS_RECORD_TO_ROW_FLAGS (er_row rec))"
    have e': "t_ents t' = [401]" "id_index 401 = 401" using e b by (simp_all add: swap_remove_def id_index_def)
    obtain rec where rec: "ei_rec idx' 401 = Some rec" "ECS_RECORD_TO_ROW_FLAGS (er_row rec) = 0x80000000"
      using k [rule_format, of 401 "\<lparr>er_table = Some 3, er_row = 0x80000001, er_dense = 2\<rparr>"]
      by (auto simp: two_index_rec ECS_RECORD_TO_ROW_FLAGS_def ECS_ROW_FLAGS_MASK_def ECS_ROW_MASK_def)
    moreover have "ECS_RECORD_TO_ROW (er_row rec) = 0" using r rec by (simp add: records_ok_def e')
    ultimately show "t_ents t' = [401] \<and> t_cells t' 0 = [Live 6] \<and> t_bits t' 0 = [False] \<and>
      (\<exists>rec. ei_rec idx' 401 = Some rec \<and> ECS_RECORD_TO_ROW (er_row rec) = 0 \<and> ECS_RECORD_TO_ROW_FLAGS (er_row rec) = 0x80000000)"
      using e' c bi l b by (simp add: swap_remove_def)
  qed
qed

end
