(* ===== verification/Table_Cache.thy ===== *)
theory Table_Cache
  imports Flecs_Map Table_Storage
begin

text \<open>
  \<open>storage/table_cache.c\<close>: the set of tables that a component record or a cached query keeps, with the
  table record of each. The elements are a dense array whose first \<open>queryable_count\<close> elements are the
  tables that queries may return; once it has more than four elements, a map from table ids to
  array indices serves the lookups. A table pointer and a table record pointer are numbers; the
  tables are a parameter \<open>T\<close> that gives the id and the flags at a table pointer, the table records are
  a heap that insertion writes to, and \<open>self\<close> is the address of the cache.

  \<open>cache_abs\<close> is the partial function from tables to table records that the cache stands for. The lemmas
  show that find, insert and remove implement it with and without the map, and that the queryable
  tables stay in front.
\<close>

section \<open>State\<close>

record ctable =
  ct_id :: "64 word"
  ct_flags :: "32 word"

record table_record =
  tr_cr :: nat
  tr_table :: nat
  tr_index :: int
  tr_count :: int
  tr_column :: int

record cache_elem =
  ce_table :: nat
  ce_tr :: nat
  ce_column :: int
  ce_index :: int

record table_cache =
  tc_index :: "64 word ecs_map"
  tc_records :: "cache_elem list"
  tc_queryable_count :: nat

record cache_iter =
  ci_elems :: "cache_elem list"
  ci_remaining :: nat
  ci_cur :: "cache_elem option"
  ci_flags :: "32 word"

definition EcsTableNotQueryable :: "32 word" where "EcsTableNotQueryable = 0x400"
definition EcsTableIsPrefab :: "32 word" where "EcsTableIsPrefab = 0x2"
definition EcsTableIsDisabled :: "32 word" where "EcsTableIsDisabled = 0x200"

definition FLECS_TABLE_CACHE_INDEX_THRESHOLD :: nat where
  "FLECS_TABLE_CACHE_INDEX_THRESHOLD = 4"

section \<open>Operations\<close>

definition index_store :: "64 word ecs_map \<Rightarrow> 64 word \<Rightarrow> nat \<Rightarrow> 64 word ecs_map result" where
  \<comment> \<open>look up the index of a table, which must be there, and overwrite it\<close>
  "index_store m key i =
    bindR (ecs_map_get m key) (\<lambda>idx. ecs_assert (idx \<noteq> None) ECS_INTERNAL_ERROR (map_store m key (of_nat i)))"

definition elem_key :: "(nat \<Rightarrow> ctable) \<Rightarrow> cache_elem \<Rightarrow> 64 word" where
  "elem_key T e = ct_id (T (ce_table e))"

definition flecs_table_cache_move :: "(nat \<Rightarrow> ctable) \<Rightarrow> table_cache \<Rightarrow> nat \<Rightarrow> nat \<Rightarrow> table_cache result" where
  "flecs_table_cache_move T c dst src =
    (if dst = src then Inr c
     else
       bindR (arr_get (tc_records c) src) (\<lambda>e.
       bindR (arr_set (tc_records c) dst e) (\<lambda>rs.
       if ecs_map_is_init (tc_index c)
       then bindR (index_store (tc_index c) (elem_key T e) dst) (\<lambda>m. Inr (c\<lparr>tc_index := m, tc_records := rs\<rparr>))
       else Inr (c\<lparr>tc_records := rs\<rparr>))))"

definition flecs_table_cache_swap :: "(nat \<Rightarrow> ctable) \<Rightarrow> table_cache \<Rightarrow> nat \<Rightarrow> nat \<Rightarrow> table_cache result" where
  "flecs_table_cache_swap T c a b =
    (if a = b then Inr c
     else
       bindR (arr_get (tc_records c) a) (\<lambda>tmp.
       bindR (arr_get (tc_records c) b) (\<lambda>eb.
       bindR (arr_set (tc_records c) a eb) (\<lambda>rs.
       bindR (arr_set rs b tmp) (\<lambda>rs.
       if ecs_map_is_init (tc_index c)
       then
         bindR (ecs_map_get (tc_index c) (elem_key T eb)) (\<lambda>a_idx.
         bindR (ecs_map_get (tc_index c) (elem_key T tmp)) (\<lambda>b_idx.
         ecs_assert (a_idx \<noteq> None) ECS_INTERNAL_ERROR
         (ecs_assert (b_idx \<noteq> None) ECS_INTERNAL_ERROR
         (bindR (map_store (tc_index c) (elem_key T eb) (of_nat a)) (\<lambda>m.
          bindR (map_store m (elem_key T tmp) (of_nat b)) (\<lambda>m.
          Inr (c\<lparr>tc_index := m, tc_records := rs\<rparr>)))))))
       else Inr (c\<lparr>tc_records := rs\<rparr>))))))"

fun find_table :: "cache_elem list \<Rightarrow> nat \<Rightarrow> int \<Rightarrow> int" where
  \<comment> \<open>the loop of \<open>flecs_table_cache_find\<close>, from index \<open>i\<close> on\<close>
  "find_table [] t i = - 1"
| "find_table (e # es) t i = (if ce_table e = t then i else find_table es t (i + 1))"

definition flecs_uto_i32 :: "64 word \<Rightarrow> int result" where
  \<comment> \<open>\<open>flecs_uto(int32_t, v)\<close>, with the range check of \<open>flecs_ito_\<close> on the value as an \<open>int64_t\<close>\<close>
  "flecs_uto_i32 v = ecs_assert (int32 (sint v)) ECS_INVALID_CONVERSION (Inr (sint (ucast v :: 32 word)))"

definition flecs_table_cache_find :: "(nat \<Rightarrow> ctable) \<Rightarrow> table_cache \<Rightarrow> nat \<Rightarrow> int result" where
  "flecs_table_cache_find T c t =
    (if ecs_map_is_init (tc_index c)
     then bindR (ecs_map_get (tc_index c) (ct_id (T t))) (\<lambda>r.
       case r of None \<Rightarrow> Inr (- 1) | Some v \<Rightarrow> flecs_uto_i32 v)
     else Inr (find_table (tc_records c) t 0))"

definition ecs_table_cache_init :: table_cache where
  "ecs_table_cache_init = \<lparr>tc_index = map_zero, tc_records = [], tc_queryable_count = 0\<rparr>"

definition ecs_table_cache_fini :: "table_cache \<Rightarrow> table_cache" where
  "ecs_table_cache_fini c = c\<lparr>tc_index := ecs_map_fini (tc_index c), tc_records := []\<rparr>"

definition cache_slot :: "table_cache \<Rightarrow> int \<Rightarrow> cache_elem result" where
  \<comment> \<open>\<open>ecs_vec_get_t\<close> on the records\<close>
  "cache_slot c index =
    ecs_assert (index \<ge> 0) ECS_OUT_OF_RANGE
      (ecs_assert (index < int (length (tc_records c))) ECS_OUT_OF_RANGE (Inr (tc_records c ! nat index)))"

definition flecs_table_cache_get_elem :: "(nat \<Rightarrow> ctable) \<Rightarrow> table_cache \<Rightarrow> nat \<Rightarrow> cache_elem option result" where
  "flecs_table_cache_get_elem T c t =
    bindR (flecs_table_cache_find T c t) (\<lambda>index.
    if index = - 1 then Inr None else bindR (cache_slot c index) (\<lambda>slot. Inr (Some slot)))"

definition ecs_table_cache_get :: "(nat \<Rightarrow> ctable) \<Rightarrow> table_cache \<Rightarrow> nat \<Rightarrow> nat option result" where
  "ecs_table_cache_get T c t =
    bindR (flecs_table_cache_find T c t) (\<lambda>index.
    if index = - 1 then Inr None else bindR (cache_slot c index) (\<lambda>slot. Inr (Some (ce_tr slot))))"

definition flecs_table_cache_set_column :: "(nat \<Rightarrow> ctable) \<Rightarrow> table_cache \<Rightarrow> nat \<Rightarrow> int \<Rightarrow> table_cache result" where
  "flecs_table_cache_set_column T c t column =
    bindR (flecs_table_cache_find T c t) (\<lambda>index.
    ecs_assert (index \<noteq> - 1) ECS_INTERNAL_ERROR
      (bindR (cache_slot c index) (\<lambda>slot.
       Inr (c\<lparr>tc_records := (tc_records c)[nat index := slot\<lparr>ce_column := column\<rparr>]\<rparr>))))"

fun index_fill :: "(nat \<Rightarrow> ctable) \<Rightarrow> cache_elem list \<Rightarrow> nat \<Rightarrow> 64 word ecs_map \<Rightarrow> 64 word ecs_map result" where
  \<comment> \<open>the loop of \<open>ecs_table_cache_insert\<close> that enters all elements in a new map\<close>
  "index_fill T [] i m = Inr m"
| "index_fill T (e # es) i m =
    bindR (ecs_map_insert m (elem_key T e) (of_nat i)) (\<lambda>m. index_fill T es (Suc i) m)"

definition queryable :: "ctable \<Rightarrow> bool" where
  "queryable t \<longleftrightarrow> \<not> has_flag (ct_flags t) (EcsTableNotQueryable OR EcsTableIsPrefab OR EcsTableIsDisabled)"

definition ecs_table_cache_insert :: "(nat \<Rightarrow> ctable) \<Rightarrow> nat \<Rightarrow> (nat \<Rightarrow> table_record) \<Rightarrow> table_cache \<Rightarrow>
    nat \<Rightarrow> nat \<Rightarrow> (table_cache \<times> (nat \<Rightarrow> table_record)) result" where
  "ecs_table_cache_insert T self R c table r =
    bindR (ecs_table_cache_get T c table) (\<lambda>present.
    ecs_assert (present = None) ECS_INTERNAL_ERROR
    (let R = R(r := (R r)\<lparr>tr_cr := self, tr_table := table\<rparr>);
         index = length (tc_records c);
         rs = tc_records c @ [\<lparr>ce_table = table, ce_tr = r, ce_column = - 1, ce_index = tr_index (R r)\<rparr>] in
     bindR (if ecs_map_is_init (tc_index c) then ecs_map_insert (tc_index c) (ct_id (T table)) (of_nat index)
            else if index + 1 > FLECS_TABLE_CACHE_INDEX_THRESHOLD
            then bindR ecs_map_init (index_fill T rs 0)
            else Inr (tc_index c)) (\<lambda>m.
     let c = c\<lparr>tc_index := m, tc_records := rs\<rparr> in
     if queryable (T table)
     then bindR (flecs_table_cache_swap T c (tc_queryable_count c) index) (\<lambda>c.
       Inr (c\<lparr>tc_queryable_count := tc_queryable_count c + 1\<rparr>, R))
     else Inr (c, R))))"

fun find_record :: "cache_elem list \<Rightarrow> nat \<Rightarrow> nat \<Rightarrow> nat" where
  \<comment> \<open>the loop of \<open>ecs_table_cache_remove\<close>: the index it stops at\<close>
  "find_record [] elem index = index"
| "find_record (e # es) elem index = (if ce_tr e = elem then index else find_record es elem (Suc index))"

definition ecs_table_cache_remove :: "(nat \<Rightarrow> ctable) \<Rightarrow> nat \<Rightarrow> (nat \<Rightarrow> table_record) \<Rightarrow> table_cache \<Rightarrow>
    64 word \<Rightarrow> nat \<Rightarrow> (table_cache \<times> nat) result" where
  "ecs_table_cache_remove T self R c table_id elem =
    ecs_assert (tr_cr (R elem) = self) ECS_INTERNAL_ERROR
    (let lst = int (length (tc_records c)) - 1 in
     bindR (if ecs_map_is_init (tc_index c)
            then bindR (ecs_map_remove (tc_index c) table_id) (\<lambda>(m, v). bindR (flecs_uto_i32 v) (\<lambda>i. Inr (m, i)))
            else (let index = int (find_record (tc_records c) elem 0) in
              ecs_assert (index \<le> lst) ECS_INTERNAL_ERROR (Inr (tc_index c, index)))) (\<lambda>(m, index).
     let c = c\<lparr>tc_index := m\<rparr> in
     bindR (if index < 0 then Inl Bad_Access else arr_get (tc_records c) (nat index)) (\<lambda>e.
     ecs_assert (ce_tr e = elem) ECS_INTERNAL_ERROR
     (bindR (if index < int (tc_queryable_count c)
             then (let last_queryable = tc_queryable_count c - 1 in
               bindR (flecs_table_cache_move T c (nat index) last_queryable) (\<lambda>c.
               bindR (flecs_table_cache_move T c last_queryable (nat lst)) (\<lambda>c.
               Inr (c\<lparr>tc_queryable_count := tc_queryable_count c - 1\<rparr>))))
             else flecs_table_cache_move T c (nat index) (nat lst)) (\<lambda>c.
      Inr (c\<lparr>tc_records := butlast (tc_records c)\<rparr>, elem))))))"

definition flecs_table_cache_iter :: "table_cache \<Rightarrow> 32 word \<Rightarrow> cache_iter \<times> bool" where
  "flecs_table_cache_iter c empty_flags =
    (let out = \<lparr>ci_elems = tc_records c, ci_remaining = length (tc_records c), ci_cur = None,
       ci_flags = empty_flags\<rparr> in (out, ci_remaining out \<noteq> 0))"

definition flecs_table_cache_queryable_iter :: "table_cache \<Rightarrow> 32 word \<Rightarrow> cache_iter \<times> bool" where
  "flecs_table_cache_queryable_iter c empty_flags =
    (let out = \<lparr>ci_elems = tc_records c, ci_remaining = tc_queryable_count c, ci_cur = None,
       ci_flags = empty_flags\<rparr> in (out, ci_remaining out \<noteq> 0))"

function flecs_table_cache_next :: "(nat \<Rightarrow> ctable) \<Rightarrow> cache_iter \<Rightarrow> (cache_iter \<times> cache_elem option) result" where
  \<comment> \<open>\<open>elems\<close> is a pointer into the array: the elements from there to the end\<close>
  "flecs_table_cache_next T it =
    (if ci_remaining it > 0
     then
       (case ci_elems it of
         [] \<Rightarrow> Inl Bad_Access
       | e # es \<Rightarrow>
           if has_flag (ct_flags (T (ce_table e))) (ci_flags it)
           then Inr (it\<lparr>ci_elems := es, ci_remaining := ci_remaining it - 1, ci_cur := Some e\<rparr>, Some e)
           else flecs_table_cache_next T (it\<lparr>ci_elems := es, ci_remaining := ci_remaining it - 1\<rparr>))
     else Inr (it\<lparr>ci_cur := None\<rparr>, None))"
  by pat_completeness auto
termination by (relation "measure (\<lambda>(T, it). ci_remaining it)") auto

declare flecs_table_cache_next.simps [simp del]


section \<open>Invariant and abstraction\<close>

abbreviation keys :: "(nat \<Rightarrow> ctable) \<Rightarrow> cache_elem list \<Rightarrow> 64 word set" where
  "keys T rs \<equiv> elem_key T ` set rs"

definition index_ok :: "(nat \<Rightarrow> ctable) \<Rightarrow> 64 word ecs_map \<Rightarrow> cache_elem list \<Rightarrow> bool" where
  \<comment> \<open>the map, once it is in use, gives the index of every element and nothing else\<close>
  "index_ok T m rs \<longleftrightarrow> ecs_map_is_init m \<longrightarrow> map_ok m \<and> dom (map_abs m) = keys T rs \<and>
    (\<forall>i < length rs. map_abs m (elem_key T (rs ! i)) = Some (of_nat i))"

definition tables_ok :: "(nat \<Rightarrow> ctable) \<Rightarrow> cache_elem list \<Rightarrow> bool" where
  \<comment> \<open>the elements are for different tables, and different tables have different ids\<close>
  "tables_ok T rs \<longleftrightarrow> distinct (map ce_table rs) \<and> inj_on (\<lambda>t. ct_id (T t)) (ce_table ` set rs)"

definition front_ok :: "(nat \<Rightarrow> ctable) \<Rightarrow> cache_elem list \<Rightarrow> nat \<Rightarrow> bool" where
  \<comment> \<open>the first \<open>n\<close> elements are those of the queryable tables\<close>
  "front_ok T rs n \<longleftrightarrow> n \<le> length rs \<and> (\<forall>i < length rs. queryable (T (ce_table (rs ! i))) \<longleftrightarrow> i < n)"

definition headers_ok :: "nat \<Rightarrow> (nat \<Rightarrow> table_record) \<Rightarrow> cache_elem list \<Rightarrow> bool" where
  "headers_ok self R rs \<longleftrightarrow> (\<forall>e \<in> set rs. tr_cr (R (ce_tr e)) = self \<and> tr_table (R (ce_tr e)) = ce_table e)"

definition cache_ok :: "(nat \<Rightarrow> ctable) \<Rightarrow> nat \<Rightarrow> (nat \<Rightarrow> table_record) \<Rightarrow> table_cache \<Rightarrow> bool" where
  "cache_ok T self R c \<longleftrightarrow> index_ok T (tc_index c) (tc_records c) \<and> tables_ok T (tc_records c) \<and>
    front_ok T (tc_records c) (tc_queryable_count c) \<and> headers_ok self R (tc_records c) \<and>
    length (tc_records c) < 2 ^ 26 \<and>
    (\<not> ecs_map_is_init (tc_index c) \<longrightarrow> length (tc_records c) \<le> FLECS_TABLE_CACHE_INDEX_THRESHOLD)"

definition cache_abs :: "table_cache \<Rightarrow> nat \<rightharpoonup> nat" where
  "cache_abs c = map_of (map (\<lambda>e. (ce_table e, ce_tr e)) (tc_records c))"

lemma map_ok_is_init: "map_ok m \<Longrightarrow> ecs_map_is_init m"
  by (erule map_okE) (auto simp: ecs_map_is_init_def shape_def)

lemma map_zero_not_init [simp]: "\<not> ecs_map_is_init map_zero"
  by (simp add: ecs_map_is_init_def map_zero_def)

lemma dom_cache_abs: "dom (cache_abs c) = ce_table ` set (tc_records c)"
  by (simp add: cache_abs_def dom_map_of_conv_image_fst image_image)

lemma cache_abs_eq_Some:
  assumes "tables_ok T (tc_records c)"
  shows "cache_abs c t = Some r \<longleftrightarrow> (\<exists>e \<in> set (tc_records c). ce_table e = t \<and> ce_tr e = r)"
proof -
  have "distinct (map fst (map (\<lambda>e. (ce_table e, ce_tr e)) (tc_records c)))"
    using assms by (simp add: tables_ok_def comp_def)
  then show ?thesis unfolding cache_abs_def by (subst map_of_eq_Some_iff) auto
qed

lemma distinct_elems: "tables_ok T rs \<Longrightarrow> distinct rs"
  by (simp add: tables_ok_def distinct_map)

lemma elem_key_inj:
  assumes "tables_ok T rs" "i < length rs" "j < length rs" "elem_key T (rs ! i) = elem_key T (rs ! j)"
  shows "i = j"
proof -
  have "ce_table (rs ! i) = ce_table (rs ! j)"
    using assms unfolding tables_ok_def elem_key_def by (auto dest: inj_onD)
  then show ?thesis using assms(1-3) distinct_nth_eq [of "map ce_table rs" i j] by (simp add: tables_ok_def)
qed

lemma tables_ok_perm: "mset rs' = mset rs \<Longrightarrow> tables_ok T rs \<Longrightarrow> tables_ok T rs'"
  unfolding tables_ok_def
  by (metis mset_map mset_eq_imp_distinct_iff mset_eq_setD)

lemma sint_nonneg_word64:
  assumes "unat (w :: 64 word) < 2 ^ 63"
  shows "sint w = int (unat w)"
proof -
  have "uint w = int (unat w)" by simp
  with assms show ?thesis by (simp add: sint_uint signed_take_bit_int_eq_self del: of_nat_unat)
qed

lemma uto_of_nat: "i < 2 ^ 31 \<Longrightarrow> flecs_uto_i32 (of_nat i) = Inr (int i)"
proof -
  assume i: "i < 2 ^ 31"
  have "(ucast (of_nat i :: 64 word) :: 32 word) = of_nat i"
    by (simp add: unsigned_of_nat take_bit_nat_eq_self i order_less_trans [OF i])
  moreover have "sint (of_nat i :: 32 word) = int i"
    using i by (simp add: sint_nonneg_word unsigned_of_nat take_bit_nat_eq_self)
  moreover have "sint (of_nat i :: 64 word) = int i"
    using i by (subst sint_nonneg_word64) (simp_all add: unsigned_of_nat take_bit_nat_eq_self order_less_trans [OF i])
  ultimately show ?thesis using i by (simp add: flecs_uto_i32_def int32_def ecs_assert_def)
qed


section \<open>Moving and swapping elements\<close>

lemma index_store_ok:
  assumes "map_ok m" "key \<in> dom (map_abs m)"
  shows "returns (index_store m key i) (\<lambda>m'. map_ok m' \<and> map_abs m' = (map_abs m)(key \<mapsto> of_nat i))"
  using map_store_ok [OF assms(1), of key "of_nat i"] assms
  by (auto simp: index_store_def map_get_ok elim!: returns_mono)

lemma cache_move_ok:
  assumes b: "dst < length (tc_records c)" "src < length (tc_records c)"
    and m: "ecs_map_is_init (tc_index c) \<Longrightarrow> map_ok (tc_index c) \<and>
      (dst \<noteq> src \<longrightarrow> elem_key T (tc_records c ! src) \<in> dom (map_abs (tc_index c)))"
  shows "returns (flecs_table_cache_move T c dst src) (\<lambda>c'. \<exists>m.
    c' = c\<lparr>tc_index := m, tc_records := (tc_records c)[dst := tc_records c ! src]\<rparr> \<and>
    ecs_map_is_init m = ecs_map_is_init (tc_index c) \<and>
    (ecs_map_is_init m \<longrightarrow> map_ok m \<and> map_abs m =
      (if dst = src then map_abs (tc_index c)
       else (map_abs (tc_index c))(elem_key T (tc_records c ! src) \<mapsto> of_nat dst))))"
proof (cases "dst = src")
  case True
  then show ?thesis using b m
    by (auto simp: flecs_table_cache_move_def intro!: exI [of _ "tc_index c"])
next
  case False
  show ?thesis
  proof (cases "ecs_map_is_init (tc_index c)")
    case True
    with m False have "returns (index_store (tc_index c) (elem_key T (tc_records c ! src)) dst)
      (\<lambda>m'. map_ok m' \<and> map_abs m' = (map_abs (tc_index c))(elem_key T (tc_records c ! src) \<mapsto> of_nat dst))"
      by (intro index_store_ok) auto
    then show ?thesis using True False b
      by (auto simp: flecs_table_cache_move_def map_ok_is_init elim!: returns_mono)
  next
    case False
    then show ?thesis using \<open>dst \<noteq> src\<close> b
      by (auto simp: flecs_table_cache_move_def intro!: exI [of _ "tc_index c"])
  qed
qed

lemma index_okI:
  assumes "map_ok m" "dom (map_abs m) = keys T rs"
    and "\<And>i. i < length rs \<Longrightarrow> map_abs m (elem_key T (rs ! i)) = Some (of_nat i)"
  shows "index_ok T m rs"
  using assms by (simp add: index_ok_def)

lemma cache_swap_ok:
  assumes b: "a < length (tc_records c)" "b < length (tc_records c)"
    and m: "index_ok T (tc_index c) (tc_records c)" and t: "tables_ok T (tc_records c)"
  shows "returns (flecs_table_cache_swap T c a b) (\<lambda>c'. \<exists>m.
    c' = c\<lparr>tc_index := m, tc_records := (tc_records c)[a := tc_records c ! b, b := tc_records c ! a]\<rparr> \<and>
    ecs_map_is_init m = ecs_map_is_init (tc_index c) \<and>
    index_ok T m ((tc_records c)[a := tc_records c ! b, b := tc_records c ! a]))"
    (is "returns _ (?Q _)")
proof (cases "a = b \<or> \<not> ecs_map_is_init (tc_index c)")
  case True
  then show ?thesis using b m
    by (auto simp: flecs_table_cache_swap_def index_ok_def intro!: exI [of _ "tc_index c"])
next
  case False
  let ?rs = "tc_records c" and ?m = "tc_index c"
  let ?rs' = "?rs[a := ?rs ! b, b := ?rs ! a]" and ?ka = "elem_key T (?rs ! a)" and ?kb = "elem_key T (?rs ! b)"
  from False m have ok: "map_ok ?m" and dm: "dom (map_abs ?m) = keys T ?rs"
    and ix: "\<And>i. i < length ?rs \<Longrightarrow> map_abs ?m (elem_key T (?rs ! i)) = Some (of_nat i)"
    by (auto simp: index_ok_def)
  have ne: "?ka \<noteq> ?kb" using elem_key_inj [OF t b] False by blast
  have st: "set ?rs' = set ?rs" using swap_mset [OF b] by (rule mset_eq_setD)
  have fin: "index_ok T m' ?rs'"
    if "map_ok m'" "map_abs m' = (map_abs ?m)(?kb \<mapsto> of_nat a, ?ka \<mapsto> of_nat b)" for m'
  proof (rule index_okI [OF that(1)])
    show "dom (map_abs m') = keys T ?rs'" using b dm st that(2) by auto
    fix i assume i: "i < length ?rs'"
    then have ii: "i < length ?rs" by simp
    show "map_abs m' (elem_key T (?rs' ! i)) = Some (of_nat i)"
      using elem_key_inj [OF t ii b(1)] elem_key_inj [OF t ii b(2)] ix [OF ii] ne that(2) b ii False
      by (auto simp: nth_list_update)
  qed
  have "returns (map_store ?m ?kb (of_nat a)) (\<lambda>m1. returns (map_store m1 ?ka (of_nat b)) (\<lambda>m2.
      map_ok m2 \<and> map_abs m2 = (map_abs ?m)(?kb \<mapsto> of_nat a, ?ka \<mapsto> of_nat b)))"
  proof (rule returns_mono [OF map_store_ok [OF ok]])
    show "map_abs ?m ?kb \<noteq> None" using ix [OF b(2)] by simp
    fix m1 assume m1: "map_ok m1 \<and> map_abs m1 = (map_abs ?m)(?kb \<mapsto> of_nat a) \<and>
      m_change_count m1 = m_change_count ?m \<and> m_count m1 = m_count ?m"
    then have "map_abs m1 ?ka \<noteq> None" using ix [OF b(1)] by simp
    with m1 show "returns (map_store m1 ?ka (of_nat b)) (\<lambda>m2. map_ok m2 \<and>
        map_abs m2 = (map_abs ?m)(?kb \<mapsto> of_nat a, ?ka \<mapsto> of_nat b))"
      by (auto intro!: returns_mono [OF map_store_ok])
  qed
  then show ?thesis using False b ix ok fin
    by (auto simp: flecs_table_cache_swap_def map_get_ok map_ok_is_init elim!: returns_mono)
qed


section \<open>Finding a table\<close>

lemma find_table_None: "t \<notin> ce_table ` set rs \<Longrightarrow> find_table rs t i = - 1"
  by (induction rs t i rule: find_table.induct) auto

lemma find_table_Some:
  "distinct (map ce_table rs) \<Longrightarrow> j < length rs \<Longrightarrow> find_table rs (ce_table (rs ! j)) i = i + int j"
proof (induction rs arbitrary: i j)
  case (Cons e rs)
  show ?case
  proof (cases j)
    case (Suc k)
    with Cons.prems have "k < length rs" "ce_table e \<noteq> ce_table (rs ! k)" by auto
    with Suc Cons.prems Cons.IH [of k "i + 1"] show ?thesis by simp
  qed simp
qed simp

definition key_fresh :: "(nat \<Rightarrow> ctable) \<Rightarrow> table_cache \<Rightarrow> nat \<Rightarrow> bool" where
  \<comment> \<open>no other table of the cache has the id of table \<open>t\<close>\<close>
  "key_fresh T c t \<longleftrightarrow> (\<forall>e \<in> set (tc_records c). ct_id (T (ce_table e)) = ct_id (T t) \<longrightarrow> ce_table e = t)"

lemma cache_find_present:
  assumes ok: "cache_ok T self R c" and j: "j < length (tc_records c)" and t: "ce_table (tc_records c ! j) = t"
  shows "flecs_table_cache_find T c t = Inr (int j)"
proof (cases "ecs_map_is_init (tc_index c)")
  case True
  then have "map_ok (tc_index c)" "map_abs (tc_index c) (ct_id (T t)) = Some (of_nat j)"
    using ok j t by (auto simp: cache_ok_def index_ok_def elem_key_def)
  then show ?thesis using True ok j
    by (simp add: flecs_table_cache_find_def map_get_ok uto_of_nat cache_ok_def)
next
  case False
  then show ?thesis
    using find_table_Some [of "tc_records c" j 0] ok j t
    by (simp add: flecs_table_cache_find_def cache_ok_def tables_ok_def)
qed

lemma cache_find_absent:
  assumes ok: "cache_ok T self R c" and t: "t \<notin> dom (cache_abs c)" and k: "key_fresh T c t"
  shows "flecs_table_cache_find T c t = Inr (- 1)"
proof (cases "ecs_map_is_init (tc_index c)")
  case True
  have "ct_id (T t) \<notin> keys T (tc_records c)"
    using t k unfolding dom_cache_abs key_fresh_def elem_key_def by auto
  then have "map_ok (tc_index c)" "map_abs (tc_index c) (ct_id (T t)) = None"
    using ok True by (auto simp: cache_ok_def index_ok_def)
  then show ?thesis using True by (simp add: flecs_table_cache_find_def map_get_ok)
next
  case False
  with t show ?thesis by (simp add: flecs_table_cache_find_def find_table_None dom_cache_abs)
qed

lemma cache_abs_nth:
  assumes "tables_ok T (tc_records c)" "j < length (tc_records c)"
  shows "cache_abs c (ce_table (tc_records c ! j)) = Some (ce_tr (tc_records c ! j))"
  using assms by (auto simp: cache_abs_eq_Some)

lemma cache_lookup_cases:
  assumes "t \<in> dom (cache_abs c)"
  obtains j where "j < length (tc_records c)" "ce_table (tc_records c ! j) = t"
  using assms unfolding dom_cache_abs by (auto simp: in_set_conv_nth)

lemma cache_get_ok:
  assumes ok: "cache_ok T self R c" and k: "key_fresh T c t"
  shows "ecs_table_cache_get T c t = Inr (cache_abs c t)"
proof (cases "t \<in> dom (cache_abs c)")
  case True
  then obtain j where j: "j < length (tc_records c)" "ce_table (tc_records c ! j) = t" by (rule cache_lookup_cases)
  have "tables_ok T (tc_records c)" using ok by (simp add: cache_ok_def)
  from cache_abs_nth [OF this j(1)] show ?thesis
    using cache_find_present [OF ok j] j by (simp add: ecs_table_cache_get_def cache_slot_def)
next
  case False
  then have "cache_abs c t = None" by auto
  with cache_find_absent [OF ok False k] show ?thesis by (simp add: ecs_table_cache_get_def)
qed

lemma key_fresh_present: "cache_ok T self R c \<Longrightarrow> t \<in> dom (cache_abs c) \<Longrightarrow> key_fresh T c t"
  unfolding cache_ok_def tables_ok_def key_fresh_def dom_cache_abs inj_on_def by auto

section \<open>Inserting\<close>

lemma index_count:
  assumes "index_ok T m rs" "ecs_map_is_init m" "tables_ok T rs"
  shows "m_count m = length rs"
proof -
  have "inj_on (elem_key T) (set rs)"
    using assms(3) unfolding tables_ok_def elem_key_def inj_on_def distinct_map by blast
  then have "card (keys T rs) = length rs"
    using distinct_elems [OF assms(3)] by (simp add: card_image distinct_card)
  with assms(1,2) show ?thesis by (simp add: index_ok_def map_count_card)
qed

lemma index_ok_append:
  assumes "index_ok T m rs" "ecs_map_is_init m" and m': "map_ok m'" "map_abs m' = (map_abs m)(elem_key T e \<mapsto> of_nat (length rs))"
    and new: "elem_key T e \<notin> keys T rs"
  shows "index_ok T m' (rs @ [e])"
proof (rule index_okI [OF m'(1)])
  show "dom (map_abs m') = keys T (rs @ [e])" using assms by (auto simp: index_ok_def)
  fix i assume i: "i < length (rs @ [e])"
  show "map_abs m' (elem_key T ((rs @ [e]) ! i)) = Some (of_nat i)"
  proof (cases "i = length rs")
    case False
    with i have "i < length rs" by simp
    moreover from this have "elem_key T (rs ! i) \<noteq> elem_key T e" using new by (metis imageI nth_mem)
    ultimately show ?thesis using assms by (auto simp: index_ok_def nth_append)
  qed (use m' in simp)
qed

lemma index_fill_ok:
  assumes "index_ok T m pre" "ecs_map_is_init m" "tables_ok T (pre @ es)" "length (pre @ es) < 2 ^ 26"
  shows "returns (index_fill T es (length pre) m) (\<lambda>m'. ecs_map_is_init m' \<and> index_ok T m' (pre @ es))"
  using assms
proof (induction es arbitrary: pre m)
  case (Cons e es)
  have tp: "tables_ok T pre" using Cons.prems(3) by (auto simp: tables_ok_def inj_on_def)
  have new: "elem_key T e \<notin> keys T pre"
  proof
    assume "elem_key T e \<in> keys T pre"
    then obtain i where "i < length pre" "elem_key T (pre ! i) = elem_key T e"
      by (metis imageE in_set_conv_nth)
    then show False using elem_key_inj [OF Cons.prems(3), of i "length pre"] by (simp add: nth_append)
  qed
  have "returns (ecs_map_insert m (elem_key T e) (of_nat (length pre)))
      (\<lambda>m'. map_ok m' \<and> map_abs m' = (map_abs m)(elem_key T e \<mapsto> of_nat (length pre)))"
    using Cons.prems new index_count [OF Cons.prems(1,2) tp]
    by (intro map_insert_ok) (auto simp: index_ok_def)
  then show ?case unfolding index_fill.simps returns_bindR
  proof (rule returns_mono)
    fix m' assume m': "map_ok m' \<and> map_abs m' = (map_abs m)(elem_key T e \<mapsto> of_nat (length pre))"
    have "index_ok T m' (pre @ [e])"
      using index_ok_append [OF Cons.prems(1,2) _ _ new] m' by blast
    from Cons.IH [OF this map_ok_is_init] m' Cons.prems(3,4)
    show "returns (index_fill T es (Suc (length pre)) m') (\<lambda>m'. ecs_map_is_init m' \<and> index_ok T m' (pre @ e # es))"
      by simp
  qed
qed simp


lemma key_fresh_new:
  assumes "t \<notin> dom (cache_abs c)" "key_fresh T c t" "ce_table e = t"
  shows "elem_key T e \<notin> keys T (tc_records c)"
  using assms unfolding dom_cache_abs key_fresh_def elem_key_def by auto

lemma tables_ok_append:
  assumes "tables_ok T rs" "ce_table e \<notin> ce_table ` set rs" "elem_key T e \<notin> keys T rs"
  shows "tables_ok T (rs @ [e])"
  using assms unfolding tables_ok_def elem_key_def inj_on_def by (auto simp: image_iff)

lemma insert_index_ok:
  assumes ok: "cache_ok T self R c" and t: "tables_ok T (tc_records c @ [e])"
    and len: "length (tc_records c) + 1 < 2 ^ 26" and new: "elem_key T e \<notin> keys T (tc_records c)"
  shows "returns (if ecs_map_is_init (tc_index c)
      then ecs_map_insert (tc_index c) (elem_key T e) (of_nat (length (tc_records c)))
      else if length (tc_records c) + 1 > FLECS_TABLE_CACHE_INDEX_THRESHOLD
      then bindR ecs_map_init (index_fill T (tc_records c @ [e]) 0) else Inr (tc_index c))
    (\<lambda>m. index_ok T m (tc_records c @ [e]) \<and>
      (\<not> ecs_map_is_init m \<longrightarrow> length (tc_records c @ [e]) \<le> FLECS_TABLE_CACHE_INDEX_THRESHOLD))"
proof (cases "ecs_map_is_init (tc_index c)")
  case True
  have ix: "index_ok T (tc_index c) (tc_records c)" "tables_ok T (tc_records c)"
    using ok by (simp_all add: cache_ok_def)
  have "returns (ecs_map_insert (tc_index c) (elem_key T e) (of_nat (length (tc_records c))))
      (\<lambda>m. map_ok m \<and> map_abs m = (map_abs (tc_index c))(elem_key T e \<mapsto> of_nat (length (tc_records c))))"
    using ix True new len index_count [OF ix(1) True ix(2)] by (intro map_insert_ok) (auto simp: index_ok_def)
  then show ?thesis using True index_ok_append [OF ix(1) True _ _ new]
    by (auto simp: map_ok_is_init elim!: returns_mono)
next
  case False
  show ?thesis
  proof (cases "length (tc_records c) + 1 > FLECS_TABLE_CACHE_INDEX_THRESHOLD")
    case True
    have "returns (bindR ecs_map_init (index_fill T (tc_records c @ [e]) 0))
        (\<lambda>m. ecs_map_is_init m \<and> index_ok T m (tc_records c @ [e]))"
      unfolding returns_bindR
    proof (rule returns_mono [OF map_init_ok])
      fix m :: "64 word ecs_map" assume "map_ok m \<and> map_abs m = Map.empty"
      then have "index_ok T m []" "ecs_map_is_init m" by (simp_all add: index_ok_def map_ok_is_init)
      then show "returns (index_fill T (tc_records c @ [e]) 0 m) (\<lambda>m. ecs_map_is_init m \<and> index_ok T m (tc_records c @ [e]))"
        using index_fill_ok [of T m "[]" "tc_records c @ [e]"] t len by simp
    qed
    then show ?thesis using False True by (auto elim: returns_mono)
  next
    case small: False
    with False show ?thesis by (simp add: index_ok_def)
  qed
qed

lemma front_ok_append: "front_ok T rs n \<Longrightarrow> \<not> queryable (T (ce_table e)) \<Longrightarrow> front_ok T (rs @ [e]) n"
  unfolding front_ok_def by (auto simp: nth_append less_Suc_eq)

lemma front_ok_append_swap:
  assumes "front_ok T rs n" "queryable (T (ce_table e))"
  shows "front_ok T ((rs @ [e])[n := e, length rs := (rs @ [e]) ! n]) (Suc n)"
  unfolding front_ok_def
proof (intro conjI allI impI)
  show "Suc n \<le> length ((rs @ [e])[n := e, length rs := (rs @ [e]) ! n])" using assms by (simp add: front_ok_def)
  fix i assume "i < length ((rs @ [e])[n := e, length rs := (rs @ [e]) ! n])"
  then consider "i = n" | "i = length rs" "i \<noteq> n" | "i < length rs" "i \<noteq> n" by fastforce
  then show "queryable (T (ce_table ((rs @ [e])[n := e, length rs := (rs @ [e]) ! n] ! i))) \<longleftrightarrow> i < Suc n"
    using assms by cases (auto simp: front_ok_def nth_append nth_list_update)
qed

lemma cache_abs_eqI:
  assumes "tables_ok T (tc_records c')"
    and "\<And>t r. (\<exists>e \<in> set (tc_records c'). ce_table e = t \<and> ce_tr e = r) \<longleftrightarrow> f t = Some r"
  shows "cache_abs c' = f"
proof
  fix t
  show "cache_abs c' t = f t"
    using cache_abs_eq_Some [OF assms(1), of t] assms(2) [of t] by (metis option.exhaust)
qed

lemma cache_abs_insert:
  assumes "tables_ok T (tc_records c)" "tables_ok T (tc_records c')" "t \<notin> dom (cache_abs c)"
    and "set (tc_records c') = insert e (set (tc_records c))" "ce_table e = t" "ce_tr e = r"
  shows "cache_abs c' = (cache_abs c)(t \<mapsto> r)"
  using assms unfolding dom_cache_abs
  by (intro cache_abs_eqI [OF assms(2)]) (auto simp: cache_abs_eq_Some [OF assms(1)] image_iff)

lemma headers_ok_insert:
  assumes "headers_ok self R rs" "r \<notin> ce_tr ` set rs" "set rs' = insert e (set rs)" "ce_tr e = r" "ce_table e = t"
  shows "headers_ok self (R(r := (R r)\<lparr>tr_cr := self, tr_table := t\<rparr>)) rs'"
  using assms by (auto simp: headers_ok_def image_iff)

lemma cache_insert_ok:
  assumes ok: "cache_ok T self R c" and new: "t \<notin> dom (cache_abs c)" "key_fresh T c t" "r \<notin> ran (cache_abs c)"
    and len: "length (tc_records c) + 1 < 2 ^ 26"
  shows "returns (ecs_table_cache_insert T self R c t r) (\<lambda>(c', R').
    R' = R(r := (R r)\<lparr>tr_cr := self, tr_table := t\<rparr>) \<and> cache_ok T self R' c' \<and> cache_abs c' = (cache_abs c)(t \<mapsto> r))"
proof -
  let ?rs = "tc_records c" and ?n = "tc_queryable_count c" and ?R = "R(r := (R r)\<lparr>tr_cr := self, tr_table := t\<rparr>)"
  define e where "e = \<lparr>ce_table = t, ce_tr = r, ce_column = - 1, ce_index = tr_index (?R r)\<rparr>"
  have e: "ce_table e = t" "ce_tr e = r" "elem_key T e = ct_id (T t)" by (simp_all add: e_def elem_key_def)
  have t0: "tables_ok T ?rs" "front_ok T ?rs ?n" "headers_ok self R ?rs" using ok by (simp_all add: cache_ok_def)
  have nk: "elem_key T e \<notin> keys T ?rs" using key_fresh_new [OF new(1,2) e(1)] .
  have ne: "ce_table e \<notin> ce_table ` set ?rs" using new(1) e by (simp add: dom_cache_abs)
  have t1: "tables_ok T (?rs @ [e])" by (rule tables_ok_append [OF t0(1) ne nk])
  have nr: "r \<notin> ce_tr ` set ?rs"
    using new(3) cache_abs_eq_Some [OF t0(1)] unfolding ran_def by (metis (mono_tags, lifting) imageE mem_Collect_eq)
  have fin: "cache_ok T self ?R c' \<and> cache_abs c' = (cache_abs c)(t \<mapsto> r)"
    if "mset (tc_records c') = mset (?rs @ [e])" "index_ok T (tc_index c') (tc_records c')"
      "front_ok T (tc_records c') (tc_queryable_count c')"
      "\<not> ecs_map_is_init (tc_index c') \<longrightarrow> length (tc_records c') \<le> FLECS_TABLE_CACHE_INDEX_THRESHOLD" for c'
  proof -
    have st: "set (tc_records c') = insert e (set ?rs)" using mset_eq_setD [OF that(1)] by auto
    have tb: "tables_ok T (tc_records c')" by (rule tables_ok_perm [OF that(1) t1])
    have "length (tc_records c') < 2 ^ 26" using mset_eq_length [OF that(1)] len by simp
    then show ?thesis
      using that tb headers_ok_insert [OF t0(3) nr st e(2,1)] cache_abs_insert [OF t0(1) tb new(1) st e(1,2)]
      unfolding cache_ok_def by simp
  qed
  have pre: "ecs_table_cache_get T c t = Inr None" using cache_get_ok [OF ok new(2)] new(1) by auto
  note ix = insert_index_ok [OF ok t1 len nk, unfolded e(3)]
  show ?thesis unfolding ecs_table_cache_insert_def pre bindR_Inr Let_def ecs_assert_True simp_thms
    unfolding e_def [symmetric] returns_bindR
  proof (rule returns_mono [OF ix])
    fix m assume m: "index_ok T m (?rs @ [e]) \<and>
      (\<not> ecs_map_is_init m \<longrightarrow> length (?rs @ [e]) \<le> FLECS_TABLE_CACHE_INDEX_THRESHOLD)"
    let ?c = "c\<lparr>tc_index := m, tc_records := ?rs @ [e]\<rparr>"
    have b: "?n < length (tc_records ?c)" "length ?rs < length (tc_records ?c)" using t0(2) by (auto simp: front_ok_def)
    show "returns (if queryable (T t)
        then bindR (flecs_table_cache_swap T ?c (tc_queryable_count ?c) (length ?rs))
          (\<lambda>c. Inr (c\<lparr>tc_queryable_count := tc_queryable_count c + 1\<rparr>, ?R)) else Inr (?c, ?R))
      (\<lambda>(c', R'). R' = ?R \<and> cache_ok T self R' c' \<and> cache_abs c' = (cache_abs c)(t \<mapsto> r))"
    proof (cases "queryable (T t)")
      case True
      have "returns (flecs_table_cache_swap T ?c ?n (length ?rs)) (\<lambda>c'.
          cache_ok T self ?R (c'\<lparr>tc_queryable_count := tc_queryable_count c' + 1\<rparr>) \<and>
          cache_abs (c'\<lparr>tc_queryable_count := tc_queryable_count c' + 1\<rparr>) = (cache_abs c)(t \<mapsto> r))"
      proof (rule returns_mono [OF cache_swap_ok [OF b]], goal_cases)
        case (3 c')
        then obtain m' where c': "c' = ?c\<lparr>tc_index := m', tc_records := (?rs @ [e])[?n := e, length ?rs := (?rs @ [e]) ! ?n]\<rparr>"
          "ecs_map_is_init m' = ecs_map_is_init m" "index_ok T m' (tc_records c')" by auto
        show ?case
          using m c' swap_mset [OF b] front_ok_append_swap [OF t0(2), of e] True e(1)
          by (intro fin) auto
      qed (use m t1 in simp_all)
      then show ?thesis using True by (auto elim!: returns_mono)
    next
      case False
      then show ?thesis using m e front_ok_append [OF t0(2), of e] fin [of ?c] by simp
    qed
  qed
qed


section \<open>Removing\<close>

lemma find_record_Some:
  "distinct (map ce_tr rs) \<Longrightarrow> j < length rs \<Longrightarrow> find_record rs (ce_tr (rs ! j)) i = i + j"
proof (induction rs arbitrary: i j)
  case (Cons e rs)
  show ?case
  proof (cases j)
    case (Suc k)
    with Cons.prems have "k < length rs" "ce_tr e \<noteq> ce_tr (rs ! k)" by auto
    with Suc Cons.prems Cons.IH [of k "Suc i"] show ?thesis by simp
  qed simp
qed simp

lemma headers_distinct: "headers_ok self R rs \<Longrightarrow> tables_ok T rs \<Longrightarrow> distinct (map ce_tr rs)"
  unfolding headers_ok_def tables_ok_def distinct_map inj_on_def by metis

definition cache_hole :: "cache_elem list \<Rightarrow> nat \<Rightarrow> nat \<Rightarrow> cache_elem list" where
  \<comment> \<open>the records after \<open>ecs_table_cache_remove\<close> of the element at \<open>j\<close>, with \<open>n\<close> queryable elements\<close>
  "cache_hole rs j n =
    (if j < n then swap_remove (n - 1) (rs[j := rs ! (n - 1), n - 1 := rs ! j]) else swap_remove j rs)"

lemma cache_hole_mset:
  assumes "j < length rs" "n \<le> length rs"
  shows "mset rs = add_mset (rs ! j) (mset (cache_hole rs j n))"
proof (cases "j < n")
  case True
  let ?ys = "rs[j := rs ! (n - 1), n - 1 := rs ! j]"
  have b: "j < length rs" "n - 1 < length rs" using assms True by simp_all
  have "mset rs = mset ?ys" using swap_mset [OF b] by simp
  also have "\<dots> = add_mset (?ys ! (n - 1)) (mset (swap_remove (n - 1) ?ys))"
    using b by (intro mset_swap_remove_add) simp
  finally show ?thesis using True b by (simp add: cache_hole_def)
next
  case False
  then show ?thesis using mset_swap_remove_add [OF assms(1)] by (simp add: cache_hole_def)
qed

lemma cache_hole_nth:
  assumes "j < length rs" "n \<le> length rs" "i < length rs - 1"
  shows "cache_hole rs j n ! i =
    (if j < n then (if i = n - 1 then rs ! (length rs - 1) else if i = j then rs ! (n - 1) else rs ! i)
     else if i = j then rs ! (length rs - 1) else rs ! i)"
proof -
  have "rs \<noteq> []" using assms by auto
  then show ?thesis
    using assms by (auto simp: cache_hole_def swap_remove_nth last_conv_nth nth_list_update)
qed

lemma cache_hole_moves:
  assumes "j < n" "n \<le> length rs"
  shows "butlast (rs[j := rs ! (n - 1), n - 1 := rs[j := rs ! (n - 1)] ! (length rs - 1)]) = cache_hole rs j n"
proof (rule nth_equalityI)
  have j: "j < length rs" using assms by simp
  have len: "length (cache_hole rs j n) = length rs - 1" by (simp add: cache_hole_def)
  then show "length (butlast (rs[j := rs ! (n - 1), n - 1 := rs[j := rs ! (n - 1)] ! (length rs - 1)])) =
    length (cache_hole rs j n)" by simp
  fix i assume "i < length (butlast (rs[j := rs ! (n - 1), n - 1 := rs[j := rs ! (n - 1)] ! (length rs - 1)]))"
  then have i: "i < length rs - 1" by simp
  show "butlast (rs[j := rs ! (n - 1), n - 1 := rs[j := rs ! (n - 1)] ! (length rs - 1)]) ! i = cache_hole rs j n ! i"
    unfolding cache_hole_nth [OF j assms(2) i] using assms i
    by (auto simp: nth_butlast nth_list_update)
qed

lemma cache_hole_front:
  assumes f: "front_ok T rs n" and j: "j < length rs"
  shows "front_ok T (cache_hole rs j n) (if j < n then n - 1 else n)"
proof -
  have n: "n \<le> length rs" and q: "\<And>i. i < length rs \<Longrightarrow> queryable (T (ce_table (rs ! i))) \<longleftrightarrow> i < n"
    using f by (simp_all add: front_ok_def)
  have len: "length (cache_hole rs j n) = length rs - 1" by (simp add: cache_hole_def)
  show ?thesis unfolding front_ok_def len
  proof (intro conjI allI impI)
    show "(if j < n then n - 1 else n) \<le> length rs - 1" using n j by auto
    fix i assume i: "i < length rs - 1"
    show "queryable (T (ce_table (cache_hole rs j n ! i))) \<longleftrightarrow> i < (if j < n then n - 1 else n)"
      unfolding cache_hole_nth [OF j n i] using q i j n by (auto split: if_splits)
  qed
qed

lemma cache_hole_index:
  assumes t: "tables_ok T rs" and j: "j < length rs" and n: "n \<le> length rs" and m: "map_ok m"
    and d: "dom (map_abs m) = keys T rs - {elem_key T (rs ! j)}"
    and ix: "\<And>i k. i < length rs - 1 \<Longrightarrow> k < length rs \<Longrightarrow> cache_hole rs j n ! i = rs ! k \<Longrightarrow> k \<noteq> j \<Longrightarrow>
      map_abs m (elem_key T (rs ! k)) = Some (of_nat i)"
  shows "index_ok T m (cache_hole rs j n)"
proof (rule index_okI [OF m])
  note ms = cache_hole_mset [OF j n]
  have dist: "distinct (rs ! j # cache_hole rs j n)"
    using distinct_elems [OF t] mset_eq_imp_distinct_iff [of rs "rs ! j # cache_hole rs j n"] ms by simp
  have st: "set rs = insert (rs ! j) (set (cache_hole rs j n))"
    using mset_eq_setD [of rs "rs ! j # cache_hole rs j n"] ms by simp
  have kn: "elem_key T (rs ! j) \<notin> keys T (cache_hole rs j n)"
  proof
    assume "elem_key T (rs ! j) \<in> keys T (cache_hole rs j n)"
    then obtain e where e: "e \<in> set (cache_hole rs j n)" "elem_key T e = elem_key T (rs ! j)" by auto
    then obtain k where "k < length rs" "rs ! k = e" using st by (metis in_set_conv_nth insertI2)
    then have "e = rs ! j" using elem_key_inj [OF t _ j] e(2) by metis
    then show False using dist e(1) by simp
  qed
  then show "dom (map_abs m) = keys T (cache_hole rs j n)" using d st by auto
  fix i assume i: "i < length (cache_hole rs j n)"
  then have i': "i < length rs - 1" by (simp add: cache_hole_def split: if_splits)
  have "cache_hole rs j n ! i \<in> set rs" using i st by simp
  then obtain k where k: "k < length rs" "cache_hole rs j n ! i = rs ! k" by (metis in_set_conv_nth)
  have "k \<noteq> j" using k dist i by (metis distinct.simps(2) nth_mem)
  with ix [OF i' k] k show "map_abs m (elem_key T (cache_hole rs j n ! i)) = Some (of_nat i)" by simp
qed


definition removed_index :: "(nat \<Rightarrow> ctable) \<Rightarrow> 64 word ecs_map \<Rightarrow> cache_elem list \<Rightarrow> nat \<Rightarrow> bool" where
  \<comment> \<open>the map when the entry of the element at \<open>j\<close> is gone and no element has moved yet\<close>
  "removed_index T m rs j \<longleftrightarrow> ecs_map_is_init m \<longrightarrow> map_ok m \<and>
    dom (map_abs m) = keys T rs - {elem_key T (rs ! j)} \<and>
    (\<forall>i < length rs. i \<noteq> j \<longrightarrow> map_abs m (elem_key T (rs ! i)) = Some (of_nat i))"

lemma removed_index_dom:
  assumes "removed_index T m rs j" "ecs_map_is_init m" "i < length rs" "i \<noteq> j"
  shows "elem_key T (rs ! i) \<in> dom (map_abs m)"
  using assms by (auto simp: removed_index_def)

lemma hole_source:
  assumes t: "tables_ok T rs" and "cache_hole rs j n ! i = rs ! k" "cache_hole rs j n ! i = rs ! k'"
    "k < length rs" "k' < length rs"
  shows "k = k'"
  using assms distinct_elems [OF t] by (metis nth_eq_iff_index_eq)

lemma remove_behind_ok:
  assumes t: "tables_ok T (tc_records c)" and n: "n \<le> length (tc_records c)"
    and j: "j < length (tc_records c)" "\<not> j < n" and m: "removed_index T (tc_index c) (tc_records c) j"
  shows "returns (flecs_table_cache_move T c j (length (tc_records c) - 1)) (\<lambda>c'.
    butlast (tc_records c') = cache_hole (tc_records c) j n \<and> tc_queryable_count c' = tc_queryable_count c \<and>
    ecs_map_is_init (tc_index c') = ecs_map_is_init (tc_index c) \<and>
    index_ok T (tc_index c') (cache_hole (tc_records c) j n))"
proof -
  let ?rs = "tc_records c" and ?l = "length (tc_records c) - 1"
  have l: "?l < length ?rs" using j by auto
  have ls: "?rs ! ?l = last ?rs" using j by (subst last_conv_nth) auto
  have ex: "cache_hole ?rs j n = butlast (?rs[j := ?rs ! ?l])"
    using j ls by (simp add: cache_hole_def swap_remove_def)
  have m0: "map_ok (tc_index c) \<and> (j \<noteq> ?l \<longrightarrow> elem_key T (?rs ! ?l) \<in> dom (map_abs (tc_index c)))"
    if "ecs_map_is_init (tc_index c)"
    using that m removed_index_dom [OF m that l] by (auto simp: removed_index_def)
  show ?thesis
  proof (rule returns_mono [OF cache_move_ok [OF j(1) l m0]], assumption, elim exE conjE)
    fix c' m'
    assume c': "c' = c\<lparr>tc_index := m', tc_records := ?rs[j := ?rs ! ?l]\<rparr>"
      and i': "ecs_map_is_init m' = ecs_map_is_init (tc_index c)"
      and a: "ecs_map_is_init m' \<longrightarrow> map_ok m' \<and> map_abs m' = (if j = ?l then map_abs (tc_index c)
        else (map_abs (tc_index c))(elem_key T (?rs ! ?l) \<mapsto> of_nat j))"
    have "index_ok T m' (cache_hole ?rs j n)" if init: "ecs_map_is_init m'"
    proof (rule cache_hole_index [OF t j(1) n])
      show "map_ok m'" using a init by simp
      show "dom (map_abs m') = keys T ?rs - {elem_key T (?rs ! j)}"
        using a init i' m removed_index_dom [OF m _ l] by (auto simp: removed_index_def)
      fix i k assume i: "i < length ?rs - 1" and k: "k < length ?rs" "cache_hole ?rs j n ! i = ?rs ! k" "k \<noteq> j"
      have "k = (if i = j then ?l else i)"
        using i k j l cache_hole_nth [OF j(1) n i] by (intro hole_source [OF t k(2)]) auto
      then show "map_abs m' (elem_key T (?rs ! k)) = Some (of_nat i)"
        using a init i' m i k elem_key_inj [OF t k(1) l] by (auto simp: removed_index_def)
    qed
    then show "butlast (tc_records c') = cache_hole ?rs j n \<and> tc_queryable_count c' = tc_queryable_count c \<and>
        ecs_map_is_init (tc_index c') = ecs_map_is_init (tc_index c) \<and> index_ok T (tc_index c') (cache_hole ?rs j n)"
      using c' ex i' by (auto simp: index_ok_def)
  qed
qed

lemma remove_front_ok:
  assumes t: "tables_ok T (tc_records c)" and n: "n \<le> length (tc_records c)" and j: "j < n"
    and m: "removed_index T (tc_index c) (tc_records c) j"
  shows "returns (flecs_table_cache_move T c j (n - 1)) (\<lambda>c1.
    returns (flecs_table_cache_move T c1 (n - 1) (length (tc_records c) - 1)) (\<lambda>c'.
    butlast (tc_records c') = cache_hole (tc_records c) j n \<and> tc_queryable_count c' = tc_queryable_count c \<and>
    ecs_map_is_init (tc_index c') = ecs_map_is_init (tc_index c) \<and>
    index_ok T (tc_index c') (cache_hole (tc_records c) j n)))"
proof -
  let ?rs = "tc_records c" and ?l = "length (tc_records c) - 1" and ?q = "n - 1" and ?f = "map_abs (tc_index c)"
  let ?xs = "?rs[j := ?rs ! ?q]"
  have b: "j < length ?rs" "?q < length ?rs" "?l < length ?rs" using n j by auto
  have m0: "map_ok (tc_index c) \<and> (j \<noteq> ?q \<longrightarrow> elem_key T (?rs ! ?q) \<in> dom ?f)"
    if "ecs_map_is_init (tc_index c)"
    using that m removed_index_dom [OF m that b(2)] by (auto simp: removed_index_def)
  show ?thesis
  proof (rule returns_mono [OF cache_move_ok [OF b(1,2) m0]], assumption, elim exE conjE)
    fix c1 m1
    assume c1: "c1 = c\<lparr>tc_index := m1, tc_records := ?xs\<rparr>" and i1: "ecs_map_is_init m1 = ecs_map_is_init (tc_index c)"
      and a1: "ecs_map_is_init m1 \<longrightarrow> map_ok m1 \<and> map_abs m1 = (if j = ?q then ?f else ?f(elem_key T (?rs ! ?q) \<mapsto> of_nat j))"
    have xl: "?xs ! ?l = ?rs ! ?l \<and> ?l \<noteq> j" if "?q \<noteq> ?l" using that j n by auto
    have b1: "?q < length (tc_records c1)" "?l < length (tc_records c1)" using b c1 by simp_all
    have m1: "map_ok (tc_index c1) \<and> (?q \<noteq> ?l \<longrightarrow> elem_key T (tc_records c1 ! ?l) \<in> dom (map_abs (tc_index c1)))"
      if "ecs_map_is_init (tc_index c1)"
      using that a1 c1 i1 xl removed_index_dom [OF m _ b(3)] by auto
    show "returns (flecs_table_cache_move T c1 ?q ?l) (\<lambda>c'. butlast (tc_records c') = cache_hole ?rs j n \<and>
        tc_queryable_count c' = tc_queryable_count c \<and>
        ecs_map_is_init (tc_index c') = ecs_map_is_init (tc_index c) \<and> index_ok T (tc_index c') (cache_hole ?rs j n))"
    proof (rule returns_mono [OF cache_move_ok [OF b1 m1]], assumption, elim exE conjE)
      fix c' m'
      assume c': "c' = c1\<lparr>tc_index := m', tc_records := (tc_records c1)[?q := tc_records c1 ! ?l]\<rparr>"
        and i': "ecs_map_is_init m' = ecs_map_is_init (tc_index c1)"
        and a': "ecs_map_is_init m' \<longrightarrow> map_ok m' \<and> map_abs m' = (if ?q = ?l then map_abs (tc_index c1)
          else (map_abs (tc_index c1))(elem_key T (tc_records c1 ! ?l) \<mapsto> of_nat ?q))"
      have "index_ok T m' (cache_hole ?rs j n)" if init: "ecs_map_is_init m'"
      proof (rule cache_hole_index [OF t b(1) n])
        have init0: "ecs_map_is_init (tc_index c)" using init i' i1 c1 by simp
        note rd = removed_index_dom [OF m init0]
        have f1: "map_abs m1 = (if j = ?q then ?f else ?f(elem_key T (?rs ! ?q) \<mapsto> of_nat j))" using a1 i1 init0 by simp
        have f2: "map_abs m' = (if ?q = ?l then map_abs m1 else (map_abs m1)(elem_key T (?rs ! ?l) \<mapsto> of_nat ?q))"
          using a' init c1 xl by simp
        show "map_ok m'" using a' init by simp
        have "dom (map_abs m') = dom ?f"
          unfolding f2 f1 using rd [OF b(2)] rd [OF b(3)] xl by (auto split: if_splits)
        then show "dom (map_abs m') = keys T ?rs - {elem_key T (?rs ! j)}"
          using m init0 by (simp add: removed_index_def)
        fix i k assume i: "i < length ?rs - 1" and k: "k < length ?rs" "cache_hole ?rs j n ! i = ?rs ! k" "k \<noteq> j"
        have "k = (if i = ?q then ?l else if i = j then ?q else i)"
          using i k j b cache_hole_nth [OF b(1) n i] by (intro hole_source [OF t k(2)]) auto
        then show "map_abs m' (elem_key T (?rs ! k)) = Some (of_nat i)"
          unfolding f2 f1 using m init0 i k j elem_key_inj [OF t k(1) b(3)] elem_key_inj [OF t k(1) b(2)]
          by (auto simp: removed_index_def)
      qed
      then show "butlast (tc_records c') = cache_hole ?rs j n \<and> tc_queryable_count c' = tc_queryable_count c \<and>
          ecs_map_is_init (tc_index c') = ecs_map_is_init (tc_index c) \<and> index_ok T (tc_index c') (cache_hole ?rs j n)"
        using c' c1 i' i1 cache_hole_moves [OF j n] by (auto simp: index_ok_def)
    qed
  qed
qed


lemma cache_remove_fin:
  assumes ok: "cache_ok T self R c" and j: "j < length (tc_records c)" "ce_table (tc_records c ! j) = t"
    and rs: "tc_records c' = cache_hole (tc_records c) j (tc_queryable_count c)"
    and qc: "tc_queryable_count c' = (if j < tc_queryable_count c then tc_queryable_count c - 1 else tc_queryable_count c)"
    and ix: "index_ok T (tc_index c') (tc_records c')"
      "ecs_map_is_init (tc_index c') = ecs_map_is_init (tc_index c)"
  shows "cache_ok T self R c' \<and> cache_abs c' = (cache_abs c)(t := None)"
proof -
  let ?rs = "tc_records c" and ?n = "tc_queryable_count c"
  have t: "tables_ok T ?rs" "front_ok T ?rs ?n" "headers_ok self R ?rs" using ok by (simp_all add: cache_ok_def)
  have n: "?n \<le> length ?rs" using t(2) by (simp add: front_ok_def)
  have ms: "mset ?rs = mset (?rs ! j # tc_records c')" using cache_hole_mset [OF j(1) n] rs by simp
  have st: "set ?rs = insert (?rs ! j) (set (tc_records c'))" using mset_eq_setD [OF ms] by simp
  have t': "tables_ok T (?rs ! j # tc_records c')" using tables_ok_perm [OF ms [symmetric] t(1)] .
  then have tb: "tables_ok T (tc_records c')" and nt: "t \<notin> ce_table ` set (tc_records c')"
    using j(2) by (auto simp: tables_ok_def inj_on_def)
  have "headers_ok self R (tc_records c')" using t(3) st by (simp add: headers_ok_def)
  moreover have "length (tc_records c') < 2 ^ 26" "\<not> ecs_map_is_init (tc_index c') \<longrightarrow>
      length (tc_records c') \<le> FLECS_TABLE_CACHE_INDEX_THRESHOLD"
    using ok ix mset_eq_length [OF ms] by (auto simp: cache_ok_def)
  moreover have "front_ok T (tc_records c') (tc_queryable_count c')"
    using cache_hole_front [OF t(2) j(1)] rs qc by simp
  moreover have "cache_abs c' = (cache_abs c)(t := None)"
    using st nt j(2) by (intro cache_abs_eqI [OF tb]) (auto simp: cache_abs_eq_Some [OF t(1)] image_iff)
  ultimately show ?thesis using tb ix by (simp add: cache_ok_def)
qed

lemma remove_lookup_ok:
  assumes ok: "cache_ok T self R c" and j: "j < length (tc_records c)"
  shows "returns (if ecs_map_is_init (tc_index c)
      then bindR (ecs_map_remove (tc_index c) (elem_key T (tc_records c ! j))) (\<lambda>(m, v). bindR (flecs_uto_i32 v) (\<lambda>i. Inr (m, i)))
      else (let index = int (find_record (tc_records c) (ce_tr (tc_records c ! j)) 0) in
        ecs_assert (index \<le> int (length (tc_records c)) - 1) ECS_INTERNAL_ERROR (Inr (tc_index c, index))))
    (\<lambda>(m, index). index = int j \<and> removed_index T m (tc_records c) j \<and>
      ecs_map_is_init m = ecs_map_is_init (tc_index c))"
proof (cases "ecs_map_is_init (tc_index c)")
  case True
  let ?k = "elem_key T (tc_records c ! j)" and ?m = "tc_index c"
  have ix: "map_ok ?m" "dom (map_abs ?m) = keys T (tc_records c)"
    "\<forall>i < length (tc_records c). map_abs ?m (elem_key T (tc_records c ! i)) = Some (of_nat i)"
    and t: "tables_ok T (tc_records c)" and len: "length (tc_records c) < 2 ^ 26"
    using ok True by (auto simp: cache_ok_def index_ok_def)
  have "returns (bindR (ecs_map_remove ?m ?k) (\<lambda>(m, v). bindR (flecs_uto_i32 v) (\<lambda>i. Inr (m, i))))
    (\<lambda>(m, index). index = int j \<and> removed_index T m (tc_records c) j \<and> ecs_map_is_init m)"
    unfolding returns_bindR
  proof (rule returns_mono [OF map_remove_ok [OF ix(1), of ?k]])
    fix x :: "64 word ecs_map \<times> 64 word"
    assume "case x of (m', v) \<Rightarrow> map_ok m' \<and> map_abs m' = (map_abs ?m)(?k := None) \<and>
      v = (case map_abs ?m ?k of None \<Rightarrow> 0 | Some v \<Rightarrow> v) \<and>
      m_buckets m' = map (filter (\<lambda>e. fst e \<noteq> ?k)) (m_buckets ?m) \<and> m_bucket_count m' = m_bucket_count ?m \<and>
      m_last_iterated m' = m_last_iterated ?m \<and>
      m_change_count m' = m_change_count ?m + of_bool (m_last_iterated ?m \<noteq> ?k)"
    then obtain m' v where x: "x = (m', v)" "map_ok m'" "map_abs m' = (map_abs ?m)(?k := None)" "v = of_nat j"
      using ix(3) j by (cases x) auto
    have "removed_index T m' (tc_records c) j"
      unfolding removed_index_def using x ix elem_key_inj [OF t _ j] by auto
    then show "returns (case x of (m, v) \<Rightarrow> bindR (flecs_uto_i32 v) (\<lambda>i. Inr (m, i)))
      (\<lambda>(m, index). index = int j \<and> removed_index T m (tc_records c) j \<and> ecs_map_is_init m)"
      using x j len by (simp add: uto_of_nat map_ok_is_init)
  qed
  then show ?thesis using True by (simp add: split_def)
next
  case False
  have "distinct (map ce_tr (tc_records c))" using ok by (auto simp: cache_ok_def intro: headers_distinct)
  from find_record_Some [OF this j, of 0] False j show ?thesis
    by (simp add: Let_def removed_index_def)
qed

lemma cache_remove_ok:
  assumes ok: "cache_ok T self R c" and t: "cache_abs c t = Some r"
  shows "returns (ecs_table_cache_remove T self R c (ct_id (T t)) r) (\<lambda>(c', x).
    x = r \<and> cache_ok T self R c' \<and> cache_abs c' = (cache_abs c)(t := None))"
proof -
  let ?rs = "tc_records c" and ?n = "tc_queryable_count c"
  have "t \<in> dom (cache_abs c)" using t by auto
  then obtain j where j: "j < length ?rs" "ce_table (?rs ! j) = t" by (rule cache_lookup_cases)
  have tb: "tables_ok T ?rs" and hd: "headers_ok self R ?rs" and n: "?n \<le> length ?rs"
    using ok by (simp_all add: cache_ok_def front_ok_def)
  have r: "ce_tr (?rs ! j) = r" using cache_abs_nth [OF tb j(1)] j(2) t by simp
  then have self: "tr_cr (R r) = self" using hd j(1) by (auto simp: headers_ok_def)
  have k: "ct_id (T t) = elem_key T (?rs ! j)" using j(2) by (simp add: elem_key_def)
  have last: "nat (int (length ?rs) - 1) = length ?rs - 1" by simp
  note fin = cache_remove_fin [OF ok j(1) refl]
  show ?thesis unfolding ecs_table_cache_remove_def returns_assert Let_def [of "int (length ?rs) - 1"] k returns_bindR
  proof (intro conjI returns_mono [OF remove_lookup_ok [OF ok j(1), unfolded r]])
    show "tr_cr (R r) = self" by (rule self)
    fix x :: "64 word ecs_map \<times> int"
    assume "case x of (m, index) \<Rightarrow> index = int j \<and> removed_index T m ?rs j \<and> ecs_map_is_init m = ecs_map_is_init (tc_index c)"
    then obtain m where x: "x = (m, int j)" and m: "removed_index T m ?rs j" and mi: "ecs_map_is_init m = ecs_map_is_init (tc_index c)"
      by (cases x) auto
    let ?c = "c\<lparr>tc_index := m\<rparr>"
    show "returns (case x of (m, index) \<Rightarrow> let c = c\<lparr>tc_index := m\<rparr> in
        bindR (if index < 0 then Inl Bad_Access else arr_get (tc_records c) (nat index)) (\<lambda>e.
        ecs_assert (ce_tr e = r) ECS_INTERNAL_ERROR
        (bindR (if index < int (tc_queryable_count c)
             then (let last_queryable = tc_queryable_count c - 1 in
               bindR (flecs_table_cache_move T c (nat index) last_queryable) (\<lambda>c.
               bindR (flecs_table_cache_move T c last_queryable (nat (int (length ?rs) - 1))) (\<lambda>c.
               Inr (c\<lparr>tc_queryable_count := tc_queryable_count c - 1\<rparr>))))
             else flecs_table_cache_move T c (nat index) (nat (int (length ?rs) - 1))) (\<lambda>c.
        Inr (c\<lparr>tc_records := butlast (tc_records c)\<rparr>, r)))))
      (\<lambda>(c', x). x = r \<and> cache_ok T self R c' \<and> cache_abs c' = (cache_abs c)(t := None))"
    proof (cases "j < ?n")
      case True
      have "returns (flecs_table_cache_move T ?c j (?n - 1)) (\<lambda>c1.
          returns (flecs_table_cache_move T c1 (?n - 1) (length ?rs - 1)) (\<lambda>c'.
          butlast (tc_records c') = cache_hole ?rs j ?n \<and> tc_queryable_count c' = ?n \<and>
          ecs_map_is_init (tc_index c') = ecs_map_is_init (tc_index c) \<and> index_ok T (tc_index c') (cache_hole ?rs j ?n)))"
        using remove_front_ok [of T ?c ?n j] tb n True m mi by simp
      then show ?thesis unfolding x prod.case Let_def last using True j r
        by (simp add: returns_if) (elim returns_mono, auto intro!: fin [THEN conjunct1] fin [THEN conjunct2])
    next
      case False
      have "returns (flecs_table_cache_move T ?c j (length ?rs - 1)) (\<lambda>c'.
          butlast (tc_records c') = cache_hole ?rs j ?n \<and> tc_queryable_count c' = ?n \<and>
          ecs_map_is_init (tc_index c') = ecs_map_is_init (tc_index c) \<and> index_ok T (tc_index c') (cache_hole ?rs j ?n))"
        using remove_behind_ok [of T ?c ?n j] tb n j False m mi by simp
      then show ?thesis unfolding x prod.case Let_def last using False j r
        by (simp add: returns_if) (elim returns_mono, auto intro!: fin [THEN conjunct1] fin [THEN conjunct2])
    qed
  qed
qed


section \<open>Columns, and iteration\<close>

lemma cache_set_column_ok:
  assumes ok: "cache_ok T self R c" and t: "t \<in> dom (cache_abs c)"
  shows "returns (flecs_table_cache_set_column T c t column) (\<lambda>c'.
    cache_ok T self R c' \<and> cache_abs c' = cache_abs c \<and>
    returns (flecs_table_cache_get_elem T c' t) (\<lambda>slot. map_option ce_column slot = Some column))"
proof -
  obtain j where j: "j < length (tc_records c)" "ce_table (tc_records c ! j) = t"
    using t by (rule cache_lookup_cases)
  let ?rs = "(tc_records c)[j := (tc_records c ! j)\<lparr>ce_column := column\<rparr>]"
  let ?c = "c\<lparr>tc_records := ?rs\<rparr>"
  have tab: "map ce_table ?rs = map ce_table (tc_records c)"
    using j by (auto simp: map_update list_update_same_conv)
  have st: "ce_table ` set ?rs = ce_table ` set (tc_records c)" using tab by (metis set_map)
  have ix: "i < length (tc_records c) \<Longrightarrow> ce_table (?rs ! i) = ce_table (tc_records c ! i)" for i
    using tab by (metis length_list_update nth_map)
  have "keys T ?rs = keys T (tc_records c)"
  proof -
    have "keys T xs = (\<lambda>t. ct_id (T t)) ` ce_table ` set xs" for xs by (simp add: elem_key_def image_image)
    then show ?thesis using st by simp
  qed
  moreover have "headers_ok self R ?rs"
    unfolding headers_ok_def all_set_conv_all_nth
    using ok j(1) by (auto simp: cache_ok_def headers_ok_def nth_list_update)
  ultimately have ok': "cache_ok T self R ?c"
    using ok ix st tab by (simp add: cache_ok_def index_ok_def tables_ok_def front_ok_def elem_key_def)
  have "map (\<lambda>e. (ce_table e, ce_tr e)) ?rs = map (\<lambda>e. (ce_table e, ce_tr e)) (tc_records c)"
    using j by (intro nth_equalityI) (auto simp: nth_list_update)
  then have "cache_abs ?c = cache_abs c" by (simp add: cache_abs_def)
  moreover have "flecs_table_cache_find T ?c t = Inr (int j)"
    using j by (intro cache_find_present [OF ok']) auto
  ultimately show ?thesis
    using cache_find_present [OF ok j] j ok'
    by (simp add: flecs_table_cache_set_column_def flecs_table_cache_get_elem_def cache_slot_def)
qed

definition iter_ok :: "cache_iter \<Rightarrow> bool" where
  "iter_ok it \<longleftrightarrow> ci_remaining it \<le> length (ci_elems it)"

definition matches :: "(nat \<Rightarrow> ctable) \<Rightarrow> 32 word \<Rightarrow> cache_elem \<Rightarrow> bool" where
  "matches T flags e \<longleftrightarrow> has_flag (ct_flags (T (ce_table e))) flags"

definition iter_left :: "(nat \<Rightarrow> ctable) \<Rightarrow> cache_iter \<Rightarrow> cache_elem list" where
  \<comment> \<open>what the iterator has yet to yield\<close>
  "iter_left T it = filter (matches T (ci_flags it)) (take (ci_remaining it) (ci_elems it))"

lemma cache_next_ok:
  assumes "iter_ok it"
  shows "returns (flecs_table_cache_next T it) (\<lambda>(it', r). iter_ok it' \<and> ci_cur it' = r \<and>
    (case iter_left T it of [] \<Rightarrow> r = None \<and> ci_remaining it' = 0
     | e # es \<Rightarrow> r = Some e \<and> iter_left T it' = es \<and> ci_remaining it' < ci_remaining it))"
  using assms
proof (induction T it rule: flecs_table_cache_next.induct)
  case (1 T it)
  show ?case
  proof (cases "ci_remaining it")
    case 0
    then show ?thesis by (subst flecs_table_cache_next.simps) (simp add: iter_ok_def iter_left_def)
  next
    case (Suc n)
    with 1(2) obtain e es where e: "ci_elems it = e # es" by (cases "ci_elems it") (auto simp: iter_ok_def)
    let ?it = "it\<lparr>ci_elems := es, ci_remaining := ci_remaining it - 1\<rparr>"
    have ok: "iter_ok ?it" using 1(2) Suc e by (simp add: iter_ok_def)
    show ?thesis
    proof (cases "matches T (ci_flags it) e")
      case True
      with Suc e ok show ?thesis
        by (subst flecs_table_cache_next.simps) (simp add: iter_left_def iter_ok_def matches_def)
    next
      case False
      then have "iter_left T it = iter_left T ?it" using Suc e by (simp add: iter_left_def)
      with False 1(1) [OF _ e _ ok] Suc e show ?thesis
        by (subst flecs_table_cache_next.simps)
          (auto simp: matches_def split: list.splits elim!: returns_mono)
    qed
  qed
qed

lemma cache_next_less:
  "flecs_table_cache_next T it = Inr (it', Some e) \<Longrightarrow> ci_remaining it' < ci_remaining it"
proof (induction T it rule: flecs_table_cache_next.induct)
  case (1 T it)
  from 1(2) show ?case
    apply (subst (asm) flecs_table_cache_next.simps)
    using 1(1) by (fastforce split: if_splits list.splits)
qed

function cache_visit :: "(nat \<Rightarrow> ctable) \<Rightarrow> cache_iter \<Rightarrow> cache_elem list result" where
  \<comment> \<open>the loop \<open>while ((elem = flecs_table_cache_next(&it)))\<close> of the clients: the elements it sees\<close>
  "cache_visit T it =
    (case flecs_table_cache_next T it of
      Inl err \<Rightarrow> Inl err
    | Inr (it', None) \<Rightarrow> Inr []
    | Inr (it', Some e) \<Rightarrow> bindR (cache_visit T it') (\<lambda>es. Inr (e # es)))"
  by pat_completeness auto
termination by (relation "measure (\<lambda>(T, it). ci_remaining it)") (auto dest: cache_next_less)

declare cache_visit.simps [simp del]

lemma cache_visit_ok: "iter_ok it \<Longrightarrow> cache_visit T it = Inr (iter_left T it)"
proof (induction T it rule: cache_visit.induct)
  case (1 T it)
  obtain it' r where nx: "flecs_table_cache_next T it = Inr (it', r)" "iter_ok it'"
    and "case iter_left T it of [] \<Rightarrow> r = None \<and> ci_remaining it' = 0
     | e # es \<Rightarrow> r = Some e \<and> iter_left T it' = es \<and> ci_remaining it' < ci_remaining it"
    using returnsE [OF cache_next_ok [OF 1(2)]] by blast
  with 1(1) [OF nx(1)] show ?case
    by (subst cache_visit.simps) (auto split: list.splits)
qed


section \<open>Properties\<close>

datatype cache_op =
    Insert_Table nat nat \<comment> \<open>table and table record\<close>
  | Remove_Table nat nat
  | Set_Column nat int

fun cache_step :: "(nat \<Rightarrow> ctable) \<Rightarrow> nat \<Rightarrow> table_cache \<times> (nat \<Rightarrow> table_record) \<Rightarrow> cache_op \<Rightarrow>
    (table_cache \<times> (nat \<Rightarrow> table_record)) result" where
  "cache_step T self (c, R) (Insert_Table t r) = ecs_table_cache_insert T self R c t r"
| "cache_step T self (c, R) (Remove_Table t r) =
    bindR (ecs_table_cache_remove T self R c (ct_id (T t)) r) (\<lambda>(c, _). Inr (c, R))"
| "cache_step T self (c, R) (Set_Column t column) =
    bindR (flecs_table_cache_set_column T c t column) (\<lambda>c. Inr (c, R))"

fun cache_spec :: "(nat \<rightharpoonup> nat) \<Rightarrow> cache_op \<Rightarrow> (nat \<rightharpoonup> nat)" where
  "cache_spec a (Insert_Table t r) = a(t \<mapsto> r)"
| "cache_spec a (Remove_Table t r) = a(t := None)"
| "cache_spec a (Set_Column t column) = a"

fun cache_pre :: "nat set \<Rightarrow> (nat \<rightharpoonup> nat) \<Rightarrow> cache_op \<Rightarrow> bool" where
  \<comment> \<open>what the callers see to: \<open>P\<close> are the tables of the world\<close>
  "cache_pre P a (Insert_Table t r) = (t \<in> P \<and> a t = None \<and> r \<notin> ran a \<and> card (dom a) + 1 < 2 ^ 26)"
| "cache_pre P a (Remove_Table t r) = (a t = Some r)"
| "cache_pre P a (Set_Column t column) = (a t \<noteq> None)"

definition cache_inv :: "(nat \<Rightarrow> ctable) \<Rightarrow> nat set \<Rightarrow> nat \<Rightarrow> table_cache \<times> (nat \<Rightarrow> table_record) \<Rightarrow> bool" where
  "cache_inv T P self s \<longleftrightarrow> inj_on (\<lambda>t. ct_id (T t)) P \<and> dom (cache_abs (fst s)) \<subseteq> P \<and> cache_ok T self (snd s) (fst s)"

lemma cache_inv_fresh: "cache_inv T P self s \<Longrightarrow> t \<in> P \<Longrightarrow> key_fresh T (fst s) t"
  unfolding cache_inv_def key_fresh_def dom_cache_abs inj_on_def by blast

lemma cache_abs_card: "tables_ok T (tc_records c) \<Longrightarrow> card (dom (cache_abs c)) = length (tc_records c)"
  unfolding tables_ok_def dom_cache_abs by (metis distinct_card length_map set_map)

lemma cache_step_sim:
  assumes inv: "cache_inv T P self s" and pre: "cache_pre P (cache_abs (fst s)) x"
  shows "returns (cache_step T self s x) (\<lambda>s'. cache_inv T P self s' \<and> cache_abs (fst s') = cache_spec (cache_abs (fst s)) x)"
proof -
  obtain c R where s: "s = (c, R)" by (cases s)
  have ok: "cache_ok T self R c" and P: "inj_on (\<lambda>t. ct_id (T t)) P" "dom (cache_abs c) \<subseteq> P"
    using inv s by (simp_all add: cache_inv_def)
  then have tb: "tables_ok T (tc_records c)" by (simp add: cache_ok_def)
  show ?thesis
  proof (cases x)
    case (Insert_Table t r)
    have "card (dom (cache_abs c)) = length (tc_records c)" by (rule cache_abs_card [OF tb])
    with Insert_Table pre s have new: "t \<in> P" "t \<notin> dom (cache_abs c)" "r \<notin> ran (cache_abs c)"
      "length (tc_records c) + 1 < 2 ^ 26" by auto
    have k: "key_fresh T c t" using cache_inv_fresh [OF inv new(1)] s by simp
    have sub: "dom ((cache_abs c)(t \<mapsto> r)) \<subseteq> P" using P(2) new(1) by simp
    show ?thesis unfolding s Insert_Table cache_step.simps
    proof (rule returns_mono [OF cache_insert_ok [OF ok new(2) k new(3,4)]])
      fix x :: "table_cache \<times> (nat \<Rightarrow> table_record)"
      assume "case x of (c', R') \<Rightarrow> R' = R(r := (R r)\<lparr>tr_cr := self, tr_table := t\<rparr>) \<and> cache_ok T self R' c' \<and>
        cache_abs c' = (cache_abs c)(t \<mapsto> r)"
      then have "cache_ok T self (snd x) (fst x)" and abs: "cache_abs (fst x) = (cache_abs c)(t \<mapsto> r)" by (cases x; simp)+
      then show "cache_inv T P self x \<and> cache_abs (fst x) = cache_spec (cache_abs (fst (c, R))) (Insert_Table t r)"
        using P(1) sub unfolding cache_inv_def abs by simp
    qed
  next
    case (Remove_Table t r)
    with pre s have "cache_abs c t = Some r" by simp
    moreover have "dom ((cache_abs c)(t := None)) \<subseteq> P" using P(2) by auto
    ultimately show ?thesis using cache_remove_ok [OF ok, of t r] P(1) s Remove_Table
      by (simp add: cache_inv_def split_def) (erule returns_mono, simp)
  next
    case (Set_Column t column)
    with pre s have "t \<in> dom (cache_abs c)" by auto
    from cache_set_column_ok [OF ok this, of column] P s Set_Column show ?thesis
      by (auto simp: cache_inv_def elim!: returns_mono)
  qed
qed

interpretation cache_sim: simulation "cache_step T self" "cache_inv T P self" "\<lambda>s. cache_abs (fst s)" cache_spec "cache_pre P"
  for T self P
  by unfold_locales (rule cache_step_sim)

lemma cache_init_inv: "inj_on (\<lambda>t. ct_id (T t)) P \<Longrightarrow> cache_inv T P self (ecs_table_cache_init, R)"
  by (simp add: cache_inv_def cache_ok_def ecs_table_cache_init_def cache_abs_def index_ok_def tables_ok_def
      front_ok_def headers_ok_def FLECS_TABLE_CACHE_INDEX_THRESHOLD_def)

lemma cache_init_abs [simp]: "cache_abs ecs_table_cache_init = Map.empty"
  by (simp add: cache_abs_def ecs_table_cache_init_def)

definition example_tables :: "nat \<Rightarrow> ctable" where
  \<comment> \<open>table 2 holds prefabs\<close>
  "example_tables t = \<lparr>ct_id = of_nat t, ct_flags = (if t = 2 then 0x40000002 else 0x40000000)\<rparr>"

lemma example_tables_inj: "inj_on (\<lambda>t. ct_id (example_tables t)) {..< 8}"
  by (auto simp: inj_on_def example_tables_def word_eq_iff_unsigned unsigned_of_nat take_bit_nat_eq_self
      dest!: arg_cong [where f = "unat :: 64 word \<Rightarrow> nat"])

text \<open>C9: A table cache is a partial function from tables to table records. Starting from
  \<open>ecs_table_cache_init\<close>, any sequence of insertions of new tables, removals of tables that are there and
  changes of the column of a table succeeds; it leaves the cache well formed, so with every queryable table in
  front of every other one and every entry of the map, once there is one, at the index of its table; and
  \<open>ecs_table_cache_get\<close> returns for each table of the world the record that the sequence has left for it,
  or \<open>NULL\<close>. The result is the same below and above the threshold from which on the map is used.\<close>

theorem table_cache_implements_map:
  assumes "inj_on (\<lambda>t. ct_id (T t)) P" and "allowed cache_spec (cache_pre P) Map.empty xs"
  shows "returns (run_ops (cache_step T self) (ecs_table_cache_init, R) xs) (\<lambda>(c, R').
    cache_ok T self R' c \<and> cache_abs c = foldl cache_spec Map.empty xs \<and>
    (\<forall>t \<in> P. ecs_table_cache_get T c t = Inr (foldl cache_spec Map.empty xs t)))"
proof -
  have "returns (run_ops (cache_step T self) (ecs_table_cache_init, R) xs) (\<lambda>s'. cache_inv T P self s' \<and>
      cache_abs (fst s') = foldl cache_spec (cache_abs (fst (ecs_table_cache_init, R))) xs)"
    using assms by (intro cache_sim.run_sim cache_init_inv) simp_all
  then show ?thesis
  proof (rule returns_mono)
    fix s assume s: "cache_inv T P self s \<and> cache_abs (fst s) = foldl cache_spec (cache_abs (fst (ecs_table_cache_init, R))) xs"
    then show "case s of (c, R') \<Rightarrow> cache_ok T self R' c \<and> cache_abs c = foldl cache_spec Map.empty xs \<and>
        (\<forall>t \<in> P. ecs_table_cache_get T c t = Inr (foldl cache_spec Map.empty xs t))"
      using cache_inv_fresh [of T P self s] cache_get_ok [of T self "snd s" "fst s"]
      by (auto simp: cache_inv_def split_def)
  qed
qed

lemma table_cache_implements_map_witness:
  "returns (run_ops (cache_step example_tables 9) (ecs_table_cache_init, \<lambda>_. \<lparr>tr_cr = 0, tr_table = 0, tr_index = 0, tr_count = 1, tr_column = 0\<rparr>)
     [Insert_Table 1 11, Insert_Table 2 12, Insert_Table 3 13, Set_Column 2 7, Insert_Table 4 14, Insert_Table 5 15, Remove_Table 3 13])
    (\<lambda>(c, R). ecs_table_cache_get example_tables c 3 = Inr None \<and> ecs_table_cache_get example_tables c 5 = Inr (Some 15))"
  by (rule returns_mono [OF table_cache_implements_map [OF example_tables_inj]]) (auto simp: ran_def)

text \<open>C10: Iterating a table cache visits exactly the tables asked for. On a well-formed cache the loop over
  \<open>flecs_table_cache_next\<close> ends, with \<open>flecs_table_cache_iter\<close> it visits each table of the cache whose flags
  meet the flags given, with \<open>flecs_table_cache_queryable_iter\<close> each of those that is moreover neither
  a prefab table, nor disabled, nor excluded from queries; it visits each once and with its table record. The
  flag that starting an iterator returns says whether it has elements to look at.\<close>

theorem table_cache_iteration:
  assumes "cache_ok T self R c"
  shows "returns (cache_visit T (fst (flecs_table_cache_iter c flags))) (\<lambda>es. distinct (map ce_table es) \<and>
      {(ce_table e, ce_tr e) | e. e \<in> set es} =
        {(t, r). cache_abs c t = Some r \<and> has_flag (ct_flags (T t)) flags}) \<and>
    returns (cache_visit T (fst (flecs_table_cache_queryable_iter c flags))) (\<lambda>es. distinct (map ce_table es) \<and>
      {(ce_table e, ce_tr e) | e. e \<in> set es} =
        {(t, r). cache_abs c t = Some r \<and> has_flag (ct_flags (T t)) flags \<and> queryable (T t)}) \<and>
    (snd (flecs_table_cache_iter c flags) \<longleftrightarrow> cache_abs c \<noteq> Map.empty) \<and>
    (snd (flecs_table_cache_queryable_iter c flags) \<longleftrightarrow> (\<exists>t \<in> dom (cache_abs c). queryable (T t)))"
proof -
  let ?rs = "tc_records c" and ?n = "tc_queryable_count c"
  have t: "tables_ok T ?rs" and f: "front_ok T ?rs ?n" using assms by (simp_all add: cache_ok_def)
  have d: "distinct (map ce_table ?rs)" using t by (simp add: tables_ok_def)
  have sub: "distinct (map ce_table (filter Q (take k ?rs)))" for Q k
    using d by (simp add: distinct_map_filter flip: take_map)
  have front: "e \<in> set (take ?n ?rs) \<longleftrightarrow> e \<in> set ?rs \<and> queryable (T (ce_table e))" for e
    using f by (auto simp: front_ok_def set_take_nth in_set_conv_nth)
  have 1: "returns (cache_visit T (fst (flecs_table_cache_iter c flags))) (\<lambda>es. distinct (map ce_table es) \<and>
      {(ce_table e, ce_tr e) | e. e \<in> set es} = {(t, r). cache_abs c t = Some r \<and> has_flag (ct_flags (T t)) flags})"
    using sub [of _ "length ?rs"]
    by (auto simp: flecs_table_cache_iter_def cache_visit_ok iter_ok_def iter_left_def matches_def cache_abs_eq_Some [OF t])
  have 2: "returns (cache_visit T (fst (flecs_table_cache_queryable_iter c flags))) (\<lambda>es. distinct (map ce_table es) \<and>
      {(ce_table e, ce_tr e) | e. e \<in> set es} =
        {(t, r). cache_abs c t = Some r \<and> has_flag (ct_flags (T t)) flags \<and> queryable (T t)})"
    using sub [of _ ?n] f
    by (auto simp: flecs_table_cache_queryable_iter_def cache_visit_ok iter_ok_def iter_left_def matches_def front
        cache_abs_eq_Some [OF t] front_ok_def)
  have 3: "snd (flecs_table_cache_iter c flags) \<longleftrightarrow> cache_abs c \<noteq> Map.empty"
    by (auto simp: flecs_table_cache_iter_def cache_abs_def)
  have 4: "snd (flecs_table_cache_queryable_iter c flags) \<longleftrightarrow> (\<exists>t \<in> dom (cache_abs c). queryable (T t))"
  proof -
    have "?n \<noteq> 0 \<longleftrightarrow> (\<exists>e. e \<in> set (take ?n ?rs))"
      using f by (metis ex_in_conv front_ok_def le_zero_eq list.size(3) set_empty take_eq_Nil)
    then show ?thesis by (auto simp: flecs_table_cache_queryable_iter_def dom_cache_abs front)
  qed
  show ?thesis by (intro conjI 1 2 3 4)
qed

definition example_cache :: table_cache where
  "example_cache = \<lparr>tc_index = map_zero,
    tc_records = [\<lparr>ce_table = 1, ce_tr = 11, ce_column = 0, ce_index = 0\<rparr>, \<lparr>ce_table = 3, ce_tr = 13, ce_column = 0, ce_index = 0\<rparr>,
      \<lparr>ce_table = 2, ce_tr = 12, ce_column = 0, ce_index = 0\<rparr>], tc_queryable_count = 2\<rparr>"

lemma example_cache_ok:
  "cache_ok example_tables 9 (\<lambda>r. \<lparr>tr_cr = 9, tr_table = r - 10, tr_index = 0, tr_count = 1, tr_column = 0\<rparr>) example_cache"
  using inj_on_subset [OF example_tables_inj, of "{1, 3, 2}"]
  by (auto simp: cache_ok_def example_cache_def index_ok_def tables_ok_def front_ok_def headers_ok_def queryable_def
      example_tables_def has_flag_def EcsTableNotQueryable_def EcsTableIsPrefab_def EcsTableIsDisabled_def
      FLECS_TABLE_CACHE_INDEX_THRESHOLD_def less_Suc_eq numeral_3_eq_3 nth_Cons split: nat.splits)

lemma table_cache_iteration_witness:
  "returns (cache_visit example_tables (fst (flecs_table_cache_queryable_iter example_cache EcsTableNotEmpty)))
    (\<lambda>es. (3, 13) \<in> {(ce_table e, ce_tr e) | e. e \<in> set es} \<and> (2, 12) \<notin> {(ce_table e, ce_tr e) | e. e \<in> set es})"
  by (rule returns_mono [OF table_cache_iteration [OF example_cache_ok, THEN conjunct2, THEN conjunct1]])
    (auto simp: example_cache_def cache_abs_def example_tables_def has_flag_def queryable_def EcsTableIsPrefab_def
      EcsTableNotQueryable_def EcsTableIsDisabled_def)

end
