(* ===== verification/Table_Move.thy ===== *)
theory Table_Move
  imports Table_Storage
begin

text \<open>
  Moving a row from one table to another (\<open>flecs_table_move\<close> of \<open>storage/table.c\<close>): the columns and
  bitsets of the two tables are walked in the order of their ids. What the tables have in common is
  moved, what only the new table has is constructed, and what only the old table has is destructed, or
  left to the deletion of the row that follows.
\<close>

section \<open>Walking over the ids of two tables\<close>

lemma merge_columns_aux:
  assumes sd: "sorted_wrt (<) ds0" and ss: "sorted_wrt (<) ss0"
    and both: "\<And>i j st. i < length ds0 \<Longrightarrow> j < length ss0 \<Longrightarrow> ds0 ! i = ss0 ! j \<Longrightarrow> P i j st \<Longrightarrow> returns (both i j st) (P (Suc i) (Suc j))"
    and new: "\<And>i j st. i < length ds0 \<Longrightarrow> ds0 ! i \<notin> set ss0 \<Longrightarrow> P i j st \<Longrightarrow> returns (new i st) (P (Suc i) j) \<and> returns (newr i st) (P (Suc i) j)"
    and old: "\<And>i j st. j < length ss0 \<Longrightarrow> ss0 ! j \<notin> set ds0 \<Longrightarrow> P i j st \<Longrightarrow> returns (old j st) (P i (Suc j)) \<and> returns (oldr j st) (P i (Suc j))"
  shows "i \<le> length ds0 \<Longrightarrow> j \<le> length ss0 \<Longrightarrow> set (take i ds0) \<inter> set (drop j ss0) = {} \<Longrightarrow> set (take j ss0) \<inter> set (drop i ds0) = {} \<Longrightarrow>
    P i j st \<Longrightarrow> returns (merge_columns both new old newr oldr (drop i ds0) (drop j ss0) i j st) (P (length ds0) (length ss0))"
proof (induction "(length ds0 - i) + (length ss0 - j)" arbitrary: i j st rule: less_induct)
  case less
  let ?nd = "length ds0" and ?ns = "length ss0"
  let ?M = "\<lambda>i j. merge_columns both new old newr oldr (drop i ds0) (drop j ss0) i j"
  have dd: "drop i ds0 = ds0 ! i # drop (Suc i) ds0" "set (take (Suc i) ds0) = insert (ds0 ! i) (set (take i ds0))" if "i < ?nd"
    using that by (simp_all add: Cons_nth_drop_Suc take_Suc_conv_app_nth)
  have dss: "drop j ss0 = ss0 ! j # drop (Suc j) ss0" "set (take (Suc j) ss0) = insert (ss0 ! j) (set (take j ss0))" if "j < ?ns"
    using that by (simp_all add: Cons_nth_drop_Suc take_Suc_conv_app_nth)
  have gd: "x > ds0 ! i" if "i < ?nd" "x \<in> set (drop (Suc i) ds0)" for x
    using sd that dd(1) [OF that(1)] by (metis sorted_wrt.simps(2) sorted_wrt_drop)
  have gs: "x > ss0 ! j" if "j < ?ns" "x \<in> set (drop (Suc j) ss0)" for x
    using ss that dss(1) [OF that(1)] by (metis sorted_wrt.simps(2) sorted_wrt_drop)
  have sub: "set (drop (Suc k) xs) \<subseteq> set (drop k xs)" for k and xs :: "64 word list"
    by (metis drop_Suc drop_tl set_drop_subset append_take_drop_id drop_drop plus_1_eq_Suc)
  have mem: "x \<in> set ss0 \<longleftrightarrow> x \<in> set (take j ss0) \<or> x \<in> set (drop j ss0)"
    "x \<in> set ds0 \<longleftrightarrow> x \<in> set (take i ds0) \<or> x \<in> set (drop i ds0)" for x
    by (metis Un_iff append_take_drop_id set_append)+
  consider (both_ended) "i = ?nd" "j = ?ns" | (restd) "i < ?nd" "j = ?ns" | (rests) "i = ?nd" "j < ?ns" | (walk) "i < ?nd" "j < ?ns"
    using less.prems(1,2) by linarith
  then show ?case
  proof cases
    case both_ended
    with less.prems show ?thesis by simp
  next
    case restd
    have "ds0 ! i \<notin> set ss0" using less.prems(4) restd dd(1) by auto
    then have "returns (newr i st) (P (Suc i) j)" using new restd less.prems by blast
    then show ?thesis using restd dd
    proof (simp, elim returns_mono)
      fix st assume "P (Suc i) (length ss0) st"
      with less.hyps [of "Suc i" j st] less.prems restd dd sub [of i ds0] show "returns (merge_columns both new old newr oldr (drop (Suc i) ds0) [] (Suc i) (length ss0) st) (P ?nd ?ns)"
        by auto
    qed
  next
    case rests
    have "ss0 ! j \<notin> set ds0" using less.prems(3) rests dss(1) by auto
    then have "returns (oldr j st) (P i (Suc j))" using old rests less.prems by blast
    then show ?thesis using rests dss
    proof (simp, elim returns_mono)
      fix st assume "P (length ds0) (Suc j) st"
      with less.hyps [of i "Suc j" st] less.prems rests dss sub [of j ss0] show "returns (merge_columns both new old newr oldr [] (drop (Suc j) ss0) (length ds0) (Suc j) st) (P ?nd ?ns)"
        by auto
    qed
  next
    case walk
    note dd = dd [OF walk(1)] and dss = dss [OF walk(2)] and gd = gd [OF walk(1)] and gs = gs [OF walk(2)]
    consider (eq) "ds0 ! i = ss0 ! j" | (lt) "ds0 ! i < ss0 ! j" | (gt) "ss0 ! j < ds0 ! i" by fastforce
    then show ?thesis
    proof cases
      case eq
      then have b: "returns (both i j st) (P (Suc i) (Suc j))" using both walk less.prems by blast
      have "set (take (Suc i) ds0) \<inter> set (drop (Suc j) ss0) = {}" "set (take (Suc j) ss0) \<inter> set (drop (Suc i) ds0) = {}"
        using less.prems(3,4) dd(2) dss(2) sub [of i ds0] sub [of j ss0] gd gs eq by fastforce+
      then have "returns (?M (Suc i) (Suc j) st') (P ?nd ?ns)" if "P (Suc i) (Suc j) st'" for st'
        using less.hyps [of "Suc i" "Suc j" st'] walk that by simp
      then show ?thesis unfolding dd(1) dss(1) using eq by (simp add: returns_mono [OF b])
    next
      case lt
      have "ds0 ! i \<notin> set (drop j ss0)" using lt gs dss(1) by fastforce
      moreover have "ds0 ! i \<notin> set (take j ss0)" using less.prems(4) dd(1) by auto
      ultimately have n: "ds0 ! i \<notin> set (drop j ss0)" "ds0 ! i \<notin> set ss0" using mem(1) by blast+
      then have b: "returns (new i st) (P (Suc i) j)" using new walk less.prems by blast
      have "set (take (Suc i) ds0) \<inter> set (drop j ss0) = {}" "set (take j ss0) \<inter> set (drop (Suc i) ds0) = {}"
        using less.prems(3,4) dd(2) sub [of i ds0] n by fastforce+
      then have "returns (?M (Suc i) j st') (P ?nd ?ns)" if "P (Suc i) j st'" for st'
        using less.hyps [of "Suc i" j st'] walk that by simp
      then show ?thesis unfolding dd(1) dss(1) using lt less_imp_neq [OF lt] by (simp add: returns_mono [OF b])
    next
      case gt
      have "ss0 ! j \<notin> set (drop i ds0)" using gt gd dd(1) by fastforce
      moreover have "ss0 ! j \<notin> set (take i ds0)" using less.prems(3) dss(1) by auto
      ultimately have n: "ss0 ! j \<notin> set (drop i ds0)" "ss0 ! j \<notin> set ds0" using mem(2) by blast+
      then have b: "returns (old j st) (P i (Suc j))" using old walk less.prems by blast
      have "set (take i ds0) \<inter> set (drop (Suc j) ss0) = {}" "set (take (Suc j) ss0) \<inter> set (drop i ds0) = {}"
        using less.prems(3,4) dss(2) sub [of j ss0] n by fastforce+
      then have "returns (?M i (Suc j) st') (P ?nd ?ns)" if "P i (Suc j) st'" for st'
        using less.hyps [of i "Suc j" st'] walk that by simp
      then show ?thesis unfolding dd(1) dss(1) using gt less_imp_neq [OF gt] less_not_sym [OF gt] by (auto simp: returns_mono [OF b])
    qed
  qed
qed

lemmas merge_columns_ok = merge_columns_aux [where i = 0 and j = 0, simplified]


section \<open>One element\<close>

lemma slice1: "i < length a \<Longrightarrow> take 1 (drop i a) = [a ! i]"
  by (metis Cons_nth_drop_Suc One_nat_def take_0 take_Suc_Cons)

lemma move_elem_ok:
  assumes ij: "i < length a" "j < length b"
    and f: "returns (f [a ! i] [b ! j]) (\<lambda>(r, s). r = [b ! j] \<and> length s = 1 \<and> P s)"
  shows "returns (cells_move f a i b j 1) (\<lambda>(r, s). \<exists>c. r = a[i := b ! j] \<and> s = b[j := c] \<and> P [c])"
proof -
  have "returns (cells_move f a i b j 1) (\<lambda>(r, s). r = take i a @ take 1 (drop j b) @ drop (i + 1) a \<and>
      length s = length b \<and> take j s = take j b \<and> P (take 1 (drop j s)) \<and> drop (j + 1) s = drop (j + 1) b)"
    by (rule cells_move_ok) (use ij f in \<open>simp_all add: slice1 [simplified]\<close>)
  then show ?thesis
  proof (rule returns_mono, clarify)
    fix s assume s: "length s = length b" "take j s = take j b" "P (take 1 (drop j s))" "drop (j + 1) s = drop (j + 1) b"
    have "s = take j s @ [s ! j] @ drop (j + 1) s" using s(1) ij by (simp add: id_take_nth_drop [symmetric])
    then have "s = b[j := s ! j]" using s ij by (simp add: upd_conv_take_nth_drop)
    moreover have "P [s ! j]" using s ij slice1 [of j s] by simp
    moreover have "take i a @ take 1 (drop j b) @ drop (i + 1) a = a[i := b ! j]"
      using ij slice1 [of j b] by (simp add: upd_conv_take_nth_drop)
    ultimately show "\<exists>c. take i a @ take 1 (drop j b) @ drop (i + 1) a = a[i := b ! j] \<and> s = b[j := c] \<and> P [c]" by metis
  qed
qed

definition relocates :: "'v type_info \<Rightarrow> bool \<Rightarrow> bool" where
  \<comment> \<open>whether \<open>flecs_table_move\<close> ends the life of the element it moves from\<close>
  "relocates ti is_last \<longleftrightarrow> is_last \<or> h_move_ctor (ti_hooks ti) = None"

lemma move_both_data:
  assumes ok: "ti_ok ti" and ij: "i < length a" "j < length b"
    and raw: "needs_dtor ti \<Longrightarrow> a ! i = Raw" and live: "typed ti \<Longrightarrow> b ! j \<noteq> Raw"
  shows "returns (cells_move (if relocates ti is_last then flecs_type_info_ctor_move_dtor ti else flecs_type_info_move_ctor ti) a i b j 1)
    (\<lambda>(r, s). \<exists>c. r = a[i := b ! j] \<and> s = b[j := c] \<and> (if relocates ti is_last then needs_dtor ti \<longrightarrow> c = Raw else c \<noteq> Raw))"
proof (cases "relocates ti is_last")
  case True
  have "returns (flecs_type_info_ctor_move_dtor ti [a ! i] [b ! j]) (\<lambda>(r, s). r = [b ! j] \<and> length s = length [b ! j] \<and> (needs_dtor ti \<longrightarrow> raws s))"
    by (rule ctor_move_dtor_cells [OF ok]) (use raw live in simp_all)
  then have "returns (cells_move (flecs_type_info_ctor_move_dtor ti) a i b j 1) (\<lambda>(r, s). \<exists>c. r = a[i := b ! j] \<and> s = b[j := c] \<and>
      (needs_dtor ti \<longrightarrow> raws [c]))"
    by (intro move_elem_ok [OF ij]) simp
  with True show ?thesis by simp
next
  case False
  then have m: "h_move_ctor (ti_hooks ti) \<noteq> None" by (simp add: relocates_def)
  have t: "typed ti"
  proof (rule ccontr)
    assume "\<not> typed ti"
    from ti_ok_plain(1) [OF ok this] m show False by (simp add: no_lifecycle_def)
  qed
  have "move_ctor_ok (needs_dtor ti) (flecs_type_info_move_ctor ti)" by (rule ti_ok_typed(5) [OF ok t m])
  then have "returns (flecs_type_info_move_ctor ti [a ! i] [b ! j]) (\<lambda>(r, s). r = [b ! j] \<and> length s = 1 \<and> lives s)"
    using raw live t move_ctor_ok_def [THEN iffD1, rule_format, of "needs_dtor ti" "flecs_type_info_move_ctor ti" "[a ! i]" "[b ! j]"] by simp
  from move_elem_ok [where f = "flecs_type_info_move_ctor ti" and P = lives, OF ij this] False show ?thesis by simp
qed

lemma dtor_elem_ok:
  assumes ok: "ti_ok ti" and j: "j < length b" and live: "typed ti \<Longrightarrow> b ! j \<noteq> Raw"
  shows "returns (cells_xtor (flecs_type_info_dtor ti) b j 1) (\<lambda>s. \<exists>c. s = b[j := c] \<and> (needs_dtor ti \<longrightarrow> c = Raw))"
proof -
  have "j + 1 \<le> length b" using j by simp
  moreover have "typed ti \<Longrightarrow> lives (take 1 (drop j b))" using live slice1 [OF j] by simp
  ultimately have "returns (cells_xtor (flecs_type_info_dtor ti) b j 1) (\<lambda>r. length r = length b \<and> take j r = take j b \<and>
      (needs_dtor ti \<longrightarrow> raws (take 1 (drop j r))) \<and> drop (j + 1) r = drop (j + 1) b)"
    by (rule cells_dtor [OF ok])
  then show ?thesis
  proof (rule returns_mono, elim conjE)
    fix s assume s: "length s = length b" "take j s = take j b" "needs_dtor ti \<longrightarrow> raws (take 1 (drop j s))" "drop (j + 1) s = drop (j + 1) b"
    have "s = take j s @ [s ! j] @ drop (j + 1) s" using s(1) j by (simp add: id_take_nth_drop [symmetric])
    then have "s = b[j := s ! j]" using s j by (simp add: upd_conv_take_nth_drop)
    moreover have "needs_dtor ti \<longrightarrow> s ! j = Raw" using s j slice1 [of j s] by simp
    ultimately show "\<exists>c. s = b[j := c] \<and> (needs_dtor ti \<longrightarrow> c = Raw)" by blast
  qed
qed

lemma ctor_elem_ok:
  assumes ok: "ti_ok ti" and i: "i < length a" and raw: "needs_dtor ti \<Longrightarrow> a ! i = Raw"
    and b: "\<And>b. base_of t ci = Some b \<Longrightarrow> typed ti \<Longrightarrow> b \<noteq> Raw"
  shows "returns (flecs_table_invoke_ctor_for_array (Some t) ci a i 1 ti)
    (\<lambda>(r, ev). \<exists>c. r = a[i := c] \<and> (typed ti \<longrightarrow> c \<noteq> Raw) \<and> (\<forall>b. base_of t ci = Some b \<longrightarrow> c = b))"
proof -
  have "i + 1 \<le> length a" using i by simp
  moreover have "needs_dtor ti \<Longrightarrow> raws (take 1 (drop i a))" using raw slice1 [OF i] by simp
  ultimately have "returns (flecs_table_invoke_ctor_for_array (Some t) ci a i 1 ti) (\<lambda>(r, ev). length r = length a \<and>
    take i r = take i a \<and> drop (i + 1) r = drop (i + 1) a \<and> (typed ti \<longrightarrow> lives (take 1 (drop i r))) \<and>
    (\<forall>b. base_of t ci = Some b \<longrightarrow> (\<forall>j < 1. r ! (i + j) = b)) \<and> (\<forall>cj x. Freed cj x \<notin> set ev))"
    by (intro invoke_ctor_ok [OF ok b])
  then show ?thesis
  proof (rule returns_mono, clarify)
    fix s assume s: "length s = length a" "take i s = take i a" "drop (i + 1) s = drop (i + 1) a" "typed ti \<longrightarrow> lives (take 1 (drop i s))"
      "\<forall>b. base_of t ci = Some b \<longrightarrow> (\<forall>j < 1. s ! (i + j) = b)"
    have "s = take i s @ [s ! i] @ drop (i + 1) s" using s(1) i by (simp add: id_take_nth_drop [symmetric])
    then have "s = a[i := s ! i]" using s i by (simp add: upd_conv_take_nth_drop)
    moreover have "typed ti \<longrightarrow> s ! i \<noteq> Raw" using s i slice1 [of i s] by simp
    ultimately show "\<exists>c. s = a[i := c] \<and> (typed ti \<longrightarrow> c \<noteq> Raw) \<and> (\<forall>b. base_of t ci = Some b \<longrightarrow> c = b)"
      using s(5) by (intro exI [of _ "s ! i"]) simp
  qed
qed


section \<open>Moving a row\<close>

lemma set_data_same: "t_columns t ! i = c \<Longrightarrow> set_data t i (col_data c) = t"
proof -
  assume c: "t_columns t ! i = c"
  have "c\<lparr>col_data := col_data c\<rparr> = c" by (cases c) simp
  then have "(t_columns t)[i := (t_columns t ! i)\<lparr>col_data := col_data c\<rparr>] = t_columns t" using c list_update_id by metis
  then show ?thesis by (cases t) (simp add: set_data_def)
qed

definition cid :: "'v ecs_table \<Rightarrow> nat \<Rightarrow> 64 word" where
  \<comment> \<open>the id of a column\<close>
  "cid t ci = t_type t ! nat (t_column_map t ! (length (t_type t) + ci))"

definition cids :: "'v ecs_table \<Rightarrow> 64 word list" where
  "cids t = map (cid t) [0..<length (t_columns t)]"

lemma column_id_ok:
  assumes "column_wf t sz ci c"
  shows "flecs_column_id t ci = Inr (cid t ci)"
  using assms by (simp add: column_wf_def flecs_column_id_def cid_def nat_less_iff)

lemma mapR_ok: "(\<And>x. x \<in> set xs \<Longrightarrow> f x = Inr (g x)) \<Longrightarrow> mapR f xs = Inr (map g xs)"
  by (induction xs) simp_all

lemma column_ids_ok: "table_wf t \<Longrightarrow> column_ids t = Inr (cids t)"
  unfolding column_ids_def cids_def by (rule mapR_ok) (auto simp: table_wf_def intro: column_id_ok)

lemma cids_shape: "same_shape t t' \<Longrightarrow> cids t' = cids t"
  by (simp add: cids_def cid_def [abs_def] same_shape_def)

definition movable :: "'v type_info \<Rightarrow> bool" where
  \<comment> \<open>the types whose values survive moving a row that is not the last of its table, and deleting it then\<close>
  "movable ti \<longleftrightarrow> (needs_dtor ti \<or> h_move_dtor (ti_hooks ti) \<noteq> None \<longrightarrow> h_move_ctor (ti_hooks ti) \<noteq> None)"

definition dst_done :: "'v::zero ecs_table \<Rightarrow> nat \<Rightarrow> 'v ecs_table \<Rightarrow> nat \<Rightarrow> 64 word \<Rightarrow> nat \<Rightarrow> 'v cell list \<Rightarrow> bool" where
  \<comment> \<open>a column of the destination after the move: the element of the row is that of the source, if it has the
    column, or else constructed, unless it is to be emplaced\<close>
  "dst_done D di S si emplace i a \<longleftrightarrow> (\<exists>c. a = (col_data (t_columns D ! i))[di := c] \<and>
    cell_ok (col_ti (t_columns D ! i)) (cid D i \<in> set (cids S) \<or> cid D i \<noteq> emplace) c \<and>
    (\<forall>j < length (t_columns S). cid S j = cid D i \<longrightarrow> c = col_data (t_columns S ! j) ! si))"

definition src_done :: "'v::zero ecs_table \<Rightarrow> nat \<Rightarrow> bool \<Rightarrow> nat \<Rightarrow> 'v cell list \<Rightarrow> bool" where
  \<comment> \<open>a column of the source after the move: ready for the deletion of the row\<close>
  "src_done S si is_last j b \<longleftrightarrow> (\<exists>c q. b = (col_data (t_columns S ! j))[si := c] \<and>
    cell_ok (col_ti (t_columns S ! j)) q c \<and> row_ready (col_ti (t_columns S ! j)) is_last False q)"

definition moving :: "'v::zero ecs_table \<Rightarrow> nat \<Rightarrow> 'v ecs_table \<Rightarrow> nat \<Rightarrow> 64 word \<Rightarrow> bool \<Rightarrow> nat \<Rightarrow> nat \<Rightarrow> 'v move_state \<Rightarrow> bool" where
  \<comment> \<open>the first \<open>i\<close> columns of the destination and the first \<open>j\<close> of the source have been moved\<close>
  "moving D di S si emplace is_last i j = (\<lambda>(dst, src, log). \<exists>cs cs'. dst = D\<lparr>t_columns := cs\<rparr> \<and> src = S\<lparr>t_columns := cs'\<rparr> \<and>
    length cs = length (t_columns D) \<and> length cs' = length (t_columns S) \<and>
    (\<forall>k < length cs. col_ti (cs ! k) = col_ti (t_columns D ! k) \<and> (k < i \<longrightarrow> dst_done D di S si emplace k (col_data (cs ! k))) \<and>
      (i \<le> k \<longrightarrow> cs ! k = t_columns D ! k)) \<and>
    (\<forall>k < length cs'. col_ti (cs' ! k) = col_ti (t_columns S ! k) \<and> (k < j \<longrightarrow> src_done S si is_last k (col_data (cs' ! k))) \<and>
      (j \<le> k \<longrightarrow> cs' ! k = t_columns S ! k)))"

lemma moving_dst:
  assumes m: "moving D di S si emplace is_last i j (dst, src, log)" and i: "i < length (t_columns D)"
    and a: "dst_done D di S si emplace i a"
  shows "moving D di S si emplace is_last (Suc i) j (set_data dst i a, src, log')"
proof -
  from m obtain cs cs' where *: "dst = D\<lparr>t_columns := cs\<rparr>" "src = S\<lparr>t_columns := cs'\<rparr>"
    "length cs = length (t_columns D)" "length cs' = length (t_columns S)"
    "\<forall>k < length cs. col_ti (cs ! k) = col_ti (t_columns D ! k) \<and> (k < i \<longrightarrow> dst_done D di S si emplace k (col_data (cs ! k))) \<and>
      (i \<le> k \<longrightarrow> cs ! k = t_columns D ! k)"
    "\<forall>k < length cs'. col_ti (cs' ! k) = col_ti (t_columns S ! k) \<and> (k < j \<longrightarrow> src_done S si is_last k (col_data (cs' ! k))) \<and>
      (j \<le> k \<longrightarrow> cs' ! k = t_columns S ! k)" unfolding moving_def by auto
  let ?cs = "cs[i := (cs ! i)\<lparr>col_data := a\<rparr>]"
  have "set_data dst i a = D\<lparr>t_columns := ?cs\<rparr>" by (simp add: *)
  moreover have "\<forall>k < length ?cs. col_ti (?cs ! k) = col_ti (t_columns D ! k) \<and> (k < Suc i \<longrightarrow> dst_done D di S si emplace k (col_data (?cs ! k))) \<and>
      (Suc i \<le> k \<longrightarrow> ?cs ! k = t_columns D ! k)" using * a i by (auto simp: nth_list_update less_Suc_eq)
  ultimately show ?thesis unfolding moving_def prod.case by (intro exI [of _ ?cs] exI [of _ cs'] conjI) (use *(2,3,4,6) in simp_all)
qed

lemma moving_src:
  assumes m: "moving D di S si emplace is_last i j (dst, src, log)" and j: "j < length (t_columns S)"
    and b: "src_done S si is_last j b"
  shows "moving D di S si emplace is_last i (Suc j) (dst, set_data src j b, log')"
proof -
  from m obtain cs cs' where *: "dst = D\<lparr>t_columns := cs\<rparr>" "src = S\<lparr>t_columns := cs'\<rparr>"
    "length cs = length (t_columns D)" "length cs' = length (t_columns S)"
    "\<forall>k < length cs. col_ti (cs ! k) = col_ti (t_columns D ! k) \<and> (k < i \<longrightarrow> dst_done D di S si emplace k (col_data (cs ! k))) \<and>
      (i \<le> k \<longrightarrow> cs ! k = t_columns D ! k)"
    "\<forall>k < length cs'. col_ti (cs' ! k) = col_ti (t_columns S ! k) \<and> (k < j \<longrightarrow> src_done S si is_last k (col_data (cs' ! k))) \<and>
      (j \<le> k \<longrightarrow> cs' ! k = t_columns S ! k)" unfolding moving_def by auto
  let ?cs = "cs'[j := (cs' ! j)\<lparr>col_data := b\<rparr>]"
  have "set_data src j b = S\<lparr>t_columns := ?cs\<rparr>" by (simp add: *)
  moreover have "\<forall>k < length ?cs. col_ti (?cs ! k) = col_ti (t_columns S ! k) \<and> (k < Suc j \<longrightarrow> src_done S si is_last k (col_data (?cs ! k))) \<and>
      (Suc j \<le> k \<longrightarrow> ?cs ! k = t_columns S ! k)" using * b j by (auto simp: nth_list_update less_Suc_eq)
  ultimately show ?thesis unfolding moving_def prod.case by (intro exI [of _ cs] exI [of _ ?cs] conjI) (use *(1,3,4,5) in simp_all)
qed

lemma moving_columns:
  assumes "moving D di S si emplace is_last i j (dst, src, log)"
  shows "i \<le> k \<Longrightarrow> k < length (t_columns D) \<Longrightarrow> t_columns dst ! k = t_columns D ! k"
    and "j \<le> l \<Longrightarrow> l < length (t_columns S) \<Longrightarrow> t_columns src ! l = t_columns S ! l"
    and "same_shape D dst" "same_shape S src" "t_entities dst = t_entities D" "t_entities src = t_entities S"
    and "\<exists>cs. dst = D\<lparr>t_columns := cs\<rparr> \<and> length cs = length (t_columns D)" "\<exists>cs. src = S\<lparr>t_columns := cs\<rparr> \<and> length cs = length (t_columns S)"
  using assms unfolding moving_def by (auto simp: same_shape_def)


definition move_ready :: "'v::zero ecs_table \<Rightarrow> nat \<Rightarrow> 'v ecs_table \<Rightarrow> nat \<Rightarrow> bool" where
  \<comment> \<open>two tables between which a row can be moved: the row of the destination is there but not constructed\<close>
  "move_ready D di S si \<longleftrightarrow> table_wf D \<and> table_wf S \<and> t_count D = Suc di \<and> si < t_count S \<and>
    table_live D (\<lambda>_ r. r < di) \<and> table_live S (\<lambda>_ r. r < t_count S) \<and>
    (\<forall>i < length (t_columns D). \<forall>j < length (t_columns S). cid D i = cid S j \<longrightarrow> col_ti (t_columns D ! i) = col_ti (t_columns S ! j)) \<and>
    (\<forall>j < length (t_columns S). movable (col_ti (t_columns S ! j))) \<and> sorted_wrt (<) (cids D) \<and> sorted_wrt (<) (cids S)"

lemma move_ready_dst:
  assumes "move_ready D di S si" "i < length (t_columns D)"
  shows "column_wf D (t_size D) i (t_columns D ! i)" "di < length (col_data (t_columns D ! i))"
    "needs_dtor (col_ti (t_columns D ! i)) \<Longrightarrow> col_data (t_columns D ! i) ! di = Raw" "length (col_data (t_columns D ! i)) = t_size D"
proof -
  show wf: "column_wf D (t_size D) i (t_columns D ! i)" and di: "di < length (col_data (t_columns D ! i))"
    and "length (col_data (t_columns D ! i)) = t_size D"
    using assms by (auto simp: move_ready_def table_wf_def column_wf_def)
  show "col_data (t_columns D ! i) ! di = Raw" if "needs_dtor (col_ti (t_columns D ! i))"
    using assms di that by (auto simp: move_ready_def table_live_def cells_live_def cell_ok_def)
qed

lemma move_ready_src:
  assumes "move_ready D di S si" "j < length (t_columns S)"
  shows "column_wf S (t_size S) j (t_columns S ! j)" "si < length (col_data (t_columns S ! j))"
    "typed (col_ti (t_columns S ! j)) \<Longrightarrow> col_data (t_columns S ! j) ! si \<noteq> Raw" "movable (col_ti (t_columns S ! j))"
proof -
  show wf: "column_wf S (t_size S) j (t_columns S ! j)" and si: "si < length (col_data (t_columns S ! j))" and "movable (col_ti (t_columns S ! j))"
    using assms by (auto simp: move_ready_def table_wf_def column_wf_def)
  show "col_data (t_columns S ! j) ! si \<noteq> Raw" if "typed (col_ti (t_columns S ! j))"
    using assms si that by (auto simp: move_ready_def table_live_def cells_live_def cell_ok_def)
qed

lemma distinct_cids: "sorted_wrt (<) (cids t) \<Longrightarrow> i < length (t_columns t) \<Longrightarrow> j < length (t_columns t) \<Longrightarrow> cid t i = cid t j \<Longrightarrow> i = j"
proof -
  assume s: "sorted_wrt (<) (cids t)" and ij: "i < length (t_columns t)" "j < length (t_columns t)" and eq: "cid t i = cid t j"
  have "distinct (cids t)" using s by (simp add: strict_sorted_iff)
  with ij eq show "i = j" using nth_eq_iff_index_eq [of "cids t" i j] by (simp add: cids_def)
qed

lemma move_both_step:
  assumes R: "move_ready D di S si" and i: "i < length (t_columns D)" and j: "j < length (t_columns S)" and eq: "cid D i = cid S j"
    and m: "moving D di S si emplace is_last i j st"
  shows "returns (move_both is_last di si i j st) (moving D di S si emplace is_last (Suc i) (Suc j))"
proof -
  obtain dst src log where st: "st = (dst, src, log)" by (cases st)
  note m = m [unfolded st]
  note cols = moving_columns(1,2) [OF m order.refl] and Ds = move_ready_dst [OF R i] and Ss = move_ready_src [OF R j]
  let ?ti = "col_ti (t_columns D ! i)" and ?a = "col_data (t_columns D ! i)" and ?b = "col_data (t_columns S ! j)"
  have ti: "col_ti (t_columns S ! j) = ?ti" using R i j eq by (simp add: move_ready_def)
  have ok: "ti_ok ?ti" "ti_size ?ti \<noteq> 0" using Ds(1) by (simp_all add: column_wf_def)
  let ?f = "if relocates ?ti is_last then flecs_type_info_ctor_move_dtor ?ti else flecs_type_info_move_ctor ?ti"
  have e: "move_both is_last di si i j st = bindR (cells_move ?f ?a di ?b si 1) (\<lambda>(a, b). Inr (set_data dst i a, set_data src j b, log))"
    unfolding move_both_def st using cols i j ok
    by (simp add: move_column_def relocates_def Let_def split: if_split)
  have mv: "returns (cells_move ?f ?a di ?b si 1) (\<lambda>(r, s). \<exists>c. r = ?a[di := ?b ! si] \<and> s = ?b[si := c] \<and>
      (if relocates ?ti is_last then needs_dtor ?ti \<longrightarrow> c = Raw else c \<noteq> Raw))"
    by (rule move_both_data [OF ok(1) Ds(2) Ss(2) Ds(3)]) (use Ss(3) ti in simp_all)
  have d: "dst_done D di S si emplace i (?a[di := ?b ! si])"
  proof -
    have "cid D i \<in> set (cids S)" using j eq by (auto simp: cids_def)
    moreover have "cell_ok ?ti True (?b ! si)" using Ss(3) ti by (simp add: cell_ok_def)
    moreover have "l = j" if "l < length (t_columns S)" "cid S l = cid D i" for l
      using distinct_cids [of S l j] R that j eq by (simp add: move_ready_def)
    ultimately show ?thesis unfolding dst_done_def by (intro exI [of _ "?b ! si"]) auto
  qed
  have s: "src_done S si is_last j (?b[si := c])" if "if relocates ?ti is_last then needs_dtor ?ti \<longrightarrow> c = Raw else c \<noteq> Raw" for c
    unfolding src_done_def ti
    by (intro exI [of _ c] exI [of _ "\<not> relocates ?ti is_last"])
      (use that Ss(4) ti in \<open>auto simp: cell_ok_def row_ready_def relocates_def movable_def uses_ctor_move_dtor_def\<close>)
  show ?thesis unfolding e returns_bindR
  proof (rule returns_mono [OF mv])
    fix x assume "case x of (r, s) \<Rightarrow> \<exists>c. r = ?a[di := ?b ! si] \<and> s = ?b[si := c] \<and>
      (if relocates ?ti is_last then needs_dtor ?ti \<longrightarrow> c = Raw else c \<noteq> Raw)"
    then obtain c where x: "x = (?a[di := ?b ! si], ?b[si := c])" and c: "if relocates ?ti is_last then needs_dtor ?ti \<longrightarrow> c = Raw else c \<noteq> Raw"
      by (cases x) auto
    from moving_src [OF moving_dst [OF m i d] j s [OF c]]
    show "returns (case x of (a, b) \<Rightarrow> Inr (set_data dst i a, set_data src j b, log)) (moving D di S si emplace is_last (Suc i) (Suc j))"
      by (simp add: x)
  qed
qed


lemma hook_moved:
  assumes "column_wf t sz i c" "i < length (t_columns t)" "length cs = length (t_columns t)"
  shows "flecs_table_invoke_hook (t\<lparr>t_columns := cs\<rparr>) ev i es r n = Inr [ev i es r n]"
  by (rule invoke_hook_ok [where sz = sz and c = c]) (use assms in \<open>simp_all add: column_wf_def\<close>)

lemma move_new_step:
  fixes D S :: "'v::zero ecs_table"
  assumes R: "move_ready D di S si" and i: "i < length (t_columns D)" and new: "cid D i \<notin> set (cids S)"
    and m: "moving D di S si emplace is_last i j st"
  shows "returns (move_new e di emplace i st) (moving D di S si emplace is_last (Suc i) j)"
proof -
  obtain dst src log where st: "st = (dst, src, log)" by (cases st)
  note m = m [unfolded st]
  note Ds = move_ready_dst [OF R i]
  obtain cs where dst: "dst = D\<lparr>t_columns := cs\<rparr>" and len: "length cs = length (t_columns D)" using moving_columns(7) [OF m] by blast
  have col: "cs ! i = t_columns D ! i" using moving_columns(1) [OF m order.refl i] by (simp add: dst)
  let ?ti = "col_ti (t_columns D ! i)" and ?a = "col_data (t_columns D ! i)"
  have ok: "ti_ok ?ti" and ne: "?a \<noteq> []" using Ds(1,2) by (auto simp: column_wf_def)
  have nj: "cid S j \<noteq> cid D i" if "j < length (t_columns S)" for j
    using new that by (force simp: cids_def)
  have id: "flecs_column_id dst i = Inr (cid D i)"
    using column_id_ok [of dst "t_size D" i "t_columns D ! i"] Ds(1) by (simp add: dst column_wf_def cid_def)
  let ?ev = "if h_on_add (ti_hooks ?ti) then [On_Add i [e] di 1] else []"
  have hook: "flecs_table_invoke_hook (D\<lparr>t_columns := cs'\<rparr>) On_Add i [e] di 1 = Inr [On_Add i [e] di 1]"
    if "length cs' = length (t_columns D)" for cs' by (rule hook_moved [OF Ds(1) i that])
  have b: "b \<noteq> Raw" if "base_of dst i = Some b" "typed ?ti" for b
  proof -
    have "base_of dst i = base_of D i" by (simp add: dst base_of_def)
    then show ?thesis using R that i by (simp add: move_ready_def table_wf_def bases_ok_def)
  qed
  show ?thesis
  proof (cases "cid D i = emplace")
    case True
    have "move_new e di emplace i st = Inr (dst, src, log @ ?ev)"
      using i len ne hook [OF len] col True by (simp add: move_new_def st id flecs_table_invoke_add_hooks_def) (simp add: dst)
    moreover have "dst_done D di S si emplace i ?a"
      unfolding dst_done_def by (rule exI [of _ "?a ! di"]) (use new nj True Ds in \<open>auto simp: cell_ok_def\<close>)
    then have "moving D di S si emplace is_last (Suc i) j (set_data dst i ?a, src, log @ ?ev)" by (rule moving_dst [OF m i])
    moreover have "set_data dst i ?a = dst" by (rule set_data_same) (simp add: dst col)
    ultimately show ?thesis by simp
  next
    case False
    have c: "returns (flecs_table_invoke_ctor_for_array (Some dst) i ?a di 1 ?ti)
      (\<lambda>(r, ev). \<exists>c. r = ?a[di := c] \<and> (typed ?ti \<longrightarrow> c \<noteq> Raw) \<and> (\<forall>b. base_of dst i = Some b \<longrightarrow> c = b))"
      by (rule ctor_elem_ok [OF ok Ds(2) Ds(3) b])
    have eq: "move_new e di emplace i st = bindR (flecs_table_invoke_ctor_for_array (Some dst) i ?a di 1 ?ti)
        (\<lambda>(a, ev). Inr (set_data dst i a, src, log @ ev @ ?ev))"
      using i len ne hook col False
      by (simp add: move_new_def st id flecs_table_invoke_add_hooks_def flecs_table_invoke_ctor_def bindR_assoc split_def) (simp add: dst bindR_assoc)
    show ?thesis unfolding eq returns_bindR
    proof (rule returns_mono [OF c])
      fix x :: "'v cell list \<times> 'v table_event list" assume "case x of (r, ev) \<Rightarrow> \<exists>c. r = ?a[di := c] \<and> (typed ?ti \<longrightarrow> c \<noteq> Raw) \<and> (\<forall>b. base_of dst i = Some b \<longrightarrow> c = b)"
      then obtain c ev where x: "x = (?a[di := c], ev)" and cl: "typed ?ti \<longrightarrow> c \<noteq> Raw" by (cases x) auto
      have "dst_done D di S si emplace i (?a[di := c])"
        unfolding dst_done_def by (rule exI [of _ c]) (use new nj cl False in \<open>auto simp: cell_ok_def\<close>)
      from moving_dst [OF m i this]
      show "returns (case x of (a, ev) \<Rightarrow> Inr (set_data dst i a, src, log @ ev @ ?ev)) (moving D di S si emplace is_last (Suc i) j)"
        by (simp add: x)
    qed
  qed
qed

lemma move_old_step:
  assumes R: "move_ready D di S si" and j: "j < length (t_columns S)"
    and m: "moving D di S si emplace is_last i j st"
  shows "returns (move_old e si is_last j st) (moving D di S si emplace is_last i (Suc j))"
proof -
  obtain dst src log where st: "st = (dst, src, log)" by (cases st)
  note m = m [unfolded st]
  note Ss = move_ready_src [OF R j]
  obtain cs where src: "src = S\<lparr>t_columns := cs\<rparr>" and len: "length cs = length (t_columns S)" using moving_columns(8) [OF m] by blast
  have col: "cs ! j = t_columns S ! j" using moving_columns(2) [OF m order.refl j] by (simp add: src)
  let ?ti = "col_ti (t_columns S ! j)" and ?b = "col_data (t_columns S ! j)"
  have ok: "ti_ok ?ti" and ne: "?b \<noteq> []" using Ss(1,2) by (auto simp: column_wf_def)
  let ?ev = "if h_on_remove (ti_hooks ?ti) then [On_Remove j [e] si 1] else []"
  have hook: "flecs_table_invoke_hook (S\<lparr>t_columns := cs'\<rparr>) On_Remove j [e] si 1 = Inr [On_Remove j [e] si 1]"
    if "length cs' = length (t_columns S)" for cs' by (rule hook_moved [OF Ss(1) j that])
  show ?thesis
  proof (cases is_last)
    case False
    have "move_old e si is_last j st = Inr (dst, src, log @ ?ev)"
      using j len ne hook [OF len] col False by (simp add: move_old_def st flecs_table_invoke_remove_hooks_def) (simp add: src)
    moreover have "src_done S si is_last j ?b"
      unfolding src_done_def
      by (rule exI [of _ "?b ! si"], rule exI [of _ True])
        (use False Ss in \<open>auto simp: cell_ok_def row_ready_def movable_def uses_ctor_move_dtor_def\<close>)
    then have "moving D di S si emplace is_last i (Suc j) (dst, set_data src j ?b, log @ ?ev)" by (rule moving_src [OF m j])
    moreover have "set_data src j ?b = src" by (rule set_data_same) (simp add: src col)
    ultimately show ?thesis by simp
  next
    case True
    have d: "returns (cells_xtor (flecs_type_info_dtor ?ti) ?b si 1) (\<lambda>s. \<exists>c. s = ?b[si := c] \<and> (needs_dtor ?ti \<longrightarrow> c = Raw))"
      by (rule dtor_elem_ok [OF ok Ss(2,3)])
    have eq: "move_old e si is_last j st = bindR (cells_xtor (flecs_type_info_dtor ?ti) ?b si 1) (\<lambda>b. Inr (dst, set_data src j b, log @ ?ev))"
      using j len ne hook [OF len] col True
      by (simp add: move_old_def st flecs_table_invoke_remove_hooks_def flecs_table_invoke_dtor_def bindR_assoc) (simp add: src bindR_assoc)
    show ?thesis unfolding eq returns_bindR returns_Inr
    proof (rule returns_mono [OF d], elim exE conjE)
      fix s c assume s: "s = ?b[si := c]" and c: "needs_dtor ?ti \<longrightarrow> c = Raw"
      have "src_done S si is_last j s"
        unfolding src_done_def by (rule exI [of _ c], rule exI [of _ False]) (use s c True in \<open>auto simp: cell_ok_def row_ready_def\<close>)
      then show "moving D di S si emplace is_last i (Suc j) (dst, set_data src j s, log @ ?ev)" by (rule moving_src [OF m j])
    qed
  qed
qed


lemma move_columns_ok:
  assumes R: "move_ready D di S si"
  shows "returns (merge_columns (move_both is_last di si) (move_new e di emplace) (move_old e' si is_last)
      (move_new e di emplace) (move_old e' si is_last) (cids D) (cids S) 0 0 (D, S, []))
    (moving D di S si emplace is_last (length (t_columns D)) (length (t_columns S)))"
proof -
  have len: "length (cids t) = length (t_columns t)" for t :: "'a ecs_table" by (simp add: cids_def)
  have nth: "i < length (t_columns t) \<Longrightarrow> cids t ! i = cid t i" for t :: "'a ecs_table" and i by (simp add: cids_def)
  have "returns (merge_columns (move_both is_last di si) (move_new e di emplace) (move_old e' si is_last)
      (move_new e di emplace) (move_old e' si is_last) (drop 0 (cids D)) (drop 0 (cids S)) 0 0 (D, S, []))
    (moving D di S si emplace is_last (length (cids D)) (length (cids S)))"
  proof (rule merge_columns_aux)
    show "sorted_wrt (<) (cids D)" "sorted_wrt (<) (cids S)" using R by (simp_all add: move_ready_def)
    show "moving D di S si emplace is_last 0 0 (D, S, [])"
      unfolding moving_def prod.case by (intro exI [of _ "t_columns D"] exI [of _ "t_columns S"]) simp
  qed (use move_both_step [OF R] move_new_step [OF R] move_old_step [OF R] in \<open>simp_all add: len nth\<close>)
  then show ?thesis by (simp add: len)
qed

lemma copy_step:
  assumes R: "move_ready D di S si" and plain: "\<not> has_flag (t_flags D) EcsTableIsComplex" "\<not> has_flag (t_flags S) EcsTableIsComplex"
    and i: "i < length (t_columns D)" and j: "j < length (t_columns S)" and eq: "cid D i = cid S j"
    and m: "moving D di S si emplace is_last i j st"
  shows "returns (move_column copy_cell di si i j st) (moving D di S si emplace is_last (Suc i) (Suc j))"
proof -
  obtain dst src log where st: "st = (dst, src, log)" by (cases st)
  note m = m [unfolded st]
  note cols = moving_columns(1,2) [OF m order.refl] and Ds = move_ready_dst [OF R i] and Ss = move_ready_src [OF R j]
  let ?a = "col_data (t_columns D ! i)" and ?b = "col_data (t_columns S ! j)"
  have wf: "table_wf D" "table_wf S" using R by (simp_all add: move_ready_def)
  have no: "\<not> typed (col_ti (t_columns D ! i))" "\<not> needs_dtor (col_ti (t_columns D ! i))" "\<not> needs_dtor (col_ti (t_columns S ! j))"
    "\<not> typed (col_ti (t_columns S ! j))"
    using plain_table(1) [OF wf(1) plain(1) i] plain_table(1) [OF wf(2) plain(2) j] by auto
  have mv: "returns (cells_move copy_cell ?a di ?b si 1) (\<lambda>(r, s). \<exists>c. r = ?a[di := ?b ! si] \<and> s = ?b[si := c] \<and> raws [c])"
    by (rule move_elem_ok [where P = raws, OF Ds(2) Ss(2)]) (simp add: copy_cell_def relocate_def)
  have d: "dst_done D di S si emplace i (?a[di := ?b ! si])"
  proof -
    have "l = j" if "l < length (t_columns S)" "cid S l = cid D i" for l
      using distinct_cids [of S l j] R that j eq by (simp add: move_ready_def)
    with no show ?thesis unfolding dst_done_def by (intro exI [of _ "?b ! si"]) (auto simp: cell_ok_def)
  qed
  have nmd: "h_move_dtor (ti_hooks (col_ti (t_columns S ! j))) = None"
    using ti_ok_plain(1) [OF _ no(4)] Ss(1) by (simp add: column_wf_def no_lifecycle_def)
  have s: "src_done S si is_last j (?b[si := c])" for c
    unfolding src_done_def by (intro exI [of _ c] exI [of _ False]) (use no nmd in \<open>auto simp: cell_ok_def row_ready_def\<close>)
  have e: "move_column copy_cell di si i j st = bindR (cells_move copy_cell ?a di ?b si 1) (\<lambda>(a, b). Inr (set_data dst i a, set_data src j b, log))"
    using cols i j by (simp add: move_column_def st)
  show ?thesis unfolding e returns_bindR
    by (rule returns_mono [OF mv]) (use moving_src [OF moving_dst [OF m i d] j s] in auto)
qed

lemma fast_move_ok:
  assumes R: "move_ready D di S si" and plain: "\<not> has_flag (t_flags D) EcsTableIsComplex" "\<not> has_flag (t_flags S) EcsTableIsComplex"
  shows "returns (flecs_table_fast_move D di S si) (moving D di S si emplace is_last (length (t_columns D)) (length (t_columns S)))"
proof -
  have len: "length (cids t) = length (t_columns t)" for t :: "'a ecs_table" by (simp add: cids_def)
  have nth: "i < length (t_columns t) \<Longrightarrow> cids t ! i = cid t i" for t :: "'a ecs_table" and i by (simp add: cids_def)
  have wf: "table_wf D" "table_wf S" using R by (simp_all add: move_ready_def)
  have skip: "moving D di S si emplace is_last (Suc i) j st" if "i < length (t_columns D)" "cid D i \<notin> set (cids S)" "moving D di S si emplace is_last i j st" for i j st
  proof -
    obtain dst src log where st: "st = (dst, src, log)" by (cases st)
    note m = that(3) [unfolded st]
    let ?a = "col_data (t_columns D ! i)"
    have nj: "cid S j \<noteq> cid D i" if "j < length (t_columns S)" for j using \<open>cid D i \<notin> set (cids S)\<close> that by (force simp: cids_def)
    have "dst_done D di S si emplace i ?a"
      unfolding dst_done_def by (rule exI [of _ "?a ! di"]) (use nj plain_table(1) [OF wf(1) plain(1) that(1)] in \<open>auto simp: cell_ok_def\<close>)
    then have "moving D di S si emplace is_last (Suc i) j (set_data dst i ?a, src, log)" by (rule moving_dst [OF m that(1)])
    moreover have "set_data dst i ?a = dst" by (rule set_data_same) (use moving_columns(1) [OF m] that(1) in simp)
    ultimately show ?thesis by (simp add: st)
  qed
  have skip': "moving D di S si emplace is_last i (Suc j) st" if "j < length (t_columns S)" "moving D di S si emplace is_last i j st" for i j st
  proof -
    obtain dst src log where st: "st = (dst, src, log)" by (cases st)
    note m = that(2) [unfolded st]
    let ?b = "col_data (t_columns S ! j)"
    note no = plain_table(1) [OF wf(2) plain(2) that(1)]
    have "h_move_dtor (ti_hooks (col_ti (t_columns S ! j))) = None"
      using ti_ok_plain(1) no move_ready_src(1) [OF R that(1)] by (auto simp: column_wf_def no_lifecycle_def)
    then have "src_done S si is_last j ?b"
      unfolding src_done_def by (intro exI [of _ "?b ! si"] exI [of _ False]) (use no in \<open>auto simp: cell_ok_def row_ready_def\<close>)
    then have "moving D di S si emplace is_last i (Suc j) (dst, set_data src j ?b, log)" by (rule moving_src [OF m that(1)])
    moreover have "set_data src j ?b = src" by (rule set_data_same) (use moving_columns(2) [OF m] that(1) in simp)
    ultimately show ?thesis by (simp add: st)
  qed
  have "returns (merge_columns (move_column copy_cell di si) (\<lambda>_. Inr) (\<lambda>_. Inr) (\<lambda>_. Inr) (\<lambda>_. Inr) (drop 0 (cids D)) (drop 0 (cids S)) 0 0 (D, S, []))
    (moving D di S si emplace is_last (length (cids D)) (length (cids S)))"
  proof (rule merge_columns_aux)
    show "sorted_wrt (<) (cids D)" "sorted_wrt (<) (cids S)" using R by (simp_all add: move_ready_def)
    show "moving D di S si emplace is_last 0 0 (D, S, [])"
      unfolding moving_def prod.case by (intro exI [of _ "t_columns D"] exI [of _ "t_columns S"]) simp
  qed (use copy_step [OF R plain] skip skip' in \<open>simp_all add: len nth\<close>)
  then show ?thesis using column_ids_ok [OF wf(1)] column_ids_ok [OF wf(2)] by (simp add: len flecs_table_fast_move_def)
qed


section \<open>Moving the toggle bits\<close>

definition bits_ready :: "'v ecs_table \<Rightarrow> bool" where
  "bits_ready t \<longleftrightarrow> length (bs_ids t) = length (t_bs t) \<and> sorted_wrt (<) (bs_ids t)"

lemma bits_ready_shape: "same_shape t t' \<Longrightarrow> bits_ready t' = bits_ready t"
  by (simp add: bits_ready_def bs_ids_def same_shape_def)

definition bit_done :: "'v ecs_table \<Rightarrow> nat \<Rightarrow> 'v ecs_table \<Rightarrow> nat \<Rightarrow> nat \<Rightarrow> ecs_bitset \<Rightarrow> bool" where
  "bit_done D di S si i b \<longleftrightarrow> bs_ok b \<and> bs_count b = int (Suc di) \<and> (\<exists>v. bs_list b = (bs_list (t_bs D ! i))[di := v] \<and>
    (\<forall>j < length (t_bs S). bs_ids S ! j = bs_ids D ! i \<longrightarrow> v = bs_list (t_bs S ! j) ! si) \<and>
    (bs_ids D ! i \<notin> set (bs_ids S) \<longrightarrow> v = bs_list (t_bs D ! i) ! di))"

definition moving_bits :: "'v ecs_table \<Rightarrow> nat \<Rightarrow> 'v ecs_table \<Rightarrow> nat \<Rightarrow> nat \<Rightarrow> nat \<Rightarrow> 'v ecs_table \<times> 'v ecs_table \<Rightarrow> bool" where
  "moving_bits D di S si i j = (\<lambda>(dst, src). src = S \<and> (\<exists>bs. dst = D\<lparr>t_bs := bs\<rparr> \<and> length bs = length (t_bs D) \<and>
    (\<forall>k < length bs. (k < i \<longrightarrow> bit_done D di S si k (bs ! k)) \<and> (i \<le> k \<longrightarrow> bs ! k = t_bs D ! k))))"

lemma copy_one_bit:
  assumes s: "bs_ok s" "bs_count s = int n" "si < n" and d: "bs_ok d" "bs_count d = int (Suc di)"
  shows "returns (bindR (flecs_bitset_ensure d (int (di + 1))) (for_loop (copy_bit s si di) 0 1)) (\<lambda>b. bs_ok b \<and> bs_count b = int (Suc di) \<and>
    bs_list b = (bs_list d)[di := bs_list s ! si])"
proof -
  have "int (di + 1) \<le> bs_max" "length (bs_list d) = Suc di" using bs_count_max [OF d(1)] d by simp_all
  then obtain E where E: "flecs_bitset_ensure d (int (di + 1)) = Inr E" and e: "bs_ok E" "bs_list E = bs_list d"
    and c: "bs_count E = int (Suc di)"
    using bitset_ensure_ok [OF d(1), of "int (di + 1)"] d by (auto simp: returns_iff)
  have g: "flecs_bitset_get s (int (si + 0)) = Inr (bs_list s ! si)" using bitset_get_ok [OF s(1), of "int si"] s by simp
  have "returns (flecs_bitset_set E (int (di + 0)) (bs_list s ! si)) (\<lambda>b. bs_ok b \<and> bs_count b = int (Suc di) \<and> bs_list b = (bs_list d)[di := bs_list s ! si])"
    by (rule returns_mono [OF bitset_set_ok [OF e(1)]]) (simp add: c e)
  then show ?thesis unfolding E bindR_Inr using g by (simp add: copy_bit_def returns_iff) auto
qed

lemma move_bits_ok:
  fixes D S :: "'v ecs_table"
  assumes r: "bits_ready D" "bits_ready S" and D: "\<And>b. b \<in> set (t_bs D) \<Longrightarrow> bs_ok b \<and> bs_count b = int (Suc di)"
    and S: "\<And>b. b \<in> set (t_bs S) \<Longrightarrow> bs_ok b \<and> bs_count b = int n" and si: "si < n"
  shows "returns (flecs_table_move_bitset_columns D di S si 1 False) (moving_bits D di S si (length (t_bs D)) (length (t_bs S)))"
proof -
  let ?both = "\<lambda>i_new i_old (dst, src). bindR (arr_get (t_bs src) i_old) (\<lambda>src_bs. bindR (arr_get (t_bs dst) i_new) (\<lambda>dst_bs.
      bindR (flecs_bitset_ensure dst_bs (int (di + 1))) (\<lambda>dst_bs. bindR (for_loop (copy_bit src_bs si di) 0 1 dst_bs)
        (\<lambda>dst_bs. Inr (dst\<lparr>t_bs := (t_bs dst)[i_new := dst_bs]\<rparr>, src)))))"
  let ?old = "\<lambda>i_old (dst, src). Inr (dst, src)"
  have len: "length (bs_ids D) = length (t_bs D)" "length (bs_ids S) = length (t_bs S)" using r by (simp_all add: bits_ready_def)
  have "returns (merge_columns ?both (\<lambda>_. Inr) ?old (\<lambda>_. Inr) ?old (drop 0 (bs_ids D)) (drop 0 (bs_ids S)) 0 0 (D, S))
    (moving_bits D di S si (length (bs_ids D)) (length (bs_ids S)))"
  proof (rule merge_columns_aux)
    show "sorted_wrt (<) (bs_ids D)" "sorted_wrt (<) (bs_ids S)" using r by (simp_all add: bits_ready_def)
    show "moving_bits D di S si 0 0 (D, S)" unfolding moving_bits_def prod.case by (intro conjI exI [of _ "t_bs D"]) simp_all
  next
    fix i j and st :: "'v ecs_table \<times> 'v ecs_table"
    assume i: "i < length (bs_ids D)" and j: "j < length (bs_ids S)" and eq: "bs_ids D ! i = bs_ids S ! j" and m: "moving_bits D di S si i j st"
    from m obtain bs where st: "st = (D\<lparr>t_bs := bs\<rparr>, S)" and bs: "length bs = length (t_bs D)"
      "\<And>k. k < length bs \<Longrightarrow> (k < i \<longrightarrow> bit_done D di S si k (bs ! k)) \<and> (i \<le> k \<longrightarrow> bs ! k = t_bs D ! k)"
      unfolding moving_bits_def by (cases st) auto
    have ij: "i < length bs" "j < length (t_bs S)" "bs ! i = t_bs D ! i" using i j bs len by auto
    then have c: "returns (bindR (flecs_bitset_ensure (bs ! i) (int (di + 1))) (for_loop (copy_bit (t_bs S ! j) si di) 0 1))
      (\<lambda>b. bs_ok b \<and> bs_count b = int (Suc di) \<and> bs_list b = (bs_list (t_bs D ! i))[di := bs_list (t_bs S ! j) ! si])"
      using copy_one_bit [of "t_bs S ! j" n si "bs ! i" di] S [of "t_bs S ! j"] D [of "bs ! i"] si bs(1) by simp
    have "l = j" if "l < length (bs_ids S)" "bs_ids S ! l = bs_ids D ! i" for l
      using that j eq r nth_eq_iff_index_eq [of "bs_ids S" l j] by (simp add: bits_ready_def strict_sorted_iff)
    moreover have "bs_ids D ! i \<in> set (bs_ids S)" using eq j by simp
    ultimately have done': "bit_done D di S si i b" if "bs_ok b \<and> bs_count b = int (Suc di) \<and> bs_list b = (bs_list (t_bs D ! i))[di := bs_list (t_bs S ! j) ! si]" for b
      using that len unfolding bit_done_def by auto
    have e: "?both i j st = bindR (bindR (flecs_bitset_ensure (bs ! i) (int (di + 1))) (for_loop (copy_bit (t_bs S ! j) si di) 0 1))
        (\<lambda>b. Inr (D\<lparr>t_bs := bs[i := b]\<rparr>, S))"
      using ij by (simp add: st bindR_assoc)
    show "returns (?both i j st) (moving_bits D di S si (Suc i) (Suc j))" unfolding e
    proof (subst returns_bindR, unfold returns_Inr, rule returns_mono [OF c])
      fix b assume "bs_ok b \<and> bs_count b = int (Suc di) \<and> bs_list b = (bs_list (t_bs D ! i))[di := bs_list (t_bs S ! j) ! si]"
      from done' [OF this] show "moving_bits D di S si (Suc i) (Suc j) (D\<lparr>t_bs := bs[i := b]\<rparr>, S)"
        unfolding moving_bits_def prod.case by (intro conjI exI [of _ "bs[i := b]"]) (use bs ij in \<open>auto simp: nth_list_update less_Suc_eq\<close>)
    qed
  next
    fix i j and st :: "'v ecs_table \<times> 'v ecs_table"
    assume i: "i < length (bs_ids D)" and no: "bs_ids D ! i \<notin> set (bs_ids S)" and m: "moving_bits D di S si i j st"
    have nj: "bs_ids S ! j \<noteq> bs_ids D ! i" if "j < length (t_bs S)" for j using no that len by (metis nth_mem)
    have "length (bs_list (t_bs D ! i)) = Suc di" using i len D [of "t_bs D ! i"] by simp
    then have "bit_done D di S si i (t_bs D ! i)"
      unfolding bit_done_def using i len D [of "t_bs D ! i"] nj by (intro conjI exI [of _ "bs_list (t_bs D ! i) ! di"]) simp_all
    with m show "returns (Inr st) (moving_bits D di S si (Suc i) j) \<and> returns (Inr st) (moving_bits D di S si (Suc i) j)"
      unfolding moving_bits_def by (auto simp: less_Suc_eq)
  qed (auto simp: moving_bits_def)
  then show ?thesis by (simp add: len flecs_table_move_bitset_columns_def Let_def)
qed


section \<open>The whole move\<close>

definition row_moved :: "'v::zero ecs_table \<Rightarrow> nat \<Rightarrow> 'v ecs_table \<Rightarrow> nat \<Rightarrow> 64 word \<Rightarrow> 'v ecs_table \<Rightarrow> 'v ecs_table \<Rightarrow> bool" where
  "row_moved D di S si emplace D' S' \<longleftrightarrow> (\<exists>bs log. length bs = length (t_bs D) \<and> (\<forall>k < length bs. bit_done D di S si k (bs ! k)) \<and>
    moving (D\<lparr>t_bs := bs\<rparr>) di S si emplace (t_count S = si + 1) (length (t_columns D)) (length (t_columns S)) (D', S', log))"

lemma move_ready_bits:
  assumes R: "move_ready D di S si" and bs: "length bs = length (t_bs D)" "\<And>k. k < length bs \<Longrightarrow> bit_done D di S si k (bs ! k)"
  shows "move_ready (D\<lparr>t_bs := bs\<rparr>) di S si"
proof -
  let ?D = "D\<lparr>t_bs := bs\<rparr>"
  have wf: "table_wf D" and c: "t_count D = Suc di" using R by (simp_all add: move_ready_def)
  have "?D = D\<lparr>t_entities := t_entities D, t_dirty := t_dirty D, t_version := t_version D, t_flags := t_flags D, t_count := t_count D,
      t_size := t_size D, t_columns := t_columns D, t_bs := bs\<rparr>" by simp
  then have "table_wf ?D"
    by (rule table_update [OF wf]) (use wf bs c in \<open>auto simp: table_wf_def column_wf_def bit_done_def in_set_conv_nth\<close>)
  moreover have "cids ?D = cids D" "\<And>i. cid ?D i = cid D i" by (simp_all add: cids_def cid_def [abs_def])
  ultimately show ?thesis using R by (simp add: move_ready_def table_live_def)
qed

lemma table_move_ok:
  fixes D S :: "'v::zero ecs_table"
  assumes R: "move_ready D di S si" and b: "bits_ready D" "bits_ready S" and lock: "t_lock D = 0" "t_lock S = 0"
  shows "returns (flecs_table_move e e' D di S si emplace) (\<lambda>(D', S', log). row_moved D di S si emplace D' S')"
proof -
  have wf: "table_wf D" "table_wf S" and c: "t_count D = Suc di" "si < t_count S" using R by (simp_all add: move_ready_def)
  show ?thesis
  proof (cases "has_flag (t_flags D OR t_flags S) (EcsTableIsComplex OR EcsTableHasIsA)")
    case False
    then have plain: "\<not> has_flag (t_flags D) EcsTableIsComplex" "\<not> has_flag (t_flags S) EcsTableIsComplex"
      unfolding has_flag_or has_flag_or_right by blast+
    have noop: "D\<lparr>t_bs := []\<rparr> = D" using plain_table(2) [OF wf(1) plain(1)] by (cases D) simp
    have "row_moved D di S si emplace D' S'" if m: "moving D di S si emplace (t_count S = si + 1) (length (t_columns D)) (length (t_columns S)) (D', S', log)" for D' S' log
    proof -
      have "moving (D\<lparr>t_bs := []\<rparr>) di S si emplace (t_count S = si + 1) (length (t_columns D)) (length (t_columns S)) (D', S', log)"
        unfolding noop by (rule m)
      then show ?thesis using plain_table(2) [OF wf(1) plain(1)] unfolding row_moved_def by auto
    qed
    then show ?thesis unfolding flecs_table_move_def using lock False
      by (simp del: EcsTableIsComplex_def EcsTableHasIsA_def)
        (rule returns_mono [OF fast_move_ok [OF R plain, of emplace "t_count S = si + 1"]], auto)
  next
    case True
    have bits: "returns (flecs_table_move_bitset_columns D di S si 1 False) (moving_bits D di S si (length (t_bs D)) (length (t_bs S)))"
      by (rule move_bits_ok [OF b, where n = "t_count S"]) (use wf c in \<open>auto simp: table_wf_def\<close>)
    let ?last = "t_count S = si + 1"
    have eq: "flecs_table_move e e' D di S si emplace = bindR (flecs_table_move_bitset_columns D di S si 1 False) (\<lambda>(dst, src).
        bindR (column_ids dst) (\<lambda>ds. bindR (column_ids src) (\<lambda>ss.
        merge_columns (move_both (t_count src = si + 1) di si) (move_new e di emplace) (move_old e' si (t_count src = si + 1))
          (move_new e di emplace) (move_old e' si (t_count src = si + 1)) ds ss 0 0 (dst, src, []))))"
      unfolding flecs_table_move_def using lock True by (simp add: Let_def split_def del: EcsTableIsComplex_def EcsTableHasIsA_def)
    show ?thesis unfolding eq returns_bindR
    proof (rule returns_mono [OF bits])
      fix x :: "'v ecs_table \<times> 'v ecs_table" assume "moving_bits D di S si (length (t_bs D)) (length (t_bs S)) x"
      then obtain bs where x: "x = (D\<lparr>t_bs := bs\<rparr>, S)" and bs: "length bs = length (t_bs D)" "\<And>k. k < length bs \<Longrightarrow> bit_done D di S si k (bs ! k)"
        unfolding moving_bits_def by (cases x) auto
      let ?D = "D\<lparr>t_bs := bs\<rparr>"
      note R' = move_ready_bits [OF R bs]
      have wf': "table_wf ?D" using R' by (simp add: move_ready_def)
      have "returns (merge_columns (move_both ?last di si) (move_new e di emplace) (move_old e' si ?last)
          (move_new e di emplace) (move_old e' si ?last) (cids ?D) (cids S) 0 0 (?D, S, [])) (\<lambda>(D', S', log). row_moved D di S si emplace D' S')"
        by (rule returns_mono [OF move_columns_ok [OF R', of ?last e emplace e']]) (use bs in \<open>auto simp: row_moved_def\<close>)
      then show "returns (case x of (dst, src) \<Rightarrow> bindR (column_ids dst) (\<lambda>ds. bindR (column_ids src) (\<lambda>ss.
        merge_columns (move_both (t_count src = si + 1) di si) (move_new e di emplace) (move_old e' si (t_count src = si + 1))
          (move_new e di emplace) (move_old e' si (t_count src = si + 1)) ds ss 0 0 (dst, src, [])))) (\<lambda>(D', S', log). row_moved D di S si emplace D' S')"
        by (simp add: x column_ids_ok [OF wf'] column_ids_ok [OF wf(2)])
    qed
  qed
qed

lemma row_moved_dst:
  assumes R: "move_ready D di S si" and m: "row_moved D di S si emplace D' S'"
  shows "table_wf D'" "same_shape D D'" "t_count D' = Suc di" "t_ents D' = t_ents D" "t_size D' = t_size D"
    and "\<And>i. i < length (t_columns D) \<Longrightarrow> dst_done D di S si emplace i (col_data (t_columns D' ! i))"
    and "\<And>i. i < length (t_bs D) \<Longrightarrow> bit_done D di S si i (t_bs D' ! i)"
proof -
  obtain bs log where bs: "length bs = length (t_bs D)" "\<And>k. k < length bs \<Longrightarrow> bit_done D di S si k (bs ! k)"
    and mv: "moving (D\<lparr>t_bs := bs\<rparr>) di S si emplace (t_count S = si + 1) (length (t_columns D)) (length (t_columns S)) (D', S', log)"
    using m by (auto simp: row_moved_def)
  have wf: "table_wf D" and c: "t_count D = Suc di" using R by (simp_all add: move_ready_def)
  obtain cs where D': "D' = D\<lparr>t_bs := bs, t_columns := cs\<rparr>" and len: "length cs = length (t_columns D)"
    and cs: "\<And>k. k < length cs \<Longrightarrow> col_ti (cs ! k) = col_ti (t_columns D ! k) \<and> dst_done (D\<lparr>t_bs := bs\<rparr>) di S si emplace k (col_data (cs ! k))"
    using mv unfolding moving_def by auto
  have dd: "dst_done (D\<lparr>t_bs := bs\<rparr>) di S si emplace k a = dst_done D di S si emplace k a" for k a by (simp add: dst_done_def cid_def)
  have cl: "col_ti (cs ! i) = col_ti (t_columns D ! i) \<and> length (col_data (cs ! i)) = t_size D" if "i < length cs" for i
    using cs [OF that] move_ready_dst(4) [OF R, of i] that len by (auto simp: dd dst_done_def)
  have tr: "D' = D\<lparr>t_entities := t_entities D, t_dirty := t_dirty D, t_version := t_version D, t_flags := t_flags D, t_count := t_count D,
      t_size := t_size D, t_columns := cs, t_bs := bs\<rparr>" by (cases D) (simp add: D')
  have "length (t_entities D) = t_size D" "t_count D \<le> t_size D" "t_size D \<le> 2 ^ 30" "\<forall>x. t_dirty D = Some x \<longrightarrow> length x = Suc (length (t_columns D))"
    using wf by (auto simp: table_wf_def)
  note * = table_update [OF wf tr this len cl bs(1)]
  have b': "bs_ok b \<and> bs_count b = int (t_count D)" if "b \<in> set bs" for b using bs(2) c that by (auto simp: in_set_conv_nth bit_done_def)
  show "table_wf D'" "same_shape D D'" using * [OF _ b' same_flags_simps(1)] by simp_all
  show "t_count D' = Suc di" "t_ents D' = t_ents D" "t_size D' = t_size D" using c by (simp_all add: D' t_ents_def)
  show "dst_done D di S si emplace i (col_data (t_columns D' ! i))" if "i < length (t_columns D)" for i
    using cs that len by (simp add: D' dd)
  show "bit_done D di S si i (t_bs D' ! i)" if "i < length (t_bs D)" for i using bs that by (simp add: D')
qed

lemma row_moved_src:
  assumes R: "move_ready D di S si" and m: "row_moved D di S si emplace D' S'"
  obtains cs q where "S' = S\<lparr>t_columns := cs\<rparr>" "length cs = length (t_columns S)" "table_wf S'"
    "\<And>j. j < length cs \<Longrightarrow> col_ti (cs ! j) = col_ti (t_columns S ! j) \<and> length (col_data (cs ! j)) = length (col_data (t_columns S ! j)) \<and>
      (\<forall>r < length (col_data (cs ! j)). r \<noteq> si \<longrightarrow> col_data (cs ! j) ! r = col_data (t_columns S ! j) ! r) \<and>
      cells_live (col_ti (cs ! j)) (\<lambda>r. r < t_count S \<and> (r = si \<longrightarrow> q j)) (col_data (cs ! j)) \<and>
      row_ready (col_ti (cs ! j)) (si = t_count S - 1) False (q j)"
proof -
  obtain bs log where mv: "moving (D\<lparr>t_bs := bs\<rparr>) di S si emplace (t_count S = si + 1) (length (t_columns D)) (length (t_columns S)) (D', S', log)"
    using m by (auto simp: row_moved_def)
  have wf: "table_wf S" and c: "si < t_count S" using R by (simp_all add: move_ready_def)
  obtain cs where S': "S' = S\<lparr>t_columns := cs\<rparr>" and len: "length cs = length (t_columns S)"
    and cs: "\<And>k. k < length cs \<Longrightarrow> col_ti (cs ! k) = col_ti (t_columns S ! k) \<and> src_done S si (t_count S = si + 1) k (col_data (cs ! k))"
    using mv unfolding moving_def by auto
  have "\<forall>k. \<exists>q. k < length cs \<longrightarrow> (\<exists>c. col_data (cs ! k) = (col_data (t_columns S ! k))[si := c] \<and>
      cell_ok (col_ti (t_columns S ! k)) q c \<and> row_ready (col_ti (t_columns S ! k)) (t_count S = si + 1) False q)"
    using cs unfolding src_done_def by blast
  then obtain q where q: "\<And>k. k < length cs \<Longrightarrow> \<exists>c. col_data (cs ! k) = (col_data (t_columns S ! k))[si := c] \<and>
      cell_ok (col_ti (t_columns S ! k)) (q k) c \<and> row_ready (col_ti (t_columns S ! k)) (t_count S = si + 1) False (q k)" by metis
  have last: "(si = t_count S - 1) = (t_count S = si + 1)" using c by auto
  have cl: "col_ti (cs ! i) = col_ti (t_columns S ! i) \<and> length (col_data (cs ! i)) = t_size S" if "i < length cs" for i
    using cs [OF that] q [OF that] wf that len by (auto simp: table_wf_def column_wf_def)
  have tr: "S' = S\<lparr>t_entities := t_entities S, t_dirty := t_dirty S, t_version := t_version S, t_flags := t_flags S, t_count := t_count S,
      t_size := t_size S, t_columns := cs, t_bs := t_bs S\<rparr>" by (cases S) (simp add: S')
  have "length (t_entities S) = t_size S" "t_count S \<le> t_size S" "t_size S \<le> 2 ^ 30" "\<forall>x. t_dirty S = Some x \<longrightarrow> length x = Suc (length (t_columns S))"
    using wf by (auto simp: table_wf_def)
  note * = table_update [OF wf tr this len cl refl _ same_flags_simps(1)]
  have "table_wf S'" by (rule *(1)) (use wf in \<open>auto simp: table_wf_def\<close>)
  moreover have "length (col_data (cs ! j)) = length (col_data (t_columns S ! j)) \<and>
      (\<forall>r < length (col_data (cs ! j)). r \<noteq> si \<longrightarrow> col_data (cs ! j) ! r = col_data (t_columns S ! j) ! r) \<and>
      cells_live (col_ti (cs ! j)) (\<lambda>r. r < t_count S \<and> (r = si \<longrightarrow> q j)) (col_data (cs ! j)) \<and>
      row_ready (col_ti (cs ! j)) (si = t_count S - 1) False (q j)" if j: "j < length cs" for j
  proof -
    obtain x where x: "col_data (cs ! j) = (col_data (t_columns S ! j))[si := x]" "cell_ok (col_ti (t_columns S ! j)) (q j) x"
      "row_ready (col_ti (t_columns S ! j)) (t_count S = si + 1) False (q j)" using q [OF j] by blast
    have "cells_live (col_ti (t_columns S ! j)) (\<lambda>r. r < t_count S) (col_data (t_columns S ! j))" using R j len by (simp add: move_ready_def table_live_def)
    moreover have "si < length (col_data (t_columns S ! j))" using move_ready_src(2) [OF R] j len by simp
    ultimately show ?thesis unfolding last using x cs [OF j] c by (auto simp: cells_live_def nth_list_update split: if_split)
  qed
  ultimately show thesis using that [OF S' len] cl by blast
qed

end
