(* ===== verification/Table_Init.thy ===== *)
theory Table_Init
  imports Table_Move Table_Cache
begin

text \<open>
  Making a table for a type (\<open>flecs_table_init\<close> of \<open>storage/table.c\<close>): the table records, by which
  the component records and so the queries find the table, for each id of the type and for the wildcards
  that it matches; the flags and traits of the table; and its columns and bitsets.

  A pointer to a component record is its key, the normal form of its id (\<open>flecs_component_hash\<close> in
  \<open>Flecs_Ids\<close>); what the component records say of an id is a parameter, the record \<open>comp_env\<close>. The names
  that a debug build keeps for display and the name index of a parent are left out.

  The lemmas show that the records are exactly those of the ids and wildcards that the type matches, with
  the index of the first match and the number of matches, and that the new table is well formed and has
  a column for each id with a size that is not stored elsewhere.
\<close>

section \<open>Constants\<close>

definition EcsParent :: "64 word" where "EcsParent = 4"
definition EcsLastInternalComponentId :: "64 word" where "EcsLastInternalComponentId = 5"
definition EcsIdentifier :: "64 word" where "EcsIdentifier = 2"
definition EcsPoly :: "64 word" where "EcsPoly = 3"
definition EcsFlecsCore :: "64 word" where "EcsFlecsCore = 1029"
definition EcsModule :: "64 word" where "EcsModule = 1031"
definition EcsPrefab :: "64 word" where "EcsPrefab = 1033"
definition EcsDisabled :: "64 word" where "EcsDisabled = 1034"
definition EcsNotQueryable :: "64 word" where "EcsNotQueryable = 1035"
definition EcsTransitive :: "64 word" where "EcsTransitive = 1042"
definition EcsInheritable :: "64 word" where "EcsInheritable = 1044"
definition EcsOnInstantiate :: "64 word" where "EcsOnInstantiate = 1045"
definition EcsOverride :: "64 word" where "EcsOverride = 1046"
definition EcsInherit :: "64 word" where "EcsInherit = 1047"
definition EcsDontInherit :: "64 word" where "EcsDontInherit = 1048"
definition EcsPairIsTag :: "64 word" where "EcsPairIsTag = 1049"
definition EcsExclusive :: "64 word" where "EcsExclusive = 1050"
definition EcsTraversable :: "64 word" where "EcsTraversable = 1051"
definition EcsWith :: "64 word" where "EcsWith = 1052"
definition EcsCanToggle :: "64 word" where "EcsCanToggle = 1053"
definition EcsChildOf :: "64 word" where "EcsChildOf = 1054"
definition EcsIsA :: "64 word" where "EcsIsA = 1055"
definition EcsName :: "64 word" where "EcsName = 1057"
definition EcsOnDelete :: "64 word" where "EcsOnDelete = 1063"
definition EcsOnDeleteTarget :: "64 word" where "EcsOnDeleteTarget = 1064"
definition EcsSingleton :: "64 word" where "EcsSingleton = 1073"
definition EcsRemove :: "64 word" where "EcsRemove = 1078"
definition EcsDelete :: "64 word" where "EcsDelete = 1079"
definition EcsPanic :: "64 word" where "EcsPanic = 1080"
definition EcsSparse :: "64 word" where "EcsSparse = 1081"
definition EcsDontFragment :: "64 word" where "EcsDontFragment = 1082"

definition EcsTableHasBuiltins :: "32 word" where "EcsTableHasBuiltins = 0x1"
definition EcsTableHasMultiIsA :: "32 word" where "EcsTableHasMultiIsA = 0x8"
definition EcsTableHasChildOf :: "32 word" where "EcsTableHasChildOf = 0x10"
definition EcsTableHasParent :: "32 word" where "EcsTableHasParent = 0x20"
definition EcsTableHasName :: "32 word" where "EcsTableHasName = 0x40"
definition EcsTableHasPairs :: "32 word" where "EcsTableHasPairs = 0x80"
definition EcsTableHasModule :: "32 word" where "EcsTableHasModule = 0x100"
definition EcsTableHasOverrides :: "32 word" where "EcsTableHasOverrides = 0x2000000"

definition EcsIdOnDeleteRemove :: "32 word" where "EcsIdOnDeleteRemove = 0x1"
definition EcsIdOnDeleteDelete :: "32 word" where "EcsIdOnDeleteDelete = 0x2"
definition EcsIdOnDeletePanic :: "32 word" where "EcsIdOnDeletePanic = 0x4"
definition EcsIdOnDeleteTargetRemove :: "32 word" where "EcsIdOnDeleteTargetRemove = 0x8"
definition EcsIdOnDeleteTargetDelete :: "32 word" where "EcsIdOnDeleteTargetDelete = 0x10"
definition EcsIdOnDeleteTargetPanic :: "32 word" where "EcsIdOnDeleteTargetPanic = 0x20"
definition EcsIdOnInstantiateOverride :: "32 word" where "EcsIdOnInstantiateOverride = 0x40"
definition EcsIdOnInstantiateInherit :: "32 word" where "EcsIdOnInstantiateInherit = 0x80"
definition EcsIdOnInstantiateDontInherit :: "32 word" where "EcsIdOnInstantiateDontInherit = 0x100"
definition EcsIdOnInstantiateMask :: "32 word" where
  "EcsIdOnInstantiateMask = EcsIdOnInstantiateOverride OR EcsIdOnInstantiateInherit OR EcsIdOnInstantiateDontInherit"
definition EcsIdExclusive :: "32 word" where "EcsIdExclusive = 0x200"
definition EcsIdTraversable :: "32 word" where "EcsIdTraversable = 0x400"
definition EcsIdPairIsTag :: "32 word" where "EcsIdPairIsTag = 0x800"
definition EcsIdWith :: "32 word" where "EcsIdWith = 0x1000"
definition EcsIdCanToggle :: "32 word" where "EcsIdCanToggle = 0x2000"
definition EcsIdIsTransitive :: "32 word" where "EcsIdIsTransitive = 0x4000"
definition EcsIdInheritable :: "32 word" where "EcsIdInheritable = 0x8000"
definition EcsIdSparse :: "32 word" where "EcsIdSparse = 0x200000"
definition EcsIdDontFragment :: "32 word" where "EcsIdDontFragment = 0x400000"
definition EcsIdSingleton :: "32 word" where "EcsIdSingleton = 0x2000000"
definition EcsIdEventMask :: "32 word" where
  \<comment> \<open>on add, remove, set, table create and table delete, sparse, ordered children, up notify\<close>
  "EcsIdEventMask = 0x813F0000"

definition ECS_ID_ON_INSTANTIATE :: "32 word \<Rightarrow> 64 word result" where
  "ECS_ID_ON_INSTANTIATE flags =
    arr_get [EcsOverride, EcsOverride, EcsInherit, 0, EcsDontInherit] (unat (drop_bit 6 (flags AND EcsIdOnInstantiateMask)))"

section \<open>State\<close>

record 'v comp_env =
  ce_flags :: "64 word \<Rightarrow> 32 word" \<comment> \<open>flags of the component record with this key\<close>
  ce_info :: "64 word \<Rightarrow> 'v type_info option" \<comment> \<open>its type info\<close>
  ce_get_alive :: "64 word \<Rightarrow> 64 word" \<comment> \<open>the entity with this index, or 0\<close>
  ce_has_module :: "64 word \<Rightarrow> bool" \<comment> \<open>whether an entity is a module\<close>

record table_rec =
  rec_cr :: "64 word"
  rec_index :: int
  rec_count :: nat
  rec_column :: int

record table_meta =
  tm_records :: "table_rec list"
  tm_trait_flags :: "32 word"
  tm_childof_index :: int
  tm_component_map :: "64 word \<Rightarrow> int"
  tm_bloom_filter :: "64 word"

section \<open>Flags\<close>

record init_flags =
  if_flags :: "32 word"
  if_traits :: "32 word"
  if_childof :: int
  if_bs_count :: nat
  if_bs_offset :: nat

definition set_flag :: "32 word \<Rightarrow> init_flags \<Rightarrow> init_flags" where
  "set_flag f s = s\<lparr>if_flags := if_flags s OR f\<rparr>"

definition set_trait :: "32 word \<Rightarrow> init_flags \<Rightarrow> init_flags" where
  "set_trait f s = s\<lparr>if_traits := if_traits s OR f\<rparr>"

definition pair_flags :: "'v comp_env \<Rightarrow> nat \<Rightarrow> 64 word \<Rightarrow> init_flags \<Rightarrow> init_flags result" where
  "pair_flags env i x s =
    (let r = ECS_PAIR_FIRST x; s = set_flag EcsTableHasPairs s in
     if r = EcsIsA then Inr (set_flag EcsTableHasIsA s)
     else if r = EcsChildOf then
       (let s = (set_flag EcsTableHasChildOf s)\<lparr>if_childof := int i\<rparr>; tgt = ce_get_alive env (ECS_PAIR_SECOND x) in
        ecs_assert (tgt \<noteq> 0) ECS_INTERNAL_ERROR
          (let s = (if tgt = EcsFlecsCore then set_flag EcsTableHasBuiltins s else s) in
           Inr (if ce_has_module env tgt then set_flag EcsTableHasModule s else s)))
     else if x = ecs_pair EcsIdentifier EcsName then Inr (set_flag EcsTableHasName s)
     else if r = EcsPoly then Inr (set_flag EcsTableHasModule s)
     else Inr s)"

definition role_flags :: "nat \<Rightarrow> 64 word \<Rightarrow> init_flags \<Rightarrow> init_flags" where
  "role_flags i x s =
    (let s = (if ECS_HAS_ID_FLAG x ECS_TOGGLE
        then (let s = set_flag EcsTableHasToggle s; s = (if if_bs_count s = 0 then s\<lparr>if_bs_offset := i\<rparr> else s)
              in s\<lparr>if_bs_count := if_bs_count s + 1\<rparr>)
        else s) in
     if ECS_HAS_ID_FLAG x ECS_AUTO_OVERRIDE then set_flag EcsTableHasOverrides s else s)"

definition id_trait :: "64 word \<Rightarrow> (init_flags \<Rightarrow> init_flags) option" where
  \<comment> \<open>the branches for builtin ids and pairs of \<open>flecs_table_init_flags\<close>, in their order\<close>
  "id_trait x =
    (if x = EcsModule then Some (set_flag EcsTableHasModule)
     else if x = EcsPrefab then Some (set_flag EcsTableIsPrefab)
     else if x = EcsDisabled then Some (set_flag EcsTableIsDisabled)
     else if x = EcsNotQueryable then Some (set_flag EcsTableNotQueryable)
     else if x = EcsParent then Some (\<lambda>s. set_trait EcsIdTraversable (set_flag EcsTableHasParent s))
     else if ECS_PAIR_FIRST x = EcsWith then Some (set_trait EcsIdWith)
     else if ECS_PAIR_FIRST x = EcsOnDelete then
       (let on_delete_kind = ECS_PAIR_SECOND x in
        Some (if on_delete_kind = EcsRemove then set_trait EcsIdOnDeleteRemove
          else if on_delete_kind = EcsDelete then set_trait EcsIdOnDeleteDelete
          else if on_delete_kind = EcsPanic then set_trait EcsIdOnDeletePanic else (\<lambda>s. s)))
     else if ECS_PAIR_FIRST x = EcsOnDeleteTarget then
       (let on_delete_kind = ECS_PAIR_SECOND x in
        Some (if on_delete_kind = EcsRemove then set_trait EcsIdOnDeleteTargetRemove
          else if on_delete_kind = EcsDelete then set_trait EcsIdOnDeleteTargetDelete
          else if on_delete_kind = EcsPanic then set_trait EcsIdOnDeleteTargetPanic else (\<lambda>s. s)))
     else if ECS_PAIR_FIRST x = EcsOnInstantiate then
       (let inherit_kind = ECS_PAIR_SECOND x in
        Some (if inherit_kind = EcsInherit then set_trait EcsIdOnInstantiateInherit
          else if inherit_kind = EcsOverride then set_trait EcsIdOnInstantiateOverride
          else if inherit_kind = EcsDontInherit then set_trait EcsIdOnInstantiateDontInherit else (\<lambda>s. s)))
     else if x = EcsCanToggle then Some (set_trait EcsIdCanToggle)
     else if x = EcsInheritable then Some (set_trait EcsIdInheritable)
     else if x = EcsSingleton then Some (set_trait EcsIdSingleton)
     else if x = EcsSparse then Some (set_trait EcsIdSparse)
     else if x = EcsDontFragment then Some (set_trait EcsIdDontFragment)
     else if x = EcsExclusive then Some (set_trait EcsIdExclusive)
     else if x = EcsTraversable then Some (set_trait EcsIdTraversable)
     else if x = EcsPairIsTag then Some (set_trait EcsIdPairIsTag)
     else if x = EcsTransitive then Some (set_trait EcsIdIsTransitive)
     else None)"

definition id_flags :: "'v comp_env \<Rightarrow> nat \<Rightarrow> 64 word \<Rightarrow> init_flags \<Rightarrow> init_flags result" where
  "id_flags env i x s =
    (let check_id = (if ECS_IS_PAIR x then ecs_pair (ECS_PAIR_FIRST x) EcsWildcard else x) in
     ecs_assert (\<not> has_flag (ce_flags env (flecs_component_hash check_id)) EcsIdDontFragment) ECS_INVALID_OPERATION
      (let s = (if x \<le> EcsLastInternalComponentId then set_flag EcsTableHasModule s else s) in
       case id_trait x of
         Some f \<Rightarrow> Inr (f s)
       | None \<Rightarrow> if ECS_IS_PAIR x then pair_flags env i x s else Inr (role_flags i x s)))"

fun init_flags_loop :: "'v comp_env \<Rightarrow> nat \<Rightarrow> ecs_type \<Rightarrow> init_flags \<Rightarrow> init_flags result" where
  "init_flags_loop env i [] s = Inr s"
| "init_flags_loop env i (x # xs) s = bindR (id_flags env i x s) (\<lambda>s. init_flags_loop env (Suc i) xs s)"

definition flecs_table_init_flags :: "'v comp_env \<Rightarrow> ecs_type \<Rightarrow> init_flags result" where
  \<comment> \<open>\<open>flecs_init_table\<close> has set the flags of an empty table\<close>
  "flecs_table_init_flags env ty = init_flags_loop env 0 ty
    \<lparr>if_flags = EcsTableEmpty, if_traits = 0, if_childof = - 1, if_bs_count = 0, if_bs_offset = 0\<rparr>"


section \<open>Records\<close>

record scan_state =
  sc_last_id :: int
  sc_first_pair :: int
  sc_first_role :: int
  sc_low :: bool
  sc_bloom :: "64 word"

definition flecs_table_bloom_filter_add :: "64 word \<Rightarrow> 64 word \<Rightarrow> 64 word" where
  "flecs_table_bloom_filter_add filter_bits value = filter_bits OR push_bit (unat (value mod 64)) 1"

definition flecs_table_bloom_filter_test :: "table_meta \<Rightarrow> 64 word \<Rightarrow> bool" where
  "flecs_table_bloom_filter_test m filter_bits \<longleftrightarrow> tm_bloom_filter m AND filter_bits = filter_bits"

definition scan_id :: "int \<Rightarrow> 64 word \<Rightarrow> scan_state \<Rightarrow> scan_state" where
  "scan_id i x s =
    (let s = (if sc_first_pair s = - 1 \<and> ECS_IS_PAIR x then s\<lparr>sc_first_pair := i\<rparr> else s);
         s = (if x AND ECS_COMPONENT_MASK = x then s\<lparr>sc_last_id := i\<rparr>
              else if sc_first_role s = - 1 \<and> \<not> ECS_IS_PAIR x then s\<lparr>sc_first_role := i\<rparr> else s) in
     s\<lparr>sc_low := sc_low s \<or> x < FLECS_HI_COMPONENT_ID, sc_bloom := flecs_table_bloom_filter_add (sc_bloom s) x\<rparr>)"

fun scan_loop :: "int \<Rightarrow> ecs_type \<Rightarrow> scan_state \<Rightarrow> scan_state" where
  "scan_loop i [] s = s"
| "scan_loop i (x # xs) s = scan_loop (i + 1) xs (scan_id i x s)"

definition scan_type :: "ecs_type \<Rightarrow> scan_state" where
  "scan_type ty = scan_loop 0 ty \<lparr>sc_last_id = - 1, sc_first_pair = - 1, sc_first_role = - 1, sc_low = False, sc_bloom = 0\<rparr>"

definition new_rec :: "64 word \<Rightarrow> int \<Rightarrow> nat \<Rightarrow> table_rec" where
  "new_rec key i n = \<lparr>rec_cr = key, rec_index = i, rec_count = n, rec_column = - 1\<rparr>"

fun merge_records :: "nat \<Rightarrow> ecs_type \<Rightarrow> (64 word \<times> table_rec) list \<Rightarrow> table_rec list" where
  \<comment> \<open>a record for each id of the type; the component record of an id that the table \<open>from\<close> has too is
    taken from its records, which come here paired with its ids\<close>
  "merge_records i [] src = []"
| "merge_records i (x # xs) [] = new_rec (flecs_component_hash x) (int i) 1 # merge_records (Suc i) xs []"
| "merge_records i (x # xs) ((y, tr) # src) =
    (if x = y then new_rec (rec_cr tr) (int i) 1 # merge_records (Suc i) xs src
     else if x < y then new_rec (flecs_component_hash x) (int i) 1 # merge_records (Suc i) xs ((y, tr) # src)
     else merge_records i (x # xs) src)"

fun bump_record :: "64 word \<Rightarrow> table_rec list \<Rightarrow> table_rec list option" where
  \<comment> \<open>the loop of \<open>flecs_table_append_to_records\<close>: find the record, count once more\<close>
  "bump_record key [] = None"
| "bump_record key (r # rs) =
    (if rec_cr r = key then Some (r\<lparr>rec_count := rec_count r + 1\<rparr> # rs) else map_option ((#) r) (bump_record key rs))"

definition flecs_table_append_to_records :: "table_rec list \<Rightarrow> 64 word \<Rightarrow> int \<Rightarrow> nat \<Rightarrow> table_rec list" where
  "flecs_table_append_to_records records x column scan_start =
    (case bump_record (flecs_component_hash x) (drop scan_start records) of
       None \<Rightarrow> records @ [new_rec (flecs_component_hash x) column 1]
     | Some rs \<Rightarrow> take scan_start records @ rs)"

definition role_record :: "nat \<Rightarrow> int \<Rightarrow> 64 word \<Rightarrow> table_rec list \<Rightarrow> table_rec list" where
  "role_record n i x records =
    (if ECS_IS_PAIR x then records
     else let (a, b) = (if ECS_HAS_ID_FLAG x ECS_PAIR then (ECS_PAIR_FIRST x, ECS_PAIR_SECOND x) else (x AND ECS_COMPONENT_MASK, 0));
              records = (if a \<noteq> 0 then flecs_table_append_to_records records (ecs_pair EcsFlag a) i n else records) in
          if b \<noteq> 0 then flecs_table_append_to_records records (ecs_pair EcsFlag b) i n else records)"

fun role_loop :: "nat \<Rightarrow> int \<Rightarrow> ecs_type \<Rightarrow> table_rec list \<Rightarrow> table_rec list" where
  "role_loop n i [] records = records"
| "role_loop n i (x # xs) records = role_loop n (i + 1) xs (role_record n i x records)"

definition pair_parent :: "64 word \<Rightarrow> 64 word option" where
  \<comment> \<open>\<open>cr->pair->parent\<close> of the component record that \<open>flecs_component_new\<close> makes for a pair\<close>
  "pair_parent x =
    (if ecs_id_is_wildcard x \<or> ECS_PAIR_FIRST x = EcsFlag then None
     else Some (flecs_component_hash (ecs_pair (ECS_PAIR_FIRST x) EcsWildcard)))"

definition count_last :: "table_rec list \<Rightarrow> nat \<Rightarrow> table_rec list" where
  "count_last records k = records[k := (records ! k)\<lparr>rec_count := rec_count (records ! k) + 1\<rparr>]"

fun relation_loop :: "int \<Rightarrow> 64 word \<Rightarrow> nat option \<Rightarrow> ecs_type \<Rightarrow> table_rec list \<Rightarrow> (table_rec list \<times> int) result" where
  \<comment> \<open>\<open>cur\<close> is the record that \<open>tr\<close> points at; the second value is \<open>last_pair\<close>\<close>
  "relation_loop i r cur [] records = Inr (records, i)"
| "relation_loop i r cur (x # xs) records =
    (if \<not> ECS_IS_PAIR x then Inr (records, i)
     else if r \<noteq> ECS_PAIR_FIRST x
     then (case pair_parent x of
        None \<Rightarrow> Inl ECS_INTERNAL_ERROR
      | Some key \<Rightarrow> relation_loop (i + 1) (ECS_PAIR_FIRST x) (Some (length records)) xs (records @ [new_rec key i 1]))
     else (case cur of
        None \<Rightarrow> Inl ECS_INTERNAL_ERROR
      | Some k \<Rightarrow> relation_loop (i + 1) r cur xs (count_last records k)))"

fun target_loop :: "nat \<Rightarrow> int \<Rightarrow> ecs_type \<Rightarrow> table_rec list \<Rightarrow> table_rec list" where
  "target_loop n i [] records = records"
| "target_loop n i (x # xs) records =
    target_loop n (i + 1) xs
      (if ECS_IS_VALUE_PAIR x then records
       else flecs_table_append_to_records records (ecs_pair EcsWildcard (ECS_PAIR_SECOND x)) i n)"

definition pair_records :: "ecs_type \<Rightarrow> int \<Rightarrow> table_rec list \<Rightarrow> (table_rec list \<times> int) result" where
  \<comment> \<open>the records \<open>(R, *)\<close> and \<open>(*, T)\<close>; the second value is \<open>last_pair\<close>\<close>
  "pair_records ty first_pair records =
    (if first_pair \<noteq> - 1
     then bindR (relation_loop first_pair 0 (if ty = [] then None else Some (length ty - 1)) (drop (nat first_pair) ty) records)
       (\<lambda>(records, last_pair).
        Inr (target_loop (length ty) first_pair (take (nat (last_pair - first_pair)) (drop (nat first_pair) ty)) records, last_pair))
     else Inr (records, - 1))"

definition table_records :: "ecs_type \<Rightarrow> (64 word \<times> table_rec) list \<Rightarrow> bool \<Rightarrow> (table_rec list \<times> scan_state) result" where
  \<comment> \<open>the records of \<open>flecs_table_init\<close>; \<open>has_childof\<close> is whether the table is somewhere below a parent. An
    index, a count, a column and the number of records are converted to \<open>int16_t\<close>, which asserts that they
    fit; an id has a record, so that none of them exceeds the number of records, and its conversion decides\<close>
  "table_records ty src has_childof =
    (let sc = scan_type ty;
         records = merge_records 0 ty src;
         records = (if sc_first_role sc \<noteq> - 1
           then role_loop (length ty) (sc_first_role sc) (drop (nat (sc_first_role sc)) ty) records else records) in
     bindR (pair_records ty (sc_first_pair sc) records) (\<lambda>(records, last_pair).
     let records = (if sc_last_id sc \<ge> 0 then records @ [new_rec EcsWildcard 0 (nat (sc_last_id sc + 1))] else records);
         records = (if last_pair - sc_first_pair sc \<noteq> 0
           then records @ [new_rec (ecs_pair EcsWildcard EcsWildcard) (sc_first_pair sc) (nat (last_pair - sc_first_pair sc))]
           else records);
         (records, sc) =
          (if has_childof then (records, sc)
           else (records @ [new_rec (ecs_pair EcsChildOf 0) (- 1) 0],
                 sc\<lparr>sc_bloom := flecs_table_bloom_filter_add (sc_bloom sc) (ecs_pair EcsChildOf 0)\<rparr>)) in
     ecs_assert (length records \<le> 32767) ECS_INVALID_CONVERSION (Inr (records, sc))))"

section \<open>Columns\<close>

definition stored :: "'v comp_env \<Rightarrow> 64 word \<Rightarrow> 'v type_info option" where
  \<comment> \<open>the type info for which a table has a column\<close>
  "stored env key = (if has_flag (ce_flags env key) EcsIdSparse then None else ce_info env key)"

fun low_ids :: "nat \<Rightarrow> ecs_type \<Rightarrow> (64 word \<Rightarrow> int) \<Rightarrow> (64 word \<Rightarrow> int)" where
  "low_ids i [] m = m"
| "low_ids i (x # xs) m = low_ids (Suc i) xs (if x < FLECS_HI_COMPONENT_ID then m(x := - (int i + 1)) else m)"

record 'v column_state =
  cs_t2s :: "int list"
  cs_s2t :: "int list"
  cs_columns :: "'v ecs_column list"
  cs_records :: "table_rec list"
  cs_map :: "64 word \<Rightarrow> int"
  cs_flags :: "32 word"

fun column_loop :: "'v comp_env \<Rightarrow> nat \<Rightarrow> ecs_type \<Rightarrow> 'v column_state \<Rightarrow> 'v column_state result" where
  "column_loop env i [] s = Inr s"
| "column_loop env i (x # xs) s =
    bindR (arr_get (cs_records s) i) (\<lambda>tr.
    case stored env (rec_cr tr) of
      None \<Rightarrow> column_loop env (Suc i) xs (s\<lparr>cs_t2s := cs_t2s s @ [- 1]\<rparr>)
    | Some ti \<Rightarrow>
        let cur = length (cs_columns s) in
        column_loop env (Suc i) xs
          (s\<lparr>cs_t2s := cs_t2s s @ [int cur], cs_s2t := cs_s2t s @ [int i],
             cs_columns := cs_columns s @ [\<lparr>col_data = [], col_ti = ti\<rparr>],
             cs_records := (cs_records s)[i := tr\<lparr>rec_column := int cur\<rparr>],
             cs_map := (if x < FLECS_HI_COMPONENT_ID then (cs_map s)(x := int cur + 1) else cs_map s),
             cs_flags := cs_flags s OR flecs_type_info_flags ti\<rparr>))"

definition wildcard_column :: "table_rec list \<Rightarrow> table_rec \<Rightarrow> table_rec result" where
  \<comment> \<open>a wildcard record has the column of the first id that matches\<close>
  "wildcard_column records tr =
    (if ecs_id_is_wildcard (rec_cr tr)
     then if rec_index tr < 0 then Inl Bad_Access
       else bindR (arr_get records (nat (rec_index tr))) (\<lambda>first_tr. Inr (tr\<lparr>rec_column := rec_column first_tr\<rparr>))
     else Inr tr)"

fun count_columns :: "'v comp_env \<Rightarrow> table_rec list \<Rightarrow> nat" where
  "count_columns env [] = 0"
| "count_columns env (tr # rs) = (if stored env (rec_cr tr) \<noteq> None then 1 else 0) + count_columns env rs"

definition flecs_table_init_columns :: "'v comp_env \<Rightarrow> ecs_type \<Rightarrow> table_rec list \<Rightarrow> nat \<Rightarrow> 32 word \<Rightarrow> 'v column_state result" where
  \<comment> \<open>\<open>column_map\<close> is \<open>t2s\<close> followed by \<open>s2t\<close>\<close>
  "flecs_table_init_columns env ty records column_count flags =
    (let m = low_ids 0 ty (\<lambda>_. 0);
         s = \<lparr>cs_t2s = [], cs_s2t = [], cs_columns = [], cs_records = records, cs_map = m, cs_flags = flags\<rparr> in
     if column_count = 0 then Inr s
     else bindR (column_loop env 0 ty s) (\<lambda>s.
       ecs_assert (length (cs_columns s) = column_count) Bad_Access
        (bindR (mapR (wildcard_column (cs_records s)) (drop (length ty) (cs_records s))) (\<lambda>rest.
         Inr (s\<lparr>cs_records := take (length ty) (cs_records s) @ rest\<rparr>)))))"

section \<open>The new table\<close>

fun event_flags :: "'v comp_env \<Rightarrow> table_rec list \<Rightarrow> 32 word \<Rightarrow> 32 word result" where
  \<comment> \<open>the flags that the component records of the table pass on\<close>
  "event_flags env [] flags = Inr flags"
| "event_flags env (tr # rs) flags =
    bindR (ECS_ID_ON_INSTANTIATE (ce_flags env (rec_cr tr))) (\<lambda>inst.
    let flags = flags OR (ce_flags env (rec_cr tr) AND EcsIdEventMask) in
    event_flags env rs (if inst = EcsOverride then flags OR EcsTableHasOverrides else flags))"

definition flecs_table_init_overrides :: "table_rec list \<Rightarrow> table_rec option \<Rightarrow> nat \<Rightarrow> 'v ecs_table \<Rightarrow> 'v ecs_table result" where
  \<comment> \<open>the references to the components of the base entities are resolved later\<close>
  "flecs_table_init_overrides records isa column_count t =
    (case isa of
       None \<Rightarrow> Inr t
     | Some tr \<Rightarrow> if column_count = 0 then Inr t
         else if rec_count tr > 1
         then Inr (t\<lparr>t_flags := t_flags t OR EcsTableHasMultiIsA, t_bases := Some (replicate column_count None)\<rparr>)
         else if rec_index tr < 0 then Inl Bad_Access
         else bindR (arr_get records (nat (rec_index tr))) (\<lambda>fst_tr.
           ecs_assert (ECS_IS_PAIR (rec_cr fst_tr) \<and> ECS_PAIR_FIRST (rec_cr fst_tr) = EcsIsA \<and> rec_count fst_tr = 1)
             ECS_INTERNAL_ERROR (Inr (t\<lparr>t_bases := Some (replicate column_count None)\<rparr>))))"

definition flecs_table_init :: "'v comp_env \<Rightarrow> nat \<Rightarrow> ecs_type \<Rightarrow> (64 word \<times> table_rec) list \<Rightarrow> ('v ecs_table \<times> table_meta) result" where
  "flecs_table_init env tid ty src =
    bindR (flecs_table_init_flags env ty) (\<lambda>f.
    bindR (table_records ty src (has_flag (if_flags f) (EcsTableHasChildOf OR EcsTableHasParent))) (\<lambda>(records, sc).
    bindR (event_flags env records (if_flags f)) (\<lambda>flags.
    let column_count = count_columns env (take (length ty) records);
        flags = flags OR (ce_flags env (flecs_component_hash EcsAny) AND EcsIdEventMask) in
    bindR (flecs_table_init_columns env ty records column_count flags) (\<lambda>s.
    let t = \<lparr>t_id = tid, t_flags = cs_flags s, t_type = ty, t_column_map = cs_t2s s @ cs_s2t s, t_columns = cs_columns s,
             t_entities = [], t_count = 0, t_size = 0, t_bs = replicate (if_bs_count f) flecs_bitset_init,
             t_bs_offset = if_bs_offset f, t_lock = 0, t_dirty = None, t_version = 1, t_bases = None\<rparr>;
        isa = find (\<lambda>tr. rec_cr tr = ecs_pair EcsIsA EcsWildcard) (rev records) in
    bindR (flecs_table_init_overrides (cs_records s) isa column_count t) (\<lambda>t.
    Inr (t, \<lparr>tm_records = cs_records s, tm_trait_flags = if_traits f, tm_childof_index = if_childof f, tm_component_map = cs_map s,
       tm_bloom_filter = sc_bloom sc\<rparr>))))))"


section \<open>Looking records up\<close>


definition look_rec :: "table_rec list \<Rightarrow> 64 word \<Rightarrow> table_rec option" where
  \<comment> \<open>the record of a table for a component record\<close>
  "look_rec rs key = find (\<lambda>r. rec_cr r = key) rs"



lemma look_rec_single [simp]: "look_rec [r] key = (if rec_cr r = key then Some r else None)" "look_rec [] key = None"
  by (simp_all add: look_rec_def)

lemma new_rec_sel [simp]: "rec_cr (new_rec key i n) = key" "rec_index (new_rec key i n) = i" "rec_count (new_rec key i n) = n"
  "rec_column (new_rec key i n) = - 1"
  by (simp_all add: new_rec_def)

definition bump :: "table_rec \<Rightarrow> table_rec" where
  "bump r = r\<lparr>rec_count := rec_count r + 1\<rparr>"

lemma bump_sel [simp]: "rec_cr (bump r) = rec_cr r"
  by (simp add: bump_def)

lemma bump_new [simp]: "bump (new_rec key i n) = new_rec key i (Suc n)"
  by (simp add: bump_def new_rec_def)











section \<open>Counting matches\<close>

definition tally :: "('a \<Rightarrow> 64 word) \<Rightarrow> int \<Rightarrow> 'a list \<Rightarrow> 64 word \<Rightarrow> table_rec option" where
  \<comment> \<open>the record for the elements of a list that have a key: the index of the first one and how many there are\<close>
  "tally f i xs key = (let n = length (filter (\<lambda>x. f x = key) xs) in
    if n = 0 then None else Some (new_rec key (i + int (length (takeWhile (\<lambda>x. f x \<noteq> key) xs))) n))"

lemma tally_Nil [simp]: "tally f i [] key = None"
  by (simp add: tally_def)


lemma tally_None: "tally f i xs key = None \<longleftrightarrow> key \<notin> f ` set xs"
  by (auto simp: tally_def Let_def filter_empty_conv)

lemma tally_cong: "(\<And>x. x \<in> set xs \<Longrightarrow> f x = g x) \<Longrightarrow> tally f i xs key = tally g i xs key"
proof -
  assume "\<And>x. x \<in> set xs \<Longrightarrow> f x = g x"
  then have "filter (\<lambda>x. f x = key) xs = filter (\<lambda>x. g x = key) xs"
    "takeWhile (\<lambda>x. f x \<noteq> key) xs = takeWhile (\<lambda>x. g x \<noteq> key) xs"
    by (auto intro: filter_cong takeWhile_cong)
  then show ?thesis by (simp add: tally_def)
qed













section \<open>The types of tables\<close>

definition id_ok :: "64 word \<Rightarrow> bool" where
  \<comment> \<open>a component, possibly with flags, or a pair of two entities, none of them a wildcard\<close>
  "id_ok x \<longleftrightarrow> (if bit x 63
     then ECS_IS_PAIR x \<and> \<not> ECS_IS_VALUE_PAIR x \<and> ECS_PAIR_FIRST x \<notin> {0, EcsWildcard, EcsAny, EcsFlag} \<and>
       ECS_PAIR_SECOND x \<notin> {0, EcsWildcard, EcsAny}
     else x AND ECS_COMPONENT_MASK \<noteq> 0 \<and> flecs_component_hash x \<noteq> EcsWildcard)"

definition type_wf :: "ecs_type \<Rightarrow> bool" where
  "type_wf ty \<longleftrightarrow> sorted_wrt (<) ty \<and> (\<forall>x \<in> set ty. id_ok x) \<and> distinct (map flecs_component_hash ty)"


















definition scan_same :: "scan_state \<Rightarrow> scan_state \<Rightarrow> bool" where
  "scan_same s s' \<longleftrightarrow> sc_first_pair s' = sc_first_pair s \<and> sc_first_role s' = sc_first_role s"





section \<open>Records of a type\<close>

definition src_ok :: "(64 word \<times> table_rec) list \<Rightarrow> bool" where
  \<comment> \<open>the ids and the first records of an existing table\<close>
  "src_ok src \<longleftrightarrow> sorted_wrt (<) (map fst src) \<and> (\<forall>(y, tr) \<in> set src. rec_cr tr = flecs_component_hash y)"

fun id_records :: "nat \<Rightarrow> ecs_type \<Rightarrow> table_rec list" where
  "id_records i [] = []"
| "id_records i (x # xs) = new_rec (flecs_component_hash x) (int i) 1 # id_records (Suc i) xs"



lemma merge_records_eq: "sorted_wrt (<) xs \<Longrightarrow> src_ok src \<Longrightarrow> merge_records i xs src = id_records i xs"
  by (induction i xs src rule: merge_records.induct) (auto simp: src_ok_def)



































section \<open>Indices of the records\<close>

definition ranged :: "nat \<Rightarrow> table_rec list \<Rightarrow> bool" where
  \<comment> \<open>the records point into the type, and have no column yet\<close>
  "ranged n rs \<longleftrightarrow> (\<forall>r \<in> set rs. 0 \<le> rec_index r \<and> rec_index r < int n \<and> rec_column r = - 1)"

lemma ranged_simps [simp]: "ranged n []" "ranged n (r # rs) \<longleftrightarrow> (0 \<le> rec_index r \<and> rec_index r < int n \<and> rec_column r = - 1) \<and> ranged n rs"
  "ranged n (rs @ ss) \<longleftrightarrow> ranged n rs \<and> ranged n ss"
  by (auto simp: ranged_def)

lemma ranged_bump: "bump_record key rs = Some rs' \<Longrightarrow> ranged n rs \<Longrightarrow> ranged n rs'"
  by (induction rs arbitrary: rs') (auto split: if_splits)

lemma ranged_append_to_records:
  assumes "ranged n rs" "0 \<le> i" "i < int n"
  shows "ranged n (flecs_table_append_to_records rs x i m)"
proof (cases "bump_record (flecs_component_hash x) (drop m rs)")
  case (Some rs')
  have "ranged n (drop m rs)" "ranged n (take m rs)" using assms(1) by (auto simp: ranged_def dest: in_set_dropD in_set_takeD)
  with Some ranged_bump [OF Some] show ?thesis by (simp add: flecs_table_append_to_records_def)
qed (use assms in \<open>simp add: flecs_table_append_to_records_def\<close>)

lemma ranged_role_loop: "ranged n rs \<Longrightarrow> 0 \<le> i \<Longrightarrow> i + int (length xs) \<le> int n \<Longrightarrow> ranged n (role_loop m i xs rs)"
proof (induction xs arbitrary: i rs)
  case (Cons x xs)
  then have "ranged n (role_record m i x rs)"
    by (auto simp: role_record_def Let_def split_def intro!: ranged_append_to_records)
  with Cons show ?case by simp
qed simp

lemma ranged_count_last: "ranged n rs \<Longrightarrow> ranged n (count_last rs k)"
  unfolding ranged_def count_last_def by (cases "k < length rs") (auto simp: list_update_beyond dest!: set_update_subset_insert [THEN subsetD])

lemma ranged_relation_loop:
  "ranged n rs \<Longrightarrow> 0 \<le> i \<Longrightarrow> i + int (length xs) \<le> int n \<Longrightarrow> relation_loop i r cur xs rs = Inr (rs', j) \<Longrightarrow> ranged n rs'"
proof (induction i r cur xs rs rule: relation_loop.induct)
  case (2 i r cur x xs rs)
  then show ?case by (auto simp: ranged_count_last split: if_splits option.splits)
qed simp

lemma ranged_target_loop: "ranged n rs \<Longrightarrow> 0 \<le> i \<Longrightarrow> i + int (length xs) \<le> int n \<Longrightarrow> ranged n (target_loop m i xs rs)"
proof (induction xs arbitrary: i rs)
  case (Cons x xs)
  then have "ranged n (if ECS_IS_VALUE_PAIR x then rs else flecs_table_append_to_records rs (ecs_pair EcsWildcard (ECS_PAIR_SECOND x)) i m)"
    by (simp add: ranged_append_to_records)
  from Cons.IH [OF this, of "i + 1"] Cons.prems show ?case by simp
qed simp

lemma ranged_pair_records:
  assumes R: "ranged (length ty) R" and fp: "fp = - 1 \<or> 0 \<le> fp \<and> fp < int (length ty)"
    and eq: "pair_records ty fp R = Inr (Q, lp)"
  shows "ranged (length ty) Q" "fp = - 1 \<longrightarrow> lp = - 1"
proof -
  show "fp = - 1 \<longrightarrow> lp = - 1" using eq by (auto simp: pair_records_def)
  show "ranged (length ty) Q"
  proof (cases "fp = - 1")
    case False
    with eq obtain A where A: "relation_loop fp 0 (if ty = [] then None else Some (length ty - 1)) (drop (nat fp) ty) R = Inr (A, lp)"
      and Q: "Q = target_loop (length ty) fp (take (nat (lp - fp)) (drop (nat fp) ty)) A"
      by (auto simp: pair_records_def bindR_eq_Inr)
    have "ranged (length ty) A" by (rule ranged_relation_loop [OF R _ _ A]) (use False fp in auto)
    then show ?thesis unfolding Q by (rule ranged_target_loop) (use False fp in auto)
  qed (use eq R in \<open>simp add: pair_records_def\<close>)
qed

lemma ranged_id_records: "i + length xs \<le> n \<Longrightarrow> ranged n (id_records i xs)"
  by (induction xs arbitrary: i) auto

lemma scan_bounds:
  "sc_first_pair s = - 1 \<or> 0 \<le> sc_first_pair s \<and> sc_first_pair s < i \<Longrightarrow> sc_first_role s = - 1 \<or> 0 \<le> sc_first_role s \<and> sc_first_role s < i \<Longrightarrow>
    0 \<le> i \<Longrightarrow> (let t = scan_loop i xs s in (sc_first_pair t = - 1 \<or> 0 \<le> sc_first_pair t \<and> sc_first_pair t < i + int (length xs)) \<and>
      (sc_first_role t = - 1 \<or> 0 \<le> sc_first_role t \<and> sc_first_role t < i + int (length xs)))"
proof (induction xs arbitrary: i s)
  case (Cons x xs)
  have "sc_first_pair (scan_id i x s) = - 1 \<or> 0 \<le> sc_first_pair (scan_id i x s) \<and> sc_first_pair (scan_id i x s) < i + 1"
    "sc_first_role (scan_id i x s) = - 1 \<or> 0 \<le> sc_first_role (scan_id i x s) \<and> sc_first_role (scan_id i x s) < i + 1"
    using Cons.prems by (auto simp: scan_id_def Let_def)
  from Cons.IH [OF this] Cons.prems(3) show ?case by (simp add: Let_def ac_simps)
qed simp

lemma table_records_ranged:
  assumes wf: "type_wf ty" and src: "src_ok src" and eq: "table_records ty src h = Inr (rs, sc)"
  shows "\<forall>r \<in> set rs. (rec_cr r = ecs_pair EcsChildOf 0 \<or> 0 \<le> rec_index r \<and> rec_index r < int (length ty)) \<and> rec_column r = - 1"
proof -
  let ?n = "length ty" and ?sc = "scan_type ty"
  have b: "sc_first_pair ?sc = - 1 \<or> 0 \<le> sc_first_pair ?sc \<and> sc_first_pair ?sc < int ?n"
    "sc_first_role ?sc = - 1 \<or> 0 \<le> sc_first_role ?sc \<and> sc_first_role ?sc < int ?n"
    using scan_bounds [of "\<lparr>sc_last_id = - 1, sc_first_pair = - 1, sc_first_role = - 1, sc_low = False, sc_bloom = 0\<rparr>" 0 ty]
    by (auto simp: scan_type_def Let_def)
  define R where "R = (if sc_first_role ?sc \<noteq> - 1
    then role_loop ?n (sc_first_role ?sc) (drop (nat (sc_first_role ?sc)) ty) (merge_records 0 ty src) else merge_records 0 ty src)"
  have "merge_records 0 ty src = id_records 0 ty" using wf src by (simp add: type_wf_def merge_records_eq)
  then have R: "ranged ?n R" using b(2) by (auto simp: R_def ranged_id_records intro!: ranged_role_loop)
  from eq obtain Q lp where Q: "pair_records ty (sc_first_pair ?sc) R = Inr (Q, lp)"
    by (auto simp: table_records_def Let_def R_def bindR_eq_Inr)
  note rQ = ranged_pair_records [OF R b(1) Q]
  show ?thesis
  proof
    fix r assume r: "r \<in> set rs"
    obtain W where W: "rs = Q @ W" and "\<forall>r \<in> set W. r = new_rec EcsWildcard 0 (nat (sc_last_id ?sc + 1)) \<and> sc_last_id ?sc \<ge> 0 \<or>
        r = new_rec (ecs_pair EcsWildcard EcsWildcard) (sc_first_pair ?sc) (nat (lp - sc_first_pair ?sc)) \<and> lp \<noteq> sc_first_pair ?sc \<or>
        r = new_rec (ecs_pair EcsChildOf 0) (- 1) 0"
      using eq Q unfolding table_records_def Let_def R_def [symmetric]
      by (auto simp: ecs_assert_def split: if_splits)
    moreover have "ty \<noteq> []" if "sc_last_id ?sc \<ge> 0" using that by (auto simp: scan_type_def)
    ultimately show "(rec_cr r = ecs_pair EcsChildOf 0 \<or> 0 \<le> rec_index r \<and> rec_index r < int ?n) \<and> rec_column r = - 1"
      using r rQ b(1) by (auto simp: ranged_def)
  qed
qed

end
