(* ===== verification/Entity_Storage.thy ===== *)
theory Entity_Storage
  imports Table_Move
begin

text \<open>
  Where the entity index and the tables meet (\<open>entity.c\<close>): putting an entity in a table, moving it to
  another one when its components change, and taking it out when it is deleted. The store holds the
  entity index and the tables by id; the record of an entity is found by the 32-bit index of the entity.
  The functions \<open>flecs_actions_...\<close> of \<open>component_actions.c\<close>, which notify observers, are events.

  The specification is that a store maps each entity to its type and the values of its components:
  \<open>type_of\<close> and \<open>comp_of\<close>.
\<close>

section \<open>A row moves from table to table\<close>

lemma swap_remove_update: "swap_remove row (xs[row := c]) = swap_remove row xs"
  by (cases "row = length xs - 1"; cases "xs = []")
    (simp_all add: swap_remove_def last_conv_nth butlast_list_update)

lemma same_shape_trans: "same_shape s t \<Longrightarrow> same_shape t u \<Longrightarrow> same_shape s u"
  by (simp add: same_shape_def)

lemma same_shape_id: "same_shape t t"
  by (simp add: same_shape_def)

definition moved_in :: "'v::zero ecs_table \<Rightarrow> ecs_entity \<Rightarrow> 'v ecs_table \<Rightarrow> nat \<Rightarrow> 'v ecs_table \<Rightarrow> bool" where
  \<comment> \<open>the destination after an entity has come in: components that the source has too keep their values,
    others are constructed; toggle bits likewise\<close>
  "moved_in D e S row D' \<longleftrightarrow> table_ok D' \<and> same_shape D D' \<and> t_ents D' = t_ents D @ [e] \<and> t_count D' = Suc (t_count D) \<and>
    (\<forall>i < length (t_columns D). \<exists>c. t_cells D' i = t_cells D i @ [c] \<and> (typed (col_ti (t_columns D ! i)) \<longrightarrow> c \<noteq> Raw) \<and>
      (\<forall>j < length (t_columns S). cid S j = cid D i \<longrightarrow> c = t_cells S j ! row)) \<and>
    (\<forall>i < length (t_bs D). \<exists>v. t_bits D' i = t_bits D i @ [v] \<and>
      (\<forall>j < length (t_bs S). bs_ids S ! j = bs_ids D ! i \<longrightarrow> v = t_bits S j ! row) \<and> (bs_ids D ! i \<notin> set (bs_ids S) \<longrightarrow> \<not> v))"

definition compatible :: "'v::zero ecs_table \<Rightarrow> 'v ecs_table \<Rightarrow> bool" where
  \<comment> \<open>two tables in which the components have the same type, with ids in the order of their types\<close>
  "compatible D S \<longleftrightarrow> sorted_wrt (<) (cids D) \<and> sorted_wrt (<) (cids S) \<and> bits_ready D \<and> bits_ready S \<and>
    (\<forall>i < length (t_columns D). \<forall>j < length (t_columns S). cid D i = cid S j \<longrightarrow> col_ti (t_columns D ! i) = col_ti (t_columns S ! j))"

lemma appended_ready:
  assumes S: "table_ok S" "row < t_count S" and a: "appended D e False D1" and c: "compatible D S"
    and mv: "\<And>j. j < length (t_columns S) \<Longrightarrow> movable (col_ti (t_columns S ! j))"
  shows "move_ready D1 (t_count D) S row"
proof -
  have sh: "same_shape D D1" and wf: "table_wf D1" "t_count D1 = Suc (t_count D)" using a by (simp_all add: appended_def)
  have "cells_live (col_ti (t_columns D1 ! i)) (\<lambda>r. r < t_count D) (col_data (t_columns D1 ! i))" if "i < length (t_columns D1)" for i
    using a that by (simp add: appended_def grown_def same_shape_def)
  moreover have "cid D1 i = cid D i" for i using sh by (simp add: cid_def same_shape_def)
  ultimately show ?thesis
    using S c mv wf sh cids_shape [OF sh] by (simp add: move_ready_def table_ok_def table_live_def compatible_def same_shape_def)
qed

lemma moved_in_ok:
  assumes okD: "table_ok D" and a: "appended D e False D1" and R: "move_ready D1 (t_count D) S row"
    and m: "row_moved D1 (t_count D) S row emplace D2 S1" and em: "emplace \<notin> set (cids D) \<or> emplace \<in> set (cids S)"
  shows "moved_in D e S row D2"
proof -
  have sh1: "same_shape D D1" and wf1: "t_count D1 = Suc (t_count D)" "t_ents D1 = t_ents D @ [e]" "table_wf D1" using a by (simp_all add: appended_def)
  note md = row_moved_dst [OF R m]
  have sh: "same_shape D D2" using sh1 md(2) by (rule same_shape_trans)
  have len: "length (t_columns D1) = length (t_columns D)" "length (t_bs D1) = length (t_bs D)"
    "length (t_columns D2) = length (t_columns D)" "length (t_bs D2) = length (t_bs D)" using sh1 sh by (simp_all add: same_shape_def)
  have ids: "cid D1 i = cid D i" "bs_ids D1 = bs_ids D" for i using sh1 by (simp_all add: cid_def bs_ids_def same_shape_def)
  have ti: "col_ti (t_columns D1 ! i) = col_ti (t_columns D ! i)" "col_ti (t_columns D2 ! i) = col_ti (t_columns D ! i)" if "i < length (t_columns D)" for i
    using that sh1 sh by (simp_all add: same_shape_def)
  have col: "\<exists>c. t_cells D2 i = t_cells D i @ [c] \<and> (typed (col_ti (t_columns D ! i)) \<longrightarrow> c \<noteq> Raw) \<and>
      (\<forall>j < length (t_columns S). cid S j = cid D i \<longrightarrow> c = t_cells S j ! row) \<and>
      cells_live (col_ti (t_columns D2 ! i)) (\<lambda>r. r < Suc (t_count D)) (col_data (t_columns D2 ! i))" if i: "i < length (t_columns D)" for i
  proof -
    let ?a = "col_data (t_columns D1 ! i)" and ?n = "t_count D"
    have i1: "i < length (t_columns D1)" using i len by simp
    have g: "take ?n ?a = t_cells D i" "cells_live (col_ti (t_columns D ! i)) (\<lambda>r. r < ?n) ?a"
      using a i by (simp_all add: appended_def grown_def t_cells_def)
    have em': "cid D i \<in> set (cids S) \<or> cid D i \<noteq> emplace" using em i by (auto simp: cids_def)
    from md(6) [OF i1] obtain c where c: "col_data (t_columns D2 ! i) = ?a[?n := c]" "cell_ok (col_ti (t_columns D ! i)) True c"
      "\<And>j. j < length (t_columns S) \<Longrightarrow> cid S j = cid D i \<Longrightarrow> c = col_data (t_columns S ! j) ! row"
      using em' i by (auto simp: dst_done_def ids ti)
    have n: "?n < length ?a" using move_ready_dst(2) [OF R i1] .
    have "t_cells D2 i = t_cells D i @ [c]" using n by (simp add: t_cells_def c md(3) take_Suc_conv_app_nth g(1) [unfolded t_cells_def])
    moreover have "t_cells S j ! row = col_data (t_columns S ! j) ! row" for j using R by (simp add: t_cells_def move_ready_def)
    ultimately show ?thesis using c g(2) ti i by (auto simp: cell_ok_def cells_live_def nth_list_update less_Suc_eq)
  qed
  have bit: "\<exists>v. t_bits D2 i = t_bits D i @ [v] \<and> (\<forall>j < length (t_bs S). bs_ids S ! j = bs_ids D ! i \<longrightarrow> v = t_bits S j ! row) \<and>
      (bs_ids D ! i \<notin> set (bs_ids S) \<longrightarrow> \<not> v)" if i: "i < length (t_bs D)" for i
  proof -
    have b: "t_bits D1 i = t_bits D i @ [False]" using a i by (simp add: appended_def)
    have "bs_count (t_bs D ! i) = int (t_count D)" using okD i by (simp add: table_ok_def table_wf_def)
    then have l: "length (t_bits D i) = t_count D" by (simp add: t_bits_def)
    from md(7) [of i] i len obtain v where v: "t_bits D2 i = (t_bits D1 i)[t_count D := v]"
      "\<forall>j < length (t_bs S). bs_ids S ! j = bs_ids D ! i \<longrightarrow> v = t_bits S j ! row"
      "bs_ids D ! i \<notin> set (bs_ids S) \<longrightarrow> v = t_bits D1 i ! t_count D" by (auto simp: bit_done_def ids t_bits_def)
    with b l show ?thesis by (intro exI [of _ v]) (simp add: nth_append list_update_append)
  qed
  show ?thesis using sh md col bit wf1 len by (simp add: moved_in_def table_ok_def table_live_def) blast
qed

lemma moved_out_ok:
  fixes S :: "'v::zero ecs_table"
  assumes R: "move_ready D di S row" and m: "row_moved D di S row emplace D2 S1" and lock: "t_lock S = 0" and idx: "last_in_table idx S row"
  shows "returns (flecs_table_delete idx S1 row False) (\<lambda>(idx', S2, log). row_deleted S row S2 \<and> idx' = moved_index idx S row)"
proof -
  obtain cs q where S1: "S1 = S\<lparr>t_columns := cs\<rparr>" and len: "length cs = length (t_columns S)" and wf: "table_wf S1"
    and cs: "\<And>j. j < length cs \<Longrightarrow> col_ti (cs ! j) = col_ti (t_columns S ! j) \<and> length (col_data (cs ! j)) = length (col_data (t_columns S ! j)) \<and>
      (\<forall>r < length (col_data (cs ! j)). r \<noteq> row \<longrightarrow> col_data (cs ! j) ! r = col_data (t_columns S ! j) ! r) \<and>
      cells_live (col_ti (cs ! j)) (\<lambda>r. r < t_count S \<and> (r = row \<longrightarrow> q j)) (col_data (cs ! j)) \<and>
      row_ready (col_ti (cs ! j)) (row = t_count S - 1) False (q j)" using row_moved_src [OF R m] by blast
  have row: "row < t_count S" using R by (simp add: move_ready_def)
  have sh: "same_shape S S1" using cs len by (simp add: S1 same_shape_def)
  have upd: "t_cells S1 i = (t_cells S i)[row := t_cells S1 i ! row]" if i: "i < length (t_columns S)" for i
  proof -
    have l: "length (t_cells S1 i) = length (t_cells S i)" using cs [of i] i len by (simp add: t_cells_def S1)
    have "t_cells S1 i ! r = t_cells S i ! r" if "r < length (t_cells S i)" "r \<noteq> row" for r
      using cs [of i] i len that by (simp add: t_cells_def S1)
    with l have "t_cells S1 i ! r = (t_cells S i)[row := t_cells S1 i ! row] ! r" if "r < length (t_cells S1 i)" for r
      using that by (cases "r = row") simp_all
    with l show ?thesis by (intro nth_equalityI) simp_all
  qed
  have cells: "swap_remove row (t_cells S1 i) = swap_remove row (t_cells S i)" if "i < length (t_columns S)" for i
    by (subst upd [OF that]) (rule swap_remove_update)
  have same: "moved_index idx S1 row = moved_index idx S row" "t_ents S1 = t_ents S" "t_bits S1 i = t_bits S i" for i
    by (simp_all add: moved_index_def t_ents_def t_bits_def S1)
  have "cells_live (col_ti (t_columns S1 ! j)) (\<lambda>r. r < t_count S1 \<and> (r = row \<longrightarrow> q j)) (col_data (t_columns S1 ! j)) \<and>
      row_ready (col_ti (t_columns S1 ! j)) (row = t_count S1 - 1) False (q j)" if "j < length (t_columns S1)" for j
  proof -
    have "t_columns S1 = cs" "t_count S1 = t_count S" by (simp_all add: S1)
    with cs [of j] that show ?thesis by metis
  qed
  moreover have "t_lock S1 = 0" "row < t_count S1" "last_in_table idx S1 row" using lock row idx by (simp_all add: S1 last_in_table_def)
  ultimately have "returns (flecs_table_delete idx S1 row False) (\<lambda>(idx', S2, log). row_deleted S1 row S2 \<and> idx' = moved_index idx S1 row)"
    by (intro delete_ok [OF wf, where q = q]) blast+
  moreover have "row_deleted S row S2" if "row_deleted S1 row S2" for S2 :: "'v ecs_table"
    using that sh same cells len by (auto simp: row_deleted_def S1 intro: same_shape_trans)
  ultimately show ?thesis by (auto simp: same elim!: returns_mono)
qed

section \<open>Operations\<close>

record 'v store =
  st_index :: entity_index
  st_tables :: "nat \<Rightarrow> 'v ecs_table option"
  st_root :: nat

datatype 'v store_event =
    Actions_New nat nat \<comment> \<open>table and row\<close>
  | Actions_Move_Remove nat nat nat \<comment> \<open>source, destination and row\<close>
  | Actions_Move_Add nat nat nat \<comment> \<open>destination, source and row\<close>
  | Traversable_Add nat int \<comment> \<open>the number of traversable entities in a table changes\<close>
  | Table_Events nat "'v table_event list"
  | Remove_Non_Fragmenting ecs_entity \<comment> \<open>OnRemove is emitted for the entity's components that are not in a table, which are removed\<close>

definition get_table :: "'v store \<Rightarrow> nat \<Rightarrow> 'v ecs_table result" where
  "get_table st tid = (case st_tables st tid of None \<Rightarrow> Inl Bad_Access | Some t \<Rightarrow> Inr t)"

definition put_table :: "'v store \<Rightarrow> nat \<Rightarrow> 'v ecs_table \<Rightarrow> 'v store" where
  "put_table st tid t = st\<lparr>st_tables := (st_tables st)(tid \<mapsto> t)\<rparr>"

definition set_record :: "'v store \<Rightarrow> 32 word \<Rightarrow> (ecs_record \<Rightarrow> ecs_record) \<Rightarrow> 'v store result" where
  "set_record st r f = bindR (ei_write (st_index st) r f) (\<lambda>idx. Inr (st\<lparr>st_index := idx\<rparr>))"

definition place :: "nat \<Rightarrow> nat \<Rightarrow> ecs_record \<Rightarrow> ecs_record" where
  \<comment> \<open>the record points to another table and row and keeps its flags\<close>
  "place tid row r = r\<lparr>er_table := Some tid, er_row := ECS_ROW_TO_RECORD row (er_row r AND ECS_ROW_FLAGS_MASK)\<rparr>"

definition flecs_move_entity ::
    "'v::zero store \<Rightarrow> ecs_entity \<Rightarrow> 32 word \<Rightarrow> nat \<Rightarrow> 64 word \<Rightarrow> ('v store \<times> 'v store_event list) result" where
  "flecs_move_entity st entity record dst_table emplace_id =
    bindR (ei_read (st_index st) record) (\<lambda>rec.
    let src_row = ECS_RECORD_TO_ROW (er_row rec) in
    ecs_assert (er_table rec \<noteq> None) ECS_INTERNAL_ERROR
    (let src_table = the (er_table rec) in
     ecs_assert (src_table \<noteq> dst_table) ECS_INTERNAL_ERROR
     (bindR (get_table st src_table) (\<lambda>src.
      ecs_assert (t_count src > src_row) ECS_INTERNAL_ERROR
      (bindR (flecs_entity_index_get (st_index st) entity) (\<lambda>k.
       ecs_assert (k = record) ECS_INTERNAL_ERROR
       (bindR (get_table st dst_table) (\<lambda>dst.
        let dst_row = t_count dst in
        bindR (flecs_table_append dst entity False False) (\<lambda>(dst, log1).
        bindR (flecs_table_move entity entity dst dst_row src src_row emplace_id) (\<lambda>(dst, src, log2).
        bindR (set_record (put_table (put_table st dst_table dst) src_table src) record (place dst_table dst_row)) (\<lambda>st.
        bindR (flecs_table_delete (st_index st) src src_row False) (\<lambda>(idx, src, log3).
        let st = (put_table st src_table src)\<lparr>st_index := idx\<rparr> in
        bindR (ei_read (st_index st) record) (\<lambda>rec.
        ecs_assert (er_table rec = Some dst_table) ECS_INTERNAL_ERROR
         (Inr (st, [Table_Events dst_table log1, Actions_Move_Remove src_table dst_table src_row, Table_Events dst_table log2,
           Table_Events src_table log3, Actions_Move_Add dst_table src_table dst_row])))))))))))))))"

section \<open>The index and the tables\<close>

lemma ei_ok_place:
  assumes ok: "ei_ok idx" and e: "e \<in> ei_alive idx"
  shows "ei_ok (ei_set idx (id_index e) (place tid row))" "ei_alive (ei_set idx (id_index e) (place tid row)) = ei_alive idx"
proof -
  let ?idx = "ei_set idx (id_index e) (place tid row)"
  have look: "ei_look ?idx = ei_look idx" by (auto simp: ei_look_def fun_eq_iff place_def split: option.splits)
  have "1 \<le> er_dense r \<and> er_dense r < ei_alive_count idx" if "ei_rec idx (id_index e) = Some r" for r
    using e that by (auto simp: alive_iff [OF ok] ei_rec_look [OF that])
  then show "ei_ok ?idx" using ok unfolding ei_ok_def look by (auto simp: place_def split: if_splits)
  show "ei_alive ?idx = ei_alive idx" by (simp add: ei_alive_def)
qed

lemma alive_inj: "ei_ok idx \<Longrightarrow> x \<in> ei_alive idx \<Longrightarrow> y \<in> ei_alive idx \<Longrightarrow> id_index x = id_index y \<Longrightarrow> x = y"
  by (auto simp: alive_iff)

lemma in_table_rec: "ei_ok idx \<Longrightarrow> in_table idx tid x \<Longrightarrow> in_table idx tid' y \<Longrightarrow> id_index x = id_index y \<Longrightarrow> x = y \<and> tid = tid'"
  by (auto simp: in_table_def alive_iff)

lemma in_table_place:
  assumes ok: "ei_ok idx" and al: "e \<in> ei_alive idx"
  shows "in_table (ei_set idx (id_index e) (place tid row)) n x \<longleftrightarrow> (if x = e then n = tid else in_table idx n x)"
proof -
  obtain r where r: "ei_rec idx (id_index e) = Some r" using al ei_look_rec [of idx "id_index e"] by (auto simp: alive_iff [OF ok])
  have "id_index x \<noteq> id_index e" if "x \<noteq> e" "x \<in> ei_alive idx" using that al by (auto simp: alive_iff [OF ok])
  then show ?thesis using al r unfolding in_table_def ei_ok_place(2) [OF ok al] by (auto simp: place_def)
qed

lemma records_frame:
  assumes r: "records_ok idx t" and ok: "ei_ok idx'" "ei_alive idx' = ei_alive idx"
    and same: "\<And>k rec. ei_rec idx k = Some rec \<Longrightarrow> er_table rec = Some (t_id t) \<Longrightarrow> ei_rec idx' k = Some rec"
    and t': "t_ents t' = t_ents t" "t_id t' = t_id t"
  shows "records_ok idx' t'"
proof -
  have "in_table idx' (t_id t) x \<and> (\<forall>rec. ei_rec idx' (id_index x) = Some rec \<longrightarrow> ECS_RECORD_TO_ROW (er_row rec) = i)"
    if "in_table idx (t_id t) x" "\<forall>rec. ei_rec idx (id_index x) = Some rec \<longrightarrow> ECS_RECORD_TO_ROW (er_row rec) = i" for x i
    using that same ok(2) by (auto simp: in_table_def)
  then show ?thesis using r ok(1) unfolding records_ok_def t' by blast
qed

lemma moved_index_ok:
  assumes r: "records_but idx S row" and row: "row < t_count S" and wf: "t_count S \<le> length (t_entities S)"
  shows "ei_ok (moved_index idx S row)" "ei_alive (moved_index idx S row) = ei_alive idx"
    "in_table (moved_index idx S row) n x = in_table idx n x"
    "ei_rec idx k = Some rec \<Longrightarrow> er_table rec \<noteq> Some (t_id S) \<Longrightarrow> ei_rec (moved_index idx S row) k = Some rec"
proof -
  have ok: "ei_ok idx" using r by (simp add: records_but_def)
  have l: "last_in_table idx S row" by (rule records_but_last [OF r row wf])
  show "ei_ok (moved_index idx S row)" "ei_alive (moved_index idx S row) = ei_alive idx" "in_table (moved_index idx S row) n x = in_table idx n x"
    using ok l update_moved_record_ok [of idx "t_id S"] by (simp_all add: moved_index_def last_in_table_def)
  show "ei_rec (moved_index idx S row) k = Some rec" if "ei_rec idx k = Some rec" "er_table rec \<noteq> Some (t_id S)"
    using that l by (auto simp: moved_index_def move_record_def last_in_table_def in_table_def)
qed

lemma records_append:
  assumes r: "records_ok idx D" and al: "e \<in> ei_alive idx" and new: "\<not> in_table idx (t_id D) e"
    and D': "t_ents D' = t_ents D @ [e]" "t_id D' = t_id D" and n: "length (t_ents D) < 2 ^ 28"
  shows "records_ok (ei_set idx (id_index e) (place (t_id D) (length (t_ents D)))) D'"
proof -
  let ?n = "length (t_ents D)" let ?idx = "ei_set idx (id_index e) (place (t_id D) ?n)"
  have ok: "ei_ok idx" and d: "distinct (map id_index (t_ents D))" using r by (simp_all add: records_ok_def)
  have it: "in_table idx (t_id D) (t_ents D ! i)" "\<And>rec. ei_rec idx (id_index (t_ents D ! i)) = Some rec \<Longrightarrow> ECS_RECORD_TO_ROW (er_row rec) = i"
    if "i < ?n" for i using r that by (auto simp: records_ok_def)
  have ne: "id_index (t_ents D ! i) \<noteq> id_index e" "t_ents D ! i \<noteq> e" if "i < ?n" for i
  proof -
    show *: "t_ents D ! i \<noteq> e" using it(1) [OF that] new by auto
    have "t_ents D ! i \<in> ei_alive idx" using it(1) [OF that] by (simp add: in_table_def)
    then show "id_index (t_ents D ! i) \<noteq> id_index e" using alive_inj [OF ok _ al] * by blast
  qed
  have "ECS_RECORD_TO_ROW (ECS_ROW_TO_RECORD ?n (f AND ECS_ROW_FLAGS_MASK)) = ?n" for f
    using n by (intro row_record) (simp_all add: ECS_ROW_FLAGS_MASK_def and.assoc)
  then have rec: "ECS_RECORD_TO_ROW (er_row rec) = ?n" if "ei_rec ?idx (id_index e) = Some rec" for rec
    using that by (auto simp: place_def)
  have "id_index e \<notin> set (map id_index (t_ents D))" using ne(1) by (metis in_set_conv_nth length_map nth_map)
  then show ?thesis
    using ei_ok_place(1) [OF ok al] d it ne rec in_table_place [OF ok al]
    by (auto simp: records_ok_def D' nth_append less_Suc_eq)
qed

lemma records_leave:
  assumes r: "records_ok idx S" and row: "t_ents S ! row = e" "row < length (t_ents S)"
  shows "records_but (ei_set idx (id_index e) f) S row \<longleftrightarrow> ei_ok (ei_set idx (id_index e) f)" 
proof -
  have d: "distinct (map id_index (t_ents S))" using r by (simp add: records_ok_def)
  have "id_index (t_ents S ! i) \<noteq> id_index e" if "i < length (t_ents S)" "i \<noteq> row" for i
    using nth_eq_iff_index_eq [OF d, of i row] that row by auto
  then show ?thesis using r by (auto simp: records_ok_def records_but_def in_table_def ei_alive_def)
qed

section \<open>Specification\<close>

definition entity_at :: "'v store \<Rightarrow> ecs_entity \<Rightarrow> (nat \<times> nat) option" where
  \<comment> \<open>the table and the row of an entity\<close>
  "entity_at st e = (if e \<in> ei_alive (st_index st) then
    (case ei_rec (st_index st) (id_index e) of None \<Rightarrow> None
      | Some rec \<Rightarrow> map_option (\<lambda>tid. (tid, ECS_RECORD_TO_ROW (er_row rec))) (er_table rec)) else None)"

definition type_of :: "'v store \<Rightarrow> ecs_entity \<Rightarrow> ecs_type option" where
  "type_of st e = (case entity_at st e of None \<Rightarrow> None | Some (tid, _) \<Rightarrow> map_option t_type (st_tables st tid))"

definition column_of :: "'v ecs_table \<Rightarrow> 64 word \<Rightarrow> nat option" where
  "column_of t i = map_of (zip (cids t) [0..<length (t_columns t)]) i"

definition comp_of :: "'v store \<Rightarrow> ecs_entity \<Rightarrow> 64 word \<Rightarrow> 'v cell option" where
  \<comment> \<open>the value of a component of an entity\<close>
  "comp_of st e i = (case entity_at st e of None \<Rightarrow> None | Some (tid, row) \<Rightarrow>
    (case st_tables st tid of None \<Rightarrow> None | Some t \<Rightarrow> map_option (\<lambda>ci. col_data (t_columns t ! ci) ! row) (column_of t i)))"

definition store_table_ok :: "(64 word \<Rightarrow> 'v type_info) \<Rightarrow> entity_index \<Rightarrow> nat \<Rightarrow> 'v::zero ecs_table \<Rightarrow> bool" where
  "store_table_ok ti idx tid t \<longleftrightarrow> t_id t = tid \<and> table_ok t \<and> records_ok idx t \<and> bits_ready t \<and> sorted_wrt (<) (cids t) \<and> t_count t \<le> 2 ^ 28 \<and>
    (\<forall>i < length (t_columns t). col_ti (t_columns t ! i) = ti (cid t i))"

definition store_ok :: "(64 word \<Rightarrow> 'v type_info) \<Rightarrow> 'v::zero store \<Rightarrow> bool" where
  \<comment> \<open>tables are well formed, the type info of a component is the same in all of them, and an entity that has
    a table is in it\<close>
  "store_ok ti st \<longleftrightarrow> ei_ok (st_index st) \<and> (\<forall>tid t. st_tables st tid = Some t \<longrightarrow> store_table_ok ti (st_index st) tid t) \<and>
    (\<forall>e tid. in_table (st_index st) tid e \<longrightarrow> (\<exists>t. st_tables st tid = Some t \<and> e \<in> set (t_ents t)))"

definition located :: "'v store \<Rightarrow> ecs_entity \<Rightarrow> nat \<Rightarrow> nat \<Rightarrow> 'v ecs_table \<Rightarrow> bool" where
  "located st e tid row t \<longleftrightarrow> st_tables st tid = Some t \<and> row < t_count t \<and> t_ents t ! row = e"

lemma store_tableD:
  assumes "store_ok ti st" "st_tables st tid = Some t"
  shows "t_id t = tid" "table_ok t" "records_ok (st_index st) t" "bits_ready t" "sorted_wrt (<) (cids t)" "t_count t \<le> 2 ^ 28"
    "i < length (t_columns t) \<Longrightarrow> col_ti (t_columns t ! i) = ti (cid t i)" "length (t_ents t) = t_count t" "t_count t \<le> length (t_entities t)"
  using assms by (auto simp: store_ok_def store_table_ok_def table_ok_def table_wf_def t_ents_def)

lemma entity_at_iff:
  assumes ok: "store_ok ti st"
  shows "entity_at st e = Some (tid, row) \<longleftrightarrow> (\<exists>t. located st e tid row t)"
proof
  assume "entity_at st e = Some (tid, row)"
  then obtain rec where rec: "in_table (st_index st) tid e" "ei_rec (st_index st) (id_index e) = Some rec" "ECS_RECORD_TO_ROW (er_row rec) = row"
    by (auto simp: entity_at_def in_table_def split: if_splits option.splits)
  then obtain t where t: "st_tables st tid = Some t" "e \<in> set (t_ents t)" using ok unfolding store_ok_def by blast
  note T = store_tableD [OF ok t(1)]
  obtain r where r: "r < t_count t" "t_ents t ! r = e" using t(2) T(8) by (auto simp: in_set_conv_nth)
  with T(3,8) rec have "r = row" by (auto simp: records_ok_def)
  with r t show "\<exists>t. located st e tid row t" by (auto simp: located_def)
next
  assume "\<exists>t. located st e tid row t"
  then obtain t where t: "st_tables st tid = Some t" "row < t_count t" "t_ents t ! row = e" by (auto simp: located_def)
  note T = store_tableD [OF ok t(1)]
  have "in_table (st_index st) tid e" "\<And>rec. ei_rec (st_index st) (id_index e) = Some rec \<Longrightarrow> ECS_RECORD_TO_ROW (er_row rec) = row"
    using T(1,3,8) t(2,3) by (auto simp: records_ok_def)
  then show "entity_at st e = Some (tid, row)" by (auto simp: entity_at_def in_table_def)
qed

lemma located_views:
  assumes ok: "store_ok ti st" and l: "located st e tid row t"
  shows "type_of st e = Some (t_type t)" "comp_of st e i = map_option (\<lambda>ci. t_cells t ci ! row) (column_of t i)"
    "in_table (st_index st) tid e"
proof -
  have at: "entity_at st e = Some (tid, row)" using entity_at_iff [OF ok] l by blast
  with l show "type_of st e = Some (t_type t)" "comp_of st e i = map_option (\<lambda>ci. t_cells t ci ! row) (column_of t i)"
    by (auto simp: type_of_def comp_of_def located_def t_cells_def cong: map_option_cong)
  show "in_table (st_index st) tid e" using at by (auto simp: entity_at_def in_table_def split: if_splits option.splits)
qed

lemma column_of_shape: "same_shape t t' \<Longrightarrow> column_of t' = column_of t"
  using cids_shape [of t t'] by (simp add: column_of_def [abs_def] same_shape_def)

lemma column_of_iff:
  assumes "sorted_wrt (<) (cids t)"
  shows "column_of t i = Some ci \<longleftrightarrow> ci < length (t_columns t) \<and> cid t ci = i"
proof -
  have l: "length (cids t) = length (t_columns t)" by (simp add: cids_def)
  have "distinct (cids t)" using assms strict_sorted_iff by blast
  then have "column_of t i = Some ci \<longleftrightarrow> (i, ci) \<in> set (zip (cids t) [0..<length (t_columns t)])"
    using l by (simp add: column_of_def map_of_eq_Some_iff)
  also have "\<dots> \<longleftrightarrow> ci < length (t_columns t) \<and> cid t ci = i" using l by (auto simp: set_zip cids_def intro: exI [of _ ci])
  finally show ?thesis .
qed

lemma same_view:
  assumes ok: "store_ok ti st" "store_ok ti st'" and l: "located st x tid r t" "located st' x tid' r' t'" and s: "same_shape t t'"
    and c: "\<And>i. i < length (t_columns t) \<Longrightarrow> t_cells t' i ! r' = t_cells t i ! r"
  shows "type_of st' x = type_of st x \<and> comp_of st' x = comp_of st x"
proof -
  have "sorted_wrt (<) (cids t)" using store_tableD(5) [OF ok(1)] l(1) unfolding located_def by blast
  with c have "column_of t i = Some ci \<Longrightarrow> t_cells t' ci ! r' = t_cells t ci ! r" for i ci by (simp add: column_of_iff)
  then have "comp_of st' x i = comp_of st x i" for i
    by (cases "column_of t i")
      (simp_all add: located_views(2) [OF ok(1) l(1)] located_views(2) [OF ok(2) l(2)] column_of_shape [OF s])
  then show ?thesis using s by (auto simp: located_views(1) [OF ok(1) l(1)] located_views(1) [OF ok(2) l(2)] same_shape_def)
qed

lemma table_ok_shape:
  assumes "store_table_ok ti idx tid t" "same_shape t t'" "table_ok t'" "records_ok idx' t'" "t_count t' \<le> 2 ^ 28"
  shows "store_table_ok ti idx' tid t'"
proof -
  have "cid t' i = cid t i" for i using assms(2) by (simp add: cid_def same_shape_def)
  then show ?thesis using assms bits_ready_shape [OF assms(2)] cids_shape [OF assms(2)]
    by (auto simp: store_table_ok_def same_shape_def)
qed

lemma not_located:
  assumes ok: "store_ok ti st" and n: "\<And>tid. \<not> in_table (st_index st) tid x"
  shows "type_of st x = None" "comp_of st x i = None"
proof -
  have "entity_at st x = None"
  proof (rule ccontr)
    assume "entity_at st x \<noteq> None"
    then obtain tid row t where "located st x tid row t" using entity_at_iff [OF ok] by fastforce
    from located_views(3) [OF ok this] n show False by simp
  qed
  then show "type_of st x = None" "comp_of st x i = None" by (simp_all add: type_of_def comp_of_def)
qed

lemma located_ex:
  assumes ok: "store_ok ti st" and i: "in_table (st_index st) tid x"
  obtains row t where "located st x tid row t"
proof -
  obtain t where t: "st_tables st tid = Some t" "x \<in> set (t_ents t)" using assms unfolding store_ok_def by blast
  then show thesis using that store_tableD(8) [OF ok t(1)] by (auto simp: located_def in_set_conv_nth)
qed

section \<open>Moving an entity to another table\<close>

definition moved_store :: "'v store \<Rightarrow> ecs_entity \<Rightarrow> nat \<Rightarrow> 'v ecs_table \<Rightarrow> 'v ecs_table \<Rightarrow> nat \<Rightarrow> nat \<Rightarrow> 'v ecs_table \<Rightarrow> 'v ecs_table \<Rightarrow> 'v store" where
  \<comment> \<open>the store after the move of \<open>e\<close> from row \<open>row\<close> of \<open>S\<close> to \<open>D\<close>\<close>
  "moved_store st e dst D D' src row S S' =
    st\<lparr>st_tables := (st_tables st)(dst \<mapsto> D', src \<mapsto> S'),
       st_index := moved_index (ei_set (st_index st) (id_index e) (place dst (t_count D))) S row\<rparr>"

definition move_args :: "(64 word \<Rightarrow> 'v type_info) \<Rightarrow> 'v::zero store \<Rightarrow> ecs_entity \<Rightarrow> nat \<Rightarrow> 'v ecs_table \<Rightarrow> nat \<Rightarrow> nat \<Rightarrow> 'v ecs_table \<Rightarrow> bool" where
  "move_args ti st e dst D src row S \<longleftrightarrow> store_ok ti st \<and> located st e src row S \<and> st_tables st dst = Some D \<and> dst \<noteq> src \<and> t_count D < 2 ^ 28"

lemma move_index:
  assumes m: "move_args ti st e dst D src row S"
  defines "idx \<equiv> ei_set (st_index st) (id_index e) (place dst (t_count D))"
  shows "records_but idx S row" "ei_ok (moved_index idx S row)" "ei_alive (moved_index idx S row) = ei_alive (st_index st)"
    "in_table (moved_index idx S row) n x \<longleftrightarrow> (if x = e then n = dst else in_table (st_index st) n x)"
    "\<And>k rec. ei_rec idx k = Some rec \<Longrightarrow> er_table rec \<noteq> Some src \<Longrightarrow> ei_rec (moved_index idx S row) k = Some rec"
    "ei_ok idx" "ei_alive idx = ei_alive (st_index st)"
proof -
  have ok: "store_ok ti st" and l: "located st e src row S" and S: "st_tables st src = Some S" "row < t_count S" "t_ents S ! row = e"
    using m by (simp_all add: move_args_def located_def)
  note T = store_tableD [OF ok S(1)]
  have iok: "ei_ok (st_index st)" and e: "in_table (st_index st) src e" using T(3) located_views(3) [OF ok l] by (simp_all add: records_ok_def)
  then have al: "e \<in> ei_alive (st_index st)" by (simp add: in_table_def)
  show okx: "ei_ok idx" "ei_alive idx = ei_alive (st_index st)" unfolding idx_def by (rule ei_ok_place [OF iok al])+
  show b: "records_but idx S row" using records_leave [OF T(3) S(3)] S(2) T(8) okx(1) by (simp add: idx_def)
  note mi = moved_index_ok [OF b S(2) T(9)]
  show "ei_ok (moved_index idx S row)" "ei_alive (moved_index idx S row) = ei_alive (st_index st)" using mi(1,2) okx(2) by simp_all
  show "in_table (moved_index idx S row) n x \<longleftrightarrow> (if x = e then n = dst else in_table (st_index st) n x)"
    unfolding mi(3) unfolding idx_def by (rule in_table_place [OF iok al])
  show "ei_rec (moved_index idx S row) k = Some rec" if "ei_rec idx k = Some rec" "er_table rec \<noteq> Some src" for k rec
    using mi(4) [OF that(1)] that(2) T(1) by simp
qed

lemma moved_store_ok:
  assumes m: "move_args ti st e dst D src row S" and D': "moved_in D e S row D'" and S': "row_deleted S row S'"
  shows "store_ok ti (moved_store st e dst D D' src row S S')"
proof -
  let ?idx1 = "ei_set (st_index st) (id_index e) (place dst (t_count D))" let ?idx = "moved_index ?idx1 S row"
  have ok: "store_ok ti st" and l: "located st e src row S" and d: "st_tables st dst = Some D" "dst \<noteq> src" "t_count D < 2 ^ 28"
    and s: "st_tables st src = Some S" "row < t_count S" "t_ents S ! row = e"
    using m by (simp_all add: move_args_def located_def)
  note TD = store_tableD [OF ok d(1)] and TS = store_tableD [OF ok s(1)] and mi = move_index [OF m]
  have e: "in_table (st_index st) src e" by (rule located_views(3) [OF ok l])
  have st: "store_table_ok ti (st_index st) tid t" if "st_tables st tid = Some t" for tid t using ok that by (simp add: store_ok_def)
  have frame: "records_ok ?idx t'" if t: "records_ok ?idx1 t" "t_ents t' = t_ents t" "t_id t' = t_id t" "t_id t \<noteq> src" for t t' :: "'a ecs_table"
    by (rule records_frame [OF t(1) mi(2) _ _ t(2,3)]) (use mi t(4) in auto)
  have D1: "records_ok ?idx1 D'"
  proof (rule records_append [OF TD(3), unfolded TD(1,8)])
    have iok: "ei_ok (st_index st)" using TD(3) by (simp add: records_ok_def)
    show "e \<in> ei_alive (st_index st)" "\<not> in_table (st_index st) dst e"
      using e d(2) in_table_rec [OF iok e, of dst e] by (auto simp: in_table_def)
  qed (use d D' TD(1) in \<open>simp_all add: moved_in_def same_shape_def\<close>)
  have D2: "store_table_ok ti ?idx dst D'"
    by (rule table_ok_shape [OF st [OF d(1)]]) (use D' frame [OF D1] d TD(1) in \<open>simp_all add: moved_in_def same_shape_def\<close>)
  have "t_ents S' = swap_remove row (t_ents S)" "t_id S' = t_id S" "table_ok S'" using S' by (simp_all add: row_deleted_def same_shape_def)
  moreover from this have "t_count S' \<le> 2 ^ 28"
    using TS(6,8) by (auto simp: t_ents_def table_ok_def table_wf_def dest!: arg_cong [where f = length])
  moreover have "records_ok ?idx S'"
    by (rule records_ok_delete [OF mi(1)]) (use s TS(6,8) calculation in simp_all)
  ultimately have S2: "store_table_ok ti ?idx src S'"
    by (intro table_ok_shape [OF st [OF s(1)]]) (use S' in \<open>simp_all add: row_deleted_def\<close>)
  have other: "store_table_ok ti ?idx tid t" if t: "st_tables st tid = Some t" "tid \<noteq> dst" "tid \<noteq> src" for tid t
  proof -
    note T = store_tableD [OF ok t(1)]
    have "records_ok ?idx1 t"
      by (rule records_frame [OF T(3)]) (use mi(6,7) e T(1) t(3) in \<open>auto simp: in_table_def\<close>)
    then have "records_ok ?idx t" using frame [of t t] T(1) t(3) by simp
    with st [OF t(1)] show ?thesis by (simp add: store_table_ok_def)
  qed
  have cover: "\<exists>t. ((st_tables st)(dst \<mapsto> D', src \<mapsto> S')) tid = Some t \<and> x \<in> set (t_ents t)" if x: "in_table ?idx tid x" for x tid
  proof (cases "x = e")
    case True
    then show ?thesis using x mi(4) D' d(2) by (auto simp: moved_in_def)
  next
    case False
    then have "in_table (st_index st) tid x" using x mi(4) by simp
    then obtain t where t: "st_tables st tid = Some t" "x \<in> set (t_ents t)" using ok unfolding store_ok_def by blast
    have "x \<in> set (t_ents S')" if "tid = src"
    proof -
      have "distinct (t_ents S)" using TS(3) by (simp add: records_ok_def distinct_map)
      then show ?thesis using t that s False S' TS(8) by (simp add: row_deleted_def set_swap_remove)
    qed
    then show ?thesis using t d D' by (auto simp: moved_in_def)
  qed
  show ?thesis using mi(2) D2 S2 other cover d(2) by (auto simp: store_ok_def moved_store_def)
qed

lemma swap_remove_at:
  assumes "row < n" "r < n" "r \<noteq> row"
  shows "(if r = n - 1 then row else r) < n - 1"
    and "length ys = n \<Longrightarrow> swap_remove row ys ! (if r = n - 1 then row else r) = ys ! r"
proof -
  show "(if r = n - 1 then row else r) < n - 1" using assms by auto
  assume l: "length ys = n"
  then have "last ys = ys ! (n - 1)" using assms last_conv_nth [of ys] by (cases ys) auto
  with l assms show "swap_remove row ys ! (if r = n - 1 then row else r) = ys ! r" by (auto simp: swap_remove_nth)
qed

lemma ents_length: "table_wf t \<Longrightarrow> length (t_ents t) = t_count t"
  by (simp add: table_wf_def t_ents_def)

lemma cells_length:
  assumes "table_ok t" "i < length (t_columns t)"
  shows "length (t_cells t i) = t_count t"
  using assms by (simp add: t_cells_def table_ok_def table_wf_def column_wf_def)

lemma row_deleted_at:
  assumes ok: "table_ok S" and S': "row_deleted S row S'" and row: "row < t_count S" and r: "r < t_count S" "r \<noteq> row"
  shows "\<exists>r'. r' < t_count S' \<and> t_ents S' ! r' = t_ents S ! r \<and> (\<forall>i < length (t_columns S). t_cells S' i ! r' = t_cells S i ! r)"
proof (intro exI conjI allI impI)
  let ?r = "if r = t_count S - 1 then row else r"
  note at = swap_remove_at [OF row r]
  have "table_wf S" using ok by (simp add: table_ok_def)
  note len = ents_length [OF this]
  have "table_wf S'" and es: "t_ents S' = swap_remove row (t_ents S)" using S' by (simp_all add: row_deleted_def table_ok_def)
  from ents_length [OF this(1)] show "?r < t_count S'" using at(1) es len by simp
  show "t_ents S' ! ?r = t_ents S ! r" unfolding es by (rule at(2) [OF len])
  show "t_cells S' i ! ?r = t_cells S i ! r" if "i < length (t_columns S)" for i
    using S' that at(2) [OF cells_length [OF ok that]] by (simp add: row_deleted_def)
qed

lemma views_preserved:
  assumes ok: "store_ok ti st" "store_ok ti st'"
    and it: "\<And>tid. in_table (st_index st') tid x = in_table (st_index st) tid x"
    and at: "\<And>tid r t. located st x tid r t \<Longrightarrow> \<exists>r' t'. located st' x tid r' t' \<and> same_shape t t' \<and>
      (\<forall>i < length (t_columns t). t_cells t' i ! r' = t_cells t i ! r)"
  shows "type_of st' x = type_of st x \<and> comp_of st' x = comp_of st x"
proof (cases "\<exists>tid. in_table (st_index st) tid x")
  case True
  then obtain tid r t where l: "located st x tid r t" using located_ex [OF ok(1)] by blast
  with at [OF l] obtain r' t' where l': "located st' x tid r' t'" "same_shape t t'"
    "\<forall>i < length (t_columns t). t_cells t' i ! r' = t_cells t i ! r" by blast
  from same_view [OF ok l l'(1,2)] l'(3) show ?thesis by blast
next
  case False
  then show ?thesis using not_located [OF ok(1), of x] not_located [OF ok(2), of x] it by (simp add: fun_eq_iff)
qed

lemma moved_store_located:
  assumes m: "move_args ti st e dst D src row S" and D': "moved_in D e S row D'" and S': "row_deleted S row S'"
  shows "located (moved_store st e dst D D' src row S S') e dst (t_count D) D'"
    and "x \<noteq> e \<Longrightarrow> located st x tid r t \<Longrightarrow> \<exists>r' t'. located (moved_store st e dst D D' src row S S') x tid r' t' \<and> same_shape t t' \<and>
      (\<forall>i < length (t_columns t). t_cells t' i ! r' = t_cells t i ! r)"
proof -
  let ?st = "moved_store st e dst D D' src row S S'"
  have ok: "store_ok ti st" and d: "st_tables st dst = Some D" "dst \<noteq> src"
    and s: "st_tables st src = Some S" "row < t_count S" "t_ents S ! row = e"
    using m by (simp_all add: move_args_def located_def)
  note TD = store_tableD [OF ok d(1)] and TS = store_tableD [OF ok s(1)]
  have tabs: "st_tables ?st tid = (if tid = src then Some S' else if tid = dst then Some D' else st_tables st tid)" for tid
    using d by (simp add: moved_store_def)
  show "located ?st e dst (t_count D) D'" using d D' TD(8) by (simp add: located_def tabs moved_in_def nth_append)
  assume x: "x \<noteq> e" and l: "located st x tid r t"
  consider "tid = src" | "tid = dst" | "tid \<noteq> src" "tid \<noteq> dst" by blast
  then show "\<exists>r' t'. located ?st x tid r' t' \<and> same_shape t t' \<and> (\<forall>i < length (t_columns t). t_cells t' i ! r' = t_cells t i ! r)"
  proof cases
    case 1
    with l s x have t: "t = S" "r < t_count S" "t_ents S ! r = x" "r \<noteq> row" by (auto simp: located_def)
    obtain r' where at: "r' < t_count S'" "t_ents S' ! r' = t_ents S ! r"
      "\<forall>i < length (t_columns S). t_cells S' i ! r' = t_cells S i ! r" using row_deleted_at [OF TS(2) S' s(2) t(2) t(4)] by blast
    have "located ?st x src r' S'" using at(1,2) t by (simp add: located_def tabs)
    moreover have "same_shape S S'" using S' by (simp add: row_deleted_def)
    ultimately show ?thesis using at(3) unfolding 1 t(1) by blast
  next
    case 2
    with l d have t: "t = D" "r < t_count D" "t_ents D ! r = x" by (auto simp: located_def)
    have "located ?st x dst r D'" using t D' d TD(8) by (simp add: located_def tabs moved_in_def nth_append)
    moreover have "t_cells D' i ! r = t_cells D i ! r" if i: "i < length (t_columns D)" for i
    proof -
      obtain c where "t_cells D' i = t_cells D i @ [c]" using D' i unfolding moved_in_def by blast
      then show ?thesis using cells_length [OF TD(2) i] t by (simp add: nth_append)
    qed
    moreover have "same_shape D D'" using D' by (simp add: moved_in_def)
    ultimately show ?thesis unfolding 2 t(1) by blast
  next
    case 3
    with l have "located ?st x tid r t" by (simp add: located_def tabs)
    then show ?thesis using same_shape_id by blast
  qed
qed

lemma moved_store_entity:
  assumes m: "move_args ti st e dst D src row S" and D': "moved_in D e S row D'" and S': "row_deleted S row S'"
  defines "st' \<equiv> moved_store st e dst D D' src row S S'"
  shows "type_of st' e = Some (t_type D)" "comp_of st' e i \<noteq> None \<longleftrightarrow> column_of D i \<noteq> None"
    "column_of D i \<noteq> None \<Longrightarrow> column_of S i \<noteq> None \<Longrightarrow> comp_of st' e i = comp_of st e i"
    "column_of D i \<noteq> None \<Longrightarrow> typed (ti i) \<Longrightarrow> comp_of st' e i \<noteq> Some Raw"
proof -
  have ok: "store_ok ti st" and d: "st_tables st dst = Some D" and l: "located st e src row S" and s: "st_tables st src = Some S"
    using m by (simp_all add: move_args_def located_def)
  note TD = store_tableD [OF ok d(1)] and TS = store_tableD [OF ok s(1)]
  have ok': "store_ok ti st'" unfolding st'_def by (rule moved_store_ok [OF m D' S'])
  have l': "located st' e dst (t_count D) D'" unfolding st'_def by (rule moved_store_located(1) [OF m D' S'])
  have sh: "same_shape D D'" using D' by (simp add: moved_in_def)
  note v = located_views(1,2) [OF ok' l', unfolded column_of_shape [OF sh]]
  show "type_of st' e = Some (t_type D)" using v(1) sh by (simp add: same_shape_def)
  show "comp_of st' e i \<noteq> None \<longleftrightarrow> column_of D i \<noteq> None" by (simp add: v(2))
  have new: "comp_of st' e i = Some c \<and> (typed (ti i) \<longrightarrow> c \<noteq> Raw) \<and> (\<forall>j < length (t_columns S). cid S j = i \<longrightarrow> c = t_cells S j ! row)"
    if "column_of D i = Some ci" "t_cells D' ci = t_cells D ci @ [c]" "typed (col_ti (t_columns D ! ci)) \<longrightarrow> c \<noteq> Raw"
      "\<forall>j < length (t_columns S). cid S j = cid D ci \<longrightarrow> c = t_cells S j ! row" for ci c
    using that TD(7) [of ci] cells_length [OF TD(2), of ci] column_of_iff [OF TD(5), of i ci] by (simp add: v(2) nth_append)
  have ex: "\<exists>c. comp_of st' e i = Some c \<and> (typed (ti i) \<longrightarrow> c \<noteq> Raw) \<and> (\<forall>j < length (t_columns S). cid S j = i \<longrightarrow> c = t_cells S j ! row)"
    if "column_of D i \<noteq> None"
  proof -
    obtain ci where ci: "column_of D i = Some ci" using \<open>column_of D i \<noteq> None\<close> by blast
    then have "ci < length (t_columns D)" by (simp add: column_of_iff [OF TD(5)])
    with D' obtain c where "t_cells D' ci = t_cells D ci @ [c]" "typed (col_ti (t_columns D ! ci)) \<longrightarrow> c \<noteq> Raw"
      "\<forall>j < length (t_columns S). cid S j = cid D ci \<longrightarrow> c = t_cells S j ! row" by (auto simp: moved_in_def)
    from new [OF ci this] show ?thesis by blast
  qed
  show "comp_of st' e i \<noteq> Some Raw" if "column_of D i \<noteq> None" "typed (ti i)" using ex [OF that(1)] that(2) by auto
  show "comp_of st' e i = comp_of st e i" if c: "column_of D i \<noteq> None" and "column_of S i \<noteq> None"
  proof -
    obtain j where j: "column_of S i = Some j" using \<open>column_of S i \<noteq> None\<close> by blast
    then have "j < length (t_columns S)" "cid S j = i" by (simp_all add: column_of_iff [OF TS(5)])
    with ex [OF c] show ?thesis by (auto simp: located_views(2) [OF ok l] j)
  qed
qed

lemma moved_store_others:
  assumes m: "move_args ti st e dst D src row S" and D': "moved_in D e S row D'" and S': "row_deleted S row S'" and x: "x \<noteq> e"
  defines "st' \<equiv> moved_store st e dst D D' src row S S'"
  shows "type_of st' x = type_of st x \<and> comp_of st' x = comp_of st x"
proof -
  have ok: "store_ok ti st" using m by (simp add: move_args_def)
  have ok': "store_ok ti st'" unfolding st'_def by (rule moved_store_ok [OF m D' S'])
  have it: "in_table (st_index st') tid x \<longleftrightarrow> in_table (st_index st) tid x" for tid
    using move_index(4) [OF m] x by (simp add: st'_def moved_store_def)
  show ?thesis
    by (rule views_preserved [OF ok ok' it]) (use moved_store_located(2) [OF m D' S' x] in \<open>simp add: st'_def\<close>)
qed

lemma column_of_None: "column_of t i = None \<longleftrightarrow> i \<notin> set (cids t)"
proof -
  have "dom (column_of t) = set (cids t)" by (simp add: column_of_def [abs_def] dom_map_of_zip cids_def)
  then show ?thesis by (metis domIff)
qed

definition move_steps :: "'v::zero store \<Rightarrow> ecs_entity \<Rightarrow> nat \<Rightarrow> 'v ecs_table \<Rightarrow> nat \<Rightarrow> nat \<Rightarrow> 'v ecs_table \<Rightarrow> 64 word \<Rightarrow> ('v store \<times> 'v store_event list) result" where
  \<comment> \<open>\<open>flecs_move_entity\<close> once its assertions hold\<close>
  "move_steps st e dst D src row S emplace =
    bindR (flecs_table_append D e False False) (\<lambda>(D1, log1).
    bindR (flecs_table_move e e D1 (t_count D) S row emplace) (\<lambda>(D2, S1, log2).
    bindR (flecs_table_delete (ei_set (st_index st) (id_index e) (place dst (t_count D))) S1 row False) (\<lambda>(idx, S2, log3).
    bindR (ei_read idx (id_index e)) (\<lambda>rec.
    ecs_assert (er_table rec = Some dst) ECS_INTERNAL_ERROR
      (Inr (st\<lparr>st_tables := (st_tables st)(dst \<mapsto> D2, src \<mapsto> S2), st_index := idx\<rparr>,
        [Table_Events dst log1, Actions_Move_Remove src dst row, Table_Events dst log2, Table_Events src log3, Actions_Move_Add dst src (t_count D)]))))))"

lemma move_entity_eq:
  assumes m: "move_args ti st e dst D src row S"
  shows "flecs_move_entity st e (id_index e) dst emplace = move_steps st e dst D src row S emplace"
proof -
  have ok: "store_ok ti st" and l: "located st e src row S" and d: "st_tables st dst = Some D" "dst \<noteq> src"
    and s: "st_tables st src = Some S" "row < t_count S" using m by (simp_all add: move_args_def located_def)
  have "entity_at st e = Some (src, row)" using entity_at_iff [OF ok] l by blast
  then obtain rec where rec: "e \<in> ei_alive (st_index st)" "ei_rec (st_index st) (id_index e) = Some rec" "er_table rec = Some src"
    "ECS_RECORD_TO_ROW (er_row rec) = row" by (auto simp: entity_at_def split: if_splits option.splits)
  have iok: "ei_ok (st_index st)" using ok by (simp add: store_ok_def)
  show ?thesis
    by (simp add: flecs_move_entity_def move_steps_def Let_def ei_read_ok [OF rec(2)] rec d s d(2) [symmetric] get_ok(1) [OF iok rec(1)]
        get_table_def set_record_def put_table_def ei_write_ok split_def bindR_assoc)
qed

lemma move_steps_ok:
  fixes st :: "'v::zero store"
  assumes m: "move_args ti st e dst D src row S" and lock: "t_lock D = 0" "t_lock S = 0"
    and mv: "\<And>i. column_of S i \<noteq> None \<Longrightarrow> movable (ti i)" and em: "column_of D emplace = None \<or> column_of S emplace \<noteq> None"
  shows "returns (move_steps st e dst D src row S emplace)
    (\<lambda>(st', log). \<exists>D' S'. st' = moved_store st e dst D D' src row S S' \<and> moved_in D e S row D' \<and> row_deleted S row S')"
proof -
  let ?idx = "ei_set (st_index st) (id_index e) (place dst (t_count D))"
  have ok: "store_ok ti st" and d: "st_tables st dst = Some D" "dst \<noteq> src" "t_count D < 2 ^ 28"
    and s: "st_tables st src = Some S" "row < t_count S" using m by (simp_all add: move_args_def located_def)
  note TD = store_tableD [OF ok d(1)] and TS = store_tableD [OF ok s(1)] and mi = move_index [OF m]
  have comp: "compatible D S" using TD(4,5,7) TS(4,5,7) by (simp add: compatible_def)
  have mv': "movable (col_ti (t_columns S ! j))" if "j < length (t_columns S)" for j
    using mv [of "cid S j"] that TS(7) [OF that] column_of_iff [OF TS(5), of "cid S j" j] by auto
  have em': "emplace \<notin> set (cids D) \<or> emplace \<in> set (cids S)" using em by (simp add: column_of_None)
  have last: "last_in_table ?idx S row" by (rule records_but_last [OF mi(1) s(2) TS(9)])
  have rd: "\<exists>rec. ei_rec (moved_index ?idx S row) (id_index e) = Some rec \<and> er_table rec = Some dst"
    using mi(4) [of dst e] by (auto simp: in_table_def)
  have n: "t_count D < 2 ^ 30" using d(3) by simp
  show ?thesis unfolding move_steps_def returns_bindR
  proof (rule returns_mono [OF append_ok [OF TD(2) lock(1) n]])
    fix x :: "'v ecs_table \<times> 'v table_event list"
    assume "case x of (D1, log) \<Rightarrow> appended D e False D1 \<and> freed_ok (\<lambda>ci. col_ti (t_columns D ! ci)) log"
    then obtain D1 log1 where x: "x = (D1, log1)" and D1: "appended D e False D1" by (cases x) auto
    have R: "move_ready D1 (t_count D) S row" by (rule appended_ready [OF TS(2) s(2) D1 comp mv'])
    have sh: "same_shape D D1" using D1 by (simp add: appended_def)
    then have pre: "bits_ready D1" "t_lock D1 = 0" using bits_ready_shape [OF sh] TD(4) lock by (simp_all add: same_shape_def)
    have "returns (flecs_table_move e e D1 (t_count D) S row emplace) (\<lambda>(D2, S1, log2).
      returns (flecs_table_delete ?idx S1 row False) (\<lambda>(idx, S2, log3).
        idx = moved_index ?idx S row \<and> moved_in D e S row D2 \<and> row_deleted S row S2))"
    proof (rule returns_mono [OF table_move_ok [OF R pre(1) TS(4) pre(2) lock(2)]])
      fix y :: "'v ecs_table \<times> 'v ecs_table \<times> 'v table_event list"
      assume "case y of (D', S', log) \<Rightarrow> row_moved D1 (t_count D) S row emplace D' S'"
      then obtain D2 S1 log2 where y: "y = (D2, S1, log2)" and mo: "row_moved D1 (t_count D) S row emplace D2 S1" by (cases y) auto
      have "moved_in D e S row D2" by (rule moved_in_ok [OF TD(2) D1 R mo em'])
      with moved_out_ok [OF R mo lock(2) last]
      show "case y of (D2, S1, log2) \<Rightarrow> returns (flecs_table_delete ?idx S1 row False) (\<lambda>(idx, S2, log3).
          idx = moved_index ?idx S row \<and> moved_in D e S row D2 \<and> row_deleted S row S2)"
        by (auto simp: y elim!: returns_mono)
    qed
    then show "returns (case x of (D1, log1) \<Rightarrow> bindR (flecs_table_move e e D1 (t_count D) S row emplace) (\<lambda>(D2, S1, log2).
        bindR (flecs_table_delete ?idx S1 row False) (\<lambda>(idx, S2, log3). bindR (ei_read idx (id_index e)) (\<lambda>rec.
        ecs_assert (er_table rec = Some dst) ECS_INTERNAL_ERROR (Inr (st\<lparr>st_tables := (st_tables st)(dst \<mapsto> D2, src \<mapsto> S2), st_index := idx\<rparr>,
          [Table_Events dst log1, Actions_Move_Remove src dst row, Table_Events dst log2, Table_Events src log3, Actions_Move_Add dst src (t_count D)]))))))
      (\<lambda>(st', log). \<exists>D' S'. st' = moved_store st e dst D D' src row S S' \<and> moved_in D e S row D' \<and> row_deleted S row S')"
      unfolding x prod.case returns_bindR
      using rd by (auto simp: split_def moved_store_def ei_read_ok elim!: returns_mono) blast
  qed
qed

text \<open>C1: Moving an entity to another table (what adding or removing components comes down to) does what it
  promises on the store as a map from entities to types and component values. The entity gets the type of
  the destination; the components that both tables have keep their values; those that only the destination
  has are constructed; no other entity changes its type or a value, although the last row of the source
  fills the hole; the same entities are alive; and the invariant that ties records, rows and values
  together holds again. The conditions are that no table is locked, that rows fit in the 28 bits of a
  record, that a type whose values have to be destructed or moved has a move constructor, and that the id
  to be emplaced is not new to the entity (the caller constructs it otherwise).\<close>

theorem flecs_move_entity_correct:
  fixes st :: "'v::zero store"
  assumes ok: "store_ok ti st" and e: "entity_at st e = Some (src, row)" and S: "st_tables st src = Some S"
    and D: "st_tables st dst = Some D" "dst \<noteq> src" "t_count D < 2 ^ 28" and lock: "t_lock D = 0" "t_lock S = 0"
    and mv: "\<And>i. column_of S i \<noteq> None \<Longrightarrow> movable (ti i)" and em: "column_of D emplace = None \<or> column_of S emplace \<noteq> None"
  shows "returns (flecs_move_entity st e (id_index e) dst emplace) (\<lambda>(st', log). store_ok ti st' \<and>
    ei_alive (st_index st') = ei_alive (st_index st) \<and> type_of st' e = Some (t_type D) \<and>
    (\<forall>i. comp_of st' e i \<noteq> None \<longleftrightarrow> column_of D i \<noteq> None) \<and>
    (\<forall>i. column_of D i \<noteq> None \<longrightarrow> column_of S i \<noteq> None \<longrightarrow> comp_of st' e i = comp_of st e i) \<and>
    (\<forall>i. column_of D i \<noteq> None \<longrightarrow> typed (ti i) \<longrightarrow> comp_of st' e i \<noteq> Some Raw) \<and>
    (\<forall>x. x \<noteq> e \<longrightarrow> type_of st' x = type_of st x \<and> comp_of st' x = comp_of st x))"
proof -
  from e obtain S0 where "located st e src row S0" using entity_at_iff [OF ok] by blast
  then have m: "move_args ti st e dst D src row S" using ok S D by (simp add: move_args_def located_def)
  show ?thesis unfolding move_entity_eq [OF m]
  proof (rule returns_mono [OF move_steps_ok [OF m lock mv em]], assumption, clarify)
    fix D' S' :: "'v ecs_table" let ?st' = "moved_store st e dst D D' src row S S'"
    assume D': "moved_in D e S row D'" and S': "row_deleted S row S'"
    have "ei_alive (st_index ?st') = ei_alive (st_index st)" using move_index(3) [OF m] by (simp add: moved_store_def)
    then show "store_ok ti ?st' \<and> ei_alive (st_index ?st') = ei_alive (st_index st) \<and> type_of ?st' e = Some (t_type D) \<and>
      (\<forall>i. comp_of ?st' e i \<noteq> None \<longleftrightarrow> column_of D i \<noteq> None) \<and>
      (\<forall>i. column_of D i \<noteq> None \<longrightarrow> column_of S i \<noteq> None \<longrightarrow> comp_of ?st' e i = comp_of st e i) \<and>
      (\<forall>i. column_of D i \<noteq> None \<longrightarrow> typed (ti i) \<longrightarrow> comp_of ?st' e i \<noteq> Some Raw) \<and>
      (\<forall>x. x \<noteq> e \<longrightarrow> type_of ?st' x = type_of st x \<and> comp_of ?st' x = comp_of st x)"
      using moved_store_ok [OF m D' S'] moved_store_entity [OF m D' S'] moved_store_others [OF m D' S'] by blast
  qed
qed

definition narrow_table :: "nat ecs_table" where
  "narrow_table = two_rows\<lparr>t_bs := []\<rparr>"

definition wide_table :: "nat ecs_table" where
  "wide_table = \<lparr>t_id = 5, t_flags = EcsTableIsComplex OR EcsTableHasMove, t_type = [20, 21], t_column_map = [0, 1, 0, 1],
    t_columns = [\<lparr>col_data = [], col_ti = counter_type\<rparr>, \<lparr>col_data = [], col_ti = counter_type\<rparr>], t_entities = [], t_count = 0, t_size = 0,
    t_bs = [], t_bs_offset = 0, t_lock = 0, t_dirty = None, t_version = 0, t_bases = None\<rparr>"

definition two_tables :: "nat store" where
  \<comment> \<open>two entities with one component, and an empty table with two\<close>
  "two_tables = \<lparr>st_index = two_index, st_tables = [3 \<mapsto> narrow_table, 5 \<mapsto> wide_table], st_root = 0\<rparr>"

lemma two_index_alive: "ei_alive two_index = {400, 401}"
proof -
  have "{Suc 0..<Suc (Suc (Suc 0))} = {1, 2}" by auto
  then show ?thesis by (simp add: ei_alive_def alive_ids_def two_index_def)
qed

lemma two_tables_ok: "store_ok (\<lambda>_. counter_type) two_tables"
proof -
  have i: "id_index 400 = 400" "id_index 401 = 401" by (simp_all add: id_index_def)
  have sz: "ti_size counter_type = 4" by (simp add: counter_type_def)
  have ok: "table_ok narrow_table" "table_ok wide_table"
    using two_rows_ok counter_type_ok(1) sz by (auto simp: table_ok_def table_wf_def column_wf_def table_live_def cells_live_def narrow_table_def two_rows_def
        wide_table_def bases_ok_def base_of_def less_Suc_eq)
  have r: "records_ok two_index narrow_table"
    by (rule records_frame [OF two_index_ok]) (use two_index_ok in \<open>simp_all add: records_ok_def narrow_table_def t_ents_def\<close>)
  then have e: "ei_ok two_index" by (simp add: records_ok_def)
  have w: "records_ok two_index wide_table" using e by (simp add: records_ok_def t_ents_def wide_table_def)
  have it: "in_table two_index tid x \<longleftrightarrow> tid = 3 \<and> x \<in> {400, 401}" for tid x
    by (auto simp: in_table_def two_index_alive two_index_rec i)
  have c: "t_ents narrow_table = [400, 401]" by (simp add: narrow_table_def t_ents_def two_rows_def)
  show ?thesis using ok e r w
    by (auto simp: store_ok_def two_tables_def store_table_ok_def it c split: if_splits)
      (auto simp add: narrow_table_def wide_table_def two_rows_def bits_ready_def bs_ids_def cids_def cid_def less_Suc_eq)
qed

lemma flecs_move_entity_correct_witness:
  "returns (flecs_move_entity two_tables 400 (id_index 400) 5 0) (\<lambda>(st', log).
    type_of st' 400 = Some [20, 21] \<and> comp_of st' 400 20 = Some (Live 5) \<and> comp_of st' 400 21 \<notin> {None, Some Raw} \<and>
    type_of st' 401 = Some [20] \<and> comp_of st' 401 20 = Some (Live 6) \<and> type_of st' 402 = None)"
proof -
  have i: "id_index 400 = 400" "id_index 401 = 401" by (simp_all add: id_index_def)
  have at: "entity_at two_tables 400 = Some (3, 0)" "entity_at two_tables 401 = Some (3, 1)" "entity_at two_tables 402 = None"
    by (simp_all add: entity_at_def two_tables_def two_index_alive two_index_rec i) (simp_all add: ECS_RECORD_TO_ROW_def ECS_ROW_MASK_def)
  have cols: "column_of narrow_table k = (if k = 20 then Some 0 else None)" "column_of wide_table k = (if k = 20 then Some 0 else if k = 21 then Some 1 else None)" for k
    by (simp_all add: column_of_def cids_def cid_def narrow_table_def two_rows_def wide_table_def upt_rec)
  have v: "type_of two_tables 401 = Some [20]" "comp_of two_tables 401 20 = Some (Live 6)" "comp_of two_tables 400 20 = Some (Live 5)"
    "type_of two_tables 402 = None"
    by (simp_all add: type_of_def comp_of_def at) (simp_all add: two_tables_def cols, simp_all add: narrow_table_def two_rows_def)
  have mv: "movable counter_type" "typed counter_type"
    using merge_fields(6) [OF user_fns(1) [OF counter_hooks_ok], of no_hooks] counter_type_ok ti_ok_plain(3)
    by (auto simp: movable_def counter_type_def counter_hooks_def)
  have t: "st_tables two_tables 3 = Some narrow_table" "st_tables two_tables 5 = Some wide_table" by (simp_all add: two_tables_def)
  have "t_count wide_table < 2 ^ 28" "t_lock wide_table = 0" "t_lock narrow_table = 0" "t_type wide_table = [20, 21]"
    by (simp_all add: wide_table_def narrow_table_def two_rows_def)
  then show ?thesis
    by (intro returns_mono [OF flecs_move_entity_correct [OF two_tables_ok at(1) t(1) t(2), of 0]])
      (use mv v cols in \<open>auto split: if_splits\<close>)
qed

end
