(* ===== verification/Entity_Ranges.thy ===== *)
theory Entity_Ranges
  imports Entity_Index
begin

text \<open>
  \<open>addons/entity_ranges.c\<close>: entity ids issued from ranges, each with its own list of ids to recycle,
  and the operations of \<open>storage/entity_index.c\<close> that depend on them (\<open>flecs_entity_index_remove\<close>,
  \<open>flecs_entity_index_fini\<close>). \<open>ei_ranges\<close> lists the addresses of the ranges in the order of their
  minimum. With ranges the entity index is shown to be an \<open>id_pool\<close>.
\<close>

section \<open>Operations\<close>

definition range_at :: "entity_index \<Rightarrow> nat \<Rightarrow> ecs_entity_range result" where
  \<comment> \<open>a read through a range pointer\<close>
  "range_at idx a = arr_get (ei_range_store idx) a"

definition range_put :: "entity_index \<Rightarrow> nat \<Rightarrow> (ecs_entity_range \<Rightarrow> ecs_entity_range) \<Rightarrow> entity_index result" where
  \<comment> \<open>a write through a range pointer\<close>
  "range_put idx a f =
    bindR (range_at idx a) (\<lambda>r.
    bindR (arr_set (ei_range_store idx) a (f r)) (\<lambda>st. Inr (idx\<lparr>ei_range_store := st\<rparr>)))"

definition flecs_entity_index_remove_not_alive :: "entity_index \<Rightarrow> 32 word \<Rightarrow> entity_index result" where
  "flecs_entity_index_remove_not_alive idx k =
    (let not_alive = ei_alive_count idx;
         last = length (ei_dense idx) - 1 in
     bindR (if not_alive \<noteq> last then
              bindR (arr_get (ei_dense idx) last) (\<lambda>e_last.
              bindR (flecs_entity_index_get_any idx e_last) (\<lambda>k_last.
              bindR (ei_write idx k_last (set_dense not_alive)) (\<lambda>idx.
              bindR (arr_set (ei_dense idx) not_alive e_last) (\<lambda>ids.
              Inr (idx\<lparr>ei_dense := ids\<rparr>)))))
            else Inr idx) (\<lambda>idx.
     ei_write (idx\<lparr>ei_dense := list_resize last (ei_dense idx)\<rparr>) k (set_dense 0)))"

function find_range_loop :: "entity_index \<Rightarrow> 32 word \<Rightarrow> int \<Rightarrow> int \<Rightarrow> nat option result" where
  "find_range_loop idx k lo hi =
    (if lo \<le> hi then
       let mid = (lo + hi) div 2 in
       if mid < 0 then Inl Bad_Access
       else case arr_get (ei_ranges idx) (nat mid) of
         Inl err \<Rightarrow> Inl err
       | Inr a \<Rightarrow>
          (case range_at idx a of
            Inl err \<Rightarrow> Inl err
          | Inr r \<Rightarrow>
              if k < rg_min r then find_range_loop idx k lo (mid - 1)
              else if rg_max r \<noteq> 0 \<and> k > rg_max r then find_range_loop idx k (mid + 1) hi
              else Inr (Some a))
     else Inr None)"
  by pat_completeness auto
termination by (relation "measure (\<lambda>(_, _, lo, hi). nat (hi - lo + 1))") auto

declare find_range_loop.simps [simp del]

definition flecs_entity_index_find_range :: "entity_index \<Rightarrow> 32 word \<Rightarrow> nat option result" where
  "flecs_entity_index_find_range idx k =
    (let cnt = int (length (ei_ranges idx)) in
     if cnt = 0 then Inr None else find_range_loop idx k 0 (cnt - 1))"

definition flecs_entity_ranges_on_delete :: "entity_index \<Rightarrow> ecs_entity \<Rightarrow> 32 word \<Rightarrow> entity_index result" where
  "flecs_entity_ranges_on_delete idx e p =
    (case ei_active_range idx of
      None \<Rightarrow> Inr idx
    | Some a \<Rightarrow>
        bindR (range_at idx a) (\<lambda>active.
        let k = id_index e in
        if k \<ge> rg_min active \<and> (rg_max active = 0 \<or> k \<le> rg_max active) then Inr idx
        else
          bindR (flecs_entity_index_remove_not_alive idx p) (\<lambda>idx.
          bindR (flecs_entity_index_find_range idx k) (\<lambda>rng.
          case rng of
            None \<Rightarrow> Inr idx
          | Some b \<Rightarrow> range_put idx b (\<lambda>r. r\<lparr>rg_recycled := rg_recycled r @ [ECS_GENERATION_INC e]\<rparr>)))))"

definition flecs_entity_index_remove :: "entity_index \<Rightarrow> ecs_entity \<Rightarrow> entity_index result" where
  "flecs_entity_index_remove idx e =
    bindR (flecs_entity_index_remove_intern idx e) (\<lambda>(idx, r).
    case r of None \<Rightarrow> Inr idx | Some p \<Rightarrow> flecs_entity_ranges_on_delete idx e p)"

definition flecs_entity_index_fini :: "entity_index \<Rightarrow> entity_index" where
  \<comment> \<open>pages, ranges and vectors are freed\<close>
  "flecs_entity_index_fini idx = idx\<lparr>ei_dense := [], ei_pages := [], ei_ranges := [], ei_range_store := []\<rparr>"

fun clear_not_alive :: "entity_index \<Rightarrow> ecs_entity list \<Rightarrow> entity_index" where
  \<comment> \<open>the loop that clears the record of every id that is not alive\<close>
  "clear_not_alive idx [] = idx"
| "clear_not_alive idx (e # es) =
    clear_not_alive (if ei_rec idx (id_index e) \<noteq> None then ei_set idx (id_index e) (set_dense 0) else idx) es"

fun load_recycled :: "entity_index \<Rightarrow> nat \<Rightarrow> ecs_entity list \<Rightarrow> entity_index result" where
  \<comment> \<open>the loop that pairs the recycled ids with the dense positions from \<open>dense\<close> on\<close>
  "load_recycled idx dense [] = Inr idx"
| "load_recycled idx dense (e # es) =
    (let k = id_index e;
         idx = flecs_entity_index_ensure_page idx k in
     bindR (ei_write idx k (set_dense dense)) (\<lambda>idx.
     bindR (ei_read idx k) (\<lambda>r.
     ecs_assert (er_table r = None) ECS_INTERNAL_ERROR (load_recycled idx (Suc dense) es))))"

definition flecs_entity_index_set_range :: "entity_index \<Rightarrow> nat \<Rightarrow> entity_index result" where
  "flecs_entity_index_set_range idx rng =
    ecs_assert (rng \<in> set (ei_ranges idx)) ECS_INVALID_PARAMETER
      (let prev = ei_active_range idx;
           alive_count = ei_alive_count idx;
           not_alive = drop alive_count (ei_dense idx) in
       bindR (case prev of
           None \<Rightarrow> Inr idx
         | Some a \<Rightarrow> range_put idx a (\<lambda>r. r\<lparr>rg_recycled := not_alive, rg_cur := ei_max_id idx\<rparr>)) (\<lambda>idx.
       let idx = clear_not_alive idx not_alive;
           idx = idx\<lparr>ei_dense := list_resize alive_count (ei_dense idx)\<rparr> in
       bindR (range_at idx rng) (\<lambda>r.
       bindR (if rg_recycled r \<noteq> [] then
                bindR (load_recycled (idx\<lparr>ei_dense := ei_dense idx @ rg_recycled r\<rparr>) alive_count (rg_recycled r)) (\<lambda>idx.
                range_put idx rng (\<lambda>r. r\<lparr>rg_recycled := []\<rparr>))
              else Inr idx) (\<lambda>idx.
       bindR (range_at idx rng) (\<lambda>r.
       Inr (idx\<lparr>ei_max_id := rg_cur r, ei_active_range := Some rng\<rparr>))))))"

definition range_overlap :: "ecs_entity_range \<Rightarrow> 32 word \<Rightarrow> 32 word \<Rightarrow> bool" where
  "range_overlap existing mn mx =
    (if rg_max existing = 0 \<and> mx = 0 then True
     else if rg_max existing = 0 then mx \<ge> rg_min existing
     else if mx = 0 then mn \<le> rg_max existing
     else mn \<le> rg_max existing \<and> mx \<ge> rg_min existing)"

fun range_insert_shift :: "entity_index \<Rightarrow> 32 word \<Rightarrow> nat \<Rightarrow> nat \<Rightarrow> nat list \<Rightarrow> nat list result" where
  \<comment> \<open>the loop that shifts the ranges with a larger minimum, then stores the new range at \<open>i\<close>\<close>
  "range_insert_shift idx mn a 0 rs = arr_set rs 0 a"
| "range_insert_shift idx mn a (Suc i) rs =
    bindR (arr_get rs i) (\<lambda>b.
    bindR (range_at idx b) (\<lambda>r.
    if rg_min r \<le> mn then arr_set rs (Suc i) a
    else bindR (arr_set rs (Suc i) b) (\<lambda>rs. range_insert_shift idx mn a i rs)))"

definition range_new_insert :: "entity_index \<Rightarrow> bool \<Rightarrow> 32 word \<Rightarrow> 32 word \<Rightarrow> (entity_index \<times> nat option) result" where
  \<comment> \<open>\<open>ecs_entity_range_new\<close> from the overlap test on\<close>
  "range_new_insert idx first_range mn mx =
    (let cnt = length (ei_ranges idx) in
     if \<exists>b \<in> set (ei_ranges idx). range_overlap (ei_range_store idx ! b) mn mx then Inr (idx, None)
     else
       let a = length (ei_range_store idx);
           idx = idx\<lparr>ei_range_store := ei_range_store idx @
                   [\<lparr>rg_min = mn, rg_max = mx, rg_cur = mn - 1, rg_recycled = []\<rparr>],
                   ei_ranges := ei_ranges idx @ [a]\<rparr> in
       bindR (if cnt > 0 then range_insert_shift idx mn a cnt (ei_ranges idx) else Inr (ei_ranges idx)) (\<lambda>rs.
       let idx = idx\<lparr>ei_ranges := rs\<rparr> in
       if first_range \<and> mn = 1 then
         bindR (range_put idx a (\<lambda>r. r\<lparr>rg_cur := ei_max_id idx\<rparr>)) (\<lambda>idx.
         bindR (flecs_entity_index_set_range idx a) (\<lambda>idx. Inr (idx, Some a)))
       else Inr (idx, Some a)))"

definition range_new_default :: "entity_index \<Rightarrow> 32 word \<Rightarrow> (entity_index \<times> nat option) result" where
  \<comment> \<open>the recursive call \<open>ecs_entity_range_new(world, 1, min - 1)\<close> made for the first range\<close>
  "range_new_default idx mx =
    (if \<not> (mx = 0 \<or> mx \<ge> 1) then Inr (idx, None)
     else if flecs_entity_index_not_alive_count idx \<noteq> 0 then Inr (idx, None)
     else if \<not> (mx = 0 \<or> mx \<ge> ei_max_id idx) then Inr (idx, None)
     else range_new_insert idx True 1 mx)"

definition ecs_entity_range_new :: "entity_index \<Rightarrow> 32 word \<Rightarrow> 32 word \<Rightarrow> (entity_index \<times> nat option) result" where
  \<comment> \<open>a failing \<open>ecs_check\<close> returns the null pointer, here \<open>None\<close>\<close>
  "ecs_entity_range_new idx mn mx =
    (if \<not> mn > 0 then Inr (idx, None)
     else if \<not> (mx = 0 \<or> mx \<ge> mn) then Inr (idx, None)
     else if flecs_entity_index_not_alive_count idx \<noteq> 0 then Inr (idx, None)
     else
       let first_range = (ei_ranges idx = []) in
       if first_range \<and> mn = 1 \<and> \<not> (mx = 0 \<or> mx \<ge> ei_max_id idx) then Inr (idx, None)
       else
         bindR (if first_range \<and> mn > 1 then
                  bindR (range_new_default idx (mn - 1)) (\<lambda>(idx, default_range).
                  case default_range of
                    None \<Rightarrow> Inl Bad_Access
                  | Some d \<Rightarrow>
                      bindR (range_put idx d (\<lambda>r. r\<lparr>rg_cur := ei_max_id idx\<rparr>)) (\<lambda>idx.
                      flecs_entity_index_set_range idx d))
                else Inr idx) (\<lambda>idx.
         range_new_insert idx first_range mn mx))"

definition ecs_entity_range_set :: "entity_index \<Rightarrow> nat option \<Rightarrow> entity_index result" where
  "ecs_entity_range_set idx rng =
    (case rng of None \<Rightarrow> Inr idx | Some a \<Rightarrow> flecs_entity_index_set_range idx a)"

definition ecs_entity_range_get :: "entity_index \<Rightarrow> nat option" where
  "ecs_entity_range_get idx = ei_active_range idx"

section \<open>Finding the range of an id\<close>

definition in_range :: "ecs_entity_range \<Rightarrow> 32 word \<Rightarrow> bool" where
  "in_range r k \<longleftrightarrow> rg_min r \<le> k \<and> (rg_max r = 0 \<or> k \<le> rg_max r)"

definition range_before :: "ecs_entity_range \<Rightarrow> ecs_entity_range \<Rightarrow> bool" where
  "range_before r s \<longleftrightarrow> rg_max r \<noteq> 0 \<and> rg_max r < rg_min s"

definition ranges_ok :: "entity_index \<Rightarrow> bool" where
  \<comment> \<open>range pointers are valid\<close>
  "ranges_ok idx \<longleftrightarrow> (\<forall>a \<in> set (ei_ranges idx). a < length (ei_range_store idx)) \<and>
    (\<forall>a. ei_active_range idx = Some a \<longrightarrow> a \<in> set (ei_ranges idx))"

definition ranges_sorted :: "entity_index \<Rightarrow> bool" where
  \<comment> \<open>ranges are not empty, disjoint and in order\<close>
  "ranges_sorted idx \<longleftrightarrow>
    sorted_wrt (\<lambda>a b. range_before (ei_range_store idx ! a) (ei_range_store idx ! b)) (ei_ranges idx) \<and>
    (\<forall>a \<in> set (ei_ranges idx). rg_min (ei_range_store idx ! a) > 0 \<and>
      (rg_max (ei_range_store idx ! a) = 0 \<or> rg_min (ei_range_store idx ! a) \<le> rg_max (ei_range_store idx ! a)))"

lemma in_range_before: "range_before r s \<Longrightarrow> in_range r k \<Longrightarrow> \<not> in_range s k"
  by (auto simp: in_range_def range_before_def)

lemma ranges_order:
  assumes "ranges_sorted idx" and "i < j" "j < length (ei_ranges idx)"
  shows "range_before (ei_range_store idx ! (ei_ranges idx ! i)) (ei_range_store idx ! (ei_ranges idx ! j))"
  using sorted_wrt_nth_less [OF conjunct1 [OF assms(1) [unfolded ranges_sorted_def]] assms(2,3)] .

lemma find_range_loop_ok:
  assumes "ranges_ok idx" "ranges_sorted idx" "0 \<le> lo" "hi < int (length (ei_ranges idx))"
    and "\<And>i. i < length (ei_ranges idx) \<Longrightarrow> int i < lo \<or> hi < int i \<Longrightarrow>
      \<not> in_range (ei_range_store idx ! (ei_ranges idx ! i)) k"
  shows "returns (find_range_loop idx k lo hi) (\<lambda>p. case p of
      None \<Rightarrow> \<forall>a \<in> set (ei_ranges idx). \<not> in_range (ei_range_store idx ! a) k
    | Some a \<Rightarrow> a \<in> set (ei_ranges idx) \<and> in_range (ei_range_store idx ! a) k)"
  using assms
proof (induction idx k lo hi rule: find_range_loop.induct)
  case (1 idx k lo hi)
  let ?rs = "ei_ranges idx" and ?st = "ei_range_store idx"
  show ?case
  proof (cases "lo \<le> hi")
    case False
    have "\<not> in_range (?st ! a) k" if "a \<in> set ?rs" for a
    proof -
      from that obtain i where "i < length ?rs" "a = ?rs ! i" by (metis in_set_conv_nth)
      with "1.prems"(5) [of i] False show ?thesis by (cases "int i < lo") auto
    qed
    with False show ?thesis by (subst find_range_loop.simps) simp
  next
    case True
    define mid where "mid = (lo + hi) div 2"
    have mid: "lo \<le> mid" "mid \<le> hi" "0 \<le> mid" using True "1.prems"(3) by (auto simp: mid_def)
    define a where "a = ?rs ! nat mid"
    have nm: "nat mid < length ?rs" using mid "1.prems"(4) by auto
    then have a: "a \<in> set ?rs" "a < length ?st" using "1.prems"(1) by (auto simp: a_def ranges_ok_def)
    define r where "r = ?st ! a"
    have get: "arr_get ?rs (nat mid) = Inr a" "range_at idx a = Inr r"
      using nm a by (simp_all add: a_def r_def range_at_def)
    have before: "i < nat mid \<Longrightarrow> range_before (?st ! (?rs ! i)) r"
      and after: "nat mid < i \<Longrightarrow> i < length ?rs \<Longrightarrow> range_before r (?st ! (?rs ! i))" for i
      using ranges_order [OF "1.prems"(2)] nm by (auto simp: r_def a_def)
    have valid: "rg_max r = 0 \<or> rg_min r \<le> rg_max r" using "1.prems"(2) a by (auto simp: ranges_sorted_def r_def)
    note unfold = find_range_loop.simps [of idx k lo hi] mid_def [symmetric]
    consider (low) "k < rg_min r" | (high) "\<not> k < rg_min r" "rg_max r \<noteq> 0" "rg_max r < k"
      | (hit) "in_range r k" unfolding in_range_def by (metis not_le)
    then show ?thesis
    proof cases
      case low
      have "\<not> in_range (?st ! (?rs ! i)) k" if "i < length ?rs" "int i < lo \<or> mid - 1 < int i" for i
      proof (cases "nat mid < i")
        case True
        with after [OF this that(1)] valid low show ?thesis
          by (auto simp: range_before_def in_range_def)
      next
        case False
        then have "int i < lo \<or> i = nat mid" using that mid by auto
        with "1.prems"(5) [OF that(1)] low show ?thesis by (auto simp: in_range_def r_def a_def)
      qed
      then have "returns (find_range_loop idx k lo (mid - 1)) (\<lambda>p. case p of
          None \<Rightarrow> \<forall>a \<in> set ?rs. \<not> in_range (?st ! a) k
        | Some a \<Rightarrow> a \<in> set ?rs \<and> in_range (?st ! a) k)"
        using True low get mid "1.prems" unfolding mid_def by (intro "1.IH"(1)) auto
      then show ?thesis using True low get mid by (simp add: unfold Let_def)
    next
      case high
      have "\<not> in_range (?st ! (?rs ! i)) k" if "i < length ?rs" "int i < mid + 1 \<or> hi < int i" for i
      proof (cases "i < nat mid")
        case True
        with before [OF this] valid high show ?thesis
          by (auto simp: range_before_def in_range_def)
      next
        case False
        then have "hi < int i \<or> i = nat mid" using that mid by auto
        with "1.prems"(5) [OF that(1)] high show ?thesis by (auto simp: in_range_def r_def a_def)
      qed
      then have "returns (find_range_loop idx k (mid + 1) hi) (\<lambda>p. case p of
          None \<Rightarrow> \<forall>a \<in> set ?rs. \<not> in_range (?st ! a) k
        | Some a \<Rightarrow> a \<in> set ?rs \<and> in_range (?st ! a) k)"
        using True high get mid "1.prems" unfolding mid_def by (intro "1.IH"(2)) auto
      then show ?thesis using True high get mid by (simp add: unfold Let_def)
    next
      case hit
      then have "\<not> k < rg_min r" "\<not> (rg_max r \<noteq> 0 \<and> k > rg_max r)" by (auto simp: in_range_def)
      then show ?thesis using True get mid a hit by (auto simp: unfold Let_def r_def)
    qed
  qed
qed

lemma find_range_ok:
  assumes "ranges_ok idx" "ranges_sorted idx"
  shows "returns (flecs_entity_index_find_range idx k) (\<lambda>p. case p of
      None \<Rightarrow> \<forall>a \<in> set (ei_ranges idx). \<not> in_range (ei_range_store idx ! a) k
    | Some a \<Rightarrow> a \<in> set (ei_ranges idx) \<and> in_range (ei_range_store idx ! a) k)"
  using find_range_loop_ok [OF assms, of 0 "int (length (ei_ranges idx)) - 1" k]
  by (cases "ei_ranges idx = []") (simp_all add: flecs_entity_index_find_range_def)

lemma find_range_unique:
  assumes "ranges_sorted idx" "a \<in> set (ei_ranges idx)" "b \<in> set (ei_ranges idx)"
    "in_range (ei_range_store idx ! a) k" "in_range (ei_range_store idx ! b) k"
  shows "a = b"
proof -
  from assms(2,3) obtain i j where ij: "i < length (ei_ranges idx)" "a = ei_ranges idx ! i"
    "j < length (ei_ranges idx)" "b = ei_ranges idx ! j" by (metis in_set_conv_nth)
  have "\<not> i < j" "\<not> j < i"
    using ranges_order [OF assms(1), of i j] ranges_order [OF assms(1), of j i] in_range_before assms(4,5) ij
    by blast+
  with ij show ?thesis by simp
qed

section \<open>Removing\<close>

lemma ei_look_write:
  "ei_look idx k \<noteq> 0 \<Longrightarrow> ei_look (ei_set idx k (set_dense d)) = (ei_look idx)(k := d)"
  using ei_look_rec [of idx k] by (simp add: ei_look_set)

lemma remove_not_alive_ok:
  assumes ok: "ei_ok idx" and k: "ei_look idx k = ei_alive_count idx"
  shows "returns (flecs_entity_index_remove_not_alive idx k) (\<lambda>idx'. ei_ok idx' \<and>
    ei_alive idx' = ei_alive idx \<and> ei_look idx' k = 0 \<and> ei_alive_count idx' = ei_alive_count idx \<and>
    ei_dense idx' = swap_remove (ei_alive_count idx) (ei_dense idx) \<and>
    ei_max_id idx' = ei_max_id idx \<and> ei_active_range idx' = ei_active_range idx \<and>
    ei_ranges idx' = ei_ranges idx \<and> ei_range_store idx' = ei_range_store idx \<and> same_tables idx idx')"
proof -
  let ?n = "ei_alive_count idx" and ?d = "ei_dense idx"
  let ?last = "length ?d - 1"
  note p = ei_okD(1) [OF ok]
  have n: "1 \<le> ?n" "?n < length ?d" "?n \<le> ?last" "id_index (?d ! ?n) = k"
    using ei_okD(2) [OF ok] paired_bound [OF p, of k] paired_back [OF p, of k] k by auto
  obtain r where r: "ei_rec idx k = Some r" using ei_look_rec [of idx k] k n by auto
  define kl where "kl = id_index (last ?d)"
  have last: "last ?d = ?d ! ?last" using n by (intro last_conv_nth) auto
  have lkl: "ei_look idx kl = ?last" using paired_look [OF p, of ?last] n by (simp add: kl_def last)
  obtain rl where rl: "ei_rec idx kl = Some rl" using ei_look_rec [of idx kl] lkl n by auto
  have same: "k = kl \<longleftrightarrow> ?n = ?last"
    using paired_inj [OF p n(1,2), of ?last] n by (simp add: kl_def last)
  define idx1 where "idx1 = (if ?n \<noteq> ?last then ei_set idx kl (set_dense ?n)\<lparr>ei_dense := ?d[?n := last ?d]\<rparr> else idx)"
  define idx' where "idx' = ei_set (idx1\<lparr>ei_dense := take ?last (ei_dense idx1)\<rparr>) k (set_dense 0)"
  have r1: "ei_rec idx1 k \<noteq> None" using r same by (auto simp: idx1_def)
  have len1: "length (ei_dense idx1) = length ?d" by (simp add: idx1_def)
  have "flecs_entity_index_get_any idx (last ?d) = Inr kl"
    using lkl n by (simp add: get_any_ok kl_def)
  then have eq: "flecs_entity_index_remove_not_alive idx k = Inr idx'"
    using n rl r1 len1
    by (auto simp: flecs_entity_index_remove_not_alive_def Let_def last ei_write_ok idx1_def idx'_def
        list_resize_take)
  have look1: "ei_look idx1 = (ei_look idx)(kl := ?n)"
    using lkl n by (auto simp: idx1_def ei_look_write fun_eq_iff)
  have look': "ei_look idx' = (ei_look idx)(kl := ?n, k := 0)"
    using r1 by (simp add: idx'_def ei_look_set look1)
  have d': "ei_dense idx' = swap_remove ?n ?d"
  proof (cases "?n = ?last")
    case True
    then have "?d[?n := last ?d] = ?d" by (simp add: last)
    with True show ?thesis by (simp add: idx'_def idx1_def swap_remove_def butlast_conv_take)
  next
    case False
    then show ?thesis by (simp add: idx'_def idx1_def swap_remove_def butlast_conv_take)
  qed
  have fields: "ei_alive_count idx' = ?n" "ei_max_id idx' = ei_max_id idx"
    "ei_active_range idx' = ei_active_range idx" "ei_ranges idx' = ei_ranges idx"
    "ei_range_store idx' = ei_range_store idx"
    by (simp_all add: idx'_def idx1_def)
  have st: "same_tables idx idx'"
  proof -
    have "same_tables idx idx1" by (simp add: idx1_def same_tables_set same_tables_refl)
    then have "same_tables idx (idx1\<lparr>ei_dense := take ?last (ei_dense idx1)\<rparr>)" by simp
    then show ?thesis unfolding idx'_def by (rule same_tables_trans) (rule same_tables_set)
  qed
  have p': "paired (ei_look idx') (ei_dense idx')"
    using paired_swap_remove [OF p n(1,2)] unfolding look' d' by (simp add: n(4) kl_def)
  have tables: "1 \<le> er_dense x \<and> er_dense x < ?n"
    if x: "ei_rec idx' l = Some x" "er_table x \<noteq> None" for l x
  proof -
    obtain y where y: "ei_rec idx l = Some y" "er_table y \<noteq> None"
      using x r rl by (cases "l = k"; cases "l = kl") (auto simp: idx'_def idx1_def split: if_splits)
    from ei_okD(4) [OF ok y] have "1 \<le> ei_look idx l" "ei_look idx l < ?n" by auto
    moreover from this have "ei_look idx' l = ei_look idx l" using k lkl n unfolding look' by auto
    ultimately show ?thesis using ei_rec_look [OF x(1)] by simp
  qed
  have len': "?n \<le> length (ei_dense idx')" using n by (simp add: d')
  have ok': "ei_ok idx'" using p' tables len' n by (auto simp: ei_ok_def fields)
  have "ei_alive idx' = ei_alive idx"
    unfolding ei_alive_def fields using len' n
    by (intro alive_ids_cong) (auto simp: d' swap_remove_nth)
  then show ?thesis using ok' fields st d' by (simp add: eq look')
qed

lemma range_put_ok:
  "a < length (ei_range_store idx) \<Longrightarrow> range_put idx a f =
    Inr (idx\<lparr>ei_range_store := (ei_range_store idx)[a := f (ei_range_store idx ! a)]\<rparr>)"
  by (simp add: range_put_def range_at_def)

lemma ei_ok_ranges [simp]:
  "ei_ok (idx\<lparr>ei_range_store := st\<rparr>) = ei_ok idx" "ei_ok (idx\<lparr>ei_active_range := ar\<rparr>) = ei_ok idx"
  "ei_ok (idx\<lparr>ei_ranges := rs\<rparr>) = ei_ok idx"
  "ei_alive (idx\<lparr>ei_range_store := st\<rparr>) = ei_alive idx" "ei_alive (idx\<lparr>ei_active_range := ar\<rparr>) = ei_alive idx"
  "ei_alive (idx\<lparr>ei_ranges := rs\<rparr>) = ei_alive idx"
  by (simp_all add: ei_ok_def ei_alive_def)

definition recycled_in :: "entity_index \<Rightarrow> ecs_entity \<Rightarrow> entity_index \<Rightarrow> bool" where
  \<comment> \<open>where the id that replaces the deleted \<open>e\<close> is kept: with the unused ids of the index, or with
     those of the range it belongs to when that is not the active one; its record is reset\<close>
  "recycled_in idx e idx' \<longleftrightarrow> (\<exists>r. ei_rec idx' (id_index e) = Some r \<and> er_table r = None \<and> er_row r = 0) \<and>
    (case ei_active_range idx of
      None \<Rightarrow> (ei_alive_count idx' < length (ei_dense idx') \<and>
          ei_dense idx' ! ei_alive_count idx' = ECS_GENERATION_INC e \<and> ei_range_store idx' = ei_range_store idx)
    | Some a \<Rightarrow>
        if in_range (ei_range_store idx ! a) (id_index e)
        then (ei_alive_count idx' < length (ei_dense idx') \<and>
          ei_dense idx' ! ei_alive_count idx' = ECS_GENERATION_INC e \<and> ei_range_store idx' = ei_range_store idx)
        else ei_look idx' (id_index e) = 0 \<and>
          (\<forall>b \<in> set (ei_ranges idx). in_range (ei_range_store idx ! b) (id_index e) \<longrightarrow>
            rg_recycled (ei_range_store idx' ! b) =
              rg_recycled (ei_range_store idx ! b) @ [ECS_GENERATION_INC e]))"

lemma remove_ok:
  assumes ok: "ei_ok idx" and ranges: "ranges_ok idx" "ranges_sorted idx" and e: "e \<in> ei_alive idx"
  shows "returns (flecs_entity_index_remove idx e) (\<lambda>idx'. ei_ok idx' \<and> ranges_ok idx' \<and>
    ranges_sorted idx' \<and> ei_alive idx' = ei_alive idx - {e} \<and> recycled_in idx e idx')"
proof -
  let ?k = "id_index e" and ?n = "ei_alive_count idx"
  let ?Q = "\<lambda>idx'. ei_ok idx' \<and> ranges_ok idx' \<and> ranges_sorted idx' \<and> ei_alive idx' = ei_alive idx - {e} \<and>
    recycled_in idx e idx'"
  have "returns (flecs_entity_index_remove_intern idx e) (\<lambda>(idx1, r). returns
      (case r of None \<Rightarrow> Inr idx1 | Some p \<Rightarrow> flecs_entity_ranges_on_delete idx1 e p) ?Q)"
  proof (rule returns_mono [OF remove_intern_ok [OF ok e]], unfold split_paired_all prod.case, elim conjE)
    fix idx1 r
    assume a: "r = Some ?k" "ei_ok idx1" "ei_alive idx1 = ei_alive idx - {e}" "ei_alive_count idx1 = ?n - 1"
      "length (ei_dense idx1) = length (ei_dense idx)"
      "ei_dense idx1 ! (?n - 1) = ECS_GENERATION_INC e"
      "ei_rec idx1 ?k = Some \<lparr>er_table = None, er_row = 0, er_dense = ?n - 1\<rparr>"
      "ei_active_range idx1 = ei_active_range idx" "ei_ranges idx1 = ei_ranges idx"
      "ei_range_store idx1 = ei_range_store idx"
    have ranges1: "ranges_ok idx1" "ranges_sorted idx1"
      using ranges a by (simp_all add: ranges_ok_def ranges_sorted_def)
    have look: "ei_look idx1 ?k = ei_alive_count idx1" using ei_rec_look [OF a(7)] a(4) by simp
    have lt: "ei_alive_count idx1 < length (ei_dense idx1)" using a(4,5) ei_okD(2,3) [OF ok] by simp
    show "returns (case r of None \<Rightarrow> Inr idx1 | Some p \<Rightarrow> flecs_entity_ranges_on_delete idx1 e p) ?Q"
    proof (cases "ei_active_range idx")
      case None
      with a lt ranges1 show ?thesis by (simp add: flecs_entity_ranges_on_delete_def recycled_in_def)
    next
      case (Some act)
      let ?st = "ei_range_store idx"
      have act: "act < length ?st" using Some ranges(1) by (auto simp: ranges_ok_def)
      show ?thesis
      proof (cases "in_range (?st ! act) ?k")
        case True
        with Some act a lt ranges1 show ?thesis
          by (simp add: flecs_entity_ranges_on_delete_def recycled_in_def range_at_def in_range_def)
      next
        case False
        have "returns (flecs_entity_index_remove_not_alive idx1 ?k) (\<lambda>idx2.
          returns (bindR (flecs_entity_index_find_range idx2 ?k) (\<lambda>rng. case rng of
              None \<Rightarrow> Inr idx2
            | Some b \<Rightarrow> range_put idx2 b (\<lambda>r. r\<lparr>rg_recycled := rg_recycled r @ [ECS_GENERATION_INC e]\<rparr>))) ?Q)"
        proof (rule returns_mono [OF remove_not_alive_ok [OF a(2) look]], elim conjE)
          fix idx2
          assume b: "ei_ok idx2" "ei_alive idx2 = ei_alive idx1" "ei_look idx2 ?k = 0"
            "ei_active_range idx2 = ei_active_range idx1" "ei_ranges idx2 = ei_ranges idx1"
            "ei_range_store idx2 = ei_range_store idx1" "same_tables idx1 idx2"
          from a(7) b(7) have rec2: "\<exists>r. ei_rec idx2 ?k = Some r \<and> er_table r = None \<and> er_row r = 0"
            unfolding same_tables_def by fastforce
          have ranges2: "ranges_ok idx2" "ranges_sorted idx2"
            using ranges1 b by (simp_all add: ranges_ok_def ranges_sorted_def)
          show "returns (bindR (flecs_entity_index_find_range idx2 ?k) (\<lambda>rng. case rng of
              None \<Rightarrow> Inr idx2
            | Some b \<Rightarrow> range_put idx2 b (\<lambda>r. r\<lparr>rg_recycled := rg_recycled r @ [ECS_GENERATION_INC e]\<rparr>))) ?Q"
            unfolding returns_bindR
          proof (rule returns_mono [OF find_range_ok [OF ranges2]])
            fix p assume p: "case p of
                None \<Rightarrow> \<forall>a \<in> set (ei_ranges idx2). \<not> in_range (ei_range_store idx2 ! a) ?k
              | Some a \<Rightarrow> a \<in> set (ei_ranges idx2) \<and> in_range (ei_range_store idx2 ! a) ?k"
            show "returns (case p of
                None \<Rightarrow> Inr idx2
              | Some b \<Rightarrow> range_put idx2 b (\<lambda>r. r\<lparr>rg_recycled := rg_recycled r @ [ECS_GENERATION_INC e]\<rparr>)) ?Q"
            proof (cases p)
              case None
              with p a(3) b(1-6) a(8-10) rec2 Some False ranges2 show ?thesis by (auto simp: recycled_in_def)
            next
              case (Some q)
              have q: "q \<in> set (ei_ranges idx)" "in_range (?st ! q) ?k" using Some p a b by auto
              then have qlt: "q < length ?st" using ranges(1) by (auto simp: ranges_ok_def)
              define idx3 where "idx3 = idx2\<lparr>ei_range_store := ?st[q := (?st ! q)
                \<lparr>rg_recycled := rg_recycled (?st ! q) @ [ECS_GENERATION_INC e]\<rparr>]\<rparr>"
              have st3: "rg_min (ei_range_store idx3 ! c) = rg_min (?st ! c)"
                "rg_max (ei_range_store idx3 ! c) = rg_max (?st ! c)" for c
                using qlt by (cases "c = q"; simp add: idx3_def)+
              have "ranges_sorted idx3"
                using ranges(2) a b unfolding ranges_sorted_def range_before_def st3 by (simp add: idx3_def)
              moreover have "ranges_ok idx3" using ranges2(1) a b by (simp add: ranges_ok_def idx3_def)
              moreover have "recycled_in idx e idx3"
              proof -
                have "b = q" if "b \<in> set (ei_ranges idx)" "in_range (?st ! b) ?k" for b
                  using find_range_unique [OF ranges(2) that(1) q(1) that(2) q(2)] .
                then have "\<forall>b \<in> set (ei_ranges idx). in_range (?st ! b) ?k \<longrightarrow>
                    rg_recycled (ei_range_store idx3 ! b) = rg_recycled (?st ! b) @ [ECS_GENERATION_INC e]"
                  using qlt by (auto simp: idx3_def)
                with \<open>ei_active_range idx = Some act\<close> False b(3) rec2 show ?thesis
                  by (simp add: recycled_in_def idx3_def)
              qed
              ultimately have "?Q idx3" using a b by (simp add: idx3_def)
              moreover have "range_put idx2 q (\<lambda>r. r\<lparr>rg_recycled := rg_recycled r @ [ECS_GENERATION_INC e]\<rparr>) = Inr idx3"
                using qlt a b by (simp add: range_put_ok idx3_def)
              ultimately show ?thesis using Some by simp
            qed
          qed
        qed
        with False Some act a show ?thesis
          by (auto simp: flecs_entity_ranges_on_delete_def range_at_def in_range_def Let_def)
      qed
    qed
  qed
  then show ?thesis by (simp add: flecs_entity_index_remove_def split_def)
qed

interpretation entity_pool: id_pool "\<lambda>idx. ei_ok idx \<and> ranges_ok idx \<and> ranges_sorted idx" ei_room ei_alive
  flecs_entity_index_is_alive flecs_entity_index_new_id flecs_entity_index_remove
proof
  fix idx e e'
  assume ok: "ei_ok idx \<and> ranges_ok idx \<and> ranges_sorted idx"
  show "flecs_entity_index_is_alive idx e = Inr (e \<in> ei_alive idx)" using ok by (simp add: is_alive_ok)
  show "e \<in> ei_alive idx \<Longrightarrow> e' \<in> ei_alive idx \<Longrightarrow> id_index e = id_index e' \<Longrightarrow> e = e'"
    using ok alive_unique [OF ei_okD(1)] by (auto simp: ei_alive_def)
  show "ei_room idx \<Longrightarrow> returns (flecs_entity_index_new_id idx) (\<lambda>(idx', e).
      (ei_ok idx' \<and> ranges_ok idx' \<and> ranges_sorted idx') \<and>
      id_index e \<notin> id_index ` ei_alive idx \<and> ei_alive idx' = insert e (ei_alive idx))"
    using ok by (intro returns_mono [OF new_id_ok]) (auto simp: ranges_ok_def ranges_sorted_def)
  show "e \<in> ei_alive idx \<Longrightarrow> returns (flecs_entity_index_remove idx e) (\<lambda>idx'.
      (ei_ok idx' \<and> ranges_ok idx' \<and> ranges_sorted idx') \<and> ei_alive idx' = ei_alive idx - {e})"
    using ok by (intro returns_mono [OF remove_ok]) auto
qed

section \<open>Switching ranges\<close>

lemma clear_not_alive_fields [simp]:
  "ei_dense (clear_not_alive idx es) = ei_dense idx" "ei_alive_count (clear_not_alive idx es) = ei_alive_count idx"
  "ei_max_id (clear_not_alive idx es) = ei_max_id idx" "ei_ranges (clear_not_alive idx es) = ei_ranges idx"
  "ei_range_store (clear_not_alive idx es) = ei_range_store idx"
  "ei_active_range (clear_not_alive idx es) = ei_active_range idx"
  by (induction idx es rule: clear_not_alive.induct) simp_all

lemma clear_not_alive_look:
  "ei_look (clear_not_alive idx es) k = (if k \<in> id_index ` set es then 0 else ei_look idx k)"
proof (induction idx es rule: clear_not_alive.induct)
  case (2 idx e es)
  have "ei_look (if ei_rec idx (id_index e) \<noteq> None then ei_set idx (id_index e) (set_dense 0) else idx) k =
      (if k = id_index e then 0 else ei_look idx k)"
    by (auto simp: ei_look_set) (simp add: ei_look_def)
  with 2 show ?case by auto
qed simp

lemma clear_not_alive_tables: "same_tables idx (clear_not_alive idx es)"
proof (induction idx es rule: clear_not_alive.induct)
  case (2 idx e es)
  have "same_tables idx (if ei_rec idx (id_index e) \<noteq> None then ei_set idx (id_index e) (set_dense 0) else idx)"
    by (simp add: same_tables_set same_tables_refl)
  from same_tables_trans [OF this 2] show ?case by simp
qed (simp add: same_tables_refl)

lemma clear_not_alive_rec:
  "ei_rec (clear_not_alive idx es) k = Some r \<Longrightarrow>
    \<exists>r'. ei_rec idx k = Some r' \<and> er_table r' = er_table r"
proof (induction idx es rule: clear_not_alive.induct)
  case (2 idx e es)
  then obtain r' where "ei_rec (if ei_rec idx (id_index e) \<noteq> None then ei_set idx (id_index e) (set_dense 0) else idx) k = Some r'"
    "er_table r' = er_table r" by auto
  then show ?case by (auto split: if_splits)
qed simp

lemma unload_ok:
  \<comment> \<open>dropping all ids that are not alive\<close>
  assumes ok: "ei_ok idx"
  defines "n \<equiv> ei_alive_count idx"
  defines "idx' \<equiv> clear_not_alive idx (drop n (ei_dense idx))\<lparr>ei_dense := take n (ei_dense idx)\<rparr>"
  shows "ei_ok idx'" and "ei_alive idx' = ei_alive idx" and "same_tables idx idx'"
    and "ei_look idx' k = (if ei_look idx k < n then ei_look idx k else 0)"
proof -
  let ?d = "ei_dense idx"
  note p = ei_okD(1) [OF ok] and b = ei_okD(2,3) [OF ok, folded n_def]
  have mem: "k \<in> id_index ` set (drop n ?d) \<longleftrightarrow> n \<le> ei_look idx k" for k
  proof
    assume "k \<in> id_index ` set (drop n ?d)"
    then obtain j where "j < length (drop n ?d)" "k = id_index (drop n ?d ! j)"
      by (metis image_iff in_set_conv_nth)
    then show "n \<le> ei_look idx k" using paired_look [OF p, of "n + j"] b by simp
  next
    assume le: "n \<le> ei_look idx k"
    then have "ei_look idx k < length ?d" "id_index (?d ! ei_look idx k) = k"
      using paired_bound [OF p, of k] paired_back [OF p, of k] b by auto
    moreover from this le have "drop n ?d ! (ei_look idx k - n) = ?d ! ei_look idx k"
      "ei_look idx k - n < length (drop n ?d)" by auto
    ultimately show "k \<in> id_index ` set (drop n ?d)" by (metis image_eqI nth_mem)
  qed
  have look: "ei_look idx' k = (if ei_look idx k < n then ei_look idx k else 0)" for k
    by (simp add: idx'_def clear_not_alive_look mem)
  then show "ei_look idx' k = (if ei_look idx k < n then ei_look idx k else 0)" .
  have "paired (ei_look idx') (ei_dense idx')"
    using paired_ext [OF paired_take [OF p b] look] by (simp add: idx'_def)
  moreover have "1 \<le> er_dense x \<and> er_dense x < n" if x: "ei_rec idx' l = Some x" "er_table x \<noteq> None" for l x
  proof -
    obtain y where y: "ei_rec idx l = Some y" "er_table y \<noteq> None"
      using clear_not_alive_rec [of idx "drop n ?d" l x] x by (force simp: idx'_def)
    from ei_okD(4) [OF ok y] show ?thesis using ei_rec_look [OF x(1)] by (simp add: look n_def)
  qed
  ultimately show "ei_ok idx'" using b by (auto simp: ei_ok_def idx'_def n_def)
  show "ei_alive idx' = ei_alive idx"
  proof -
    have f: "ei_dense idx' = take n ?d" "ei_alive_count idx' = n" by (simp_all add: idx'_def n_def)
    show ?thesis unfolding ei_alive_def f n_def [symmetric] using b by (intro alive_ids_cong) simp_all
  qed
  show "same_tables idx idx'" by (simp add: idx'_def clear_not_alive_tables)
qed

lemma load_recycled_ok:
  assumes "ei_ok (idx\<lparr>ei_dense := take m (ei_dense idx)\<rparr>)" and "drop m (ei_dense idx) = es"
    and "m \<le> length (ei_dense idx)"
    and "distinct (map id_index es)" and "\<And>e. e \<in> set es \<Longrightarrow> ei_look idx (id_index e) = 0"
  shows "returns (load_recycled idx m es) (\<lambda>idx'. ei_ok idx' \<and> same_tables idx idx' \<and>
    ei_dense idx' = ei_dense idx \<and> ei_alive_count idx' = ei_alive_count idx \<and>
    ei_max_id idx' = ei_max_id idx \<and> ei_active_range idx' = ei_active_range idx \<and>
    ei_ranges idx' = ei_ranges idx \<and> ei_range_store idx' = ei_range_store idx)"
  using assms
proof (induction idx m es rule: load_recycled.induct)
  case (1 idx m)
  then show ?case by (simp add: same_tables_refl)
next
  case (2 idx m e es)
  let ?k = "id_index e" and ?d = "ei_dense idx"
  let ?t = "idx\<lparr>ei_dense := take m ?d\<rparr>"
  have m: "m < length ?d" "?d ! m = e" "drop (Suc m) ?d = es"
  proof -
    show "m < length ?d" using 2(3,4) by (cases "m = length ?d") auto
    then show "?d ! m = e" "drop (Suc m) ?d = es" using 2(3) by (simp_all flip: Cons_nth_drop_Suc)
  qed
  have new: "ei_look ?t ?k = 0" using 2(6) [of e] by simp
  define idx1 where "idx1 = ei_set (flecs_entity_index_ensure_page idx ?k) ?k (set_dense m)"
  have tk: "take (Suc m) ?d = take m ?d @ [e]" using m by (simp add: take_Suc_conv_app_nth)
  have trunc: "idx1\<lparr>ei_dense := take (Suc m) (ei_dense idx1)\<rparr> =
    ei_set ((flecs_entity_index_ensure_page ?t ?k)\<lparr>ei_dense := ei_dense ?t @ [e]\<rparr>) ?k
      (set_dense (length (ei_dense ?t)))"
    using m by (simp add: idx1_def tk ensure_page_dense ei_set_def)
  note g = grow_id [OF 2(2) new, folded trunc]
  have f: "ei_dense idx1 = ?d" "ei_alive_count idx1 = ei_alive_count idx" "ei_max_id idx1 = ei_max_id idx"
    "ei_active_range idx1 = ei_active_range idx" "ei_ranges idx1 = ei_ranges idx"
    "ei_range_store idx1 = ei_range_store idx" by (simp_all add: idx1_def)
  have look1: "ei_look idx1 = (ei_look idx)(?k := m)" using g(4) m by simp
  have st: "same_tables idx idx1" using g(3) by simp
  obtain r where r: "ei_rec idx1 ?k = Some r" "er_dense r = m" 
    using look1 ei_rec_ensure_page_self [of idx ?k] by (auto simp: idx1_def)
  have "er_table r = None"
  proof (rule ccontr)
    assume t: "er_table r \<noteq> None"
    then have "er_dense r < ei_alive_count idx"
      using ei_okD(4) [OF g(1), of ?k r] r ei_rec_look [of idx1 ?k r] by (simp add: f)
    then show False using r ei_okD(3) [OF 2(2)] m by simp
  qed
  moreover have "returns (load_recycled idx1 (Suc m) es) (\<lambda>idx'. ei_ok idx' \<and> same_tables idx1 idx' \<and>
    ei_dense idx' = ei_dense idx1 \<and> ei_alive_count idx' = ei_alive_count idx1 \<and>
    ei_max_id idx' = ei_max_id idx1 \<and> ei_active_range idx' = ei_active_range idx1 \<and>
    ei_ranges idx' = ei_ranges idx1 \<and> ei_range_store idx' = ei_range_store idx1)"
  proof (rule 2(1))
    show "\<And>x. x \<in> set es \<Longrightarrow> ei_look idx1 (id_index x) = 0"
      using 2(5,6) by (auto simp: look1 image_iff)
  qed (use 2 g m f in auto)
  ultimately show ?case
    using ei_rec_ensure_page_self [of idx ?k] r st
    by (auto simp: Let_def ei_write_ok idx1_def [symmetric] ei_read_ok [OF r(1)] f
        intro: same_tables_trans elim!: returns_mono)
qed

definition saved_ranges :: "entity_index \<Rightarrow> ecs_entity_range list" where
  \<comment> \<open>the ranges after the active one has taken the unused ids and the last id issued\<close>
  "saved_ranges idx = (case ei_active_range idx of
      None \<Rightarrow> ei_range_store idx
    | Some a \<Rightarrow> (ei_range_store idx)[a := (ei_range_store idx ! a)
        \<lparr>rg_recycled := drop (ei_alive_count idx) (ei_dense idx), rg_cur := ei_max_id idx\<rparr>])"

lemma length_saved_ranges [simp]: "length (saved_ranges idx) = length (ei_range_store idx)"
  by (simp add: saved_ranges_def split: option.splits)

lemma set_range_ok:
  assumes ok: "ei_ok idx" and ranges: "ranges_ok idx" and a: "a \<in> set (ei_ranges idx)"
    and d: "distinct (map id_index (rg_recycled (saved_ranges idx ! a)))"
    and disj: "id_index ` set (rg_recycled (saved_ranges idx ! a)) \<inter> id_index ` ei_alive idx = {}"
  shows "returns (flecs_entity_index_set_range idx a) (\<lambda>idx'. ei_ok idx' \<and> same_tables idx idx' \<and>
    ei_alive idx' = ei_alive idx \<and> ei_alive_count idx' = ei_alive_count idx \<and>
    ei_dense idx' = take (ei_alive_count idx) (ei_dense idx) @ rg_recycled (saved_ranges idx ! a) \<and>
    ei_max_id idx' = rg_cur (saved_ranges idx ! a) \<and> ei_active_range idx' = Some a \<and>
    ei_ranges idx' = ei_ranges idx \<and>
    ei_range_store idx' = (saved_ranges idx)[a := (saved_ranges idx ! a)\<lparr>rg_recycled := []\<rparr>])"
proof -
  let ?n = "ei_alive_count idx" and ?d = "ei_dense idx" and ?st = "saved_ranges idx"
  let ?rec = "rg_recycled (?st ! a)"
  define idx1 where "idx1 = idx\<lparr>ei_range_store := ?st\<rparr>"
  define idx2 where "idx2 = clear_not_alive idx1 (drop ?n ?d)\<lparr>ei_dense := take ?n ?d\<rparr>"
  have n: "?n \<le> length ?d" by (rule ei_okD(3) [OF ok])
  have alt: "a < length ?st" using ranges a by (simp add: ranges_ok_def)
  have save: "(case ei_active_range idx of None \<Rightarrow> Inr idx
      | Some p \<Rightarrow> range_put idx p (\<lambda>r. r\<lparr>rg_recycled := drop ?n ?d, rg_cur := ei_max_id idx\<rparr>)) = Inr idx1"
    using ranges by (auto simp: idx1_def saved_ranges_def ranges_ok_def range_put_ok split: option.splits)
  have ok1: "ei_ok idx1" using ok by (simp add: idx1_def)
  note u = unload_ok [OF ok1]
  have d1: "ei_dense idx1 = ?d" "ei_alive_count idx1 = ?n" "ei_alive idx1 = ei_alive idx"
    "ei_look idx1 = ei_look idx" by (simp_all add: idx1_def)
  have ok2: "ei_ok idx2" and al2: "ei_alive idx2 = ei_alive idx" and st2: "same_tables idx idx2"
    and look2: "ei_look idx2 k = (if ei_look idx k < ?n then ei_look idx k else 0)" for k
    using u by (simp_all only: idx2_def d1) (simp add: idx1_def same_tables_def)
  have f2: "ei_dense idx2 = take ?n ?d" "ei_alive_count idx2 = ?n" "ei_max_id idx2 = ei_max_id idx"
    "ei_ranges idx2 = ei_ranges idx" "ei_range_store idx2 = ?st"
    by (simp_all add: idx2_def idx1_def)
  have unused: "ei_look idx2 (id_index e) = 0" if "e \<in> set ?rec" for e
  proof (rule ccontr)
    assume nz: "ei_look idx2 (id_index e) \<noteq> 0"
    let ?l = "ei_look idx (id_index e)"
    have l: "?l \<noteq> 0" "?l < ?n" using nz by (auto simp: look2 split: if_splits)
    then have "?d ! ?l \<in> ei_alive idx" "id_index (?d ! ?l) = id_index e"
      using n paired_back [OF ei_okD(1) [OF ok] l(1)]
      by (auto simp: ei_alive_def in_alive_ids intro: exI [of _ ?l])
    with disj that show False by (metis disjoint_iff imageI)
  qed
  let ?Q = "\<lambda>idx'. ei_ok idx' \<and> same_tables idx idx' \<and> ei_alive idx' = ei_alive idx \<and>
    ei_alive_count idx' = ?n \<and> ei_dense idx' = take ?n ?d @ ?rec \<and> ei_ranges idx' = ei_ranges idx \<and>
    ei_range_store idx' = ?st[a := (?st ! a)\<lparr>rg_recycled := []\<rparr>]"
  have load: "returns (if ?rec \<noteq> [] then
        bindR (load_recycled (idx2\<lparr>ei_dense := ei_dense idx2 @ ?rec\<rparr>) ?n ?rec) (\<lambda>idx.
        range_put idx a (\<lambda>r. r\<lparr>rg_recycled := []\<rparr>))
      else Inr idx2) ?Q"
  proof (cases "?rec = []")
    case True
    then have "?st[a := (?st ! a)\<lparr>rg_recycled := []\<rparr>] = ?st" by (metis list_update_id ecs_entity_range.surjective
          ecs_entity_range.update_convs(4) ecs_entity_range.select_convs(4))
    with True ok2 al2 st2 f2 show ?thesis by simp
  next
    case False
    let ?i = "idx2\<lparr>ei_dense := ei_dense idx2 @ ?rec\<rparr>"
    have "returns (load_recycled ?i ?n ?rec) (\<lambda>idx'. ei_ok idx' \<and> same_tables ?i idx' \<and>
      ei_dense idx' = ei_dense ?i \<and> ei_alive_count idx' = ei_alive_count ?i \<and>
      ei_max_id idx' = ei_max_id ?i \<and> ei_active_range idx' = ei_active_range ?i \<and>
      ei_ranges idx' = ei_ranges ?i \<and> ei_range_store idx' = ei_range_store ?i)"
    proof (rule load_recycled_ok)
      have tk: "take ?n (ei_dense ?i) = ei_dense idx2" using n by (simp add: f2)
      show "ei_ok (?i\<lparr>ei_dense := take ?n (ei_dense ?i)\<rparr>)" using ok2 unfolding tk by simp
      show "\<And>e. e \<in> set ?rec \<Longrightarrow> ei_look ?i (id_index e) = 0" using unused by simp
    qed (use d n f2 in simp_all)
    then have "returns (load_recycled ?i ?n ?rec) (\<lambda>idx. returns (range_put idx a (\<lambda>r. r\<lparr>rg_recycled := []\<rparr>)) ?Q)"
    proof (rule returns_mono, elim conjE)
      fix idx3
      assume b: "ei_ok idx3" "same_tables ?i idx3" "ei_dense idx3 = ei_dense ?i"
        "ei_alive_count idx3 = ei_alive_count ?i" "ei_ranges idx3 = ei_ranges ?i"
        "ei_range_store idx3 = ei_range_store ?i"
      have "ei_alive idx3 = ei_alive idx"
        unfolding ei_alive_def b(3,4) using n by (simp add: f2) (intro alive_ids_cong; simp add: nth_append)
      moreover have "same_tables idx idx3" using same_tables_trans [OF st2] b(2) by simp
      moreover have "same_tables idx (idx3\<lparr>ei_range_store := st\<rparr>) = same_tables idx idx3" for st
        by (simp add: same_tables_def)
      ultimately show "returns (range_put idx3 a (\<lambda>r. r\<lparr>rg_recycled := []\<rparr>)) ?Q"
        using alt b f2 by (simp add: range_put_ok)
    qed
    then show ?thesis using False by simp
  qed
  have dd: "list_resize ?n (ei_dense (clear_not_alive idx1 (drop ?n ?d))) = take ?n ?d"
    using n by (simp add: d1 list_resize_take)
  have rat: "range_at idx2 a = Inr (?st ! a)" using alt by (simp add: range_at_def f2)
  have eq: "flecs_entity_index_set_range idx a =
      bindR (if ?rec \<noteq> [] then
        bindR (load_recycled (idx2\<lparr>ei_dense := ei_dense idx2 @ ?rec\<rparr>) ?n ?rec) (\<lambda>idx.
        range_put idx a (\<lambda>r. r\<lparr>rg_recycled := []\<rparr>))
      else Inr idx2) (\<lambda>idx. bindR (range_at idx a) (\<lambda>r.
       Inr (idx\<lparr>ei_max_id := rg_cur r, ei_active_range := Some a\<rparr>)))"
    unfolding flecs_entity_index_set_range_def Let_def save bindR_Inr dd idx2_def [symmetric] rat
    using a by simp
  have fin: "same_tables idx (i\<lparr>ei_max_id := m, ei_active_range := r\<rparr>) = same_tables idx i"
    "ei_alive (i\<lparr>ei_max_id := m, ei_active_range := r\<rparr>) = ei_alive i" for i m r
    by (simp_all add: same_tables_def)
  show ?thesis
    unfolding eq returns_bindR using load
    by (rule returns_mono) (use alt in \<open>simp add: range_at_def fin\<close>)
qed

lemma set_range_there_and_back:
  assumes ok: "ei_ok idx" and ranges: "ranges_ok idx" and a: "ei_active_range idx = Some a"
    and b: "b \<in> set (ei_ranges idx)" "b \<noteq> a"
    and d: "distinct (map id_index (rg_recycled (ei_range_store idx ! b)))"
    and disj: "id_index ` set (rg_recycled (ei_range_store idx ! b)) \<inter> id_index ` ei_alive idx = {}"
  shows "returns (bindR (flecs_entity_index_set_range idx b) (\<lambda>idx. flecs_entity_index_set_range idx a))
    (\<lambda>idx'. ei_ok idx' \<and> ei_alive idx' = ei_alive idx \<and> ei_dense idx' = ei_dense idx \<and>
      ei_max_id idx' = ei_max_id idx \<and> ei_active_range idx' = Some a \<and>
      rg_recycled (ei_range_store idx' ! b) = rg_recycled (ei_range_store idx ! b))"
proof -
  let ?n = "ei_alive_count idx" and ?d = "ei_dense idx" and ?st = "ei_range_store idx"
  have lt: "a < length ?st" "b < length ?st" "a \<in> set (ei_ranges idx)"
    using ranges a b by (auto simp: ranges_ok_def)
  have sv: "saved_ranges idx ! b = ?st ! b" "saved_ranges idx ! a =
      (?st ! a)\<lparr>rg_recycled := drop ?n ?d, rg_cur := ei_max_id idx\<rparr>"
    using a b lt by (simp_all add: saved_ranges_def)
  have n: "1 \<le> ?n" "?n + (length ?d - ?n) \<le> length ?d" using ei_okD(2,3) [OF ok] by auto
  have tk: "take (length ?d - ?n) (drop ?n ?d) = drop ?n ?d" by simp
  note ids = new_ids_distinct [OF ei_okD(1) [OF ok] n, unfolded tk, folded ei_alive_def]
  have "returns (flecs_entity_index_set_range idx b) (\<lambda>idx1. returns (flecs_entity_index_set_range idx1 a)
    (\<lambda>idx'. ei_ok idx' \<and> ei_alive idx' = ei_alive idx \<and> ei_dense idx' = ?d \<and>
      ei_max_id idx' = ei_max_id idx \<and> ei_active_range idx' = Some a \<and>
      rg_recycled (ei_range_store idx' ! b) = rg_recycled (?st ! b)))"
  proof (rule returns_mono [OF set_range_ok [OF ok ranges b(1), unfolded sv, OF d disj]], elim conjE)
    fix i
    assume i: "ei_ok i" "ei_alive i = ei_alive idx" "ei_alive_count i = ?n"
      "ei_dense i = take ?n ?d @ rg_recycled (?st ! b)"
      "ei_active_range i = Some b" "ei_ranges i = ei_ranges idx"
      "ei_range_store i = (saved_ranges idx)[b := (?st ! b)\<lparr>rg_recycled := []\<rparr>]"
    have ri: "ranges_ok i" using ranges b(1) i by (auto simp: ranges_ok_def)
    have ai: "a \<in> set (ei_ranges i)" using lt i by simp
    have sva: "saved_ranges i ! a = (?st ! a)\<lparr>rg_recycled := drop ?n ?d, rg_cur := ei_max_id idx\<rparr>"
      using b lt by (simp add: saved_ranges_def [of i] i sv)
    have svb: "rg_recycled (saved_ranges i ! b) = rg_recycled (?st ! b)"
      using b lt i ei_okD(3) [OF ok] by (simp add: saved_ranges_def [of i])
    show "returns (flecs_entity_index_set_range i a)
      (\<lambda>idx'. ei_ok idx' \<and> ei_alive idx' = ei_alive idx \<and> ei_dense idx' = ?d \<and>
        ei_max_id idx' = ei_max_id idx \<and> ei_active_range idx' = Some a \<and>
        rg_recycled (ei_range_store idx' ! b) = rg_recycled (?st ! b))"
    proof -
      have pre: "distinct (map id_index (rg_recycled ((?st ! a)\<lparr>rg_recycled := drop ?n ?d, rg_cur := ei_max_id idx\<rparr>)))"
        "id_index ` set (rg_recycled ((?st ! a)\<lparr>rg_recycled := drop ?n ?d, rg_cur := ei_max_id idx\<rparr>)) \<inter>
          id_index ` ei_alive i = {}" using ids i(2) by simp_all
      have tk2: "take ?n (ei_dense i) = take ?n ?d" using i(4) ei_okD(3) [OF ok] by simp
      show ?thesis
        by (rule returns_mono [OF set_range_ok [OF i(1) ri ai, unfolded sva, OF pre]], elim conjE)
          (use i(2,3) svb b(2) tk2 in simp)
    qed
  qed
  then show ?thesis by simp
qed

section \<open>Creating ranges\<close>

lemma range_insert_shift_ok:
  assumes "i < length rs" and "\<And>m. m < i \<Longrightarrow> rs ! m < length (ei_range_store idx)"
  shows "returns (range_insert_shift idx mn a i rs) (\<lambda>rs'. \<exists>j \<le> i.
    rs' = take j rs @ [a] @ take (i - j) (drop j rs) @ drop (Suc i) rs \<and>
    (\<forall>m. j \<le> m \<longrightarrow> m < i \<longrightarrow> mn < rg_min (ei_range_store idx ! (rs ! m))) \<and>
    (0 < j \<longrightarrow> rg_min (ei_range_store idx ! (rs ! (j - 1))) \<le> mn))"
  using assms
proof (induction i arbitrary: rs)
  case 0
  then show ?case by (auto simp: upd_conv_take_nth_drop)
next
  case (Suc i)
  let ?st = "ei_range_store idx"
  let ?b = "rs ! i"
  have b: "?b < length ?st" using Suc.prems by simp
  show ?case
  proof (cases "rg_min (?st ! ?b) \<le> mn")
    case True
    then show ?thesis
      using Suc.prems b by (auto simp: range_at_def upd_conv_take_nth_drop intro!: exI [of _ "Suc i"])
  next
    case False
    let ?rs = "rs[Suc i := ?b]"
    have same: "?rs ! m = rs ! m" if "m \<le> i" for m using that by simp
    have "returns (range_insert_shift idx mn a i ?rs) (\<lambda>rs'. \<exists>j \<le> i.
      rs' = take j ?rs @ [a] @ take (i - j) (drop j ?rs) @ drop (Suc i) ?rs \<and>
      (\<forall>m. j \<le> m \<longrightarrow> m < i \<longrightarrow> mn < rg_min (?st ! (?rs ! m))) \<and>
      (0 < j \<longrightarrow> rg_min (?st ! (?rs ! (j - 1))) \<le> mn))"
      using Suc.prems by (intro Suc.IH) auto
    then have "returns (range_insert_shift idx mn a i ?rs) (\<lambda>rs'. \<exists>j \<le> Suc i.
      rs' = take j rs @ [a] @ take (Suc i - j) (drop j rs) @ drop (Suc (Suc i)) rs \<and>
      (\<forall>m. j \<le> m \<longrightarrow> m < Suc i \<longrightarrow> mn < rg_min (?st ! (rs ! m))) \<and>
      (0 < j \<longrightarrow> rg_min (?st ! (rs ! (j - 1))) \<le> mn))"
    proof (rule returns_mono, elim exE conjE)
      fix rs' j
      assume j: "j \<le> i" "rs' = take j ?rs @ [a] @ take (i - j) (drop j ?rs) @ drop (Suc i) ?rs"
        "\<forall>m. j \<le> m \<longrightarrow> m < i \<longrightarrow> mn < rg_min (?st ! (?rs ! m))"
        "0 < j \<longrightarrow> rg_min (?st ! (?rs ! (j - 1))) \<le> mn"
      have t1: "take j ?rs = take j rs" using j(1) by simp
      have t2: "take (i - j) (drop j ?rs) = take (i - j) (drop j rs)"
        using j(1) by (simp add: drop_update_swap)
      have t3: "drop (Suc i) ?rs = ?b # drop (Suc (Suc i)) rs"
        using Suc.prems(1) by (simp add: drop_update_swap flip: Cons_nth_drop_Suc)
      have t4: "take (Suc i - j) (drop j rs) = take (i - j) (drop j rs) @ [?b]"
        using j(1) Suc.prems(1) by (simp add: Suc_diff_le take_Suc_conv_app_nth)
      have "rs' = take j rs @ [a] @ take (Suc i - j) (drop j rs) @ drop (Suc (Suc i)) rs"
        unfolding j(2) t1 t2 t3 t4 by simp
      moreover have "mn < rg_min (?st ! (rs ! m))" if "j \<le> m" "m < Suc i" for m
        using j(3) that same [of m] False by (cases "m = i") auto
      moreover have "0 < j \<longrightarrow> rg_min (?st ! (rs ! (j - 1))) \<le> mn" using j(1,4) same [of "j - 1"] by auto
      ultimately show "\<exists>j \<le> Suc i.
          rs' = take j rs @ [a] @ take (Suc i - j) (drop j rs) @ drop (Suc (Suc i)) rs \<and>
          (\<forall>m. j \<le> m \<longrightarrow> m < Suc i \<longrightarrow> mn < rg_min (?st ! (rs ! m))) \<and>
          (0 < j \<longrightarrow> rg_min (?st ! (rs ! (j - 1))) \<le> mn)"
        using j(1) by (intro exI [of _ j]) auto
    qed
    then show ?thesis using Suc.prems b False by (simp add: range_at_def)
  qed
qed

lemma no_overlap_before:
  assumes "\<not> range_overlap r mn mx" "mx = 0 \<or> mn \<le> mx" "rg_min r \<le> mn"
  shows "range_before r \<lparr>rg_min = mn, rg_max = mx, rg_cur = c, rg_recycled = []\<rparr>"
  using assms by (auto simp: range_overlap_def range_before_def split: if_splits)

lemma no_overlap_after:
  assumes "\<not> range_overlap r mn mx" "rg_max r = 0 \<or> rg_min r \<le> rg_max r" "mn < rg_min r"
  shows "range_before \<lparr>rg_min = mn, rg_max = mx, rg_cur = c, rg_recycled = []\<rparr> r"
  using assms by (auto simp: range_overlap_def range_before_def split: if_splits)

definition add_range :: "entity_index \<Rightarrow> 32 word \<Rightarrow> 32 word \<Rightarrow> entity_index" where
  \<comment> \<open>the range object allocated, but not yet in the list\<close>
  "add_range idx mn mx = idx\<lparr>ei_range_store := ei_range_store idx @
    [\<lparr>rg_min = mn, rg_max = mx, rg_cur = mn - 1, rg_recycled = []\<rparr>]\<rparr>"

lemma range_insert_sorted:
  assumes ranges: "ranges_ok idx" "ranges_sorted idx"
    and mn: "0 < mn" "mx = 0 \<or> mn \<le> mx"
    and no: "\<forall>b \<in> set (ei_ranges idx). \<not> range_overlap (ei_range_store idx ! b) mn mx"
  defines "a \<equiv> length (ei_range_store idx)" and "n \<equiv> length (ei_ranges idx)"
  shows "returns (range_insert_shift (add_range idx mn mx) mn a n (ei_ranges idx @ [a]))
    (\<lambda>rs. ranges_ok (add_range idx mn mx\<lparr>ei_ranges := rs\<rparr>) \<and>
      ranges_sorted (add_range idx mn mx\<lparr>ei_ranges := rs\<rparr>) \<and> set rs = insert a (set (ei_ranges idx)))"
proof -
  let ?R = "ei_ranges idx" and ?i = "add_range idx mn mx"
  let ?st = "ei_range_store idx"
  have st: "ei_range_store ?i ! b = ?st ! b" if "b \<in> set ?R" for b
    using ranges(1) that by (simp add: add_range_def ranges_ok_def nth_append)
  have sta: "ei_range_store ?i ! a = \<lparr>rg_min = mn, rg_max = mx, rg_cur = mn - 1, rg_recycled = []\<rparr>"
    by (simp add: add_range_def a_def)
  have lt: "(?R @ [a]) ! m < length (ei_range_store ?i)" if "m < n" for m
    using that ranges(1) by (auto simp: nth_append n_def add_range_def ranges_ok_def less_Suc_eq)
  have stm: "ei_range_store ?i ! ((?R @ [a]) ! m) = ?st ! (?R ! m)" if "m < n" for m
    using that st [of "?R ! m"] by (simp add: nth_append n_def)
  show ?thesis
  proof (rule returns_mono [OF range_insert_shift_ok], goal_cases)
    case 1 then show ?case by (simp add: n_def)
  next
    case (2 m) then show ?case by (rule lt)
  next
    case (3 rs)
    then obtain j where jn: "j \<le> n" and
      jr: "rs = take j (?R @ [a]) @ [a] @ take (n - j) (drop j (?R @ [a])) @ drop (Suc n) (?R @ [a])" and
      j1: "\<forall>m. j \<le> m \<longrightarrow> m < n \<longrightarrow> mn < rg_min (ei_range_store ?i ! ((?R @ [a]) ! m))" and
      j2: "0 < j \<longrightarrow> rg_min (ei_range_store ?i ! ((?R @ [a]) ! (j - 1))) \<le> mn"
      by blast
    have j: "j \<le> n" "rs = take j ?R @ [a] @ drop j ?R"
      "\<And>m. j \<le> m \<Longrightarrow> m < n \<Longrightarrow> mn < rg_min (?st ! (?R ! m))"
      "0 < j \<Longrightarrow> rg_min (?st ! (?R ! (j - 1))) \<le> mn"
      using jn jr j1 j2 stm by (simp_all add: n_def)
    have valid: "rg_max (?st ! b) = 0 \<or> rg_min (?st ! b) \<le> rg_max (?st ! b)" if "b \<in> set ?R" for b
      using ranges(2) that by (simp add: ranges_sorted_def)
    have sw: "sorted_wrt (\<lambda>a b. range_before (?st ! a) (?st ! b)) ?R"
      using ranges(2) by (simp add: ranges_sorted_def)
    have lo: "range_before (?st ! x) (ei_range_store ?i ! a)" if x: "x \<in> set (take j ?R)" for x
    proof -
      obtain m where m: "m < j" "x = ?R ! m" "m < n"
        using x j(1) by (auto simp: in_set_conv_nth n_def)
      have "rg_min (?st ! x) \<le> rg_min (?st ! (?R ! (j - 1)))"
      proof (cases "m = j - 1")
        case False
        then have "m < j - 1" "j - 1 < length ?R" using m j(1) by (auto simp: n_def)
        from ranges_order [OF ranges(2) this]
        have "rg_max (?st ! x) \<noteq> 0" "rg_max (?st ! x) < rg_min (?st ! (?R ! (j - 1)))"
          by (simp_all add: range_before_def m)
        moreover have "?R ! m \<in> set ?R" using m by (simp add: n_def)
        ultimately show ?thesis using valid [of x] m(2) by auto
      qed (simp add: m)
      also have "\<dots> \<le> mn" using j(4) m by simp
      finally show ?thesis using no mn x unfolding sta by (intro no_overlap_before) (auto dest: in_set_takeD)
    qed
    have hi: "range_before (ei_range_store ?i ! a) (?st ! x)" if x: "x \<in> set (drop j ?R)" for x
    proof -
      obtain m where m: "m < length (drop j ?R)" "x = drop j ?R ! m" using x by (metis in_set_conv_nth)
      then have "mn < rg_min (?st ! x)" using j(1) j(3) [of "j + m"] by (simp add: n_def)
      then show ?thesis using no valid x unfolding sta by (intro no_overlap_after) (auto dest: in_set_dropD)
    qed
    have "sorted_wrt (\<lambda>a b. range_before (?st ! a) (?st ! b)) (take j ?R @ drop j ?R)" using sw by simp
    note sp = this [unfolded sorted_wrt_append]
    let ?P = "\<lambda>a b. range_before (ei_range_store ?i ! a) (ei_range_store ?i ! b)"
    have mem: "x \<in> set ?R" if "x \<in> set (take j ?R) \<union> set (drop j ?R)" for x
      using that by (auto dest: in_set_takeD in_set_dropD)
    have "sorted_wrt ?P (take j ?R)" "sorted_wrt ?P (drop j ?R)"
      using sp mem st by (auto elim!: sorted_wrt_mono_rel [rotated])
    moreover have "?P x y" if "x \<in> set (take j ?R)" "y \<in> set (drop j ?R)" for x y
      using sp that mem [of x] mem [of y] st by auto
    ultimately have "sorted_wrt ?P rs"
      using lo hi mem st unfolding j(2) by (auto simp: sorted_wrt_append)
    moreover have sr: "set rs = insert a (set ?R)"
      unfolding j(2) by (metis (no_types, lifting) append_take_drop_id insert_is_Un list.simps(15) set_append
          Un_assoc Un_commute empty_set)
    moreover have "rg_min (ei_range_store ?i ! x) > 0 \<and> (rg_max (ei_range_store ?i ! x) = 0 \<or>
        rg_min (ei_range_store ?i ! x) \<le> rg_max (ei_range_store ?i ! x))" if "x \<in> set rs" for x
      using that sr sta st mn ranges(2) by (auto simp: ranges_sorted_def)
    moreover have "ranges_ok (?i\<lparr>ei_ranges := rs\<rparr>)"
      using ranges(1) sr by (auto simp: ranges_ok_def add_range_def a_def)
    ultimately show ?case by (simp add: ranges_sorted_def)
  qed
qed

definition range_added :: "entity_index \<Rightarrow> 32 word \<Rightarrow> 32 word \<Rightarrow> entity_index \<Rightarrow> nat \<Rightarrow> bool" where
  \<comment> \<open>\<open>idx'\<close> is \<open>idx\<close> with the new range \<open>a\<close>, disjoint from the others and in order\<close>
  "range_added idx mn mx idx' a \<longleftrightarrow> ei_ok idx' \<and> ranges_ok idx' \<and> ranges_sorted idx' \<and>
    ei_alive idx' = ei_alive idx \<and> ei_alive_count idx' = ei_alive_count idx \<and>
    length (ei_dense idx') = length (ei_dense idx) \<and> ei_max_id idx' = ei_max_id idx \<and>
    a \<notin> set (ei_ranges idx) \<and> set (ei_ranges idx') = insert a (set (ei_ranges idx)) \<and>
    rg_min (ei_range_store idx' ! a) = mn \<and> rg_max (ei_range_store idx' ! a) = mx \<and>
    (\<forall>b \<in> set (ei_ranges idx). rg_min (ei_range_store idx' ! b) = rg_min (ei_range_store idx ! b) \<and>
      rg_max (ei_range_store idx' ! b) = rg_max (ei_range_store idx ! b) \<and>
      rg_recycled (ei_range_store idx' ! b) = rg_recycled (ei_range_store idx ! b))"

lemma set_range_first:
  \<comment> \<open>activating the first range, when no range is active and every id is alive\<close>
  assumes ok: "ei_ok idx" and ranges: "ranges_ok idx" "ranges_sorted idx" and a: "a \<in> set (ei_ranges idx)"
    and none: "ei_active_range idx = None" and full: "ei_alive_count idx = length (ei_dense idx)"
    and emp: "rg_recycled (ei_range_store idx ! a) = []" and cur: "rg_cur (ei_range_store idx ! a) = ei_max_id idx"
  shows "returns (flecs_entity_index_set_range idx a) (\<lambda>idx'. ei_ok idx' \<and> ranges_ok idx' \<and>
    ranges_sorted idx' \<and> ei_alive idx' = ei_alive idx \<and> ei_alive_count idx' = ei_alive_count idx \<and>
    length (ei_dense idx') = length (ei_dense idx) \<and>
    ei_max_id idx' = ei_max_id idx \<and> ei_ranges idx' = ei_ranges idx \<and> ei_active_range idx' = Some a \<and>
    ei_range_store idx' = ei_range_store idx)"
proof -
  have sv: "saved_ranges idx = ei_range_store idx" by (simp add: saved_ranges_def none)
  have st: "(ei_range_store idx)[a := (ei_range_store idx ! a)\<lparr>rg_recycled := []\<rparr>] = ei_range_store idx"
    using emp by (metis list_update_id ecs_entity_range.surjective
          ecs_entity_range.update_convs(4) ecs_entity_range.select_convs(4))
  have pre: "distinct (map id_index (rg_recycled (saved_ranges idx ! a)))"
    "id_index ` set (rg_recycled (saved_ranges idx ! a)) \<inter> id_index ` ei_alive idx = {}"
    by (simp_all add: sv emp)
  show ?thesis
    by (rule returns_mono [OF set_range_ok [OF ok ranges(1) a pre, unfolded sv st emp cur]], elim conjE)
      (use ranges a full in \<open>simp add: ranges_ok_def ranges_sorted_def\<close>)
qed

lemma ei_rec_add_range [simp]: "ei_ok (add_range idx mn mx) = ei_ok idx" "ei_alive (add_range idx mn mx) = ei_alive idx"
  by (simp_all add: add_range_def)

lemma range_new_insert_ok:
  assumes ok: "ei_ok idx" and ranges: "ranges_ok idx" "ranges_sorted idx"
    and mn: "0 < mn" "mx = 0 \<or> mn \<le> mx"
    and first: "first \<Longrightarrow> mn = 1 \<Longrightarrow> ei_ranges idx = [] \<and> ei_alive_count idx = length (ei_dense idx)"
  shows "returns (range_new_insert idx first mn mx) (\<lambda>(idx', p). case p of
      None \<Rightarrow> idx' = idx \<and> (\<exists>b \<in> set (ei_ranges idx). range_overlap (ei_range_store idx ! b) mn mx)
    | Some a \<Rightarrow> range_added idx mn mx idx' a \<and>
        (\<forall>b \<in> set (ei_ranges idx). \<not> range_overlap (ei_range_store idx ! b) mn mx) \<and>
        ei_active_range idx' = (if first \<and> mn = 1 then Some a else ei_active_range idx))"
proof (cases "\<exists>b \<in> set (ei_ranges idx). range_overlap (ei_range_store idx ! b) mn mx")
  case True
  then show ?thesis by (simp add: range_new_insert_def Let_def)
next
  case False
  let ?a = "length (ei_range_store idx)" and ?n = "length (ei_ranges idx)"
  let ?i = "add_range idx mn mx"
  let ?new = "\<lparr>rg_min = mn, rg_max = mx, rg_cur = mn - 1, rg_recycled = []\<rparr>"
  have no: "\<forall>b \<in> set (ei_ranges idx). \<not> range_overlap (ei_range_store idx ! b) mn mx" using False by blast
  have fresh: "?a \<notin> set (ei_ranges idx)" using ranges(1) by (auto simp: ranges_ok_def)
  have old: "ei_range_store ?i ! b = ei_range_store idx ! b" if "b \<in> set (ei_ranges idx)" for b
    using ranges(1) that by (simp add: add_range_def ranges_ok_def nth_append)
  have new: "ei_range_store ?i ! ?a = ?new" by (simp add: add_range_def)
  let ?Q = "\<lambda>(idx', p). case p of
      None \<Rightarrow> idx' = idx \<and> (\<exists>b \<in> set (ei_ranges idx). range_overlap (ei_range_store idx ! b) mn mx)
    | Some a \<Rightarrow> range_added idx mn mx idx' a \<and>
        (\<forall>b \<in> set (ei_ranges idx). \<not> range_overlap (ei_range_store idx ! b) mn mx) \<and>
        ei_active_range idx' = (if first \<and> mn = 1 then Some a else ei_active_range idx)"
  let ?tail = "\<lambda>rs. let i = ?i\<lparr>ei_ranges := rs\<rparr> in
       if first \<and> mn = 1 then
         bindR (range_put i ?a (\<lambda>r. r\<lparr>rg_cur := ei_max_id i\<rparr>)) (\<lambda>idx.
         bindR (flecs_entity_index_set_range idx ?a) (\<lambda>idx. Inr (idx, Some ?a)))
       else Inr (i, Some ?a)"
  have fin: "returns (?tail rs) ?Q"
    if rs: "ranges_ok (?i\<lparr>ei_ranges := rs\<rparr>)" "ranges_sorted (?i\<lparr>ei_ranges := rs\<rparr>)"
      "set rs = insert ?a (set (ei_ranges idx))" for rs
  proof (cases "first \<and> mn = 1")
    case False
    then show ?thesis
      using ok rs fresh old new no by (auto simp: Let_def range_added_def) (auto simp: add_range_def)
  next
    case True
    have emp: "ei_ranges idx = []" "ei_alive_count idx = length (ei_dense idx)" using True first by blast+
    have act: "ei_active_range idx = None" using ranges(1) emp by (auto simp: ranges_ok_def)
    define j where "j = ?i\<lparr>ei_ranges := rs, ei_range_store := (ei_range_store ?i)[?a := ?new\<lparr>rg_cur := ei_max_id idx\<rparr>]\<rparr>"
    have put: "range_put (?i\<lparr>ei_ranges := rs\<rparr>) ?a (\<lambda>r. r\<lparr>rg_cur := ei_max_id (?i\<lparr>ei_ranges := rs\<rparr>)\<rparr>) = Inr j"
      unfolding j_def by (subst range_put_ok) (simp_all add: add_range_def)
    have sj: "ei_range_store j ! ?a = ?new\<lparr>rg_cur := ei_max_id idx\<rparr>" by (simp add: j_def add_range_def)
    have rj: "ei_ranges j = rs" "set rs = {?a}" using rs(3) emp by (simp_all add: j_def)
    have okj: "ei_ok j" "ei_alive j = ei_alive idx" using ok by (simp_all add: j_def)
    have roj: "ranges_ok j" using rs(1) by (simp add: ranges_ok_def j_def)
    have "ranges_sorted j"
    proof -
      have "rs ! m = ?a" if "m < length rs" for m using rj(2) that nth_mem by blast
      moreover have "distinct rs"
      proof -
        have "sorted_wrt (\<lambda>a b. range_before (ei_range_store ?i ! a) (ei_range_store ?i ! b)) rs"
          using rs(2) by (simp add: ranges_sorted_def)
        then show ?thesis
          unfolding distinct_conv_nth using calculation sorted_wrt_nth_less [of _ rs] new mn
          by (metis (no_types, lifting) ecs_entity_range.select_convs(1,2) linorder_neqE_nat not_le range_before_def)
      qed
      ultimately have "rs = [?a]"
        using rj(2) by (cases rs; cases "tl rs") auto
      then show ?thesis using mn sj by (simp add: ranges_sorted_def rj)
    qed
    note jj = set_range_first [OF okj(1) roj this]
    have "returns (flecs_entity_index_set_range j ?a) (\<lambda>idx'. ?Q (idx', Some ?a))"
      using emp act okj no fresh True sj rj
      by (intro returns_mono [OF jj]) (auto simp: range_added_def j_def add_range_def)
    with True put show ?thesis by (simp add: Let_def)
  qed
  have eq: "range_new_insert idx first mn mx =
      bindR (if ?n > 0 then range_insert_shift ?i mn ?a ?n (ei_ranges idx @ [?a]) else Inr (ei_ranges idx @ [?a])) ?tail"
    using False
  proof -
    have shift: "range_insert_shift (i\<lparr>ei_ranges := x\<rparr>) mn a m = range_insert_shift i mn a m" for i x mn a m
    proof (induction m)
      case (Suc m)
      show ?case by (rule ext) (simp only: range_insert_shift.simps Suc range_at_def, simp)
    qed (rule ext, simp)
    show ?thesis
      unfolding range_new_insert_def Let_def using False
      by (cases "first \<and> mn = 1") (auto simp: add_range_def shift)
  qed
  show ?thesis
  proof (cases "?n > 0")
    case True
    show ?thesis unfolding eq returns_bindR if_P [OF True]
      by (rule returns_mono [OF range_insert_sorted [OF ranges mn no]], elim conjE, rule fin)
  next
    case False
    then have emp: "ei_ranges idx = []" by simp
    have "ranges_ok (?i\<lparr>ei_ranges := [?a]\<rparr>)"
      using ranges(1) emp by (auto simp: ranges_ok_def add_range_def)
    moreover have "ranges_sorted (?i\<lparr>ei_ranges := [?a]\<rparr>)"
      using mn new by (simp add: ranges_sorted_def)
    moreover have "set [?a] = insert ?a (set (ei_ranges idx))"
      "ei_ranges idx @ [?a] = [?a]" using emp by simp_all
    ultimately show ?thesis
      unfolding eq returns_bindR if_not_P [OF False] returns_Inr by (simp only: fin)
  qed
qed

section \<open>The invariant of the entity index\<close>

definition ei_inv :: "entity_index \<Rightarrow> bool" where
  "ei_inv i \<longleftrightarrow> ei_ok i \<and> ranges_ok i \<and> ranges_sorted i"


lemma ensure_conflict:
  assumes ok: "ei_ok idx" and x: "x \<in> ei_alive idx" "id_index x = id_index e" "x \<noteq> e"
  shows "flecs_entity_index_ensure idx e = Inl ECS_INTERNAL_ERROR"
proof -
  define k where "k = id_index e"
  define idx1 where "idx1 = flecs_entity_index_ensure_page idx k"
  have l: "ei_look idx k \<noteq> 0" "ei_look idx k < ei_alive_count idx" "ei_dense idx ! ei_look idx k = x"
    using x(1,2) by (simp_all add: alive_iff [OF ok] k_def)
  obtain r where r: "ei_rec idx1 k = Some r" using ei_rec_ensure_page_self [of idx k] by (auto simp: idx1_def)
  have f: "er_dense r = ei_look idx k" "ei_alive_count idx1 = ei_alive_count idx" "ei_dense idx1 = ei_dense idx"
    using ei_rec_look [OF r] by (simp_all add: idx1_def)
  show ?thesis
    using l x(3) paired_bound [OF ei_okD(1) [OF ok], of k]
    by (simp add: flecs_entity_index_ensure_def Let_def k_def [symmetric] idx1_def [symmetric]
        ei_read_ok [OF r] f)
qed

lemma remove_not_alive_noop:
  "ei_ok idx \<Longrightarrow> e \<notin> ei_alive idx \<Longrightarrow> flecs_entity_index_remove idx e = Inr idx"
  by (simp add: flecs_entity_index_remove_def remove_intern_dead)


section \<open>Properties\<close>

definition ei_example :: entity_index where
  \<comment> \<open>id 1 is alive, index 2 waits to be recycled in generation 1\<close>
  "ei_example = \<lparr>ei_dense = [0, 1, 0x100000002],
    ei_pages = [Some (\<lambda>i. \<lparr>er_table = None, er_row = 0, er_dense = (if i = 1 then 1 else if i = 2 then 2 else 0)\<rparr>)],
    ei_range_store = [], ei_ranges = [], ei_active_range = None, ei_alive_count = 2, ei_max_id = 2\<rparr>"

lemma id_index_numeral: "id_index 0 = 0" "id_index 1 = 1" "id_index 0x100000002 = 2"
  by (simp_all add: id_index_def)

lemma ei_example_look: "ei_look ei_example k = (if k = 1 then 1 else if k = 2 then 2 else 0)"
proof -
  have "unat k div 1024 = 0 \<longleftrightarrow> unat k < 1024" by auto
  moreover have "k = 1 \<longleftrightarrow> unat k = 1" "k = 2 \<longleftrightarrow> unat k = 2" by (simp_all add: word_unat_eq_iff)
  ultimately show ?thesis
    by (auto simp: ei_look_def ei_rec_def ei_example_def page_index_div page_offset_mod)
qed

lemma ei_example_ok: "ei_inv ei_example" "ei_alive ei_example = {1}" "ei_room ei_example"
proof -
  have "paired (ei_look ei_example) (ei_dense ei_example)"
    unfolding paired_def ei_example_look
    by (auto simp: ei_example_def id_index_numeral less_Suc_eq numeral_2_eq_2)
  moreover have "er_table r = None" if "ei_rec ei_example k = Some r" for k r
    using that by (auto simp: ei_rec_def ei_example_def split: if_splits)
  ultimately show "ei_inv ei_example"
    by (auto simp: ei_inv_def ei_ok_def ranges_ok_def ranges_sorted_def) (auto simp: ei_example_def)
  have "{Suc 0..<2} = {Suc 0}" by auto
  then show "ei_alive ei_example = {1}" by (simp add: ei_alive_def alive_ids_def ei_example_def)
  show "ei_room ei_example" by (simp add: ei_room_def ei_example_def)
qed

text \<open>C6: The life cycle of an entity id. In an index that satisfies the invariants,
  \<open>flecs_entity_index_is_alive\<close> answers whether an id, generation included, is in the set of live
  ids, and no two live ids have the same 32-bit index. A new id has an index no live id has and is
  the only id whose liveness changes; removing a live id takes exactly this id out of the set and
  removing any other id changes nothing; \<open>flecs_entity_index_get\<close> finds the record of the live ids
  and of no other, and \<open>flecs_entity_index_get_alive\<close> completes an index with the live generation.\<close>

theorem entity_id_life_cycle:
  assumes "ei_inv idx" and "ei_room idx"
  shows "(\<forall>e. flecs_entity_index_is_alive idx e = Inr (e \<in> ei_alive idx)) \<and>
    (\<forall>e e'. e \<in> ei_alive idx \<and> e' \<in> ei_alive idx \<and> id_index e = id_index e' \<longrightarrow> e = e') \<and>
    returns (flecs_entity_index_new_id idx) (\<lambda>(idx', e). ei_inv idx' \<and>
      id_index e \<notin> id_index ` ei_alive idx \<and> ei_alive idx' = insert e (ei_alive idx)) \<and>
    (\<forall>e. returns (flecs_entity_index_remove idx e) (\<lambda>idx'. ei_inv idx' \<and> ei_alive idx' = ei_alive idx - {e})) \<and>
    (\<forall>e. if e \<in> ei_alive idx then flecs_entity_index_get idx e = Inr (id_index e)
      else \<exists>err. flecs_entity_index_get idx e = Inl err) \<and>
    (\<forall>e. e \<in> ei_alive idx \<longrightarrow> flecs_entity_index_get_alive idx (ucast (id_index e)) = Inr e)"
proof -
  have inv: "ei_ok idx \<and> ranges_ok idx \<and> ranges_sorted idx" using assms(1) by (simp add: ei_inv_def)
  have "returns (flecs_entity_index_remove idx e) (\<lambda>idx'. ei_inv idx' \<and> ei_alive idx' = ei_alive idx - {e})" for e
    using entity_pool.remove [OF inv, of e] remove_not_alive_noop [of idx e] inv
    by (cases "e \<in> ei_alive idx") (simp_all add: ei_inv_def)
  moreover have "if e \<in> ei_alive idx then flecs_entity_index_get idx e = Inr (id_index e)
      else \<exists>err. flecs_entity_index_get idx e = Inl err" for e
    using get_ok [of idx e] inv by simp
  moreover have "e \<in> ei_alive idx \<Longrightarrow> flecs_entity_index_get_alive idx (ucast (id_index e)) = Inr e" for e
    using get_alive_ok(1) [of idx e "ucast (id_index e)"] inv by simp
  ultimately show ?thesis
    using entity_pool.is_alive [OF inv] entity_pool.unique [OF inv]
      entity_pool.new_id [OF inv assms(2)] by (simp add: ei_inv_def)
qed

lemma entity_id_life_cycle_witness:
  "returns (flecs_entity_index_new_id ei_example) (\<lambda>(idx', e). ei_alive idx' = {1, e}) \<and>
   flecs_entity_index_is_alive ei_example 0x100000001 = Inr False"
  using entity_id_life_cycle [OF ei_example_ok(1,3)]
  by (auto simp: ei_example_ok(2) elim!: returns_mono)

text \<open>C8: Removing an id and then asking for a new one recycles it under the next generation, when no range is
  active or its index belongs to the active range: the new id has the same index, the
  generation counts up modulo 65536, the removed id itself is not alive any more, and no other id changes. When the
  id belongs to another range, its index leaves the index of unused ids, and the id
  with the next generation is kept for its own range. In each case the record is reset: it has no table and row 0.\<close>

theorem entity_id_recycling:
  assumes "ei_inv idx" and "e \<in> ei_alive idx"
  shows "returns (flecs_entity_index_remove idx e) (\<lambda>idx'. recycled_in idx e idx' \<and>
    ((\<forall>a. ei_active_range idx = Some a \<longrightarrow> in_range (ei_range_store idx ! a) (id_index e)) \<longrightarrow>
      returns (flecs_entity_index_new_id idx') (\<lambda>(idx'', e'). e' = ECS_GENERATION_INC e \<and>
        ei_alive idx'' = insert e' (ei_alive idx - {e}) \<and>
        flecs_entity_index_is_alive idx'' e = Inr False)))"
proof -
  have inv: "ei_ok idx" "ranges_ok idx" "ranges_sorted idx" using assms(1) by (simp_all add: ei_inv_def)
  show ?thesis
  proof (rule returns_mono [OF remove_ok [OF inv assms(2)]], elim conjE, intro conjI impI, assumption)
    fix idx' assume a: "ei_ok idx'" "ei_alive idx' = ei_alive idx - {e}" "recycled_in idx e idx'"
      "\<forall>a. ei_active_range idx = Some a \<longrightarrow> in_range (ei_range_store idx ! a) (id_index e)"
    have x: "ei_alive_count idx' < length (ei_dense idx')"
      "ei_dense idx' ! ei_alive_count idx' = ECS_GENERATION_INC e"
      using a(3,4) by (auto simp: recycled_in_def split: option.splits)
    show "returns (flecs_entity_index_new_id idx') (\<lambda>(idx'', e'). e' = ECS_GENERATION_INC e \<and>
        ei_alive idx'' = insert e' (ei_alive idx - {e}) \<and> flecs_entity_index_is_alive idx'' e = Inr False)"
      by (rule returns_mono [OF new_id_ok [OF a(1)]])
        (use x a(2) in \<open>auto simp: ei_room_def is_alive_ok GENERATION_INC_neq [symmetric]\<close>)
  qed
qed

lemma entity_id_recycling_witness:
  "returns (flecs_entity_index_remove ei_example 1) (\<lambda>idx'. ei_rec idx' 1 \<noteq> None \<and>
    returns (flecs_entity_index_new_id idx') (\<lambda>(idx'', e'). e' = 0x100000001))"
proof -
  have a: "ei_active_range ei_example = None" by (simp add: ei_example_def)
  have g: "ECS_GENERATION_INC 1 = 0x100000001"
    by (simp add: ECS_GENERATION_INC_def ECS_GENERATION_def ECS_GENERATION_MASK_def)
  show ?thesis
    using entity_id_recycling [OF ei_example_ok(1), of 1] a
    by (auto simp: ei_example_ok(2) g id_index_numeral recycled_in_def elim!: returns_mono)
qed


lemma set_range_again:
  \<comment> \<open>activating the range that is active already, when every id is alive\<close>
  assumes inv: "ei_inv idx" and a: "ei_active_range idx = Some a"
    and full: "ei_alive_count idx = length (ei_dense idx)"
  shows "returns (flecs_entity_index_set_range idx a) (\<lambda>idx'. ei_inv idx' \<and>
    ei_alive idx' = ei_alive idx \<and> ei_alive_count idx' = length (ei_dense idx') \<and>
    ei_max_id idx' = ei_max_id idx \<and> ei_ranges idx' = ei_ranges idx \<and> ei_active_range idx' = Some a \<and>
    (\<forall>b. rg_min (ei_range_store idx' ! b) = rg_min (ei_range_store idx ! b) \<and>
      rg_max (ei_range_store idx' ! b) = rg_max (ei_range_store idx ! b)))"
proof -
  let ?st = "ei_range_store idx"
  have ok: "ei_ok idx" "ranges_ok idx" "ranges_sorted idx" using inv by (simp_all add: ei_inv_def)
  have mem: "a \<in> set (ei_ranges idx)" "a < length ?st" using ok(2) a by (auto simp: ranges_ok_def)
  have sv: "saved_ranges idx = ?st[a := (?st ! a)\<lparr>rg_recycled := [], rg_cur := ei_max_id idx\<rparr>]"
    using a full by (simp add: saved_ranges_def)
  have pre: "distinct (map id_index (rg_recycled (saved_ranges idx ! a)))"
    "id_index ` set (rg_recycled (saved_ranges idx ! a)) \<inter> id_index ` ei_alive idx = {}"
    using mem by (simp_all add: sv)
  show ?thesis
  proof (rule returns_mono [OF set_range_ok [OF ok(1,2) mem(1) pre]], elim conjE)
    fix idx' assume r: "ei_ok idx'" "ei_alive idx' = ei_alive idx" "ei_alive_count idx' = ei_alive_count idx"
      "ei_dense idx' = take (ei_alive_count idx) (ei_dense idx) @ rg_recycled (saved_ranges idx ! a)"
      "ei_max_id idx' = rg_cur (saved_ranges idx ! a)" "ei_active_range idx' = Some a"
      "ei_ranges idx' = ei_ranges idx"
      "ei_range_store idx' = (saved_ranges idx)[a := (saved_ranges idx ! a)\<lparr>rg_recycled := []\<rparr>]"
    have mm: "rg_min (ei_range_store idx' ! b) = rg_min (?st ! b)"
      "rg_max (ei_range_store idx' ! b) = rg_max (?st ! b)" for b
      using mem(2) by (cases "b = a"; simp add: r(8) sv)+
    have "ranges_sorted idx'"
      using ok(3) unfolding ranges_sorted_def range_before_def mm by (simp add: r(7))
    moreover have "ranges_ok idx'" using ok(2) mem by (simp add: ranges_ok_def r(6,7,8))
    ultimately show "ei_inv idx' \<and> ei_alive idx' = ei_alive idx \<and>
        ei_alive_count idx' = length (ei_dense idx') \<and> ei_max_id idx' = ei_max_id idx \<and>
        ei_ranges idx' = ei_ranges idx \<and> ei_active_range idx' = Some a \<and>
        (\<forall>b. rg_min (ei_range_store idx' ! b) = rg_min (?st ! b) \<and>
          rg_max (ei_range_store idx' ! b) = rg_max (?st ! b))"
      using r mem full mm by (simp add: ei_inv_def sv)
  qed
qed

lemma word_pred: "1 < (x :: 32 word) \<Longrightarrow> x - 1 \<noteq> 0 \<and> 1 \<le> x - 1 \<and> x - 1 < x"
  by (auto simp: word_less_nat_alt word_le_nat_alt unat_sub_if_size)

lemma range_new_default_ok:
  assumes inv: "ei_inv idx" and full: "ei_alive_count idx = length (ei_dense idx)"
    and first: "ei_ranges idx = []" and mn: "1 < mn" "ei_max_id idx \<le> mn - 1"
  shows "returns (range_new_default idx (mn - 1)) (\<lambda>(idx', p). \<exists>d. p = Some d \<and> ei_inv idx' \<and>
    ei_alive idx' = ei_alive idx \<and> ei_alive_count idx' = length (ei_dense idx') \<and>
    ei_max_id idx' = ei_max_id idx \<and> set (ei_ranges idx') = {d} \<and> ei_active_range idx' = Some d \<and>
    rg_min (ei_range_store idx' ! d) = 1 \<and> rg_max (ei_range_store idx' ! d) = mn - 1)"
proof -
  have ok: "ei_ok idx" "ranges_ok idx" "ranges_sorted idx" using inv by (simp_all add: ei_inv_def)
  note w = word_pred [OF mn(1)]
  have p: "0 < (1 :: 32 word)" "mn - 1 = 0 \<or> 1 \<le> mn - 1" using w by auto
  have eq: "range_new_default idx (mn - 1) = range_new_insert idx True 1 (mn - 1)"
    using w mn(2) full by (simp add: range_new_default_def flecs_entity_index_not_alive_count_def)
  have "returns (range_new_insert idx True 1 (mn - 1)) (\<lambda>(idx', p). case p of
      None \<Rightarrow> idx' = idx \<and> (\<exists>b \<in> set (ei_ranges idx). range_overlap (ei_range_store idx ! b) 1 (mn - 1))
    | Some a \<Rightarrow> range_added idx 1 (mn - 1) idx' a \<and>
        (\<forall>b \<in> set (ei_ranges idx). \<not> range_overlap (ei_range_store idx ! b) 1 (mn - 1)) \<and>
        ei_active_range idx' = (if True \<and> (1 :: 32 word) = 1 then Some a else ei_active_range idx))"
    using first full by (intro range_new_insert_ok [OF ok p]) simp
  then show ?thesis
    unfolding eq by (rule returns_mono)
      (use first full in \<open>auto simp: range_added_def ei_inv_def split: option.splits\<close>)
qed

lemma find_range_here:
  assumes "ei_inv idx" "a \<in> set (ei_ranges idx)" "in_range (ei_range_store idx ! a) k"
  shows "flecs_entity_index_find_range idx k = Inr (Some a)"
proof -
  have ok: "ranges_ok idx" "ranges_sorted idx" using assms(1) by (simp_all add: ei_inv_def)
  obtain p where p: "flecs_entity_index_find_range idx k = Inr p"
    "case p of None \<Rightarrow> \<forall>a \<in> set (ei_ranges idx). \<not> in_range (ei_range_store idx ! a) k
     | Some a \<Rightarrow> a \<in> set (ei_ranges idx) \<and> in_range (ei_range_store idx ! a) k"
    using find_range_ok [OF ok, of k] by (auto elim: returnsE)
  show ?thesis
  proof (cases p)
    case None
    with p assms(2,3) show ?thesis by auto
  next
    case (Some b)
    with p(2) have b: "b \<in> set (ei_ranges idx)" "in_range (ei_range_store idx ! b) k" by auto
    from find_range_unique [OF ok(2) b(1) assms(2) b(2) assms(3)] p(1) Some show ?thesis by simp
  qed
qed

definition new_range :: "entity_index \<Rightarrow> 32 word \<Rightarrow> 32 word \<Rightarrow> entity_index \<times> nat option \<Rightarrow> bool" where
  \<comment> \<open>the result of \<open>ecs_entity_range_new\<close>: no range and an unchanged index when the interval
     overlaps an existing range, otherwise the range in which the interval's ids are found\<close>
  "new_range idx mn mx r \<longleftrightarrow> (case r of
      (idx', None) \<Rightarrow> idx' = idx \<and> (\<exists>b \<in> set (ei_ranges idx). range_overlap (ei_range_store idx ! b) mn mx)
    | (idx', Some a) \<Rightarrow> ei_inv idx' \<and> ei_alive idx' = ei_alive idx \<and> ei_max_id idx' = ei_max_id idx \<and>
        (\<forall>b \<in> set (ei_ranges idx). \<not> range_overlap (ei_range_store idx ! b) mn mx) \<and>
        (\<forall>k. mn \<le> k \<and> (mx = 0 \<or> k \<le> mx) \<longrightarrow> flecs_entity_index_find_range idx' k = Inr (Some a)))"

lemma new_range_insert:
  assumes inv: "ei_inv idx" and mn: "0 < mn" "mx = 0 \<or> mn \<le> mx"
    and first: "first \<Longrightarrow> mn = 1 \<Longrightarrow> ei_ranges idx = [] \<and> ei_alive_count idx = length (ei_dense idx)"
  shows "returns (range_new_insert idx first mn mx) (new_range idx mn mx)"
proof -
  have ok: "ei_ok idx" "ranges_ok idx" "ranges_sorted idx" using inv by (simp_all add: ei_inv_def)
  show ?thesis
  proof (rule returns_mono [OF range_new_insert_ok [OF ok mn first]], simp, simp, unfold split_paired_all prod.case)
    fix idx' p assume r: "case p of
        None \<Rightarrow> idx' = idx \<and> (\<exists>b \<in> set (ei_ranges idx). range_overlap (ei_range_store idx ! b) mn mx)
      | Some a \<Rightarrow> range_added idx mn mx idx' a \<and>
          (\<forall>b \<in> set (ei_ranges idx). \<not> range_overlap (ei_range_store idx ! b) mn mx) \<and>
          ei_active_range idx' = (if first \<and> mn = 1 then Some a else ei_active_range idx)"
    show "new_range idx mn mx (idx', p)"
    proof (cases p)
      case None
      with r show ?thesis by (simp add: new_range_def)
    next
      case (Some a)
      then have "ei_inv idx'" "a \<in> set (ei_ranges idx')"
        using r by (simp_all add: range_added_def ei_inv_def)
      from find_range_here [OF this] r Some show ?thesis
        by (simp add: new_range_def range_added_def ei_inv_def in_range_def)
    qed
  qed
qed

lemma range_new_first:
  \<comment> \<open>the first range, when it does not start at 1: the range of the ids below it comes before it\<close>
  assumes inv: "ei_inv idx" and full: "ei_alive_count idx = length (ei_dense idx)" and mn: "0 < mn"
    and emp: "ei_ranges idx = []" and default: "1 < mn" "ei_max_id idx \<le> mn - 1"
    and mx: "mx = 0 \<or> mn \<le> mx"
  shows "returns (range_new_default idx (mn - 1)) (\<lambda>(i, p). returns
      (case p of None \<Rightarrow> Inl Bad_Access
       | Some d \<Rightarrow> bindR (range_put i d (\<lambda>r. r\<lparr>rg_cur := ei_max_id i\<rparr>)) (\<lambda>i. flecs_entity_index_set_range i d))
      (\<lambda>i. returns (range_new_insert i True mn mx) (new_range idx mn mx)))"
proof -
  show "returns (range_new_default idx (mn - 1)) (\<lambda>(i, p). returns
      (case p of None \<Rightarrow> Inl Bad_Access
       | Some d \<Rightarrow> bindR (range_put i d (\<lambda>r. r\<lparr>rg_cur := ei_max_id i\<rparr>)) (\<lambda>i. flecs_entity_index_set_range i d))
      (\<lambda>i. returns (range_new_insert i True mn mx) (new_range idx mn mx)))"
  proof (rule returns_mono [OF range_new_default_ok [OF inv full emp default]],
      unfold split_paired_all prod.case, elim exE conjE)
    fix i p d assume d: "p = Some d" "ei_inv i" "ei_alive i = ei_alive idx"
      "ei_alive_count i = length (ei_dense i)" "ei_max_id i = ei_max_id idx"
      "set (ei_ranges i) = {d}" "ei_active_range i = Some d"
      "rg_min (ei_range_store i ! d) = 1" "rg_max (ei_range_store i ! d) = mn - 1"
    have ok: "ei_ok i" "ranges_ok i" "ranges_sorted i" using d(2) by (simp_all add: ei_inv_def)
    have lt: "d < length (ei_range_store i)" using ok(2) d(6) by (simp add: ranges_ok_def)
    define j where "j = i\<lparr>ei_range_store := (ei_range_store i)[d := (ei_range_store i ! d)\<lparr>rg_cur := ei_max_id i\<rparr>]\<rparr>"
    have mm: "rg_min (ei_range_store j ! b) = rg_min (ei_range_store i ! b)"
      "rg_max (ei_range_store j ! b) = rg_max (ei_range_store i ! b)" for b
      using lt by (cases "b = d"; simp add: j_def)+
    have "ranges_sorted j"
      using ok(3) unfolding ranges_sorted_def range_before_def mm by (simp add: j_def)
    then have jinv: "ei_inv j" using ok by (simp add: ei_inv_def ranges_ok_def j_def)
    have jj: "ei_active_range j = Some d" "ei_alive_count j = length (ei_dense j)"
      using d by (simp_all add: j_def)
    have "returns (flecs_entity_index_set_range j d)
        (\<lambda>i. returns (range_new_insert i True mn mx) (new_range idx mn mx))"
    proof (rule returns_mono [OF set_range_again [OF jinv jj]], elim conjE)
      fix l assume l: "ei_inv l" "ei_alive l = ei_alive j" "ei_max_id l = ei_max_id j"
        "ei_ranges l = ei_ranges j"
        "\<forall>b. rg_min (ei_range_store l ! b) = rg_min (ei_range_store j ! b) \<and>
          rg_max (ei_range_store l ! b) = rg_max (ei_range_store j ! b)"
      have no: "\<not> range_overlap (ei_range_store l ! d) mn mx"
        using l(5) mm d(8,9) word_pred [OF default(1)] mx
        by (auto simp: range_overlap_def)
      have rl: "set (ei_ranges l) = {d}" using d(6) l(4) by (simp add: j_def)
      show "returns (range_new_insert l True mn mx) (new_range idx mn mx)"
        by (rule returns_mono [OF new_range_insert [OF l(1) mn mx]])
          (use emp default l(2,3) d(3,5) no rl in
            \<open>auto simp: new_range_def j_def split: option.splits prod.splits\<close>)
    qed
    moreover have "range_put i d (\<lambda>r. r\<lparr>rg_cur := ei_max_id i\<rparr>) = Inr j"
      using lt by (simp add: range_put_ok j_def)
    ultimately show "returns (case p of None \<Rightarrow> Inl Bad_Access
       | Some d \<Rightarrow> bindR (range_put i d (\<lambda>r. r\<lparr>rg_cur := ei_max_id i\<rparr>)) (\<lambda>i. flecs_entity_index_set_range i d))
      (\<lambda>i. returns (range_new_insert i True mn mx) (new_range idx mn mx))" using d(1) by simp
  qed
qed

lemma range_new_ok:
  assumes "ei_inv idx" and "ei_alive_count idx = length (ei_dense idx)"
    and "0 < mn" and "mx = 0 \<or> mn \<le> mx"
  shows "if ei_ranges idx = [] \<and> 1 < mn \<and> mn - 1 < ei_max_id idx
    then ecs_entity_range_new idx mn mx = Inl Bad_Access
    else if ei_ranges idx = [] \<and> mn = 1 \<and> mx \<noteq> 0 \<and> mx < ei_max_id idx
    then ecs_entity_range_new idx mn mx = Inr (idx, None)
    else returns (ecs_entity_range_new idx mn mx) (new_range idx mn mx)"
proof -
  have na: "flecs_entity_index_not_alive_count idx = 0"
    using assms(2) by (simp add: flecs_entity_index_not_alive_count_def)
  have mn1: "mn = 1 \<or> 1 < mn"
    using assms(3) by (simp add: word_less_nat_alt word_unat_eq_iff) linarith
  consider (null) "ei_ranges idx = []" "1 < mn" "mn - 1 < ei_max_id idx"
    | (below) "ei_ranges idx = []" "mn = 1" "mx \<noteq> 0" "mx < ei_max_id idx"
    | (default) "ei_ranges idx = []" "1 < mn" "ei_max_id idx \<le> mn - 1"
    | (first) "ei_ranges idx = []" "mn = 1" "mx = 0 \<or> ei_max_id idx \<le> mx"
    | (more) "ei_ranges idx \<noteq> []"
    using mn1 by fastforce
  then show ?thesis
  proof cases
    case null
    then have "\<not> ei_max_id idx \<le> mn - 1" by simp
    with null show ?thesis using na assms(3,4) word_pred [of mn]
      by (simp add: ecs_entity_range_new_def range_new_default_def)
  next
    case below
    then have "\<not> ei_max_id idx \<le> mx" by simp
    with below show ?thesis using na assms(3,4) by (simp add: ecs_entity_range_new_def)
  next
    case default
    then show ?thesis
      using na assms(3,4) range_new_first [OF assms(1-3) default assms(4)]
      by (auto simp: ecs_entity_range_new_def split_def)
  next
    case first
    then show ?thesis
      using na assms(2,4) new_range_insert [OF assms(1,3,4), of True] by (auto simp: ecs_entity_range_new_def)
  next
    case more
    then show ?thesis
      using na assms(3,4) new_range_insert [OF assms(1,3,4), of False] by (simp add: ecs_entity_range_new_def)
  qed
qed

text \<open>C17: \<open>ecs_entity_range_new\<close> on an index without dead ids: the new range is refused exactly when
  it overlaps an existing one (the index is then unchanged); otherwise it is inserted so that the
  ranges stay ordered and disjoint, the live ids and the last id issued do not change, and the search
  finds the new range for each of its ids. The first range must not lie below the last id issued: one
  that starts at 1 is then refused, one that starts above 1 makes the function write through the null
  pointer its own recursive call returned.\<close>

theorem entity_range_new_ok:
  assumes "ei_inv idx" and "ei_alive_count idx = length (ei_dense idx)"
    and "0 < mn" and "mx = 0 \<or> mn \<le> mx"
  shows "if ei_ranges idx = [] \<and> 1 < mn \<and> mn - 1 < ei_max_id idx
    then ecs_entity_range_new idx mn mx = Inl Bad_Access
    else if ei_ranges idx = [] \<and> mn = 1 \<and> mx \<noteq> 0 \<and> mx < ei_max_id idx
    then ecs_entity_range_new idx mn mx = Inr (idx, None)
    else returns (ecs_entity_range_new idx mn mx) (new_range idx mn mx)"
  using assms by (rule range_new_ok)

definition ei_full :: entity_index where
  \<comment> \<open>the ids 1 and 2 are alive and nothing waits to be recycled\<close>
  "ei_full = ei_example\<lparr>ei_dense := [0, 1, 2], ei_alive_count := 3\<rparr>"

lemma ei_full_ok: "ei_inv ei_full" "ei_alive ei_full = {1, 2}"
proof -
  have look: "ei_look ei_full = ei_look ei_example" by (simp add: ei_full_def)
  have "id_index 2 = 2" by (simp add: id_index_def)
  then have "paired (ei_look ei_full) (ei_dense ei_full)"
    unfolding paired_def look ei_example_look
    by (auto simp: ei_full_def id_index_numeral less_Suc_eq numeral_2_eq_2)
  moreover have "er_table r = None" if "ei_rec ei_full k = Some r" for k r
    using that by (auto simp: ei_rec_def ei_full_def ei_example_def split: if_splits)
  ultimately show "ei_inv ei_full"
    by (auto simp: ei_inv_def ei_ok_def ranges_ok_def ranges_sorted_def) (auto simp: ei_full_def ei_example_def)
  have "{Suc 0..<Suc (Suc (Suc 0))} = {Suc 0, Suc (Suc 0)}" by auto
  then show "ei_alive ei_full = {1, 2}" by (simp add: ei_alive_def alive_ids_def ei_full_def)
qed

lemma entity_range_new_ok_witness:
  "ecs_entity_range_new ei_full 2 9 = Inl Bad_Access \<and> ecs_entity_range_new ei_full 1 1 = Inr (ei_full, None) \<and>
   returns (ecs_entity_range_new ei_full 100 0) (\<lambda>(i, p). p \<noteq> None \<and> ei_alive i = {1, 2} \<and>
     flecs_entity_index_find_range i 5000 = Inr p)"
proof -
  have f: "ei_alive_count ei_full = length (ei_dense ei_full)" "ei_ranges ei_full = []" "ei_max_id ei_full = 2"
    by (simp_all add: ei_full_def ei_example_def)
  note t = entity_range_new_ok [OF ei_full_ok(1) f(1)]
  have "returns (ecs_entity_range_new ei_full 100 0) (new_range ei_full 100 0)" using t [of 100 0] f by simp
  then have "returns (ecs_entity_range_new ei_full 100 0) (\<lambda>(i, p). p \<noteq> None \<and> ei_alive i = {1, 2} \<and>
     flecs_entity_index_find_range i 5000 = Inr p)"
    by (rule returns_mono) (auto simp: new_range_def f ei_full_ok(2) split: option.splits)
  then show ?thesis using t [of 2 9] t [of 1 1] f by simp
qed

text \<open>C18: Switching to another range and back gives the entity index back: the same live ids, the same
  ids waiting to be recycled in the same order and the same last id issued, and the other range keeps
  its own recycled ids, provided that these are not ids of the index.\<close>

theorem entity_range_there_and_back:
  assumes "ei_inv idx" and "ei_active_range idx = Some a" and "b \<in> set (ei_ranges idx)" and "b \<noteq> a"
    and "distinct (map id_index (rg_recycled (ei_range_store idx ! b)))"
    and "id_index ` set (rg_recycled (ei_range_store idx ! b)) \<inter> id_index ` ei_alive idx = {}"
  shows "returns (bindR (flecs_entity_index_set_range idx b) (\<lambda>idx. flecs_entity_index_set_range idx a))
    (\<lambda>idx'. ei_ok idx' \<and> ei_alive idx' = ei_alive idx \<and> ei_dense idx' = ei_dense idx \<and>
      ei_max_id idx' = ei_max_id idx \<and> ei_active_range idx' = Some a \<and>
      rg_recycled (ei_range_store idx' ! b) = rg_recycled (ei_range_store idx ! b))"
  using assms set_range_there_and_back [of idx a b] by (simp add: ei_inv_def)

definition ei_two_ranges :: entity_index where
  \<comment> \<open>range 0 covers the ids below 100 and is active, range 1 the ids from 100 on, one of them dead\<close>
  "ei_two_ranges = ei_example\<lparr>
    ei_range_store := [\<lparr>rg_min = 1, rg_max = 99, rg_cur = 1, rg_recycled = []\<rparr>,
      \<lparr>rg_min = 100, rg_max = 0, rg_cur = 100, rg_recycled = [0x100000064]\<rparr>],
    ei_ranges := [0, 1], ei_active_range := Some 0\<rparr>"

lemma ei_two_ranges_ok: "ei_inv ei_two_ranges" "ei_alive ei_two_ranges = {1}"
proof -
  have "ei_ok ei_two_ranges" using ei_example_ok(1) by (simp add: ei_two_ranges_def ei_inv_def)
  then show "ei_inv ei_two_ranges"
    by (auto simp: ei_inv_def ranges_ok_def ranges_sorted_def range_before_def)
      (auto simp: ei_two_ranges_def)
  show "ei_alive ei_two_ranges = {1}" using ei_example_ok(2) by (simp add: ei_two_ranges_def)
qed

lemma entity_range_there_and_back_witness:
  "returns (bindR (flecs_entity_index_set_range ei_two_ranges 1) (\<lambda>idx. flecs_entity_index_set_range idx 0))
    (\<lambda>idx'. ei_alive idx' = {1} \<and> ei_dense idx' = [0, 1, 0x100000002])"
proof -
  have f: "ei_active_range ei_two_ranges = Some 0" "ei_ranges ei_two_ranges = [0, 1]"
    "rg_recycled (ei_range_store ei_two_ranges ! Suc 0) = [0x100000064]" "ei_dense ei_two_ranges = [0, 1, 0x100000002]"
    by (simp_all add: ei_two_ranges_def ei_example_def)
  have "id_index 0x100000064 = 100" by (simp add: id_index_def)
  then show ?thesis
    using entity_range_there_and_back [OF ei_two_ranges_ok(1) f(1), of 1]
    by (auto simp: f ei_two_ranges_ok(2) id_index_numeral elim!: returns_mono)
qed

text \<open>C19: The binary search for the range of an id finds a range that contains it when one exists, and
  otherwise no range; since the ranges are disjoint the range is the only one.\<close>

theorem find_range_correct:
  assumes "ei_inv idx"
  shows "returns (flecs_entity_index_find_range idx k) (\<lambda>p. case p of
      None \<Rightarrow> \<forall>a \<in> set (ei_ranges idx). \<not> in_range (ei_range_store idx ! a) k
    | Some a \<Rightarrow> a \<in> set (ei_ranges idx) \<and> in_range (ei_range_store idx ! a) k \<and>
        (\<forall>b \<in> set (ei_ranges idx). in_range (ei_range_store idx ! b) k \<longrightarrow> b = a))"
proof -
  have inv: "ranges_ok idx" "ranges_sorted idx" using assms by (simp_all add: ei_inv_def)
  show ?thesis
    by (rule returns_mono [OF find_range_ok [OF inv]])
      (use find_range_unique [OF inv(2)] in \<open>auto split: option.splits\<close>)
qed

lemma find_range_correct_witness:
  "returns (flecs_entity_index_find_range ei_two_ranges 0) (\<lambda>p. p = None)"
proof (rule returns_mono [OF find_range_correct [OF ei_two_ranges_ok(1), of 0]])
  fix p assume "case p of
      None \<Rightarrow> \<forall>a \<in> set (ei_ranges ei_two_ranges). \<not> in_range (ei_range_store ei_two_ranges ! a) 0
    | Some a \<Rightarrow> a \<in> set (ei_ranges ei_two_ranges) \<and> in_range (ei_range_store ei_two_ranges ! a) 0 \<and>
        (\<forall>b \<in> set (ei_ranges ei_two_ranges). in_range (ei_range_store ei_two_ranges ! b) 0 \<longrightarrow> b = a)"
  then show "p = None"
    by (cases p) (auto simp: ei_two_ranges_def in_range_def)
qed


text \<open>C15: \<open>flecs_entity_index_ensure\<close> makes an id alive, in whatever state its index was, unless
  another generation of it is alive, which it reports as an internal error; records of other
  entities keep their tables. \<open>flecs_entity_index_make_alive\<close> on an index that is in use replaces its
  live id by the given generation.\<close>

theorem entity_ensure_makes_alive:
  assumes "ei_inv idx"
  shows "(if \<exists>x \<in> ei_alive idx. id_index x = id_index e \<and> x \<noteq> e
      then flecs_entity_index_ensure idx e = Inl ECS_INTERNAL_ERROR
      else returns (flecs_entity_index_ensure idx e) (\<lambda>(idx', p). p = id_index e \<and> ei_inv idx' \<and>
        ei_alive idx' = insert e (ei_alive idx) \<and> same_tables idx idx' \<and> ei_max_id idx \<le> ei_max_id idx')) \<and>
    returns (flecs_entity_index_make_alive idx e) (\<lambda>idx'. ei_alive idx' =
      (if id_index e \<in> id_index ` ei_alive idx
       then insert e {x \<in> ei_alive idx. id_index x \<noteq> id_index e} else ei_alive idx))"
proof -
  have ok: "ei_ok idx" "ranges_ok idx" "ranges_sorted idx" using assms by (simp_all add: ei_inv_def)
  have "returns (flecs_entity_index_ensure idx e) (\<lambda>(idx', p). p = id_index e \<and> ei_inv idx' \<and>
        ei_alive idx' = insert e (ei_alive idx) \<and> same_tables idx idx' \<and> ei_max_id idx \<le> ei_max_id idx')"
    if c: "\<And>x. x \<in> ei_alive idx \<Longrightarrow> id_index x = id_index e \<Longrightarrow> x = e"
    by (rule returns_mono [OF ensure_ok [OF ok(1) c]])
      (use ok(2,3) in \<open>auto simp: ei_inv_def ranges_ok_def ranges_sorted_def\<close>)
  moreover have "returns (flecs_entity_index_make_alive idx e) (\<lambda>idx'. ei_alive idx' =
      (if id_index e \<in> id_index ` ei_alive idx
       then insert e {x \<in> ei_alive idx. id_index x \<noteq> id_index e} else ei_alive idx))"
    by (rule returns_mono [OF make_alive_ok [OF ok(1)]]) simp
  ultimately show ?thesis using ensure_conflict [OF ok(1), of _ e] by auto
qed

lemma entity_ensure_makes_alive_witness:
  "returns (flecs_entity_index_ensure ei_example 70000) (\<lambda>(i, _). ei_alive i = {1, 70000}) \<and>
   flecs_entity_index_ensure ei_example 0x300000001 = Inl ECS_INTERNAL_ERROR"
proof -
  have x: "id_index 70000 = 70000" "id_index 0x300000001 = 1" by (simp_all add: id_index_def)
  have "returns (flecs_entity_index_ensure ei_example 70000) (\<lambda>(i, _). ei_alive i = {1, 70000})"
    using entity_ensure_makes_alive [OF ei_example_ok(1), of 70000]
    by (auto simp: ei_example_ok(2) x id_index_numeral elim!: returns_mono)
  then show ?thesis
    using entity_ensure_makes_alive [OF ei_example_ok(1), of "0x300000001"]
    by (simp add: ei_example_ok(2) x id_index_numeral)
qed


lemma new_ids_keeps:
  assumes "flecs_entity_index_new_ids i c = Inr (i', es)" "ei_ok i"
  shows "ei_ranges i' = ei_ranges i" "ei_range_store i' = ei_range_store i" "ei_active_range i' = ei_active_range i"
    "take (length (ei_dense i) - ei_alive_count i) es = take c (drop (ei_alive_count i) (ei_dense i))"
proof -
  have "ei_ranges i' = ei_ranges i \<and> ei_range_store i' = ei_range_store i \<and> ei_active_range i' = ei_active_range i \<and>
    take (length (ei_dense i) - ei_alive_count i) es = take c (drop (ei_alive_count i) (ei_dense i))"
  proof (cases "ei_alive_count i + c < length (ei_dense i)")
    case True
    with assms(1) show ?thesis
      by (auto simp: flecs_entity_index_new_ids_def Let_def ecs_assert_def bindR_eq_Inr split: if_splits)
  next
    case False
    let ?i = "i\<lparr>ei_dense := list_resize (ei_alive_count i + c) (ei_dense i)\<rparr>"
    from False assms(1) obtain l where l: "new_ids_loop ?i (length (ei_dense i)) (ei_alive_count i + c - length (ei_dense i)) = Inr l"
      and i': "i' = l\<lparr>ei_alive_count := ei_alive_count i + c\<rparr>" "es = take c (drop (ei_alive_count i) (ei_dense l))"
      by (auto simp: flecs_entity_index_new_ids_def Let_def ecs_assert_def bindR_eq_Inr split: if_splits)
    have b: "length (ei_dense i) \<noteq> 0" "ei_alive_count i \<le> length (ei_dense i)" using ei_okD(2,3) [OF assms(2)] by auto
    have "take (length (ei_dense i)) (ei_dense l) = take (length (ei_dense i)) (ei_dense ?i)"
      by (rule new_ids_loop_prefix [OF l])
    then have "take (length (ei_dense i) - ei_alive_count i) (drop (ei_alive_count i) (ei_dense l)) = drop (ei_alive_count i) (ei_dense i)"
      using False b by (simp add: take_drop list_resize_def)
    then have "take (length (ei_dense i) - ei_alive_count i) es = take c (drop (ei_alive_count i) (ei_dense i))"
      unfolding i'(2) by (simp add: take_take min.commute) (metis take_take min.commute)
    with new_ids_loop_success [OF l b(1)] show ?thesis by (simp add: i'(1))
  qed
  then show "ei_ranges i' = ei_ranges i" "ei_range_store i' = ei_range_store i" "ei_active_range i' = ei_active_range i"
    "take (length (ei_dense i) - ei_alive_count i) es = take c (drop (ei_alive_count i) (ei_dense i))" by blast+
qed

text \<open>C16: \<open>flecs_entity_index_new_ids\<close> returns exactly as many ids as were asked for, first the dead ones,
  then fresh ones; they have pairwise different 32-bit indices, none of which a live id had, and they
  are the ids that become alive. This holds up to 2^27 ids, with which the dense array has 2^30 bytes; when the
  array would have to grow further, the size computations overflow their \<open>int32_t\<close>.\<close>

theorem entity_bulk_new_ids:
  assumes "ei_inv idx" and "1 \<le> c"
    and "\<forall>j \<ge> 1. length (ei_dense idx) + j \<le> ei_alive_count idx + c \<longrightarrow> ei_look idx (ei_max_id idx + of_nat j) = 0"
  shows "if ei_alive_count idx + c \<le> 2 ^ 27
    then returns (flecs_entity_index_new_ids idx c) (\<lambda>(idx', es). ei_inv idx' \<and> length es = c \<and>
      distinct (map id_index es) \<and> id_index ` set es \<inter> id_index ` ei_alive idx = {} \<and>
      ei_alive idx' = ei_alive idx \<union> set es \<and> same_tables idx idx' \<and>
      take (length (ei_dense idx) - ei_alive_count idx) es = take c (drop (ei_alive_count idx) (ei_dense idx)))
    else length (ei_dense idx) \<le> ei_alive_count idx + c \<longrightarrow> flecs_entity_index_new_ids idx c = Inl Int_Overflow"
proof (cases "ei_alive_count idx + c \<le> 2 ^ 27")
  case True
  have inv: "ei_ok idx" "ranges_ok idx" "ranges_sorted idx" using assms(1) by (simp_all add: ei_inv_def)
  have n: "returns (flecs_entity_index_new_ids idx c) (\<lambda>(idx', es). ei_ok idx' \<and> length es = c \<and>
    distinct (map id_index es) \<and> id_index ` set es \<inter> id_index ` ei_alive idx = {} \<and>
    ei_alive idx' = ei_alive idx \<union> set es \<and> same_tables idx idx')"
    by (rule new_ids_ok [OF inv(1) assms(2) True]) (use assms(3) in blast)
  then obtain idx' es where r: "flecs_entity_index_new_ids idx c = Inr (idx', es)" by (auto simp: returns_iff)
  note k = new_ids_keeps [OF r inv(1)]
  have "ranges_ok idx'" "ranges_sorted idx'" using inv k by (simp_all add: ranges_ok_def ranges_sorted_def)
  with n k True show ?thesis by (simp add: r ei_inv_def)
next
  case False
  then show ?thesis using new_ids_overflow [of idx c] by auto
qed

lemma entity_bulk_new_ids_witness:
  "returns (flecs_entity_index_new_ids ei_example 3) (\<lambda>(idx', es). length es = 3 \<and> ei_alive idx' = {1} \<union> set es)"
proof -
  have room: "\<forall>j \<ge> 1. length (ei_dense ei_example) + j \<le> ei_alive_count ei_example + 3 \<longrightarrow>
      ei_look ei_example (ei_max_id ei_example + of_nat j) = 0"
  proof (intro allI impI)
    fix j :: nat assume "1 \<le> j" "length (ei_dense ei_example) + j \<le> ei_alive_count ei_example + 3"
    then have "j = 1 \<or> j = 2" by (auto simp: ei_example_def)
    then show "ei_look ei_example (ei_max_id ei_example + of_nat j) = 0"
      by (auto simp: ei_example_look) (simp_all add: ei_example_def)
  qed
  have n: "ei_alive_count ei_example = 2" by (simp add: ei_example_def)
  show ?thesis
    using entity_bulk_new_ids [OF ei_example_ok(1) _ room] n by (auto simp: ei_example_ok(2) elim!: returns_mono)
qed


lemma new_id_wraps:
  \<comment> \<open>the check against \<open>UINT32_MAX\<close> does not stop the 2^32nd id: it is 0\<close>
  assumes "ei_inv idx" "ei_alive_count idx = length (ei_dense idx)" "ei_max_id idx = - 1" "ei_look idx 0 = 0"
  shows "returns (flecs_entity_index_new_id idx) (\<lambda>(idx', e). e = 0 \<and> ei_max_id idx' = 0)"
proof -
  have ok: "ei_ok idx" "ei_room idx" using assms by (simp_all add: ei_inv_def ei_room_def)
  show ?thesis
    by (rule returns_mono [OF new_id_ok [OF ok]]) (use assms(2,3) in auto)
qed

text \<open>C20: After \<open>flecs_entity_index_shrink\<close> a live id is still alive exactly when its page holds a live
  id of generation 0, since the scan of a page asks for the liveness of ids without their generation:
  live ids that were recycled at least once can lose their record. And it does not return at all when a page
  of ids from 2^31 on is allocated, since it computes the ids of a page as \<open>int32_t\<close>.\<close>

theorem entity_shrink_alive:
  assumes "ei_inv idx" and "length (ei_pages idx) \<le> 2 ^ 22"
  shows "if \<exists>j. 2 ^ 21 \<le> j \<and> j < length (ei_pages idx) \<and> ei_pages idx ! j \<noteq> None
    then flecs_entity_index_shrink idx = Inl Int_Overflow
    else \<forall>x \<in> ei_alive idx. returns (flecs_entity_index_shrink idx) (\<lambda>idx'. flecs_entity_index_is_alive idx' x =
      Inr (\<exists>y \<in> ei_alive idx. page_index 10 (id_index y) = page_index 10 (id_index x) \<and> ucast (id_index y) = y))"
proof -
  have ok: "ei_ok idx" using assms(1) by (simp add: ei_inv_def)
  show ?thesis
  proof (cases "\<exists>j. 2 ^ 21 \<le> j \<and> j < length (ei_pages idx) \<and> ei_pages idx ! j \<noteq> None")
    case True
    let ?i = "idx\<lparr>ei_dense := list_resize (ei_alive_count idx) (ei_dense idx)\<rparr>"
    have "shrink_pages ?i 0 (length (ei_pages ?i)) 0 = Inl Int_Overflow"
      by (rule shrink_pages_overflow) (use True assms(2) in auto)
    with True show ?thesis by (simp add: flecs_entity_index_shrink_def Let_def)
  next
    case False
    then have "\<forall>j < length (ei_pages idx). 2 ^ 21 \<le> j \<longrightarrow> ei_pages idx ! j = None" by blast
    note shrink_alive [OF ok assms(2) this]
    then show ?thesis unfolding if_not_P [OF False] by blast
  qed
qed

definition ei_recycled :: entity_index where
  \<comment> \<open>the only live id is index 1 in generation 1\<close>
  "ei_recycled = ei_example\<lparr>ei_dense := [0, 0x100000001, 0x100000002]\<rparr>"

lemma ei_recycled_ok: "ei_inv ei_recycled" "ei_alive ei_recycled = {0x100000001}"
proof -
  have look: "ei_look ei_recycled = ei_look ei_example" by (simp add: ei_recycled_def)
  have "id_index 0x100000001 = 1" by (simp add: id_index_def)
  then have "paired (ei_look ei_recycled) (ei_dense ei_recycled)"
    unfolding paired_def look ei_example_look
    by (auto simp: ei_recycled_def id_index_numeral less_Suc_eq numeral_2_eq_2)
  moreover have "er_table r = None" if "ei_rec ei_recycled k = Some r" for k r
    using that by (auto simp: ei_rec_def ei_recycled_def ei_example_def split: if_splits)
  ultimately show "ei_inv ei_recycled"
    by (auto simp: ei_inv_def ei_ok_def ranges_ok_def ranges_sorted_def) (auto simp: ei_recycled_def ei_example_def)
  have "{Suc 0..<2} = {Suc 0}" by auto
  then show "ei_alive ei_recycled = {0x100000001}"
    by (simp add: ei_alive_def alive_ids_def ei_recycled_def ei_example_def)
qed

lemma entity_shrink_alive_witness:
  "returns (flecs_entity_index_shrink ei_recycled) (\<lambda>idx'.
     flecs_entity_index_is_alive idx' 0x100000001 = Inr False) \<and>
   returns (flecs_entity_index_shrink ei_example) (\<lambda>idx'. flecs_entity_index_is_alive idx' 1 = Inr True)"
proof -
  have p: "length (ei_pages ei_recycled) \<le> 2 ^ 22" "length (ei_pages ei_example) \<le> 2 ^ 22"
    by (simp_all add: ei_recycled_def ei_example_def)
  have x: "id_index 0x100000001 = 1" by (simp add: id_index_def)
  have no: "\<not> (\<exists>j. 2 ^ 21 \<le> j \<and> j < length (ei_pages ei_recycled) \<and> ei_pages ei_recycled ! j \<noteq> None)"
    "\<not> (\<exists>j. 2 ^ 21 \<le> j \<and> j < length (ei_pages ei_example) \<and> ei_pages ei_example ! j \<noteq> None)"
    by (simp_all add: ei_recycled_def ei_example_def)
  show ?thesis
    using entity_shrink_alive [OF ei_recycled_ok(1) p(1), unfolded if_not_P [OF no(1)]]
      entity_shrink_alive [OF ei_example_ok(1) p(2), unfolded if_not_P [OF no(2)]]
    by (simp add: ei_recycled_ok(2) ei_example_ok(2) x id_index_numeral)
qed

section \<open>Reachable entity indices\<close>

text \<open>
  The entity index as a state machine: a step is a call that returns, on any argument. The code does not
  check two things that the invariant needs. A range that is activated must not have a recycled id
  whose index is alive (an id can be issued or made alive outside of its range, also while the range that it belongs to
  keeps it as recycled); the step that switches ranges has this as its premise. And
  \<open>flecs_entity_index_shrink\<close> is not a step, since it can drop the records of live ids (\<open>shrink_alive\<close>).
\<close>

definition range_free :: "entity_index \<Rightarrow> nat \<Rightarrow> bool" where
  \<comment> \<open>the recycled ids of a range are different from each other and from the live ids\<close>
  "range_free idx a \<longleftrightarrow> distinct (map id_index (rg_recycled (saved_ranges idx ! a))) \<and>
    id_index ` set (rg_recycled (saved_ranges idx ! a)) \<inter> id_index ` ei_alive idx = {}"

inductive ei_step :: "entity_index \<Rightarrow> entity_index \<Rightarrow> bool" where
  new_id: "flecs_entity_index_new_id i = Inr (i', e) \<Longrightarrow> ei_step i i'"
| new_ids: "flecs_entity_index_new_ids i c = Inr (i', es) \<Longrightarrow> ei_step i i'"
| remove: "flecs_entity_index_remove i e = Inr i' \<Longrightarrow> ei_step i i'"
| ensure: "flecs_entity_index_ensure i e = Inr (i', k) \<Longrightarrow> ei_step i i'"
| make_alive: "flecs_entity_index_make_alive i e = Inr i' \<Longrightarrow> ei_step i i'"
| clear: "ei_step i (flecs_entity_index_clear i)"
| range_new: "ecs_entity_range_new i mn mx = Inr (i', p) \<Longrightarrow> ei_step i i'"
| range_set: "ecs_entity_range_set i (Some a) = Inr i' \<Longrightarrow> range_free i a \<Longrightarrow> ei_step i i'"


inductive_cases ei_stepE: "ei_step i i'"









end
