(* ===== verification/Entity_Lifecycle.thy ===== *)
theory Entity_Lifecycle
  imports Entity_Storage Entity_Ranges
begin

text \<open>
  Entities come into the store and leave it (\<open>entity.c\<close>): a new entity is put in a table by
  \<open>flecs_new_entity\<close> or in the root table by \<open>flecs_add_to_root_table\<close>, \<open>flecs_commit\<close> moves it when its
  components change, and \<open>ecs_delete\<close> takes it out of its table and of the entity index. What
  \<open>flecs_on_delete\<close> does to the other entities when the deleted one is used as an id or as the target of
  a pair is a parameter.
\<close>

section \<open>Operations\<close>

definition EcsEntityIsId :: "32 word" where "EcsEntityIsId = 0x80000000"
definition EcsEntityIsTarget :: "32 word" where "EcsEntityIsTarget = 0x40000000"
definition EcsEntityIsTraversable :: "32 word" where "EcsEntityIsTraversable = 0x20000000"

definition flecs_new_entity ::
    "'v::zero store \<Rightarrow> ecs_entity \<Rightarrow> 32 word \<Rightarrow> nat \<Rightarrow> bool \<Rightarrow> ('v store \<times> 'v store_event list) result" where
  "flecs_new_entity st entity r table ctor =
    bindR (set_record st r (\<lambda>rec. rec\<lparr>er_table := Some (st_root st)\<rparr>)) (\<lambda>st.
    bindR (get_table st table) (\<lambda>t.
    bindR (flecs_table_append t entity ctor True) (\<lambda>(t, log).
    let row = t_count t - 1 in
    bindR (set_record (put_table st table t) r (place table row)) (\<lambda>st.
    ecs_assert (t_count t > row) ECS_INTERNAL_ERROR
     (bindR (ei_read (st_index st) r) (\<lambda>rec.
      ecs_assert (er_table rec = Some table) ECS_INTERNAL_ERROR
       (Inr (st, [Table_Events table log, Actions_New table row]))))))))"

definition flecs_add_to_root_table :: "'v::zero store \<Rightarrow> ecs_entity \<Rightarrow> ('v store \<times> 'v store_event list) result" where
  "flecs_add_to_root_table st e =
    bindR (flecs_entity_index_get (st_index st) e) (\<lambda>r.
    bindR (ei_read (st_index st) r) (\<lambda>rec.
    ecs_assert (er_table rec = None) ECS_INTERNAL_ERROR
     (bindR (get_table st (st_root st)) (\<lambda>t.
      let row = t_count t in
      bindR (flecs_table_append t e False False) (\<lambda>(t, log).
      bindR (set_record (put_table st (st_root st) t) r (place (st_root st) row)) (\<lambda>st.
      Inr (st, [Table_Events (st_root st) log])))))))"

definition EcsTableHasDontFragment :: "32 word" where "EcsTableHasDontFragment = 0x400000"

definition flecs_commit ::
    "'v::zero store \<Rightarrow> ecs_entity \<Rightarrow> 32 word \<Rightarrow> nat \<Rightarrow> 64 word \<Rightarrow> ('v store \<times> 'v store_event list) result" where
  "flecs_commit st entity record dst_table emplace_id =
    bindR (ei_read (st_index st) record) (\<lambda>rec.
    let is_trav = (if has_flag (er_row rec) EcsEntityIsTraversable then 1 else 0) in
    case er_table rec of
      None \<Rightarrow> Inl ECS_INTERNAL_ERROR
    | Some src_table \<Rightarrow>
        if src_table = dst_table then
          bindR (get_table st src_table) (\<lambda>src.
          let row = ECS_RECORD_TO_ROW (er_row rec) in
          Inr (st, if has_flag (t_flags src) EcsTableHasDontFragment
            then [Actions_Move_Add src_table src_table row, Actions_Move_Remove src_table src_table row] else []))
        else
          bindR (flecs_move_entity st entity record dst_table emplace_id) (\<lambda>(st, log).
          Inr (st, Traversable_Add dst_table is_trav # log @ [Traversable_Add src_table (- is_trav)])))"

definition delete_cleanup ::
    "('v store \<Rightarrow> ecs_entity \<Rightarrow> bool \<Rightarrow> bool \<Rightarrow> 'v store result) \<Rightarrow> 'v store \<Rightarrow> ecs_entity \<Rightarrow> 32 word \<Rightarrow> 'v store result" where
  \<comment> \<open>\<open>on_delete\<close> is told whether the entity is used as a target and as an id, and also merges the operations
    that were deferred meanwhile\<close>
  "delete_cleanup on_delete st entity row_flags =
    (if row_flags \<noteq> 0 then on_delete st entity (has_flag row_flags EcsEntityIsTarget) (has_flag row_flags EcsEntityIsId) else Inr st)"

definition EcsEntityHasDontFragment :: "32 word" where "EcsEntityHasDontFragment = 0x10000000"

definition flecs_entity_remove_non_fragmenting :: "entity_index \<Rightarrow> ecs_entity \<Rightarrow> 32 word \<Rightarrow> (entity_index \<times> 'v store_event list) result" where
  \<comment> \<open>the sparse sets of the components that no table has are not part of the store; their removal is an event\<close>
  "flecs_entity_remove_non_fragmenting idx e r =
    bindR (ei_read idx r) (\<lambda>rec.
    if \<not> has_flag (er_row rec) EcsEntityHasDontFragment then Inr (idx, [])
    else bindR (ei_write idx r (\<lambda>rec. rec\<lparr>er_row := er_row rec AND NOT EcsEntityHasDontFragment\<rparr>)) (\<lambda>idx.
    Inr (idx, [Remove_Non_Fragmenting e])))"

definition delete_from_table :: "'v::zero store \<Rightarrow> ecs_entity \<Rightarrow> 32 word \<Rightarrow> 32 word \<Rightarrow> ('v store \<times> 'v store_event list) result" where
  "delete_from_table st entity r row_flags =
    bindR (ei_read (st_index st) r) (\<lambda>rec.
    case er_table rec of
      None \<Rightarrow> Inr (st, [])
    | Some table \<Rightarrow>
        let row = ECS_RECORD_TO_ROW (er_row rec) in
        bindR (get_table st table) (\<lambda>t.
        bindR (flecs_entity_remove_non_fragmenting (st_index st) entity r) (\<lambda>(idx, ev).
        bindR (flecs_table_delete idx t row True) (\<lambda>(idx, t, log).
        Inr ((put_table st table t)\<lparr>st_index := idx\<rparr>, Actions_Move_Remove table (st_root st) row # ev @ [Table_Events table log] @
          (if has_flag row_flags EcsEntityIsTraversable then [Traversable_Add table (- 1)] else []))))))"

definition ecs_delete ::
    "('v::zero store \<Rightarrow> ecs_entity \<Rightarrow> bool \<Rightarrow> bool \<Rightarrow> 'v store result) \<Rightarrow> ('v store \<Rightarrow> ecs_entity \<Rightarrow> bool) \<Rightarrow> ('v store \<Rightarrow> ecs_entity \<Rightarrow> bool) \<Rightarrow>
      'v store \<Rightarrow> ecs_entity \<Rightarrow> ('v store \<times> 'v store_event list) result" where
  \<comment> \<open>\<open>panics\<close> is whether the entity has the trait \<open>(OnDelete, Panic)\<close>, \<open>locked\<close> whether a query uses it\<close>
  "ecs_delete on_delete panics locked st entity =
    (if entity = 0 then Inr (st, [])
     else bindR (flecs_entity_index_try_get (st_index st) entity) (\<lambda>p.
     case p of
       None \<Rightarrow> Inr (st, [])
     | Some r \<Rightarrow>
        if panics st entity then Inr (st, [])
        else bindR (ei_read (st_index st) r) (\<lambda>rec.
        let row_flags = ECS_RECORD_TO_ROW_FLAGS (er_row rec) in
        bindR (delete_cleanup on_delete st entity row_flags) (\<lambda>st.
        ecs_assert (\<not> locked st entity) ECS_INVALID_OPERATION
         (bindR (delete_from_table st entity r row_flags) (\<lambda>(st, log).
          bindR (flecs_entity_index_remove (st_index st) entity) (\<lambda>idx.
          Inr (st\<lparr>st_index := idx\<rparr>, log))))))))"

section \<open>A new entity\<close>

lemma ei_set_set: "ei_set (ei_set idx k f) k g = ei_set idx k (g \<circ> f)"
  by (cases "page_index 10 k < length (ei_pages idx)") (simp_all add: ei_set_def map_option.compositionality comp_def list_update_beyond)

definition put_in :: "'v store \<Rightarrow> ecs_entity \<Rightarrow> nat \<Rightarrow> 'v ecs_table \<Rightarrow> 'v ecs_table \<Rightarrow> 'v store" where
  \<comment> \<open>the store after an entity has been appended to the table \<open>T\<close>\<close>
  "put_in st e tid T T' = st\<lparr>st_tables := (st_tables st)(tid \<mapsto> T'), st_index := ei_set (st_index st) (id_index e) (place tid (t_count T))\<rparr>"

definition put_args :: "(64 word \<Rightarrow> 'v type_info) \<Rightarrow> 'v::zero store \<Rightarrow> ecs_entity \<Rightarrow> nat \<Rightarrow> 'v ecs_table \<Rightarrow> 'v ecs_table \<Rightarrow> bool" where
  "put_args ti st e tid T T' \<longleftrightarrow> store_ok ti st \<and> e \<in> ei_alive (st_index st) \<and> (\<forall>n. \<not> in_table (st_index st) n e) \<and>
    st_tables st tid = Some T \<and> t_count T < 2 ^ 28 \<and> table_ok T' \<and> same_shape T T' \<and> t_ents T' = t_ents T @ [e] \<and> t_count T' = Suc (t_count T) \<and>
    (\<forall>i < length (t_columns T). \<forall>r < t_count T. t_cells T' i ! r = t_cells T i ! r)"

lemma put_in_ok:
  assumes p: "put_args ti st e tid T T'"
  shows "store_ok ti (put_in st e tid T T')"
proof -
  let ?idx = "ei_set (st_index st) (id_index e) (place tid (t_count T))"
  have ok: "store_ok ti st" and al: "e \<in> ei_alive (st_index st)" and new: "\<not> in_table (st_index st) n e" and T: "st_tables st tid = Some T"
    and n: "t_count T < 2 ^ 28" and T': "table_ok T'" "same_shape T T'" "t_ents T' = t_ents T @ [e]" "t_count T' = Suc (t_count T)" for n
    using p by (simp_all add: put_args_def)
  have iok: "ei_ok (st_index st)" using ok by (simp add: store_ok_def)
  note D = store_tableD [OF ok T] and ei = ei_ok_place [OF iok al, of tid "t_count T"] and it = in_table_place [OF iok al, of tid "t_count T"]
  have st: "store_table_ok ti (st_index st) n t" if "st_tables st n = Some t" for n t using ok that by (simp add: store_ok_def)
  have "records_ok ?idx T'"
    by (rule records_append [OF D(3) al, unfolded D(1,8)]) (use new n T' D(1) in \<open>simp_all add: same_shape_def\<close>)
  then have 1: "store_table_ok ti ?idx tid T'"
    by (intro table_ok_shape [OF st [OF T] T'(2,1)]) (use n T' in simp_all)
  have 2: "store_table_ok ti ?idx m t" if t: "st_tables st m = Some t" "m \<noteq> tid" for m t
  proof -
    note M = store_tableD [OF ok t(1)]
    have "ei_rec ?idx k = Some rec" if k: "ei_rec (st_index st) k = Some rec" "er_table rec = Some m" for k rec
    proof -
      have "k \<noteq> id_index e" using new [of m] al k by (auto simp: in_table_def)
      with k show ?thesis by simp
    qed
    then have "records_ok ?idx t" by (intro records_frame [OF M(3) ei]) (use M(1) in simp_all)
    with st [OF t(1)] show ?thesis by (simp add: store_table_ok_def)
  qed
  have 3: "\<exists>t. ((st_tables st)(tid \<mapsto> T')) m = Some t \<and> x \<in> set (t_ents t)" if "in_table ?idx m x" for x m
  proof (cases "x = e")
    case True
    with that T' show ?thesis by (simp add: it)
  next
    case False
    with that have "in_table (st_index st) m x" by (simp add: it)
    then obtain t where "st_tables st m = Some t" "x \<in> set (t_ents t)" using ok unfolding store_ok_def by blast
    with T T' show ?thesis by auto
  qed
  show ?thesis using ei(1) 1 2 3 by (simp add: store_ok_def put_in_def)
qed

lemma put_in_views:
  assumes p: "put_args ti st e tid T T'"
  shows "located (put_in st e tid T T') e tid (t_count T) T'" "ei_alive (st_index (put_in st e tid T T')) = ei_alive (st_index st)"
    and "x \<noteq> e \<Longrightarrow> type_of (put_in st e tid T T') x = type_of st x \<and> comp_of (put_in st e tid T T') x = comp_of st x"
proof -
  let ?st = "put_in st e tid T T'"
  have ok: "store_ok ti st" and al: "e \<in> ei_alive (st_index st)" and T: "st_tables st tid = Some T"
    and T': "same_shape T T'" "t_ents T' = t_ents T @ [e]" "t_count T' = Suc (t_count T)"
    and c: "\<forall>i < length (t_columns T). \<forall>r < t_count T. t_cells T' i ! r = t_cells T i ! r"
    using p by (simp_all add: put_args_def)
  have iok: "ei_ok (st_index st)" using ok by (simp add: store_ok_def)
  note D = store_tableD [OF ok T]
  show "located ?st e tid (t_count T) T'" using T' D(8) by (simp add: located_def put_in_def nth_append)
  show "ei_alive (st_index ?st) = ei_alive (st_index st)" using ei_ok_place(2) [OF iok al] by (simp add: put_in_def)
  assume x: "x \<noteq> e"
  show "type_of ?st x = type_of st x \<and> comp_of ?st x = comp_of st x"
  proof (rule views_preserved [OF ok put_in_ok [OF p]])
    show "in_table (st_index ?st) n x = in_table (st_index st) n x" for n using in_table_place [OF iok al] x by (simp add: put_in_def)
    show "\<exists>r' t'. located ?st x m r' t' \<and> same_shape t t' \<and> (\<forall>i < length (t_columns t). t_cells t' i ! r' = t_cells t i ! r)"
      if l: "located st x m r t" for m r t
    proof (cases "m = tid")
      case True
      with l T have t: "t = T" "r < t_count T" "t_ents T ! r = x" by (simp_all add: located_def)
      then have "located ?st x m r T'" using T' D(8) True by (simp add: located_def put_in_def nth_append)
      then show ?thesis using T'(1) c t by blast
    next
      case False
      with l have "located ?st x m r t" by (simp add: located_def put_in_def)
      then show ?thesis using same_shape_id by blast
    qed
  qed
qed

definition put_steps :: "'v::zero store \<Rightarrow> ecs_entity \<Rightarrow> nat \<Rightarrow> bool \<Rightarrow> bool \<Rightarrow> 'v ecs_table \<Rightarrow> ('v table_event list \<Rightarrow> 'v store_event list) \<Rightarrow> ('v store \<times> 'v store_event list) result" where
  "put_steps st e tid ctor on_add T ev = bindR (flecs_table_append T e ctor on_add) (\<lambda>(T', log).
    Inr (put_in st e tid T T', ev log))"

lemma put_steps_ok:
  fixes st :: "'v::zero store"
  assumes ok: "store_ok ti st" and al: "e \<in> ei_alive (st_index st)" and new: "\<And>n. \<not> in_table (st_index st) n e"
    and T: "st_tables st tid = Some T" "t_lock T = 0" "t_count T < 2 ^ 28" and c: "ctor \<or> t_columns T = []"
  shows "returns (put_steps st e tid ctor on_add T ev) (\<lambda>(st', log). store_ok ti st' \<and> ei_alive (st_index st') = ei_alive (st_index st) \<and>
    type_of st' e = Some (t_type T) \<and> (\<forall>i. comp_of st' e i \<noteq> None \<longleftrightarrow> column_of T i \<noteq> None) \<and>
    (\<forall>i ci. column_of T i = Some ci \<longrightarrow> (typed (ti i) \<longrightarrow> comp_of st' e i \<noteq> Some Raw) \<and> (\<forall>b. base_of T ci = Some b \<longrightarrow> comp_of st' e i = Some b)) \<and>
    (\<forall>x. x \<noteq> e \<longrightarrow> type_of st' x = type_of st x \<and> comp_of st' x = comp_of st x))"
  unfolding put_steps_def returns_bindR
proof (rule returns_mono [OF append_ok])
  note D = store_tableD [OF ok T(1)]
  show "table_ok T" "t_lock T = 0" "t_count T < 2 ^ 30" using D(2) T by simp_all
  fix y :: "'v ecs_table \<times> 'v table_event list"
  assume "case y of (T', log) \<Rightarrow> appended T e ctor T' \<and> freed_ok (\<lambda>ci. col_ti (t_columns T ! ci)) log"
  then obtain T' log where y: "y = (T', log)" and a: "appended T e ctor T'" by (cases y) auto
  have a': "appended T e True T'" if "t_columns T \<noteq> []" using a c that by simp
  have sh: "same_shape T T'" and ents: "t_ents T' = t_ents T @ [e]" "t_count T' = Suc (t_count T)" using a by (simp_all add: appended_def)
  have tok: "table_ok T'"
  proof (cases "t_columns T = []")
    case True
    with a show ?thesis by (simp add: appended_def table_ok_def table_live_def same_shape_def)
  next
    case False
    from appended_row(1) [OF D(2) a' [OF this]] show ?thesis .
  qed
  have cell: "\<exists>c. t_cells T' i = t_cells T i @ [c] \<and> (typed (col_ti (t_columns T ! i)) \<longrightarrow> c \<noteq> Raw) \<and> (\<forall>b. base_of T i = Some b \<longrightarrow> c = b)"
    if i: "i < length (t_columns T)" for i
  proof -
    have "t_columns T \<noteq> []" using i by auto
    from appended_row(2) [OF D(2) a' [OF this] i] show ?thesis .
  qed
  have "t_cells T' i ! r = t_cells T i ! r" if "i < length (t_columns T)" "r < t_count T" for i r
    using cell [OF that(1)] cells_length [OF D(2) that(1)] that(2) by (auto simp: nth_append)
  then have p: "put_args ti st e tid T T'" using ok al new T tok sh ents by (simp add: put_args_def)
  let ?st = "put_in st e tid T T'"
  note v = put_in_views [OF p] and ok' = put_in_ok [OF p]
  have e: "type_of ?st e = Some (t_type T)" "comp_of ?st e i = map_option (\<lambda>ci. t_cells T' ci ! t_count T) (column_of T i)" for i
    using located_views(1,2) [OF ok' v(1)] sh by (simp_all add: column_of_shape [OF sh] same_shape_def)
  have col: "(typed (ti i) \<longrightarrow> comp_of ?st e i \<noteq> Some Raw) \<and> (\<forall>b. base_of T ci = Some b \<longrightarrow> comp_of ?st e i = Some b)"
    if ci: "column_of T i = Some ci" for i ci
  proof -
    have l: "ci < length (t_columns T)" "cid T ci = i" using ci by (simp_all add: column_of_iff [OF D(5)])
    obtain c where "t_cells T' ci = t_cells T ci @ [c]" "typed (col_ti (t_columns T ! ci)) \<longrightarrow> c \<noteq> Raw" "\<forall>b. base_of T ci = Some b \<longrightarrow> c = b"
      using cell [OF l(1)] by blast
    then show ?thesis using D(7) [OF l(1)] l cells_length [OF D(2) l(1)] by (auto simp: e(2) ci nth_append)
  qed
  show "returns (case y of (T', log) \<Rightarrow> Inr (put_in st e tid T T', ev log)) (\<lambda>(st', log). store_ok ti st' \<and> ei_alive (st_index st') = ei_alive (st_index st) \<and>
    type_of st' e = Some (t_type T) \<and> (\<forall>i. comp_of st' e i \<noteq> None \<longleftrightarrow> column_of T i \<noteq> None) \<and>
    (\<forall>i ci. column_of T i = Some ci \<longrightarrow> (typed (ti i) \<longrightarrow> comp_of st' e i \<noteq> Some Raw) \<and> (\<forall>b. base_of T ci = Some b \<longrightarrow> comp_of st' e i = Some b)) \<and>
    (\<forall>x. x \<noteq> e \<longrightarrow> type_of st' x = type_of st x \<and> comp_of st' x = comp_of st x))"
    unfolding y prod.case returns_Inr using ok' v(2,3) e(1) col by (simp add: e(2))
qed

lemma alive_rec: "ei_ok idx \<Longrightarrow> e \<in> ei_alive idx \<Longrightarrow> \<exists>r. ei_rec idx (id_index e) = Some r"
  using ei_look_rec [of idx "id_index e"] by (auto simp: alive_iff)

lemma new_entity_eq:
  fixes st :: "'v::zero store"
  assumes ok: "store_ok ti st" and al: "e \<in> ei_alive (st_index st)" and T: "st_tables st tid = Some T" "t_lock T = 0" "t_count T < 2 ^ 28"
  shows "flecs_new_entity st e (id_index e) tid ctor = put_steps st e tid ctor True T (\<lambda>log. [Table_Events tid log, Actions_New tid (t_count T)])"
proof -
  let ?st = "st\<lparr>st_index := ei_set (st_index st) (id_index e) (\<lambda>rec. rec\<lparr>er_table := Some (st_root st)\<rparr>)\<rparr>"
  have iok: "ei_ok (st_index st)" using ok by (simp add: store_ok_def)
  obtain r where r: "ei_rec (st_index st) (id_index e) = Some r" using alive_rec [OF iok al] by blast
  have "place tid n \<circ> (\<lambda>rec. rec\<lparr>er_table := Some (st_root st)\<rparr>) = place tid n" for n by (simp add: fun_eq_iff place_def)
  note put = ei_set_set [of _ _ "\<lambda>rec. rec\<lparr>er_table := Some (st_root st)\<rparr>" "place tid _", unfolded this]
  have n: "t_count T < 2 ^ 30" using T(3) by simp
  from append_ok [OF store_tableD(2) [OF ok T(1)] T(2) n, of e ctor True]
  obtain T' log where a: "flecs_table_append T e ctor True = Inr (T', log)" "appended T e ctor T'" by (auto simp: returns_iff)
  then have c: "t_count T' = Suc (t_count T)" by (simp add: appended_def)
  have rd: "ei_read (ei_set (st_index st) (id_index e) (place tid (t_count T))) (id_index e) = Inr (place tid (t_count T) r)"
    by (rule ei_read_ok) (simp add: r)
  show ?thesis
    using r T(1) c by (simp add: flecs_new_entity_def put_steps_def a get_table_def Let_def set_record_def put_table_def ei_write_ok put_in_def put rd)
      (simp add: place_def)
qed

text \<open>C3: A new entity. If the entity is alive and in no table yet, \<open>flecs_new_entity\<close> puts it in the
  table it is given: it has the type of the table, each of its components is constructed (or has the value
  of the base entity of an override), and nothing changes for any other entity.\<close>

theorem flecs_new_entity_correct:
  fixes st :: "'v::zero store"
  assumes "store_ok ti st" "e \<in> ei_alive (st_index st)" "\<And>n. \<not> in_table (st_index st) n e"
    and "st_tables st tid = Some T" "t_lock T = 0" "t_count T < 2 ^ 28"
  shows "returns (flecs_new_entity st e (id_index e) tid True) (\<lambda>(st', log). store_ok ti st' \<and> ei_alive (st_index st') = ei_alive (st_index st) \<and>
    type_of st' e = Some (t_type T) \<and> (\<forall>i. comp_of st' e i \<noteq> None \<longleftrightarrow> column_of T i \<noteq> None) \<and>
    (\<forall>i ci. column_of T i = Some ci \<longrightarrow> (typed (ti i) \<longrightarrow> comp_of st' e i \<noteq> Some Raw) \<and> (\<forall>b. base_of T ci = Some b \<longrightarrow> comp_of st' e i = Some b)) \<and>
    (\<forall>x. x \<noteq> e \<longrightarrow> type_of st' x = type_of st x \<and> comp_of st' x = comp_of st x))"
proof -
  have "flecs_new_entity st e (id_index e) tid True = put_steps st e tid True True T (\<lambda>log. [Table_Events tid log, Actions_New tid (t_count T)])"
    by (rule new_entity_eq [OF assms(1,2,4-6)])
  with put_steps_ok [OF assms] show ?thesis by simp
qed

lemma flecs_add_to_root_table_ok:
  fixes st :: "'v::zero store"
  assumes "store_ok ti st" "e \<in> ei_alive (st_index st)" "\<And>n. \<not> in_table (st_index st) n e"
    and "st_tables st (st_root st) = Some T" "t_lock T = 0" "t_count T < 2 ^ 28" "t_columns T = []"
  shows "returns (flecs_add_to_root_table st e) (\<lambda>(st', log). store_ok ti st' \<and> ei_alive (st_index st') = ei_alive (st_index st) \<and>
    type_of st' e = Some (t_type T) \<and> (\<forall>x. x \<noteq> e \<longrightarrow> type_of st' x = type_of st x \<and> comp_of st' x = comp_of st x))"
proof -
  have ok: "ei_ok (st_index st)" using assms(1) by (simp add: store_ok_def)
  obtain r where r: "ei_rec (st_index st) (id_index e) = Some r" using alive_rec [OF ok assms(2)] by blast
  have "er_table r = None" using assms(2,3) r by (cases "er_table r") (auto simp: in_table_def)
  then have "flecs_add_to_root_table st e = put_steps st e (st_root st) False False T (\<lambda>log. [Table_Events (st_root st) log])"
    using r assms(4) by (simp add: flecs_add_to_root_table_def put_steps_def get_ok(1) [OF ok assms(2)] ei_read_ok get_table_def Let_def
        set_record_def put_table_def ei_write_ok put_in_def split_def)
  moreover have "False \<or> t_columns T = []" using assms(7) by simp
  note put_steps_ok [OF assms(1-6) this, of False "\<lambda>log. [Table_Events (st_root st) log]"]
  ultimately show ?thesis by (auto elim!: returns_mono)
qed

section \<open>Deleting an entity\<close>

definition same_places :: "32 word \<Rightarrow> entity_index \<Rightarrow> entity_index \<Rightarrow> bool" where
  \<comment> \<open>all records but one keep their table and row\<close>
  "same_places k idx idx' \<longleftrightarrow> (\<forall>l. l \<noteq> k \<longrightarrow>
    map_option (\<lambda>r. (er_table r, er_row r)) (ei_rec idx' l) = map_option (\<lambda>r. (er_table r, er_row r)) (ei_rec idx l))"

lemma same_places_trans: "same_places k a b \<Longrightarrow> same_places k b c \<Longrightarrow> same_places k a c"
  by (simp add: same_places_def)

lemma same_places_same [simp]: "same_places k a a"
  by (simp add: same_places_def)

lemma same_places_fields [simp]:
  "same_places k a (b\<lparr>ei_dense := d\<rparr>) = same_places k a b" "same_places k (a\<lparr>ei_alive_count := n\<rparr>) b = same_places k a b"
  "same_places k a (b\<lparr>ei_range_store := x\<rparr>) = same_places k a b"
  by (simp_all add: same_places_def)

lemma write_places: "ei_write idx l f = Inr idx' \<Longrightarrow> l = k \<or> (\<forall>r. er_table (f r) = er_table r \<and> er_row (f r) = er_row r) \<Longrightarrow> same_places k idx idx'"
  by (auto simp: ei_write_def same_places_def option.map_comp comp_def split: if_splits)

lemma set_dense_place [simp]: "er_table (set_dense d r) = er_table r" "er_row (set_dense d r) = er_row r"
  by (simp_all add: set_dense_def)

lemma remove_intern_places: "flecs_entity_index_remove_intern idx e = Inr (idx', p) \<Longrightarrow> same_places (id_index e) idx idx'"
proof -
  assume r: "flecs_entity_index_remove_intern idx e = Inr (idx', p)"
  have k: "k = id_index e" if "flecs_entity_index_try_get idx e = Inr (Some k)" for k
    using that by (auto simp: flecs_entity_index_try_get_def flecs_entity_index_try_get_any_def bindR_eq_Inr Let_def split: option.splits if_splits)
  show ?thesis
  proof (cases "flecs_entity_index_try_get idx e = Inr None")
    case True
    with r show ?thesis by (simp add: flecs_entity_index_remove_intern_def)
  next
    case False
    with r k obtain ks d R i1 i2 ids where w:
      "ei_write (idx\<lparr>ei_alive_count := ei_alive_count idx - 1\<rparr>) ks (set_dense d) = Inr i1" "ei_write i1 (id_index e) (\<lambda>_. R) = Inr i2"
      "idx' = i2\<lparr>ei_dense := ids\<rparr>"
      unfolding flecs_entity_index_remove_intern_def by (auto simp: bindR_eq_Inr Let_def split: option.splits)
    have "same_places (id_index e) idx i1" using write_places [OF w(1), of "id_index e"] by simp
    moreover have "same_places (id_index e) i1 i2" using write_places [OF w(2), of "id_index e"] by simp
    ultimately show ?thesis using same_places_trans by (simp add: w(3))
  qed
qed

lemma remove_not_alive_places:
  assumes "flecs_entity_index_remove_not_alive idx k = Inr idx'"
  shows "same_places l idx idx'"
proof -
  obtain i1 where i1: "same_places l idx i1" "ei_write (i1\<lparr>ei_dense := list_resize (length (ei_dense idx) - 1) (ei_dense i1)\<rparr>) k (set_dense 0) = Inr idx'"
  proof (cases "ei_alive_count idx = length (ei_dense idx) - 1")
    case True
    with assms show ?thesis by (intro that [of idx]) (simp_all add: flecs_entity_index_remove_not_alive_def)
  next
    case False
    with assms obtain kl d i2 ids where "ei_write idx kl (set_dense d) = Inr i2"
      "ei_write (i2\<lparr>ei_dense := list_resize (length (ei_dense idx) - 1) ids\<rparr>) k (set_dense 0) = Inr idx'"
      unfolding flecs_entity_index_remove_not_alive_def by (auto simp: bindR_eq_Inr Let_def)
    then show ?thesis using write_places [of idx kl "set_dense d" i2 l] by (intro that [of "i2\<lparr>ei_dense := ids\<rparr>"]) simp_all
  qed
  from write_places [OF i1(2), of l] i1(1) show ?thesis
    using same_places_trans [of l idx "i1\<lparr>ei_dense := list_resize (length (ei_dense idx) - 1) (ei_dense i1)\<rparr>" idx'] by simp
qed

lemma remove_places: "flecs_entity_index_remove idx e = Inr idx' \<Longrightarrow> same_places (id_index e) idx idx'"
proof -
  assume r: "flecs_entity_index_remove idx e = Inr idx'"
  then obtain i1 p where i1: "flecs_entity_index_remove_intern idx e = Inr (i1, p)"
    "(case p of None \<Rightarrow> Inr i1 | Some p \<Rightarrow> flecs_entity_ranges_on_delete i1 e p) = Inr idx'"
    by (auto simp: flecs_entity_index_remove_def bindR_eq_Inr)
  have "same_places (id_index e) i1 idx'"
  proof (cases "idx' = i1")
    case False
    with i1(2) obtain k where k: "flecs_entity_ranges_on_delete i1 e k = Inr idx'" by (auto split: option.splits)
    with False obtain i2 where "flecs_entity_index_remove_not_alive i1 k = Inr i2" "idx' = i2 \<or> (\<exists>st. idx' = i2\<lparr>ei_range_store := st\<rparr>)"
      by (auto simp: flecs_entity_ranges_on_delete_def range_put_def bindR_eq_Inr Let_def split: option.splits if_splits)
    then show ?thesis using remove_not_alive_places by auto
  qed simp
  with remove_intern_places [OF i1(1)] show ?thesis by (rule same_places_trans)
qed

lemma removed_in_table:
  assumes ok: "ei_ok idx" and e: "e \<in> ei_alive idx" and r: "ei_alive idx' = ei_alive idx - {e}" "same_places (id_index e) idx idx'"
  shows "in_table idx' n x \<longleftrightarrow> x \<noteq> e \<and> in_table idx n x"
    and "x \<noteq> e \<Longrightarrow> in_table idx n x \<Longrightarrow> ei_rec idx' (id_index x) = Some rec' \<Longrightarrow> \<exists>rec. ei_rec idx (id_index x) = Some rec \<and> er_row rec = er_row rec'"
proof -
  have same: "map_option (\<lambda>r. (er_table r, er_row r)) (ei_rec idx' (id_index x)) = map_option (\<lambda>r. (er_table r, er_row r)) (ei_rec idx (id_index x))"
    if "x \<noteq> e" "x \<in> ei_alive idx"
    using r(2) alive_inj [OF ok that(2) e] that(1) by (auto simp: same_places_def)
  show "in_table idx' n x \<longleftrightarrow> x \<noteq> e \<and> in_table idx n x"
  proof (cases "x \<noteq> e \<and> x \<in> ei_alive idx")
    case True
    with same have "map_option er_table (ei_rec idx' (id_index x)) = map_option er_table (ei_rec idx (id_index x))"
      by (metis (no_types, lifting) comp_apply fst_conv option.map_comp option.map_cong)
    with True r(1) show ?thesis
      by (cases "ei_rec idx (id_index x)"; cases "ei_rec idx' (id_index x)") (auto simp: in_table_def)
  next
    case False
    with r(1) show ?thesis by (auto simp: in_table_def)
  qed
  show "\<exists>rec. ei_rec idx (id_index x) = Some rec \<and> er_row rec = er_row rec'" if "x \<noteq> e" "in_table idx n x" "ei_rec idx' (id_index x) = Some rec'"
    using same that by (auto simp: in_table_def)
qed

lemma removed_records:
  assumes r: "records_ok idx t" and e: "e \<in> ei_alive idx" "e \<notin> set (t_ents t)" and ok': "ei_ok idx'"
    and i: "ei_alive idx' = ei_alive idx - {e}" "same_places (id_index e) idx idx'"
  shows "records_ok idx' t"
proof -
  have ok: "ei_ok idx" using r by (simp add: records_ok_def)
  have "in_table idx' (t_id t) (t_ents t ! k) \<and> (\<forall>rec. ei_rec idx' (id_index (t_ents t ! k)) = Some rec \<longrightarrow> ECS_RECORD_TO_ROW (er_row rec) = k)"
    if k: "k < length (t_ents t)" for k
  proof -
    have x: "in_table idx (t_id t) (t_ents t ! k)" "t_ents t ! k \<noteq> e"
      "\<And>rec. ei_rec idx (id_index (t_ents t ! k)) = Some rec \<Longrightarrow> ECS_RECORD_TO_ROW (er_row rec) = k"
      using r e(2) k by (auto simp: records_ok_def)
    with removed_in_table [OF ok e(1) i] show ?thesis by metis
  qed
  then show ?thesis using r ok' by (simp add: records_ok_def)
qed

definition left_store :: "'v store \<Rightarrow> nat \<Rightarrow> 'v ecs_table \<Rightarrow> entity_index \<Rightarrow> 'v store" where
  "left_store st tid T' idx = st\<lparr>st_tables := (st_tables st)(tid \<mapsto> T'), st_index := idx\<rparr>"

lemma left_store_ok:
  assumes ok: "store_ok ti st" and l: "located st e tid row T" and T': "row_deleted T row T'"
    and i: "ei_ok idx" "ei_alive idx = ei_alive (st_index st) - {e}" "same_places (id_index e) (moved_index (st_index st) T row) idx"
  shows "store_ok ti (left_store st tid T' idx)" "type_of (left_store st tid T' idx) e = None"
    and "x \<noteq> e \<Longrightarrow> type_of (left_store st tid T' idx) x = type_of st x \<and> comp_of (left_store st tid T' idx) x = comp_of st x"
proof -
  let ?idx = "moved_index (st_index st) T row" let ?st = "left_store st tid T' idx"
  have T: "st_tables st tid = Some T" "row < t_count T" "t_ents T ! row = e" using l by (simp_all add: located_def)
  note D = store_tableD [OF ok T(1)] and mi = moved_index_ok [OF records_ok_but [OF store_tableD(3) [OF ok T(1)]] T(2) store_tableD(9) [OF ok T(1)]]
  have e: "in_table (st_index st) tid e" by (rule located_views(3) [OF ok l])
  then have al: "e \<in> ei_alive ?idx" by (simp add: mi(2) in_table_def)
  have i': "ei_alive idx = ei_alive ?idx - {e}" using i(2) by (simp add: mi(2))
  note it = removed_in_table(1) [OF mi(1) al i' i(3), unfolded mi(3)]
  have st: "store_table_ok ti (st_index st) n t" if "st_tables st n = Some t" for n t using ok that by (simp add: store_ok_def)
  have es: "t_ents T' = swap_remove row (t_ents T)" "t_id T' = tid" "table_ok T'" "same_shape T T'" using T' D(1) by (simp_all add: row_deleted_def same_shape_def)
  have d: "distinct (t_ents T)" using D(3) by (simp add: records_ok_def distinct_map)
  then have left: "set (t_ents T') = set (t_ents T) - {e}" using T D(8) by (simp add: es set_swap_remove)
  have "records_ok ?idx T'" by (rule records_ok_delete [OF records_ok_but [OF D(3)]]) (use T D es in simp_all)
  then have "records_ok idx T'" by (rule removed_records [OF _ al _ i(1) i' i(3)]) (simp add: left)
  moreover have "t_count T' \<le> 2 ^ 28"
    using es(1,3) D(6,8) by (auto simp: t_ents_def table_ok_def table_wf_def dest!: arg_cong [where f = length])
  ultimately have 1: "store_table_ok ti idx tid T'" by (intro table_ok_shape [OF st [OF T(1)]]) (use es in simp_all)
  have 2: "store_table_ok ti idx n t" if t: "st_tables st n = Some t" "n \<noteq> tid" for n t
  proof -
    note M = store_tableD [OF ok t(1)]
    have "records_ok ?idx t" by (rule records_frame [OF M(3) mi(1,2)]) (use mi(4) M(1) D(1) t(2) in auto)
    moreover have "e \<notin> set (t_ents t)"
    proof
      assume "e \<in> set (t_ents t)"
      then have "in_table (st_index st) n e" using M(1,3) by (auto simp: records_ok_def in_set_conv_nth)
      with in_table_rec [OF _ e this] t(2) ok show False by (auto simp: store_ok_def)
    qed
    ultimately have "records_ok idx t" by (rule removed_records [OF _ al _ i(1) i' i(3)])
    with st [OF t(1)] show ?thesis by (simp add: store_table_ok_def)
  qed
  have 3: "\<exists>t. ((st_tables st)(tid \<mapsto> T')) n = Some t \<and> x \<in> set (t_ents t)" if x: "in_table idx n x" for n x
  proof -
    have n: "x \<noteq> e" "in_table (st_index st) n x" using x it by simp_all
    then obtain t where "st_tables st n = Some t" "x \<in> set (t_ents t)" using ok unfolding store_ok_def by blast
    with n(1) show ?thesis using T(1) by (cases "n = tid") (simp_all add: left)
  qed
  show ok': "store_ok ti ?st" using i(1) 1 2 3 by (simp add: store_ok_def left_store_def)
  show "type_of ?st e = None" by (rule not_located(1) [OF ok']) (simp add: left_store_def it)
  assume x: "x \<noteq> e"
  show "type_of ?st x = type_of st x \<and> comp_of ?st x = comp_of st x"
  proof (rule views_preserved [OF ok ok'])
    show "in_table (st_index ?st) n x = in_table (st_index st) n x" for n using x by (simp add: left_store_def it)
    show "\<exists>r' t'. located ?st x n r' t' \<and> same_shape t t' \<and> (\<forall>i < length (t_columns t). t_cells t' i ! r' = t_cells t i ! r)"
      if lx: "located st x n r t" for n r t
    proof (cases "n = tid")
      case True
      with lx T x have t: "t = T" "r < t_count T" "t_ents T ! r = x" "r \<noteq> row" by (auto simp: located_def)
      obtain r' where "r' < t_count T'" "t_ents T' ! r' = x" "\<forall>i < length (t_columns T). t_cells T' i ! r' = t_cells T i ! r"
        using row_deleted_at [OF D(2) T' T(2) t(2,4)] t(3) by blast
      then have "located ?st x n r' T' \<and> same_shape t T' \<and> (\<forall>i < length (t_columns t). t_cells T' i ! r' = t_cells t i ! r)"
        using True es(4) by (simp add: located_def left_store_def t(1))
      then show ?thesis by blast
    next
      case False
      with lx have "located ?st x n r t" by (simp add: located_def left_store_def)
      then show ?thesis using same_shape_id by blast
    qed
  qed
qed

lemma moved_index_ranges:
  assumes "ranges_ok idx" "ranges_sorted idx"
  shows "ranges_ok (moved_index idx t row)" "ranges_sorted (moved_index idx t row)"
  using assms by (simp_all add: moved_index_def move_record_def ranges_ok_def ranges_sorted_def)

lemma remove_ok_places:
  assumes "ei_inv idx" "e \<in> ei_alive idx"
  shows "returns (flecs_entity_index_remove idx e) (\<lambda>idx'. ei_inv idx' \<and> ei_alive idx' = ei_alive idx - {e} \<and> same_places (id_index e) idx idx')"
proof -
  have "returns (flecs_entity_index_remove idx e) (\<lambda>idx'. ei_ok idx' \<and> ranges_ok idx' \<and> ranges_sorted idx' \<and> ei_alive idx' = ei_alive idx - {e} \<and> recycled_in idx e idx')"
    using remove_ok assms by (simp add: ei_inv_def)
  then show ?thesis using remove_places by (auto simp: returns_iff ei_inv_def)
qed

lemma no_flags_no_non_fragmenting:
  assumes "ei_rec idx r = Some rec" "ECS_RECORD_TO_ROW_FLAGS (er_row rec) = 0"
  shows "flecs_entity_remove_non_fragmenting idx e r = Inr (idx, [])"
proof -
  have "ECS_ROW_FLAGS_MASK AND EcsEntityHasDontFragment = EcsEntityHasDontFragment" by code_simp
  then have "er_row rec AND EcsEntityHasDontFragment = ECS_RECORD_TO_ROW_FLAGS (er_row rec) AND EcsEntityHasDontFragment"
    by (simp add: ECS_RECORD_TO_ROW_FLAGS_def and.assoc)
  then show ?thesis
    using assms by (simp add: flecs_entity_remove_non_fragmenting_def has_flag_def ei_read_ok)
qed

lemma ecs_delete_eq:
  assumes ok: "store_ok ti st" and l: "located st e tid row T" and e: "e \<noteq> 0" "\<not> panics st e" "\<not> locked st e"
    and rec: "ei_rec (st_index st) (id_index e) = Some rec" "ECS_RECORD_TO_ROW_FLAGS (er_row rec) = 0"
  shows "ecs_delete on_delete panics locked st e = bindR (flecs_table_delete (st_index st) T row True) (\<lambda>(idx, T', log).
    bindR (flecs_entity_index_remove idx e) (\<lambda>idx. Inr (left_store st tid T' idx, [Actions_Move_Remove tid (st_root st) row, Table_Events tid log])))"
proof -
  have iok: "ei_ok (st_index st)" using ok by (simp add: store_ok_def)
  have T: "st_tables st tid = Some T" using l by (simp add: located_def)
  have "entity_at st e = Some (tid, row)" using entity_at_iff [OF ok] l by blast
  then have r: "e \<in> ei_alive (st_index st)" "er_table rec = Some tid" "ECS_RECORD_TO_ROW (er_row rec) = row"
    using rec(1) by (auto simp: entity_at_def split: if_splits)
  show ?thesis
    by (simp add: ecs_delete_def e try_get_ok [OF iok] r ei_read_ok [OF rec(1)] rec(2) no_flags_no_non_fragmenting [OF rec] delete_cleanup_def delete_from_table_def get_table_def T
        Let_def put_table_def left_store_def bindR_assoc split_def has_flag_def)
qed

text \<open>C2: Deleting an entity that no other entity uses as an id or as a target takes it out of the world and
  touches nothing else: it is not alive afterwards and has no type, its values are destructed or moved over
  (\<open>flecs_table_delete_correct\<close>), every other entity is as alive as before and keeps its type and its values
  although one of them may have been moved to the free row, and the invariants of the store, of the entity
  index and of its ranges hold. Deleting an entity that is not alive does nothing.\<close>

theorem ecs_delete_correct:
  fixes st :: "'v::zero store"
  assumes ok: "store_ok ti st" "ei_inv (st_index st)" and e: "e \<noteq> 0" "\<not> panics st e" "\<not> locked st e"
    and rec: "\<And>rec. ei_rec (st_index st) (id_index e) = Some rec \<Longrightarrow> ECS_RECORD_TO_ROW_FLAGS (er_row rec) = 0"
    and T: "\<And>tid row. entity_at st e = Some (tid, row) \<Longrightarrow> st_tables st tid = Some T" "t_lock T = 0"
    and has: "e \<in> ei_alive (st_index st) \<Longrightarrow> entity_at st e \<noteq> None"
    and hooks: "\<And>i. column_of T i \<noteq> None \<Longrightarrow> needs_dtor (ti i) \<Longrightarrow> \<not> uses_ctor_move_dtor (ti i)"
  shows "returns (ecs_delete on_delete panics locked st e) (\<lambda>(st', log). store_ok ti st' \<and> ei_inv (st_index st') \<and>
    ei_alive (st_index st') = ei_alive (st_index st) - {e} \<and> type_of st' e = None \<and>
    (\<forall>x. x \<noteq> e \<longrightarrow> type_of st' x = type_of st x \<and> comp_of st' x = comp_of st x) \<and> (e \<notin> ei_alive (st_index st) \<longrightarrow> st' = st))"
proof (cases "e \<in> ei_alive (st_index st)")
  case False
  then have "ecs_delete on_delete panics locked st e = Inr (st, [])"
    using ok(2) by (simp add: ecs_delete_def e try_get_ok ei_inv_def)
  moreover have "type_of st e = None" using False by (simp add: type_of_def entity_at_def)
  ultimately show ?thesis using ok False by auto
next
  case al: True
  then obtain tid row where at: "entity_at st e = Some (tid, row)" using has by fastforce
  then obtain T0 where "located st e tid row T0" using entity_at_iff [OF ok(1)] by blast
  with T(1) [OF at] have l: "located st e tid row T" by (simp add: located_def)
  then have t: "st_tables st tid = Some T" "row < t_count T" by (simp_all add: located_def)
  have iok: "ei_ok (st_index st)" using ok by (simp add: ei_inv_def)
  obtain rec where r: "ei_rec (st_index st) (id_index e) = Some rec" using alive_rec [OF iok al] by blast
  note D = store_tableD [OF ok(1) t(1)] and eq = ecs_delete_eq [where panics = panics and locked = locked and on_delete = on_delete, OF ok(1) l e r rec [OF r]]
  have wf: "table_wf T" and live: "table_live T (\<lambda>_ r. r < t_count T)" using D(2) by (simp_all add: table_ok_def)
  have hk: "needs_dtor (col_ti (t_columns T ! i)) \<Longrightarrow> \<not> uses_ctor_move_dtor (col_ti (t_columns T ! i))" if "i < length (t_columns T)" for i
    using hooks [of "cid T i"] D(7) [OF that] column_of_iff [OF D(5), of "cid T i" i] that by auto
  have del: "returns (flecs_table_delete (st_index st) T row True) (\<lambda>(idx, T', log). row_deleted T row T' \<and> idx = moved_index (st_index st) T row)"
    by (rule delete_ok [OF wf T(2) t(2) records_ok_last [OF D(3) t(2) D(9)], where q = "\<lambda>_. True"])
      (use live hk in \<open>auto simp: table_live_def row_ready_def\<close>)
  let ?idx = "moved_index (st_index st) T row"
  note mi = moved_index_ok [OF records_ok_but [OF D(3)] t(2) D(9)]
  have inv: "ei_inv ?idx" "e \<in> ei_alive ?idx" using mi(1,2) ok(2) al by (simp_all add: ei_inv_def moved_index_ranges)
  show ?thesis unfolding eq returns_bindR
  proof (rule returns_mono [OF del])
    fix y :: "entity_index \<times> 'v ecs_table \<times> 'v table_event list"
    assume "case y of (idx, T', log) \<Rightarrow> row_deleted T row T' \<and> idx = ?idx"
    then obtain T' log where y: "y = (?idx, T', log)" and T': "row_deleted T row T'" by (cases y) auto
    have "store_ok ti (left_store st tid T' idx') \<and> type_of (left_store st tid T' idx') e = None \<and>
        (\<forall>x. x \<noteq> e \<longrightarrow> type_of (left_store st tid T' idx') x = type_of st x \<and> comp_of (left_store st tid T' idx') x = comp_of st x)"
      if "ei_inv idx'" "ei_alive idx' = ei_alive ?idx - {e}" "same_places (id_index e) ?idx idx'" for idx'
      using left_store_ok [OF ok(1) l T', of idx'] that mi(2) by (simp add: ei_inv_def)
    then show "returns (case y of (idx, T', log) \<Rightarrow> bindR (flecs_entity_index_remove idx e) (\<lambda>idx. Inr (left_store st tid T' idx,
        [Actions_Move_Remove tid (st_root st) row, Table_Events tid log])))
      (\<lambda>(st', log). store_ok ti st' \<and> ei_inv (st_index st') \<and> ei_alive (st_index st') = ei_alive (st_index st) - {e} \<and> type_of st' e = None \<and>
        (\<forall>x. x \<noteq> e \<longrightarrow> type_of st' x = type_of st x \<and> comp_of st' x = comp_of st x) \<and> (e \<notin> ei_alive (st_index st) \<longrightarrow> st' = st))"
      unfolding y prod.case returns_bindR
      by (intro returns_mono [OF remove_ok_places [OF inv]]) (use al mi(2) in \<open>simp add: left_store_def\<close>)
  qed
qed

lemma ecs_delete_correct_witness:
  "returns (ecs_delete (\<lambda>st _ _ _. Inr st) (\<lambda>_ _. False) (\<lambda>_ _. False) two_tables 400) (\<lambda>(st', log). type_of st' 400 = None \<and>
    type_of st' 401 = Some [20] \<and> comp_of st' 401 20 = Some (Live 6) \<and> ei_alive (st_index st') = {401})"
proof -
  have i: "id_index 400 = 400" "id_index 401 = 401" by (simp_all add: id_index_def)
  have st: "st_index two_tables = two_index" "st_tables two_tables = [3 \<mapsto> narrow_table, 5 \<mapsto> wide_table]" by (simp_all add: two_tables_def)
  have at: "entity_at two_tables 400 = Some (3, 0)" "entity_at two_tables 401 = Some (3, 1)"
    by (simp_all add: entity_at_def st two_index_alive two_index_rec i) (simp_all add: ECS_RECORD_TO_ROW_def ECS_ROW_MASK_def)
  have col: "column_of narrow_table 20 = Some 0" by (simp add: column_of_def cids_def cid_def narrow_table_def two_rows_def)
  have v: "type_of two_tables 401 = Some [20]" "comp_of two_tables 401 20 = Some (Live 6)"
    by (simp_all add: type_of_def comp_of_def at) (simp_all add: st col, simp_all add: narrow_table_def two_rows_def)
  have m: "\<not> uses_ctor_move_dtor counter_type"
    using merge_fields(6) [OF user_fns(1) [OF counter_hooks_ok], of no_hooks]
    by (simp add: uses_ctor_move_dtor_def counter_type_def counter_hooks_def)
  have inv: "ei_inv two_index" using two_tables_ok by (simp add: ei_inv_def store_ok_def st) (simp add: ranges_ok_def ranges_sorted_def two_index_def)
  have "returns (ecs_delete (\<lambda>st _ _ _. Inr st) (\<lambda>_ _. False) (\<lambda>_ _. False) two_tables 400) (\<lambda>(st', log). store_ok (\<lambda>_. counter_type) st' \<and> ei_inv (st_index st') \<and>
    ei_alive (st_index st') = ei_alive (st_index two_tables) - {400} \<and> type_of st' 400 = None \<and>
    (\<forall>x. x \<noteq> 400 \<longrightarrow> type_of st' x = type_of two_tables x \<and> comp_of st' x = comp_of two_tables x) \<and> (400 \<notin> ei_alive (st_index two_tables) \<longrightarrow> st' = two_tables))"
    by (rule ecs_delete_correct [OF two_tables_ok, where T = narrow_table])
      (use inv m at in \<open>auto simp: st two_index_rec i ECS_RECORD_TO_ROW_FLAGS_def narrow_table_def two_rows_def\<close>)
  then show ?thesis by (rule returns_mono) (auto simp: v st two_index_alive)
qed

definition one_new :: "nat store" where
  \<comment> \<open>an entity without a table, and an empty table\<close>
  "one_new = \<lparr>st_index = \<lparr>ei_dense = [0, 400], ei_pages = [Some (\<lambda>i. \<lparr>er_table = None, er_row = 0, er_dense = (if i = 400 then 1 else 0)\<rparr>)],
      ei_range_store = [], ei_ranges = [], ei_active_range = None, ei_alive_count = 2, ei_max_id = 400\<rparr>,
    st_tables = [5 \<mapsto> wide_table], st_root = 0\<rparr>"

lemma one_new_ok: "store_ok (\<lambda>_. counter_type) one_new" "ei_alive (st_index one_new) = {400}" "\<not> in_table (st_index one_new) n x"
proof -
  let ?idx = "st_index one_new"
  have rec: "ei_rec ?idx k = (if unat k < 1024 then Some \<lparr>er_table = None, er_row = 0, er_dense = (if k = 400 then 1 else 0)\<rparr> else None)" for k
  proof -
    have "unat k div 1024 = 0 \<longleftrightarrow> unat k < 1024" by auto
    moreover have "k = 400 \<longleftrightarrow> unat k = 400" by (simp add: word_unat_eq_iff)
    ultimately show ?thesis by (auto simp: ei_rec_def one_new_def page_index_div page_offset_mod)
  qed
  have look: "ei_look ?idx k = (if k = 400 then 1 else 0)" for k by (auto simp: ei_look_def rec)
  have i: "id_index 400 = 400" by (simp add: id_index_def)
  have "paired (ei_look ?idx) (ei_dense ?idx)" unfolding paired_def look by (auto simp: one_new_def i less_Suc_eq numeral_2_eq_2)
  then have ok: "ei_ok ?idx" by (auto simp: ei_ok_def rec) (auto simp: one_new_def)
  show al: "ei_alive ?idx = {400}" by (simp add: ei_alive_def alive_ids_def one_new_def)
  show it: "\<not> in_table ?idx n x" for n x by (auto simp: in_table_def rec)
  have "store_table_ok (\<lambda>_. counter_type) two_index 5 wide_table" using two_tables_ok by (simp add: store_ok_def two_tables_def)
  moreover have "records_ok ?idx wide_table" using ok by (simp add: records_ok_def t_ents_def wide_table_def)
  ultimately have "store_table_ok (\<lambda>_. counter_type) ?idx 5 wide_table" by (simp add: store_table_ok_def)
  then show "store_ok (\<lambda>_. counter_type) one_new" using ok it by (simp add: store_ok_def) (simp add: one_new_def)
qed

lemma flecs_new_entity_correct_witness:
  "returns (flecs_new_entity one_new 400 (id_index 400) 5 True) (\<lambda>(st', log). type_of st' 400 = Some [20, 21] \<and> comp_of st' 400 21 \<notin> {None, Some Raw})"
proof -
  have cols: "column_of wide_table 21 = Some 1" by (simp add: column_of_def cids_def cid_def wide_table_def upt_rec)
  have w: "st_tables one_new 5 = Some wide_table" "t_lock wide_table = 0" "t_count wide_table < 2 ^ 28" "t_type wide_table = [20, 21]"
    by (simp_all add: one_new_def wide_table_def)
  have "typed counter_type" using counter_type_ok(1,2) ti_ok_plain(3) by auto
  then show ?thesis
    by (intro returns_mono [OF flecs_new_entity_correct [OF one_new_ok(1) _ one_new_ok(3) w(1-3)]]) (use one_new_ok(2) cols w in auto)
qed

end
